(* ===== verification/Prelude.thy ===== *)
theory Prelude
  imports Main "HOL-Library.Word"
begin

text \<open>
  Shared ground of the development: the C integer types of \<^verbatim>\<open>include/osdef.hpp\<close> as
  words, the alignment macros, the outcome of a kernel operation (it returns, it ends in
  \<^verbatim>\<open>halt()\<close> after a panic, or it spins for ever), the counted C loop, byte-addressed
  memory with little-endian 8-, 32- and 64-bit accesses, and address regions with the frame
  lemmas every component proof uses.
\<close>

unbundle bit_operations_syntax

named_theorems outcome_simps \<open>unfolding of outcomes and of their sequencing\<close>
named_theorems mem_simps \<open>reads over writes\<close>
named_theorems region_intros \<open>inclusion and disjointness of address regions\<close>

section \<open>Definitions\<close>

subsection \<open>C integer types and the macros of osdef.hpp\<close>

type_synonym u8 = "8 word"
type_synonym u16 = "16 word"
type_synonym u32 = "32 word"
type_synonym u64 = "64 word"

abbreviation (input) NULL :: u64 where "NULL \<equiv> 0"

definition ALIGN :: "u64 \<Rightarrow> u64 \<Rightarrow> u64" where
  "ALIGN num align = num AND NOT (align - 1)"

definition ALIGN_UP :: "u64 \<Rightarrow> u64 \<Rightarrow> u64" where
  "ALIGN_UP num align = (num + (align - 1)) AND NOT (align - 1)"

definition PAGE_SIZE :: u64 where "PAGE_SIZE = 4096"

subsection \<open>Outcomes\<close>

text \<open>
  \<open>Ret a s\<close>: the C function returned \<open>a\<close> with the machine in state \<open>s\<close>.
  \<open>Halt s\<close>: it called \<^verbatim>\<open>panic\<close>, whose last statement \<^verbatim>\<open>halt()\<close> never
  returns. \<open>Spin s\<close>: it is in a loop that never ends (a lock nobody will release).
\<close>

datatype ('a, 's) outcome = Ret 'a 's | Halt 's | Spin 's

fun andThen :: "('a, 's) outcome \<Rightarrow> ('a \<Rightarrow> 's \<Rightarrow> ('b, 's) outcome) \<Rightarrow> ('b, 's) outcome" where
  "andThen (Ret a s) f = f a s"
| "andThen (Halt s) f = Halt s"
| "andThen (Spin s) f = Spin s"

subsection \<open>Counted loops\<close>

lemma unat_lt_u64 [simp]: "unat (a :: u64) < 18446744073709551616"
  using unsigned_less [of a] by simp

lemma unat_Suc_u64: "i < (hi :: u64) \<Longrightarrow> unat (i + 1) = Suc (unat i)"
  using unat_lt_u64 [of hi] by (simp add: unat_word_ariths word_less_nat_alt del: unat_lt_u64)

text \<open>
  \<^verbatim>\<open>for (uint64_t i = lo; i < hi; i++) body\<close> on a 64-bit counter, without and with a body
  that may halt or spin.
\<close>

function for_loop :: "u64 \<Rightarrow> u64 \<Rightarrow> (u64 \<Rightarrow> 's \<Rightarrow> 's) \<Rightarrow> 's \<Rightarrow> 's" where
  "for_loop i hi body s = (if i < hi then for_loop (i + 1) hi body (body i s) else s)"
  by pat_completeness auto
termination
proof (relation "measure (\<lambda>(i, hi, _, _). unat hi - unat i)")
  fix i hi :: u64 and body :: "u64 \<Rightarrow> 's \<Rightarrow> 's" and s
  assume lt: "i < hi"
  then have "unat (i + 1) = Suc (unat i)" by (rule unat_Suc_u64)
  with lt show "((i + 1, hi, body, body i s), i, hi, body, s)
      \<in> measure (\<lambda>(i, hi, _, _). unat hi - unat i)"
    by (simp add: word_less_nat_alt)
qed simp

function for_out :: "u64 \<Rightarrow> u64 \<Rightarrow> (u64 \<Rightarrow> 's \<Rightarrow> (unit, 's) outcome) \<Rightarrow> 's \<Rightarrow> (unit, 's) outcome"
  where
  "for_out i hi body s =
     (if i < hi then andThen (body i s) (\<lambda>_ s. for_out (i + 1) hi body s) else Ret () s)"
  by pat_completeness auto
termination
proof (relation "measure (\<lambda>(i, hi, _, _). unat hi - unat i)")
  fix i hi :: u64 and body :: "u64 \<Rightarrow> 's \<Rightarrow> (unit, 's) outcome" and s s' and u :: unit
  assume lt: "i < hi"
  then have "unat (i + 1) = Suc (unat i)" by (rule unat_Suc_u64)
  with lt show "((i + 1, hi, body, s'), i, hi, body, s)
      \<in> measure (\<lambda>(i, hi, _, _). unat hi - unat i)"
    by (simp add: word_less_nat_alt)
qed simp

subsection \<open>Byte-addressed memory\<close>

type_synonym memory = "u64 \<Rightarrow> u8"

definition byte_at :: "'a::len word \<Rightarrow> nat \<Rightarrow> u8" where
  "byte_at v i = ucast (drop_bit (8 * i) v)"

primrec load :: "memory \<Rightarrow> u64 \<Rightarrow> nat \<Rightarrow> 'a::len word" where
  "load m a 0 = 0"
| "load m a (Suc n) = load m a n OR push_bit (8 * n) (ucast (m (a + of_nat n)))"

definition store :: "memory \<Rightarrow> u64 \<Rightarrow> nat \<Rightarrow> 'a::len word \<Rightarrow> memory" where
  "store m a n v = (\<lambda>x. if unat (x - a) < n then byte_at v (unat (x - a)) else m x)"

definition read32 :: "memory \<Rightarrow> u64 \<Rightarrow> u32" where "read32 m a = load m a 4"
definition read64 :: "memory \<Rightarrow> u64 \<Rightarrow> u64" where "read64 m a = load m a 8"
definition write32 :: "memory \<Rightarrow> u64 \<Rightarrow> u32 \<Rightarrow> memory" where "write32 m a v = store m a 4 v"
definition write64 :: "memory \<Rightarrow> u64 \<Rightarrow> u64 \<Rightarrow> memory" where "write64 m a v = store m a 8 v"

text \<open>The bytes of an object of \<open>n\<close> bytes at address \<open>a\<close>.\<close>

definition region :: "u64 \<Rightarrow> nat \<Rightarrow> u64 set" where
  "region a n = {x. unat (x - a) < n}"

section \<open>Lemmas\<close>

subsection \<open>Outcomes\<close>

declare andThen.simps [outcome_simps]

lemma andThen_assoc [outcome_simps]:
  "andThen (andThen m f) g = andThen m (\<lambda>a s. andThen (f a s) g)"
  by (cases m) simp_all

lemma andThen_RetE:
  assumes "andThen m f = Ret b s'"
  obtains a t where "m = Ret a t" and "f a t = Ret b s'"
  using assms by (cases m) auto

subsection \<open>Words\<close>

lemma unat_add_of_nat:
  "unat a + n < 2 ^ 64 \<Longrightarrow> unat (a + of_nat n :: u64) = unat a + n"
  by (simp add: unat_word_ariths unat_of_nat)

lemma unat_of_nat_u64: "n < 2 ^ 64 \<Longrightarrow> unat (of_nat n :: u64) = n"
  by (simp add: unat_of_nat)

lemma of_nat_u64_eq_iff:
  "m < 2 ^ 64 \<Longrightarrow> n < 2 ^ 64 \<Longrightarrow> (of_nat m = (of_nat n :: u64)) = (m = n)"
  by (metis unat_of_nat_u64)

lemma unat_eq_of_nat_u64: "unat (a :: u64) = n \<Longrightarrow> a = of_nat n"
  by auto

lemma unat_power_lt: "k < 64 \<Longrightarrow> unat (2 ^ k :: u64) = 2 ^ k"
proof -
  assume "k < 64"
  then have "(2::nat) ^ k < 2 ^ 64" by (intro power_strict_increasing) simp_all
  then show ?thesis using unat_of_nat_u64 [of "2 ^ k"] by simp
qed

subsection \<open>Alignment\<close>

lemma and_not_mask_eq: "x AND NOT (mask k) = push_bit k (drop_bit k (x :: u64))"
  by (rule bit_word_eqI) (auto simp: bit_simps)

lemma ALIGN_UP_eq: "ALIGN_UP x (2 ^ k) = push_bit k (drop_bit k (x + (2 ^ k - 1)))"
  by (simp add: ALIGN_UP_def and_not_mask_eq mask_eq_decr_exp [symmetric])

lemma unat_ALIGN_UP:
  assumes "k < 64" and "unat x + 2 ^ k - 1 < 2 ^ 64"
  shows "unat (ALIGN_UP x (2 ^ k)) = (unat x + 2 ^ k - 1) div 2 ^ k * 2 ^ k"
proof -
  have "unat (2 ^ k - 1 :: u64) = 2 ^ k - 1"
    using assms(1)
    by (simp add: unat_sub_if' unat_power_lt)
  then have s: "unat (x + (2 ^ k - 1)) = unat x + 2 ^ k - 1"
    using assms(2) by (simp add: unat_word_ariths)
  have "unat x + 2 ^ k - 1 < 2 ^ 64" by (fact assms)
  then have "(unat x + 2 ^ k - 1) div 2 ^ k * 2 ^ k < 2 ^ 64"
    by (meson div_times_less_eq_dividend le_less_trans)
  then show ?thesis
    using assms(1) s
    by (simp add: ALIGN_UP_eq push_bit_eq_mult drop_bit_eq_div unat_word_ariths(2) unat_div
        unat_power_lt)
qed

subsection \<open>Counted loops\<close>

declare for_loop.simps [simp del] and for_out.simps [simp del]

lemma for_loop_done [simp]: "\<not> i < hi \<Longrightarrow> for_loop i hi body s = s"
  by (simp add: for_loop.simps)

lemma for_loop_step: "i < hi \<Longrightarrow> for_loop i hi body s = for_loop (i + 1) hi body (body i s)"
  by (simp add: for_loop.simps)

lemma for_loop_eq_fold:
  "for_loop i hi body s = fold (\<lambda>k. body (of_nat k)) [unat i..<unat hi] s"
proof (induction i hi body s rule: for_loop.induct)
  case (1 i hi body s)
  show ?case
  proof (cases "i < hi")
    case True
    then have "[unat i..<unat hi] = unat i # [unat (i + 1)..<unat hi]"
      by (simp add: unat_Suc_u64 upt_conv_Cons word_less_nat_alt)
    with True 1 show ?thesis by (simp add: for_loop_step)
  next
    case False
    then show ?thesis by (simp add: word_less_nat_alt)
  qed
qed

text \<open>The Hoare rule of the counted loop: an invariant indexed by the counter.\<close>

lemma for_loop_invariant:
  assumes "I (unat lo) s" and "lo \<le> hi"
    and "\<And>k t. unat lo \<le> k \<Longrightarrow> k < unat hi \<Longrightarrow> I k t \<Longrightarrow> I (Suc k) (body (of_nat k) t)"
  shows "I (unat hi) (for_loop lo hi body s)"
  using assms
proof (induction lo hi body s rule: for_loop.induct)
  case (1 i hi body s)
  show ?case
  proof (cases "i < hi")
    case True
    have suc: "unat (i + 1) = Suc (unat i)" using True by (rule unat_Suc_u64)
    have "I (unat (i + 1)) (body i s)"
      using "1.prems"(1) "1.prems"(3) [of "unat i" s] True by (simp add: suc word_less_nat_alt)
    moreover have "i + 1 \<le> hi" using True suc by (simp add: word_le_nat_alt word_less_nat_alt)
    ultimately have "I (unat hi) (for_loop (i + 1) hi body (body i s))"
      using True "1.IH" "1.prems"(3) by (simp add: suc)
    with True show ?thesis by (simp add: for_loop_step)
  next
    case False
    with "1.prems" show ?thesis by simp
  qed
qed

lemma for_out_done [simp]: "\<not> i < hi \<Longrightarrow> for_out i hi body s = Ret () s"
  by (simp add: for_out.simps)

lemma for_out_step:
  "i < hi \<Longrightarrow>
   for_out i hi body s = andThen (body i s) (\<lambda>_ s. for_out (i + 1) hi body s)"
  by (subst for_out.simps) simp

text \<open>Total correctness of the counted loop: every iteration returns, so the loop returns.\<close>

lemma for_out_invariant:
  assumes "I (unat lo) s" and "lo \<le> hi"
    and "\<And>k t. unat lo \<le> k \<Longrightarrow> k < unat hi \<Longrightarrow> I k t \<Longrightarrow>
           \<exists>t'. body (of_nat k) t = Ret () t' \<and> I (Suc k) t'"
  shows "\<exists>s'. for_out lo hi body s = Ret () s' \<and> I (unat hi) s'"
  using assms
proof (induction "unat hi - unat lo" arbitrary: lo s)
  case 0
  then have "lo = hi" by (intro order.antisym) (simp_all add: word_le_nat_alt)
  with 0 show ?case by simp
next
  case (Suc n)
  then have lt: "lo < hi" by (simp add: word_less_nat_alt)
  have suc: "unat (lo + 1) = Suc (unat lo)" using lt by (rule unat_Suc_u64)
  obtain t' where t': "body lo s = Ret () t'" "I (Suc (unat lo)) t'"
    using Suc.prems(1) Suc.prems(3) [of "unat lo" s] lt by (auto simp: word_less_nat_alt)
  have "\<exists>s'. for_out (lo + 1) hi body t' = Ret () s' \<and> I (unat hi) s'"
    using Suc.hyps(2) lt t'(2) Suc.prems(3) suc
    by (intro Suc.hyps(1)) (simp_all add: word_le_nat_alt word_less_nat_alt)
  with t' lt show ?case by (simp add: for_out_step)
qed

subsection \<open>Regions\<close>

lemma region_self [simp, region_intros]: "0 < n \<Longrightarrow> a \<in> region a n"
  by (simp add: region_def)

lemma in_region_off_iff:
  "k < 2 ^ 64 \<Longrightarrow> a + of_nat k \<in> region a n \<longleftrightarrow> k < n"
  by (simp add: region_def unat_of_nat_u64)

lemma region_off_mem: "k < n \<Longrightarrow> n \<le> 2 ^ 64 \<Longrightarrow> a + of_nat k \<in> region a n"
  by (simp add: in_region_off_iff)

lemma region_eq_image: "n \<le> 2 ^ 64 \<Longrightarrow> region a n = (\<lambda>k. a + of_nat k) ` {..<n}"
proof (intro equalityI subsetI)
  fix x assume "x \<in> region a n"
  then have "unat (x - a) < n" by (simp add: region_def)
  moreover have "x = a + of_nat (unat (x - a))" by simp
  ultimately show "x \<in> (\<lambda>k. a + of_nat k) ` {..<n}" by blast
next
  fix x assume "n \<le> 2 ^ 64" and "x \<in> (\<lambda>k. a + of_nat k) ` {..<n}"
  then show "x \<in> region a n" by (auto simp: in_region_off_iff)
qed

lemma region_off_subset [region_intros]:
  assumes "i + k \<le> n" and "n \<le> 2 ^ 64"
  shows "region (a + of_nat i) k \<subseteq> region a n"
proof -
  have "region (a + of_nat i) k = (\<lambda>j. a + of_nat (i + j)) ` {..<k}"
    using assms by (subst region_eq_image) (auto simp: add.assoc)
  also have "\<dots> \<subseteq> (\<lambda>j. a + of_nat j) ` {..<n}"
  proof
    fix x assume "x \<in> (\<lambda>j. a + of_nat (i + j)) ` {..<k}"
    then obtain j where "j < k" and "x = a + of_nat (i + j)" by blast
    with assms(1) show "x \<in> (\<lambda>j. a + of_nat j) ` {..<n}"
      by (intro image_eqI [where x = "i + j"]) auto
  qed
  finally show ?thesis using assms(2) by (simp add: region_eq_image)
qed

lemma region_off_disjoint [region_intros]:
  assumes "i + k \<le> j \<or> j + l \<le> i" and "i + k \<le> 2 ^ 64" and "j + l \<le> 2 ^ 64"
  shows "region (a + of_nat i) k \<inter> region (a + of_nat j) l = {}"
proof -
  have "region (a + of_nat i) k = (\<lambda>x. a + of_nat x) ` {i..<i + k}"
    if "i + k \<le> 2 ^ 64" for i k
  proof -
    have "region (a + of_nat i) k = (\<lambda>x. a + of_nat (i + x)) ` {..<k}"
      using that by (subst region_eq_image) (auto simp: add.assoc)
    also have "\<dots> = (\<lambda>x. a + of_nat x) ` ((+) i ` {..<k})" by (simp add: image_image)
    also have "(+) i ` {..<k} = {i..<i + k}"
      by (simp add: lessThan_atLeast0 add.commute)
    finally show ?thesis .
  qed
  then have "region (a + of_nat i) k = (\<lambda>x. a + of_nat x) ` {i..<i + k}"
    and "region (a + of_nat j) l = (\<lambda>x. a + of_nat x) ` {j..<j + l}"
    using assms by simp_all
  moreover have "x \<noteq> y \<Longrightarrow> x < 2 ^ 64 \<Longrightarrow> y < 2 ^ 64 \<Longrightarrow> a + of_nat x \<noteq> a + (of_nat y :: u64)" for x y
    by (simp add: of_nat_u64_eq_iff)
  ultimately show ?thesis using assms by fastforce
qed

lemmas region_off0_subset = region_off_subset [of 0, simplified]
lemmas region_base_disjoint = region_off_disjoint [of 0, simplified]

lemma region_disjoint_mono:
  "region a n \<inter> region b l = {} \<Longrightarrow> A \<subseteq> region a n \<Longrightarrow> B \<subseteq> region b l \<Longrightarrow> A \<inter> B = {}"
  by blast

subsection \<open>Memory\<close>

lemma bit_load:
  "bit (load m a n :: 'a::len word) k \<longleftrightarrow>
     k < LENGTH('a) \<and> k < 8 * n \<and> bit (m (a + of_nat (k div 8))) (k mod 8)"
proof (induction n)
  case (Suc n)
  show ?case
  proof (cases "k < 8 * n")
    case True
    then show ?thesis by (auto simp: Suc bit_simps)
  next
    case False
    show ?thesis
    proof (cases "k < 8 * Suc n")
      case True
      with False have "k div 8 = n" by auto
      then have "k mod 8 = k - 8 * n" by (simp add: modulo_nat_def mult.commute)
      with False True \<open>k div 8 = n\<close> show ?thesis by (auto simp: Suc bit_simps)
    next
      case False
      then have "\<not> bit (m (a + of_nat n)) (k - 8 * n)"
        using bit_imp_le_length [of "m (a + of_nat n)" "k - 8 * n"] by auto
      with False show ?thesis by (auto simp: Suc bit_simps)
    qed
  qed
qed simp

lemma bit_byte_at: "bit (byte_at v i) k \<longleftrightarrow> k < 8 \<and> bit v (8 * i + k)"
  by (auto simp: byte_at_def bit_simps add.commute)

lemma store_outside: "x \<notin> region a n \<Longrightarrow> store m a n v x = m x"
  by (simp add: store_def region_def)

lemma load_cong:
  "(\<And>x. x \<in> region a n \<Longrightarrow> m x = m' x) \<Longrightarrow> n \<le> 2 ^ 64 \<Longrightarrow>
   (load m a n :: 'a::len word) = load m' a n"
proof (induction n)
  case (Suc n)
  have "m (a + of_nat n) = m' (a + of_nat n)"
    using Suc.prems by (intro Suc.prems(1) region_off_mem) simp_all
  moreover have "(load m a n :: 'a word) = load m' a n"
  proof (rule Suc.IH)
    show "n \<le> 2 ^ 64" using Suc.prems(2) by simp
  next
    fix x assume "x \<in> region a n"
    then show "m x = m' x" by (intro Suc.prems(1)) (simp add: region_def)
  qed
  ultimately show ?case by simp
qed simp

lemma load_store_same:
  assumes "8 * n = LENGTH('a)" and "n \<le> 2 ^ 64"
  shows "load (store m a n v) a n = (v :: 'a::len word)"
proof (rule bit_word_eqI)
  fix k assume k: "k < LENGTH('a)"
  have "k div 8 < n" using k assms(1) by linarith
  moreover from this have "k div 8 < 2 ^ 64" using assms(2) by linarith
  ultimately show "bit (load (store m a n v) a n :: 'a word) k \<longleftrightarrow> bit v k"
    using k assms(1) by (simp add: bit_load store_def unat_of_nat_u64 bit_byte_at)
qed

lemma load_store_disjoint:
  "region a n \<inter> region b l = {} \<Longrightarrow> l \<le> 2 ^ 64 \<Longrightarrow> load (store m a n v) b l = load m b l"
  by (rule load_cong) (metis store_outside disjoint_iff)

lemma read64_write64 [mem_simps]: "read64 (write64 m a v) a = v"
  by (simp add: read64_def write64_def load_store_same)

lemma read32_write32 [mem_simps]: "read32 (write32 m a v) a = v"
  by (simp add: read32_def write32_def load_store_same)

lemma write64_outside: "x \<notin> region a 8 \<Longrightarrow> write64 m a v x = m x"
  by (simp add: write64_def store_outside)

lemma write32_outside: "x \<notin> region a 4 \<Longrightarrow> write32 m a v x = m x"
  by (simp add: write32_def store_outside)

lemma read64_cong: "(\<And>x. x \<in> region a 8 \<Longrightarrow> m x = m' x) \<Longrightarrow> read64 m a = read64 m' a"
  unfolding read64_def by (rule load_cong) simp_all

lemma read32_cong: "(\<And>x. x \<in> region a 4 \<Longrightarrow> m x = m' x) \<Longrightarrow> read32 m a = read32 m' a"
  unfolding read32_def by (rule load_cong) simp_all

lemma read64_write64_disjoint:
  "region b 8 \<inter> region a 8 = {} \<Longrightarrow> read64 (write64 m b v) a = read64 m a"
  by (rule read64_cong) (metis write64_outside disjoint_iff)

lemma read64_write32_disjoint:
  "region b 4 \<inter> region a 8 = {} \<Longrightarrow> read64 (write32 m b v) a = read64 m a"
  by (rule read64_cong) (metis write32_outside disjoint_iff)

lemma read32_write64_disjoint:
  "region b 8 \<inter> region a 4 = {} \<Longrightarrow> read32 (write64 m b v) a = read32 m a"
  by (rule read32_cong) (metis write64_outside disjoint_iff)

lemma read32_write32_disjoint:
  "region b 4 \<inter> region a 4 = {} \<Longrightarrow> read32 (write32 m b v) a = read32 m a"
  by (rule read32_cong) (metis write32_outside disjoint_iff)

lemmas rw_disjoint = read64_write64_disjoint read64_write32_disjoint
  read32_write64_disjoint read32_write32_disjoint

end
