(* ===== verification/Machine.thy ===== *)
theory Machine
  imports Prelude
begin

text \<open>
  The state of the kernel: the memory and the CPU registers it uses, and one field per
  file-scope variable of the C sources. A C object whose address is handed to code that works
  on any object of its type (slab caches, spinlocks, page tables, the frame bitmap) lives in
  \<open>mem\<close>, and a field holds its address; a variable that the code reaches by name only is a
  field of its own. Fields that hold link-time addresses, and \<open>arch\<close>, which the
  \<^verbatim>\<open>ARCH_SPEC_*\<close> macros select when the kernel is built, are written by no operation.
\<close>

section \<open>Definitions\<close>

datatype arch = ARM64 | RISCV

text \<open>\<^verbatim>\<open>hashtable_t\<close> (include/libkern/hash.hpp); \<open>buckets\<close> is the address of the bucket array.\<close>

record hashtable =
  buckets :: u64
  nbuckets :: u64
  count :: u32
  node_cache :: u64

text \<open>
  \<^verbatim>\<open>object_type_ops_t\<close>, \<^verbatim>\<open>object_type_t\<close>, \<^verbatim>\<open>object_manager_t\<close> (include/ob/ob.hpp).
  A function pointer is its address, 0 for a null pointer.
\<close>

record object_type_ops =
  op_create :: u64
  op_destroy :: u64
  op_read :: u64
  op_write :: u64
  op_wait :: u64
  op_ioop :: u64
  op_on_revoke :: u64

record object_type =
  ot_name :: string
  instance_size :: u64
  ot_ops :: object_type_ops
  ot_slab :: u64
  default_rights :: u32

record object_manager =
  om_types :: "object_type list"
  type_count :: u32
  id_table :: hashtable
  next_object_id :: u32
  table_lock :: u64

text \<open>\<^verbatim>\<open>boot_info_t\<close> (include/osdef.hpp).\<close>

record boot_info =
  early_heap_start :: u64
  early_heap_end :: u64
  kernel_image_start :: u64
  kernel_image_end :: u64
  kernel_readonly_end :: u64
  machine_ram_base :: u64
  machine_ram_total :: u64

text \<open>
  The system registers the sources read and write: the control and status registers of RISC-V,
  the system registers of ARM64. A register keeps what was written to it.
\<close>

datatype sysreg =
    SATP | STVEC | SSTATUS | SIE | SIP | SCAUSE | SEPC | STVAL | STIMECMP | TIME
  | CurrentEL | DAIF | VBAR_EL1 | VBAR_EL2 | ESR_EL1 | ELR_EL1 | ESR_EL2 | ELR_EL2
  | CNTFRQ_EL0 | CNTP_TVAL_EL0 | CNTP_CTL_EL0

text \<open>
  What the kernel does beyond memory and registers: reads (with the value read) and writes of
  device registers, calls of the RISC-V firmware (extension, function, arguments) and
  invalidations of a translation.
\<close>

datatype io_event =
    IoRead u64 u32 | IoWrite u64 u32 | IoRead64 u64 u64 | IoWrite64 u64 u64
  | SbiCall u64 u64 "u64 list" | Tlbi u64

record kstate =
  arch :: arch
  mem :: memory
  sreg :: "sysreg \<Rightarrow> u64"
  io_hist :: "io_event list" \<comment> \<open>newest first\<close>
  uart_out :: string \<comment> \<open>the characters written to the UART data register, oldest first\<close>
  reg_tp :: u64 \<comment> \<open>RISC-V thread pointer: the address of the hart's \<^verbatim>\<open>riscv_hart_info_t\<close>\<close>
  regframe :: "u64 list" \<comment> \<open>the 32 registers \<^verbatim>\<open>dump_registers\<close> leaves for \<^verbatim>\<open>panic\<close>\<close>
  \<comment> \<open>base/mm/bootalloc.c\<close>
  boot_heap_ptr :: u64
  boot_heap_end :: u64
  \<comment> \<open>base/mm/physframe.c\<close>
  frame_bitmap :: u64
  total_frames :: u64
  free_frames :: u64
  mem_phys_base :: u64
  last_free_index :: u64
  \<comment> \<open>base/mm/slab.c\<close>
  cache_metadata_cache :: u64
  cache_meta_initialized :: bool
  \<comment> \<open>base/mm/kheap.c\<close>
  kmalloc_caches :: "u64 list"
  kheap_initialized :: bool
  \<comment> \<open>base/ob/ob.c\<close>
  g_om :: object_manager
  g_test_destroyed :: bool
  \<comment> \<open>arch/riscv/paging.c\<close>
  kernel_page_table :: u64
  \<comment> \<open>arch/arm64/paging.c\<close>
  g_asid_used :: "bool list"
  g_asid_lock :: u64
  \<comment> \<open>platform/virt/gic.c\<close>
  gic_handlers :: u64
  gicc_iar :: u32
  \<comment> \<open>arch/arm64/timer.c and arch/riscv/timer.c\<close>
  global_ticks :: u64
  \<comment> \<open>arch/riscv/bootstrap.c\<close>
  bootstrap_cpu :: u64
  boot_hart_info :: u64
  boot_spinlock :: u64

text \<open>
  A machine before any C code has run: the zeroed \<^verbatim>\<open>.bss\<close>, memory \<open>m\<close>, and the static
  slab cache and the object table's lock at addresses the linker chose. The addresses of the
  other static objects are 0 here; a state that needs them sets them.
\<close>

definition reset_state :: "arch \<Rightarrow> memory \<Rightarrow> u64 \<Rightarrow> u64 \<Rightarrow> kstate" where
  "reset_state A m meta lock =
     \<lparr>arch = A, mem = m, sreg = (\<lambda>_. 0), io_hist = [], uart_out = [], reg_tp = 0, regframe = replicate 32 0,
      boot_heap_ptr = NULL, boot_heap_end = NULL,
      frame_bitmap = NULL, total_frames = 0, free_frames = 0, mem_phys_base = 0,
      last_free_index = 0,
      cache_metadata_cache = meta, cache_meta_initialized = False,
      kmalloc_caches = replicate 8 NULL, kheap_initialized = False,
      g_om = \<lparr>om_types = replicate 64 \<lparr>ot_name = [], instance_size = 0,
                ot_ops = \<lparr>op_create = 0, op_destroy = 0, op_read = 0, op_write = 0, op_wait = 0,
                          op_ioop = 0, op_on_revoke = 0\<rparr>,
                ot_slab = NULL, default_rights = 0\<rparr>,
              type_count = 0,
              id_table = \<lparr>buckets = NULL, nbuckets = 0, count = 0, node_cache = NULL\<rparr>,
              next_object_id = 0, table_lock = lock\<rparr>,
      g_test_destroyed = False,
      kernel_page_table = 0, g_asid_used = replicate 256 False, g_asid_lock = 0,
      gic_handlers = 0, gicc_iar = 0, global_ticks = 0,
      bootstrap_cpu = -1, boot_hart_info = 0, boot_spinlock = 0\<rparr>"

section \<open>Lemmas\<close>

text \<open>The fields an update leaves alone are found by the simplifier; this splits a state.\<close>

lemma mem_update_id [simp]: "s\<lparr>mem := mem s\<rparr> = s"
  by simp

end
