(* ===== verification/Klog.thy ===== *)
theory Klog
  imports Machine
begin

text \<open>
  \<^verbatim>\<open>libkern/klog.c\<close> and the UART drivers it prints through (\<^verbatim>\<open>platform/virt/uart.c\<close>,
  \<^verbatim>\<open>platform/virt_rv/uart.c\<close>): number printing, the format interpreter, the log
  functions and \<^verbatim>\<open>panic\<close>. A pure function gives the characters a call writes to the
  UART; the state functions append them to \<open>uart_out\<close>.
\<close>

section \<open>Definitions\<close>

subsection \<open>UART\<close>

text \<open>
  A C string is the list of the characters from its address on; the string ends at the first
  NUL, or at the end of the list for a literal, whose NUL is then implicit.
\<close>

abbreviation NUL :: char where "NUL \<equiv> CHR 0x00"

definition uart_putc :: "char \<Rightarrow> kstate \<Rightarrow> kstate" where
  "uart_putc c s = s\<lparr>uart_out := uart_out s @ [c]\<rparr>"

fun puts_chars :: "string \<Rightarrow> string" where
  "puts_chars [] = []"
| "puts_chars (c # str) =
     (if c = NUL then []
      else (if c = CHR 0x0A then [CHR 0x0D] else []) @ [c] @ puts_chars str)"

definition uart_puts :: "string \<Rightarrow> kstate \<Rightarrow> kstate" where
  "uart_puts str s = s\<lparr>uart_out := uart_out s @ puts_chars str\<rparr>"

subsection \<open>Numbers\<close>

definition digit_char :: "char \<Rightarrow> u64 \<Rightarrow> char" where
  "digit_char a digit =
     (if digit < 10 then char_of (unat (48 + digit)) else char_of (of_char a + unat (digit - 10)))"

text \<open>
  The loop that fills \<^verbatim>\<open>buf\<close>, lowest digit first. The callers pass base 10 or 16; the
  test on the base keeps the recursion total for the bases 0 and 1, which nobody passes.
\<close>

function digit_loop :: "char \<Rightarrow> u64 \<Rightarrow> u64 \<Rightarrow> string" where
  "digit_loop a base value =
     (if value = 0 \<or> base \<le> 1 then []
      else digit_char a (value mod base) # digit_loop a base (value div base))"
  by pat_completeness auto
termination
proof (relation "measure (\<lambda>(_, _, value). unat value)")
  fix a :: char and base v :: u64
  assume "\<not> (v = 0 \<or> base \<le> 1)"
  then have "0 < unat v" and "1 < unat base"
    by (simp_all add: unat_gt_0 word_le_nat_alt not_le)
  then have "unat (v div base) < unat v" by (simp add: unat_div)
  then show "((a, base, v div base), a, base, v) \<in> measure (\<lambda>(_, _, value). unat value)"
    by simp
qed simp

definition put_unsigned :: "u64 \<Rightarrow> u64 \<Rightarrow> string" where
  "put_unsigned value base =
     (if value = 0 then ''0'' else rev (digit_loop (CHR ''a'') base value))"

definition put_signed :: "u32 \<Rightarrow> string" where
  "put_signed value =
     (if sint value < 0
      then ''-'' @ put_unsigned (word_of_int (- (sint value + 1)) + 1) 10
      else put_unsigned (word_of_int (sint value)) 10)"

definition put_upper_hex :: "u64 \<Rightarrow> string" where
  "put_upper_hex value =
     (if value = 0 then ''0'' else rev (digit_loop (CHR ''A'') 16 value))"

subsection \<open>The format interpreter\<close>

text \<open>
  A variadic argument is the 64-bit slot it is passed in, or a string (\<open>None\<close> for a null
  pointer). Reading an argument that was not passed is undefined in C; it reads 0 here.
\<close>

datatype vararg = VNum u64 | VStr "string option"

fun va_num :: "vararg list \<Rightarrow> u64" where
  "va_num (VNum n # args) = n"
| "va_num args = 0"

fun va_str :: "vararg list \<Rightarrow> string option" where
  "va_str (VStr str # args) = str"
| "va_str args = None"

definition va_int :: "vararg list \<Rightarrow> u32" where
  "va_int args = ucast (va_num args)"

text \<open>
  The body of the \<^verbatim>\<open>switch\<close> after a \<^verbatim>\<open>%\<close>: what it prints, the format
  after the final \<^verbatim>\<open>format++\<close>, and the arguments that are left. A \<^verbatim>\<open>%\<close> that ends
  the string makes the default case print the NUL and step over it: the format continues with
  whatever follows the string in memory.
\<close>

definition klog_directive :: "string \<Rightarrow> vararg list \<Rightarrow> string \<times> string \<times> vararg list" where
  "klog_directive format args =
     (case format of
        [] \<Rightarrow> (''%'' @ [NUL], [], args)
      | d # format \<Rightarrow>
          if d = CHR ''%'' then (''%'', format, args)
          else if d = CHR ''c'' then
            ([char_of (unat (ucast (va_int args) :: u8))], format, tl args)
          else if d = CHR ''s'' then
            (puts_chars (case va_str args of None \<Rightarrow> ''(null)'' | Some str \<Rightarrow> str), format, tl args)
          else if d = CHR ''d'' then (put_signed (va_int args), format, tl args)
          else if d = CHR ''u'' then (put_unsigned (ucast (va_int args)) 10, format, tl args)
          else if d = CHR ''x'' then (put_unsigned (ucast (va_int args)) 16, format, tl args)
          else if d = CHR ''X'' then (put_upper_hex (ucast (va_int args)), format, tl args)
          else if d = CHR ''p'' then (''0x'' @ put_unsigned (va_num args) 16, format, tl args)
          else if d = CHR ''l'' then
            (case format of
               [] \<Rightarrow> ([], [], args)
             | e # format \<Rightarrow>
                 if e = CHR ''d'' then (put_signed (ucast (va_num args)), format, tl args)
                 else if e = CHR ''u'' then (put_unsigned (va_num args) 10, format, tl args)
                 else if e = CHR ''x'' then (put_unsigned (va_num args) 16, format, tl args)
                 else if e = CHR ''l'' then
                   (case format of
                      [] \<Rightarrow> ([], [], args)
                    | f # format \<Rightarrow>
                        if f = CHR ''d'' then (put_signed (ucast (va_num args)), format, tl args)
                        else if f = CHR ''u'' then (put_unsigned (va_num args) 10, format, tl args)
                        else if f = CHR ''x'' then (put_unsigned (va_num args) 16, format, tl args)
                        else ([], format, args))
                 else ([], format, args))
          else (''%'' @ [d], format, args))"

lemma klog_directive_shorter:
  "klog_directive format args = (out, rest, args') \<Longrightarrow> length rest \<le> length format"
  by (auto simp: klog_directive_def split: list.splits if_splits)

function klog_vprintf :: "string \<Rightarrow> vararg list \<Rightarrow> string" where
  "klog_vprintf [] args = []"
| "klog_vprintf (c # format) args =
     (if c = NUL then []
      else if c \<noteq> CHR ''%'' then c # klog_vprintf format args
      else case klog_directive format args of
        (out, rest, args) \<Rightarrow> out @ klog_vprintf rest args)"
  by pat_completeness auto
termination
  by (relation "measure (\<lambda>(format, _). length format)")
    (auto dest!: klog_directive_shorter [OF sym])

subsection \<open>The log functions\<close>

datatype KLogLevel = Debug | Info | Notice | Warning | Error | Critical | Panic

definition color :: "string \<Rightarrow> string" where
  "color code = CHR 0x1B # ''['' @ code @ ''m''"

definition COLOR_RESET :: string where "COLOR_RESET = color ''0''"
definition COLOR_RED :: string where "COLOR_RED = color ''1;31''"
definition COLOR_YELLOW :: string where "COLOR_YELLOW = color ''1;33''"
definition COLOR_BLUE :: string where "COLOR_BLUE = color ''1;34''"
definition COLOR_MAGENTA :: string where "COLOR_MAGENTA = color ''1;35''"
definition COLOR_CYAN :: string where "COLOR_CYAN = color ''1;36''"

fun level_name :: "KLogLevel \<Rightarrow> string" where
  "level_name Debug = COLOR_CYAN @ ''[debug]'' @ COLOR_RESET"
| "level_name Info = COLOR_CYAN @ ''[info]'' @ COLOR_RESET"
| "level_name Notice = COLOR_BLUE @ ''[notice]'' @ COLOR_RESET"
| "level_name Warning = COLOR_YELLOW @ ''[warning]'' @ COLOR_RESET"
| "level_name Error = COLOR_RED @ ''[error]'' @ COLOR_RESET"
| "level_name Critical = COLOR_RED @ ''[critical]'' @ COLOR_RESET"
| "level_name Panic = COLOR_RED @ ''[panic]'' @ COLOR_RESET"

definition klog_line :: "KLogLevel \<Rightarrow> string \<Rightarrow> string \<Rightarrow> vararg list \<Rightarrow> string" where
  "klog_line level subsystem format args =
     puts_chars (level_name level) @ puts_chars '' '' @ puts_chars COLOR_MAGENTA
       @ puts_chars subsystem @ puts_chars COLOR_RESET @ puts_chars '': ''
       @ klog_vprintf format args @ puts_chars [CHR 0x0A]"

definition klog :: "KLogLevel \<Rightarrow> string \<Rightarrow> string \<Rightarrow> vararg list \<Rightarrow> kstate \<Rightarrow> kstate" where
  "klog level subsystem format args s =
     s\<lparr>uart_out := uart_out s @ klog_line level subsystem format args\<rparr>"

definition klog_info :: "string \<Rightarrow> string \<Rightarrow> vararg list \<Rightarrow> kstate \<Rightarrow> kstate" where
  "klog_info = klog Info"
definition klog_notice :: "string \<Rightarrow> string \<Rightarrow> vararg list \<Rightarrow> kstate \<Rightarrow> kstate" where
  "klog_notice = klog Notice"
definition klog_warn :: "string \<Rightarrow> string \<Rightarrow> vararg list \<Rightarrow> kstate \<Rightarrow> kstate" where
  "klog_warn = klog Warning"
definition klog_error :: "string \<Rightarrow> string \<Rightarrow> vararg list \<Rightarrow> kstate \<Rightarrow> kstate" where
  "klog_error = klog Error"
definition klog_critical :: "string \<Rightarrow> string \<Rightarrow> vararg list \<Rightarrow> kstate \<Rightarrow> kstate" where
  "klog_critical = klog Critical"
definition klog_debug :: "string \<Rightarrow> string \<Rightarrow> vararg list \<Rightarrow> kstate \<Rightarrow> kstate" where
  "klog_debug = klog Debug"
definition klog_panic :: "string \<Rightarrow> string \<Rightarrow> vararg list \<Rightarrow> kstate \<Rightarrow> kstate" where
  "klog_panic = klog Panic"

definition klog_init :: "kstate \<Rightarrow> kstate" where
  "klog_init s = klog_info ''log'' ''logging initialized'' [] s"

text \<open>
  \<^verbatim>\<open>cpu_get_cpu_id\<close> of arch/riscv/cpu.c: the \<^verbatim>\<open>hartid\<close> field of the structure the
  thread pointer holds the address of.
\<close>

definition cpu_get_cpu_id :: "kstate \<Rightarrow> u64" where
  "cpu_get_cpu_id s = read64 (mem s) (reg_tp s + 8)"

definition arm64_dump_format :: string where
  "arm64_dump_format =
     ''x0 =0x%llx  x1 =0x%llx '' @ ''x2 =0x%llx  x3 =0x%llx'' @ [CHR 0x0A] @
     ''x4 =0x%llx  x5 =0x%llx '' @ ''x6 =0x%llx  x7 =0x%llx'' @ [CHR 0x0A] @
     ''x8 =0x%llx  x9 =0x%llx '' @ ''x10=0x%llx  x11=0x%llx'' @ [CHR 0x0A] @
     ''x12=0x%llx  x13=0x%llx '' @ ''x14=0x%llx  x15=0x%llx'' @ [CHR 0x0A] @
     ''x16=0x%llx  x17=0x%llx '' @ ''x18=0x%llx  x19=0x%llx'' @ [CHR 0x0A] @
     ''x20=0x%llx  x21=0x%llx '' @ ''x22=0x%llx  x23=0x%llx'' @ [CHR 0x0A] @
     ''x24=0x%llx  x25=0x%llx '' @ ''x26=0x%llx  x27=0x%llx'' @ [CHR 0x0A] @
     ''x28=0x%llx  fp =0x%llx '' @ ''lr =0x%llx  sp =0x%llx''"

definition riscv_dump_format :: string where
  "riscv_dump_format =
     ''x0 =0x%llx  ra =0x%llx '' @ ''sp =0x%llx  gp =0x%llx'' @ [CHR 0x0A] @
     ''tp =0x%llx  t0 =0x%llx '' @ ''t1 =0x%llx  t2 =0x%llx'' @ [CHR 0x0A] @
     ''s0 =0x%llx  s1 =0x%llx '' @ ''a0 =0x%llx  a1 =0x%llx'' @ [CHR 0x0A] @
     ''a2 =0x%llx  a3 =0x%llx '' @ ''a4 =0x%llx  a5 =0x%llx'' @ [CHR 0x0A] @
     ''a6 =0x%llx  a7 =0x%llx '' @ ''s2 =0x%llx  s3 =0x%llx'' @ [CHR 0x0A] @
     ''s4 =0x%llx  s5 =0x%llx '' @ ''s6 =0x%llx  s7 =0x%llx'' @ [CHR 0x0A] @
     ''s8 =0x%llx  s9 =0x%llx '' @ ''s10=0x%llx  s11=0x%llx'' @ [CHR 0x0A] @
     ''t3 =0x%llx  t4 =0x%llx '' @ ''t5 =0x%llx  t6 =0x%llx''"

definition panic :: "string \<Rightarrow> string \<Rightarrow> vararg list \<Rightarrow> kstate \<Rightarrow> ('a, kstate) outcome" where
  "panic subsystem format args s =
     (let cpu_id = (case arch s of RISCV \<Rightarrow> cpu_get_cpu_id s | ARM64 \<Rightarrow> 0);
          s = klog_panic ''panic'' ''panic on cpu %d'' [VNum cpu_id] s;
          s = klog_panic subsystem format args s;
          s = klog_panic ''cpu''
                (case arch s of ARM64 \<Rightarrow> arm64_dump_format | RISCV \<Rightarrow> riscv_dump_format)
                (map VNum (regframe s)) s
      in Halt s)"

section \<open>Lemmas\<close>

lemmas klog_defs = klog_info_def klog_notice_def klog_warn_def klog_error_def
  klog_critical_def klog_debug_def klog_panic_def klog_def

text \<open>Logging changes the UART output and nothing else.\<close>

lemma klog_fields [simp]:
  "mem (klog level sub fmt args s) = mem s" "sreg (klog level sub fmt args s) = sreg s"
  "io_hist (klog level sub fmt args s) = io_hist s" "global_ticks (klog level sub fmt args s) = global_ticks s"
  "gic_handlers (klog level sub fmt args s) = gic_handlers s" "gicc_iar (klog level sub fmt args s) = gicc_iar s"
  "uart_out (klog level sub fmt args s) = uart_out s @ klog_line level sub fmt args"
  by (simp_all add: klog_def)

lemma klog_info_eq:
  "klog_info sub fmt args s = s\<lparr>uart_out := uart_out s @ klog_line Info sub fmt args\<rparr>"
  by (simp add: klog_info_def klog_def)

lemma klog_info_fields [simp]:
  "arch (klog_info sub fmt args s) = arch s"
  "mem (klog_info sub fmt args s) = mem s"
  "boot_heap_ptr (klog_info sub fmt args s) = boot_heap_ptr s"
  "boot_heap_end (klog_info sub fmt args s) = boot_heap_end s"
  "frame_bitmap (klog_info sub fmt args s) = frame_bitmap s"
  "total_frames (klog_info sub fmt args s) = total_frames s"
  "free_frames (klog_info sub fmt args s) = free_frames s"
  "mem_phys_base (klog_info sub fmt args s) = mem_phys_base s"
  "last_free_index (klog_info sub fmt args s) = last_free_index s"
  "cache_metadata_cache (klog_info sub fmt args s) = cache_metadata_cache s"
  "cache_meta_initialized (klog_info sub fmt args s) = cache_meta_initialized s"
  "kmalloc_caches (klog_info sub fmt args s) = kmalloc_caches s"
  "kheap_initialized (klog_info sub fmt args s) = kheap_initialized s"
  "g_om (klog_info sub fmt args s) = g_om s"
  "g_test_destroyed (klog_info sub fmt args s) = g_test_destroyed s"
  "sreg (klog_info sub fmt args s) = sreg s"
  "io_hist (klog_info sub fmt args s) = io_hist s"
  "kernel_page_table (klog_info sub fmt args s) = kernel_page_table s"
  "g_asid_used (klog_info sub fmt args s) = g_asid_used s"
  "g_asid_lock (klog_info sub fmt args s) = g_asid_lock s"
  "gic_handlers (klog_info sub fmt args s) = gic_handlers s"
  "gicc_iar (klog_info sub fmt args s) = gicc_iar s"
  "global_ticks (klog_info sub fmt args s) = global_ticks s"
  "bootstrap_cpu (klog_info sub fmt args s) = bootstrap_cpu s"
  "boot_hart_info (klog_info sub fmt args s) = boot_hart_info s"
  "boot_spinlock (klog_info sub fmt args s) = boot_spinlock s"
  by (simp_all add: klog_info_eq)

lemma panic_halts: "\<exists>s'. panic sub fmt args s = Halt s'"
  by (simp add: panic_def Let_def)

text \<open>What \<^verbatim>\<open>panic\<close> prints.\<close>

lemma panic_out: "\<exists>out. panic sub fmt args s = Halt (s\<lparr>uart_out := uart_out s @ out\<rparr>)"
  by (auto simp: panic_def Let_def klog_panic_def klog_def)

lemma panic_not_Ret [simp]: "panic sub fmt args s \<noteq> Ret a s'"
  and Ret_not_panic [simp]: "Ret a s' \<noteq> panic sub fmt args s"
  by (simp_all add: panic_def Let_def)

lemma andThen_panic [simp, outcome_simps]:
  "andThen (panic sub fmt args s) f = panic sub fmt args s"
  by (simp add: panic_def Let_def)

end
