(* ===== verification/Sync.thy ===== *)
theory Sync
  imports Klog
begin

text \<open>
  \<^verbatim>\<open>include/sync/\<close>: the 32-bit atomics of both architectures and the spinlock. The first
  part is the sequential meaning the rest of the kernel model uses (the kernel runs on one
  hart: no secondary hart is ever started). The second part is a machine of any number of CPUs
  that interleave at the granularity of one atomic access, for each architecture's
  \<^verbatim>\<open>spin_lock\<close>.
\<close>

section \<open>Definitions\<close>

subsection \<open>Atomic accesses\<close>

definition atomic_exchange_acquire :: "u64 \<Rightarrow> u32 \<Rightarrow> kstate \<Rightarrow> u32 \<times> kstate" where
  "atomic_exchange_acquire ptr new_val s =
     (read32 (mem s) ptr, s\<lparr>mem := write32 (mem s) ptr new_val\<rparr>)"

text \<open>The RISC-V version stores the register \<^verbatim>\<open>zero\<close>, whatever \<^verbatim>\<open>new_val\<close> is.\<close>

definition atomic_store_release :: "u64 \<Rightarrow> u32 \<Rightarrow> kstate \<Rightarrow> kstate" where
  "atomic_store_release ptr new_val s =
     s\<lparr>mem := write32 (mem s) ptr (case arch s of ARM64 \<Rightarrow> new_val | RISCV \<Rightarrow> 0)\<rparr>"

definition atomic_load :: "u64 \<Rightarrow> kstate \<Rightarrow> u32" where
  "atomic_load ptr s = read32 (mem s) ptr"

definition atomic_fetch_add :: "u64 \<Rightarrow> u32 \<Rightarrow> kstate \<Rightarrow> u32 \<times> kstate" where
  "atomic_fetch_add ptr val s =
     (let old_val = read32 (mem s) ptr
      in (old_val, s\<lparr>mem := write32 (mem s) ptr (old_val + val)\<rparr>))"

definition atomic_fetch_sub :: "u64 \<Rightarrow> u32 \<Rightarrow> kstate \<Rightarrow> u32 \<times> kstate" where
  "atomic_fetch_sub ptr val s =
     (let old_val = read32 (mem s) ptr
      in (old_val, s\<lparr>mem := write32 (mem s) ptr (old_val - val)\<rparr>))"

subsection \<open>The spinlock of one CPU\<close>

definition spin_lock_init :: "u64 \<Rightarrow> kstate \<Rightarrow> kstate" where
  "spin_lock_init lock s = s\<lparr>mem := write32 (mem s) lock 0\<rparr>"

text \<open>
  With one CPU a lock that is found taken stays taken: both versions of the loop then read a
  lock word that nobody changes.
\<close>

definition spin_lock :: "u64 \<Rightarrow> kstate \<Rightarrow> (unit, kstate) outcome" where
  "spin_lock lock s =
     (case atomic_exchange_acquire lock 1 s of
        (old_val, s) \<Rightarrow> if old_val = 0 then Ret () s else Spin s)"

definition spin_unlock :: "u64 \<Rightarrow> kstate \<Rightarrow> kstate" where
  "spin_unlock lock s = atomic_store_release lock 0 s"

subsection \<open>The spinlock of many CPUs\<close>

text \<open>
  Where a CPU is in its use of one lock. \<open>Xchg\<close>: about to run the first
  \<^verbatim>\<open>atomic_exchange_acquire\<close>. \<open>Check\<close>: about to read the lock word in the waiting
  loop. \<open>Retry\<close>: (RISC-V) it read 0 and is about to exchange again. \<open>Relax\<close>: in
  \<^verbatim>\<open>cpu_relax\<close>. \<open>Held\<close>: between \<^verbatim>\<open>spin_lock\<close> and \<^verbatim>\<open>spin_unlock\<close>.
\<close>

datatype lock_pc = Outside | Xchg | Check | Retry | Relax | Held

record lock_sys =
  locked :: u32
  pcs :: "nat \<Rightarrow> lock_pc"

definition lock_init :: lock_sys where
  "lock_init = \<lparr>locked = 0, pcs = (\<lambda>_. Outside)\<rparr>"

inductive lock_step :: "arch \<Rightarrow> lock_sys \<Rightarrow> lock_sys \<Rightarrow> bool" for A :: arch where
  call: "pcs s i = Outside \<Longrightarrow> lock_step A s (s\<lparr>pcs := (pcs s)(i := Xchg)\<rparr>)"
| xchg_won: "pcs s i = Xchg \<Longrightarrow> locked s = 0 \<Longrightarrow>
     lock_step A s (s\<lparr>locked := 1, pcs := (pcs s)(i := Held)\<rparr>)"
| xchg_lost: "pcs s i = Xchg \<Longrightarrow> locked s \<noteq> 0 \<Longrightarrow>
     lock_step A s (s\<lparr>locked := 1, pcs := (pcs s)(i := Check)\<rparr>)"
| a64_seen_free: "A = ARM64 \<Longrightarrow> pcs s i = Check \<Longrightarrow> locked s = 0 \<Longrightarrow>
     lock_step A s (s\<lparr>pcs := (pcs s)(i := Xchg)\<rparr>)"
| rv_seen_free: "A = RISCV \<Longrightarrow> pcs s i = Check \<Longrightarrow> locked s = 0 \<Longrightarrow>
     lock_step A s (s\<lparr>pcs := (pcs s)(i := Retry)\<rparr>)"
| seen_taken: "pcs s i = Check \<Longrightarrow> locked s \<noteq> 0 \<Longrightarrow>
     lock_step A s (s\<lparr>pcs := (pcs s)(i := Relax)\<rparr>)"
| retry_won: "pcs s i = Retry \<Longrightarrow> locked s = 0 \<Longrightarrow>
     lock_step A s (s\<lparr>locked := 1, pcs := (pcs s)(i := Held)\<rparr>)"
| retry_lost: "pcs s i = Retry \<Longrightarrow> locked s \<noteq> 0 \<Longrightarrow>
     lock_step A s (s\<lparr>locked := 1, pcs := (pcs s)(i := Relax)\<rparr>)"
| relaxed: "pcs s i = Relax \<Longrightarrow> lock_step A s (s\<lparr>pcs := (pcs s)(i := Check)\<rparr>)"
| unlock: "pcs s i = Held \<Longrightarrow>
     lock_step A s (s\<lparr>locked := 0, pcs := (pcs s)(i := Outside)\<rparr>)"

inductive lock_reachable :: "arch \<Rightarrow> lock_sys \<Rightarrow> bool" for A :: arch where
  start: "lock_reachable A lock_init"
| step: "lock_reachable A s \<Longrightarrow> lock_step A s t \<Longrightarrow> lock_reachable A t"

inductive_cases lock_stepE: "lock_step A s t"

text \<open>The lock word and the holders agree: 1 with exactly one holder, or 0 with none.\<close>

definition holders :: "lock_sys \<Rightarrow> nat set" where
  "holders s = {i. pcs s i = Held}"

definition lock_inv :: "lock_sys \<Rightarrow> bool" where
  "lock_inv s \<longleftrightarrow>
     locked s = 0 \<and> holders s = {} \<or> locked s = 1 \<and> (\<exists>i. holders s = {i})"

definition waiting :: "lock_sys \<Rightarrow> nat \<Rightarrow> bool" where
  "waiting s i \<longleftrightarrow> pcs s i \<in> {Xchg, Check, Retry, Relax}"

section \<open>Lemmas\<close>

subsection \<open>One CPU\<close>

lemma spin_lock_free:
  "read32 (mem s) lock = 0 \<Longrightarrow> spin_lock lock s = Ret () (s\<lparr>mem := write32 (mem s) lock 1\<rparr>)"
  by (simp add: spin_lock_def atomic_exchange_acquire_def)

lemma spin_lock_taken:
  "read32 (mem s) lock \<noteq> 0 \<Longrightarrow> spin_lock lock s = Spin (s\<lparr>mem := write32 (mem s) lock 1\<rparr>)"
  by (simp add: spin_lock_def atomic_exchange_acquire_def)

lemma spin_unlock_eq: "spin_unlock lock s = s\<lparr>mem := write32 (mem s) lock 0\<rparr>"
  by (simp add: spin_unlock_def atomic_store_release_def split: arch.splits)

lemma store_store: "store (store m a n v) a n w = store m a n w"
  by (simp add: store_def fun_eq_iff)

lemma store_load_same:
  assumes "8 * n = LENGTH('a)" and "n \<le> 2 ^ 64"
  shows "store m a n (load m a n :: 'a::len word) = m"
proof
  fix x
  show "store m a n (load m a n :: 'a word) x = m x"
  proof (cases "unat (x - a) < n")
    case True
    then have "byte_at (load m a n :: 'a word) (unat (x - a)) = m x"
      using assms by (intro bit_word_eqI) (auto simp: bit_byte_at bit_load)
    with True show ?thesis by (simp add: store_def)
  qed (simp add: store_def)
qed

lemma write32_write32 [mem_simps]: "write32 (write32 m a v) a w = write32 m a w"
  by (simp add: write32_def store_store)

lemma write32_read32 [mem_simps]: "write32 m a (read32 m a) = m"
  by (simp add: write32_def read32_def store_load_same)

lemma write64_write64 [mem_simps]: "write64 (write64 m a v) a w = write64 m a w"
  by (simp add: write64_def store_store)

lemma write64_read64 [mem_simps]: "write64 m a (read64 m a) = m"
  by (simp add: write64_def read64_def store_load_same)

subsection \<open>Many CPUs\<close>

lemma holders_locked [simp]: "holders (s\<lparr>locked := v\<rparr>) = holders s"
  by (simp add: holders_def)

lemma holders_move [simp]:
  "holders (s\<lparr>pcs := (pcs s)(i := p)\<rparr>) =
     (if p = Held then insert i (holders s) else holders s - {i})"
  by (auto simp: holders_def)

lemma holders_move_locked [simp]:
  "holders (s\<lparr>locked := v, pcs := (pcs s)(i := p)\<rparr>) =
     (if p = Held then insert i (holders s) else holders s - {i})"
  by (auto simp: holders_def)

lemma not_holder: "pcs s i = p \<Longrightarrow> p \<noteq> Held \<Longrightarrow> holders s - {i} = holders s"
  by (auto simp: holders_def)

lemma lock_inv_init: "lock_inv lock_init"
  by (simp add: lock_inv_def lock_init_def holders_def)

lemma lock_step_inv:
  assumes "lock_step A s t" and inv: "lock_inv s"
  shows "lock_inv t"
  using assms(1)
proof cases
  case (unlock i)
  then have "i \<in> holders s" by (simp add: holders_def)
  with inv unlock show ?thesis by (auto simp: lock_inv_def)
qed (use inv in \<open>simp_all add: lock_inv_def not_holder\<close>)

lemma lock_reachable_inv: "lock_reachable A s \<Longrightarrow> lock_inv s"
  by (induction rule: lock_reachable.induct) (auto intro: lock_inv_init lock_step_inv)

lemma lock_acquire_from_Xchg:
  "locked s = 0 \<Longrightarrow> pcs s i = Xchg \<Longrightarrow> \<exists>t. (lock_step A)\<^sup>*\<^sup>* s t \<and> pcs t i = Held"
  by (rule exI [where x = "s\<lparr>locked := 1, pcs := (pcs s)(i := Held)\<rparr>"])
    (auto intro: lock_step.xchg_won)

lemma lock_acquire_from_Retry:
  "locked s = 0 \<Longrightarrow> pcs s i = Retry \<Longrightarrow> \<exists>t. (lock_step A)\<^sup>*\<^sup>* s t \<and> pcs t i = Held"
  by (rule exI [where x = "s\<lparr>locked := 1, pcs := (pcs s)(i := Held)\<rparr>"])
    (auto intro: lock_step.retry_won)

lemma lock_acquire_from_Check:
  assumes "locked s = 0" and "pcs s i = Check"
  shows "\<exists>t. (lock_step A)\<^sup>*\<^sup>* s t \<and> pcs t i = Held"
proof (cases A)
  case ARM64
  let ?u = "s\<lparr>pcs := (pcs s)(i := Xchg)\<rparr>"
  have "lock_step A s ?u" using ARM64 assms by (simp add: lock_step.a64_seen_free)
  moreover have "\<exists>t. (lock_step A)\<^sup>*\<^sup>* ?u t \<and> pcs t i = Held"
    using assms by (intro lock_acquire_from_Xchg) simp_all
  ultimately show ?thesis by (meson converse_rtranclp_into_rtranclp)
next
  case RISCV
  let ?u = "s\<lparr>pcs := (pcs s)(i := Retry)\<rparr>"
  have "lock_step A s ?u" using RISCV assms by (simp add: lock_step.rv_seen_free)
  moreover have "\<exists>t. (lock_step A)\<^sup>*\<^sup>* ?u t \<and> pcs t i = Held"
    using assms by (intro lock_acquire_from_Retry) simp_all
  ultimately show ?thesis by (meson converse_rtranclp_into_rtranclp)
qed

lemma lock_acquire_from_Relax:
  assumes "locked s = 0" and "pcs s i = Relax"
  shows "\<exists>t. (lock_step A)\<^sup>*\<^sup>* s t \<and> pcs t i = Held"
proof -
  let ?u = "s\<lparr>pcs := (pcs s)(i := Check)\<rparr>"
  have "lock_step A s ?u" using assms(2) by (rule lock_step.relaxed)
  moreover have "\<exists>t. (lock_step A)\<^sup>*\<^sup>* ?u t \<and> pcs t i = Held"
    using assms by (intro lock_acquire_from_Check) simp_all
  ultimately show ?thesis by (meson converse_rtranclp_into_rtranclp)
qed

lemmas lock_acquire = lock_acquire_from_Xchg lock_acquire_from_Retry lock_acquire_from_Check
  lock_acquire_from_Relax

section \<open>Properties\<close>

text \<open>
  C36: mutual exclusion. In every state that any number of CPUs can reach by interleaving
  the steps of \<^verbatim>\<open>spin_lock\<close> and \<^verbatim>\<open>spin_unlock\<close>, on either architecture, at most one CPU
  is between its \<^verbatim>\<open>spin_lock\<close> and its \<^verbatim>\<open>spin_unlock\<close>.
\<close>

theorem spin_lock_mutual_exclusion:
  assumes "lock_reachable A s" and "pcs s i = Held" and "pcs s j = Held"
  shows "i = j"
  using lock_reachable_inv [OF assms(1)] assms(2,3)
  by (auto simp: lock_inv_def holders_def set_eq_iff)

theorem spin_lock_mutual_exclusion_witness:
  "(0::nat) = 0 \<and>
   lock_reachable RISCV \<lparr>locked = 1, pcs = (\<lambda>_. Outside)(0 := Held)\<rparr>"
proof -
  have a: "lock_reachable RISCV \<lparr>locked = 0, pcs = (\<lambda>_. Outside)(0 := Xchg)\<rparr>"
    using lock_reachable.step [OF lock_reachable.start lock_step.call [of lock_init 0]]
    by (simp add: lock_init_def)
  have b: "lock_reachable RISCV \<lparr>locked = 1, pcs = (\<lambda>_. Outside)(0 := Held)\<rparr>"
    using lock_reachable.step [OF a lock_step.xchg_won [of _ 0]] by simp
  show ?thesis using spin_lock_mutual_exclusion [OF b, of 0 0] b by simp
qed

text \<open>
  no deadlock. In every reachable state, if some CPU waits for the lock then either the
  lock is free and that CPU can take it by its own steps alone, or some CPU holds the lock and
  its \<^verbatim>\<open>spin_unlock\<close> is enabled and makes the lock free.
\<close>

theorem spin_lock_no_deadlock:
  assumes "lock_reachable A s" and "waiting s i"
  shows "(\<exists>t. (lock_step A)\<^sup>*\<^sup>* s t \<and> pcs t i = Held) \<or>
         (\<exists>h t. pcs s h = Held \<and> lock_step A s t \<and> pcs t h = Outside \<and> locked t = 0)"
proof (cases "locked s = 0")
  case True
  with assms(2) show ?thesis unfolding waiting_def by (auto intro: lock_acquire)
next
  case False
  then obtain h where h: "pcs s h = Held"
    using lock_reachable_inv [OF assms(1)] by (auto simp: lock_inv_def holders_def)
  let ?t = "s\<lparr>locked := 0, pcs := (pcs s)(h := Outside)\<rparr>"
  have "lock_step A s ?t" using h by (rule lock_step.unlock)
  with h show ?thesis by (intro disjI2 exI [of _ h] exI [of _ ?t]) simp
qed

theorem spin_lock_no_deadlock_witness:
  "waiting \<lparr>locked = 0, pcs = (\<lambda>_. Outside)(0 := Xchg)\<rparr> 0 \<and>
   (\<exists>t. (lock_step ARM64)\<^sup>*\<^sup>* \<lparr>locked = 0, pcs = (\<lambda>_. Outside)(0 := Xchg)\<rparr> t \<and> pcs t 0 = Held)"
proof -
  let ?s = "\<lparr>locked = 0, pcs = (\<lambda>_. Outside)(0 := Xchg)\<rparr>"
  have a: "lock_reachable ARM64 ?s"
    using lock_reachable.step [OF lock_reachable.start lock_step.call [of lock_init 0]]
    by (simp add: lock_init_def)
  have w: "waiting ?s 0" by (simp add: waiting_def)
  have "\<not> (\<exists>h. pcs ?s h = Held)" by simp
  with spin_lock_no_deadlock [OF a w] w show ?thesis by blast
qed

end
