(* ===== verification/KString.thy ===== *)
theory KString
  imports Sync
begin

text \<open>
  \<^verbatim>\<open>libkern/string.c\<close> over the byte-addressed memory. Each function is the loop of the
  source; the lemmas say what the loops compute, for all addresses and lengths unless a
  hypothesis says otherwise.
\<close>

section \<open>Definitions\<close>

definition memcpy :: "u64 \<Rightarrow> u64 \<Rightarrow> u64 \<Rightarrow> memory \<Rightarrow> memory" where
  "memcpy dest src n m = for_loop 0 n (\<lambda>i m. m(dest + i := m (src + i))) m"

definition memset :: "u64 \<Rightarrow> u32 \<Rightarrow> u64 \<Rightarrow> memory \<Rightarrow> memory" where
  "memset p c n m = for_loop 0 n (\<lambda>i m. m(p + i := ucast c)) m"

text \<open>\<^verbatim>\<open>for (size_t i = n; i > 0; i--) pdest[i-1] = psrc[i-1];\<close>\<close>

function copy_down :: "u64 \<Rightarrow> u64 \<Rightarrow> u64 \<Rightarrow> memory \<Rightarrow> memory" where
  "copy_down dest src i m =
     (if 0 < i then copy_down dest src (i - 1) (m(dest + (i - 1) := m (src + (i - 1)))) else m)"
  by pat_completeness auto
termination
  by (relation "measure (\<lambda>(_, _, i, _). unat i)") (auto simp: word_gt_0 measure_unat)

definition memmove :: "u64 \<Rightarrow> u64 \<Rightarrow> u64 \<Rightarrow> memory \<Rightarrow> memory" where
  "memmove dest src n m =
     (if src > dest then for_loop 0 n (\<lambda>i m. m(dest + i := m (src + i))) m
      else if src < dest then copy_down dest src n m
      else m)"

function memcmp_loop :: "u64 \<Rightarrow> u64 \<Rightarrow> u64 \<Rightarrow> u64 \<Rightarrow> memory \<Rightarrow> int" where
  "memcmp_loop s1 s2 i n m =
     (if i < n then
        (if m (s1 + i) \<noteq> m (s2 + i) then (if m (s1 + i) < m (s2 + i) then -1 else 1)
         else memcmp_loop s1 s2 (i + 1) n m)
      else 0)"
  by pat_completeness auto
termination
  by (relation "measure (\<lambda>(_, _, i, n, _). unat n - unat i)")
    (auto simp: word_less_nat_alt unat_Suc_u64)

definition memcmp :: "u64 \<Rightarrow> u64 \<Rightarrow> u64 \<Rightarrow> memory \<Rightarrow> int" where
  "memcmp s1 s2 n m = memcmp_loop s1 s2 0 n m"

text \<open>\<^verbatim>\<open>while (str[len]) len++;\<close> ends at the first zero byte, if memory has one.\<close>

partial_function (option) strlen_loop :: "u64 \<Rightarrow> u64 \<Rightarrow> memory \<Rightarrow> u64 option" where
  "strlen_loop str len m =
     (if m (str + len) \<noteq> 0 then strlen_loop str (len + 1) m else Some len)"

definition strlen :: "u64 \<Rightarrow> memory \<Rightarrow> u64 option" where
  "strlen str m = (if str = NULL then Some 0 else strlen_loop str 0 m)"

text \<open>What the functions are for: the bytes of a block, and their order.\<close>

definition bytes :: "memory \<Rightarrow> u64 \<Rightarrow> nat \<Rightarrow> u8 list" where
  "bytes m a n = map (\<lambda>k. m (a + of_nat k)) [0..<n]"

fun lex_cmp :: "u8 list \<Rightarrow> u8 list \<Rightarrow> int" where
  "lex_cmp (x # xs) (y # ys) = (if x < y then -1 else if y < x then 1 else lex_cmp xs ys)"
| "lex_cmp xs ys = 0"

section \<open>Lemmas\<close>

declare memcmp_loop.simps [simp del] and copy_down.simps [simp del]

lemma bytes_nth [simp]: "k < n \<Longrightarrow> bytes m a n ! k = m (a + of_nat k)"
  and length_bytes [simp]: "length (bytes m a n) = n"
  by (simp_all add: bytes_def)

lemma in_region_iff: "x \<in> region a n \<longleftrightarrow> unat (x - a) < n"
  by (simp add: region_def)

lemma off_in_region [simp]: "k < unat (n :: u64) \<Longrightarrow> a + of_nat k \<in> region a (unat n)"
  by (rule region_off_mem) (simp_all add: less_imp_le)

lemma unat_diff_of_nat_eq:
  assumes "k < 2 ^ 64"
  shows "unat (x - a) = k \<longleftrightarrow> x = a + (of_nat k :: u64)"
proof
  assume "unat (x - a) = k"
  then have "of_nat k = x - a" by (metis unat_of_nat_u64 word_unat_eq_iff assms)
  then show "x = a + of_nat k" by simp
next
  assume "x = a + of_nat k"
  then show "unat (x - a) = k" using assms by (simp add: unat_of_nat_u64)
qed

lemma region_Suc:
  assumes "Suc k \<le> 2 ^ 64"
  shows "x \<in> region a (Suc k) \<longleftrightarrow> x \<in> region a k \<or> x = a + of_nat k"
  using unat_diff_of_nat_eq [of k x a] assms by (auto simp: in_region_iff less_Suc_eq)

text \<open>The ascending copy loop, provided it never reads a byte it has already written.\<close>

lemma copy_up_eq:
  assumes "\<And>k. k < unat n \<Longrightarrow> src + of_nat k \<notin> region dest k"
  shows "for_loop 0 n (\<lambda>i m. m(dest + i := m (src + i))) m x =
           (if x \<in> region dest (unat n) then m (src + (x - dest)) else m x)"
proof -
  let ?I = "\<lambda>k m'. \<forall>x. m' x = (if x \<in> region dest k then m (src + (x - dest)) else m x)"
  have "?I (unat n) (for_loop 0 n (\<lambda>i m. m(dest + i := m (src + i))) m)"
  proof (rule for_loop_invariant [where I = ?I])
    show "?I (unat 0) m" by (simp add: region_def)
  next
    fix k m' assume k: "k < unat n" and I: "?I k m'"
    have "Suc k \<le> 2 ^ 64" using k unat_lt_u64 [of n] by (simp del: unat_lt_u64)
    then show "?I (Suc k) (m'(dest + of_nat k := m' (src + of_nat k)))"
      using I assms [OF k] by (auto simp: region_Suc)
  qed simp
  then show ?thesis by blast
qed

lemma memset_eq:
  "memset p c n m x = (if x \<in> region p (unat n) then ucast c else m x)"
proof -
  let ?I = "\<lambda>k m'. \<forall>x. m' x = (if x \<in> region p k then ucast c else m x)"
  have "?I (unat n) (memset p c n m)"
    unfolding memset_def
  proof (rule for_loop_invariant [where I = ?I])
    show "?I (unat 0) m" by (simp add: region_def)
  next
    fix k m' assume k: "k < unat n" and I: "?I k m'"
    have "Suc k \<le> 2 ^ 64" using k unat_lt_u64 [of n] by (simp del: unat_lt_u64)
    then show "?I (Suc k) (m'(p + of_nat k := ucast c))" using I by (auto simp: region_Suc)
  qed simp
  then show ?thesis by blast
qed

lemma memcpy_eq:
  assumes "region dest (unat n) \<inter> region src (unat n) = {}"
  shows "memcpy dest src n m x =
           (if x \<in> region dest (unat n) then m (src + (x - dest)) else m x)"
  unfolding memcpy_def
proof (rule copy_up_eq)
  fix k assume k: "k < unat n"
  then have "src + of_nat k \<in> region src (unat n)" by simp
  with assms have "src + of_nat k \<notin> region dest (unat n)" by blast
  then show "src + of_nat k \<notin> region dest k" using k by (auto simp: in_region_iff)
qed

text \<open>The descending copy loop.\<close>

lemma copy_down_eq:
  assumes "\<And>k. k < unat n \<Longrightarrow> src + of_nat k \<notin> (\<lambda>j. dest + of_nat j) ` {k<..<unat n}"
  shows "copy_down dest src n m x =
           (if x \<in> region dest (unat n) then m (src + (x - dest)) else m x)"
  using assms
proof (induction "unat n" arbitrary: n m)
  case 0
  then have "n = 0" by (simp add: unat_0_iff)
  then show ?case by (simp add: region_def copy_down.simps)
next
  case (Suc k)
  have pos: "0 < n" using Suc.hyps(2) by (simp add: word_less_nat_alt)
  have n1: "unat (n - 1) = k" using Suc.hyps(2) pos by (simp add: unat_minus_one word_gt_0)
  have nk: "n - 1 = of_nat k" using n1 by auto
  have k64: "Suc k \<le> 2 ^ 64" using Suc.hyps(2) unat_lt_u64 [of n] by (simp del: unat_lt_u64)
  let ?m = "m(dest + of_nat k := m (src + of_nat k))"
  have "copy_down dest src n m x = copy_down dest src (n - 1) ?m x"
    using pos nk by (subst copy_down.simps) simp
  also have "\<dots> = (if x \<in> region dest k then ?m (src + (x - dest)) else ?m x)"
    using Suc.hyps(1) [of "n - 1" ?m] n1 Suc.prems Suc.hyps(2)
    by (simp add: image_iff)
  also have "\<dots> = (if x \<in> region dest (unat n) then m (src + (x - dest)) else m x)"
  proof -
    have "?m (src + (x - dest)) = m (src + (x - dest))" if "x \<in> region dest k"
    proof -
      let ?j = "unat (x - dest)"
      have j: "?j < k" using that by (simp add: in_region_iff)
      have "src + of_nat ?j \<noteq> dest + of_nat k"
        using Suc.prems [of ?j] Suc.hyps(2) j by auto
      then show ?thesis by simp
    qed
    then show ?thesis using Suc.hyps(2) k64 by (auto simp: region_Suc [OF k64] Suc.hyps(2) [symmetric])
  qed
  finally show ?case .
qed

lemma memmove_eq:
  assumes "unat src + unat n \<le> 2 ^ 64" and "unat dest + unat n \<le> 2 ^ 64"
  shows "memmove dest src n m x =
           (if x \<in> region dest (unat n) then m (src + (x - dest)) else m x)"
proof -
  have addr: "unat (a + of_nat j) = unat a + j" if "j < unat n" "unat a + unat n \<le> 2 ^ 64" for a :: u64 and j
    using that by (intro unat_add_of_nat) simp
  consider "dest < src" | "src < dest" | "src = dest" by fastforce
  then show ?thesis
  proof cases
    case 1
    have "src + of_nat k \<notin> region dest k" if k: "k < unat n" for k
    proof
      assume "src + of_nat k \<in> region dest k"
      then obtain j where j: "j < k" "src + of_nat k = dest + of_nat j"
        using k unat_lt_u64 [of n] by (subst (asm) region_eq_image) (auto simp del: unat_lt_u64)
      then have "unat src + k = unat dest + j" using addr [of k src] addr [of j dest] assms k by simp
      with 1 j(1) show False by (simp add: word_less_nat_alt)
    qed
    with 1 show ?thesis by (simp add: memmove_def copy_up_eq)
  next
    case 2
    have "src + of_nat k \<notin> (\<lambda>j. dest + of_nat j) ` {k<..<unat n}" if k: "k < unat n" for k
    proof
      assume "src + of_nat k \<in> (\<lambda>j. dest + of_nat j) ` {k<..<unat n}"
      then obtain j where j: "k < j" "j < unat n" "src + of_nat k = dest + of_nat j" by auto
      then have "unat src + k = unat dest + j" using addr [of k src] addr [of j dest] assms k by simp
      with 2 j(1) show False by (simp add: word_less_nat_alt)
    qed
    then have "copy_down dest src n m x =
        (if x \<in> region dest (unat n) then m (src + (x - dest)) else m x)"
      by (rule copy_down_eq)
    moreover have "memmove dest src n m = copy_down dest src n m"
      using 2 by (auto simp: memmove_def)
    ultimately show ?thesis by simp
  next
    case 3
    then show ?thesis by (simp add: memmove_def)
  qed
qed

lemma bytes_Cons: "bytes m a (Suc n) = m a # bytes m (a + 1) n"
  by (simp add: bytes_def upt_conv_Cons map_Suc_upt [symmetric] comp_def ac_simps
      del: upt_Suc)

lemma memcmp_loop_eq:
  "i \<le> n \<Longrightarrow> memcmp_loop s1 s2 i n m =
     lex_cmp (bytes m (s1 + i) (unat n - unat i)) (bytes m (s2 + i) (unat n - unat i))"
proof (induction s1 s2 i n m rule: memcmp_loop.induct)
  case (1 s1 s2 i n m)
  show ?case
  proof (cases "i < n")
    case True
    have d: "unat n - unat i = Suc (unat n - unat (i + 1))"
      using True by (simp add: unat_Suc_u64 word_less_nat_alt)
    have "i + 1 \<le> n" using True by (simp add: unat_Suc_u64 word_less_nat_alt word_le_nat_alt)
    with "1.IH" True show ?thesis
      by (subst memcmp_loop.simps) (auto simp: d bytes_Cons add.assoc)
  next
    case False
    with "1.prems" show ?thesis by (subst memcmp_loop.simps) (simp add: bytes_def)
  qed
qed

lemma strlen_loop_stops:
  assumes "m (str + len + of_nat k) = 0" and "\<And>j. j < k \<Longrightarrow> m (str + len + of_nat j) \<noteq> 0"
  shows "strlen_loop str len m = Some (len + of_nat k)"
  using assms
proof (induction k arbitrary: len)
  case 0
  then show ?case by (subst strlen_loop.simps) simp
next
  case (Suc k)
  have "strlen_loop str (len + 1) m = Some (len + 1 + of_nat k)"
  proof (rule Suc.IH)
    show "m (str + (len + 1) + of_nat k) = 0" using Suc.prems(1) by (simp add: add.assoc)
  next
    fix j assume "j < k"
    then show "m (str + (len + 1) + of_nat j) \<noteq> 0"
      using Suc.prems(2) [of "Suc j"] by (simp add: add.assoc)
  qed
  moreover have "m (str + len) \<noteq> 0" using Suc.prems(2) [of 0] by simp
  ultimately show ?case by (subst strlen_loop.simps) (simp add: add.assoc)
qed

section \<open>Properties\<close>

text \<open>
  \<^verbatim>\<open>memmove\<close> copies correctly however the two blocks overlap: for blocks that do
  not wrap around the end of the address space the destination block afterwards holds the bytes
  the source block held before the call, and no byte outside the destination changes.
\<close>

theorem memmove_correct:
  assumes "unat src + unat n \<le> 2 ^ 64" and "unat dest + unat n \<le> 2 ^ 64"
  shows "bytes (memmove dest src n m) dest (unat n) = bytes m src (unat n) \<and>
         (\<forall>x. x \<notin> region dest (unat n) \<longrightarrow> memmove dest src n m x = m x)"
proof
  show "bytes (memmove dest src n m) dest (unat n) = bytes m src (unat n)"
    by (intro nth_equalityI) (simp_all add: memmove_eq [OF assms])
qed (simp add: memmove_eq [OF assms])

theorem memmove_correct_witness:
  "bytes (memmove 102 100 4 (\<lambda>x. ucast x)) 102 4 = [100, 101, 102, 103]"
proof -
  have a: "unat (100 :: u64) + unat (4 :: u64) \<le> 2 ^ 64"
    and b: "unat (102 :: u64) + unat (4 :: u64) \<le> 2 ^ 64" by simp_all
  have "bytes (\<lambda>x. ucast x) 100 4 = [100, 101, 102, 103]"
    by (simp add: bytes_def upt_rec)
  then show ?thesis using memmove_correct [OF a b, of "\<lambda>x. ucast x"] by simp
qed

text \<open>
  \<^verbatim>\<open>memcpy\<close> of disjoint blocks copies the source block and changes nothing else, and
  \<^verbatim>\<open>memset\<close> fills exactly its block with the low byte of its argument.
\<close>

theorem memcpy_memset_correct:
  assumes "region dest (unat n) \<inter> region src (unat n) = {}"
  shows "bytes (memcpy dest src n m) dest (unat n) = bytes m src (unat n) \<and>
         (\<forall>x. x \<notin> region dest (unat n) \<longrightarrow> memcpy dest src n m x = m x) \<and>
         bytes (memset dest c n m) dest (unat n) = replicate (unat n) (ucast c) \<and>
         (\<forall>x. x \<notin> region dest (unat n) \<longrightarrow> memset dest c n m x = m x)"
proof (intro conjI)
  show "bytes (memcpy dest src n m) dest (unat n) = bytes m src (unat n)"
    by (intro nth_equalityI) (simp_all add: memcpy_eq [OF assms])
  show "bytes (memset dest c n m) dest (unat n) = replicate (unat n) (ucast c)"
    by (intro nth_equalityI) (simp_all add: memset_eq)
qed (simp_all add: memcpy_eq [OF assms] memset_eq)

theorem memcpy_memset_correct_witness:
  "bytes (memcpy 200 100 3 (\<lambda>x. ucast x)) 200 3 = [100, 101, 102] \<and>
   bytes (memset 200 0x1FF 3 (\<lambda>x. ucast x)) 200 3 = [0xFF, 0xFF, 0xFF]"
proof -
  have d: "region 200 (unat (3 :: u64)) \<inter> region 100 (unat (3 :: u64)) = {}"
    using region_off_disjoint [of 0 3 100 3 100] by (simp add: Int_commute)
  have b: "bytes (\<lambda>x. ucast x) 100 3 = [100, 101, 102]" by (simp add: bytes_def upt_rec)
  have r: "replicate 3 (511 :: u8) = [0xFF, 0xFF, 0xFF]" by code_simp
  show ?thesis
    using memcpy_memset_correct [OF d, of "\<lambda>x. ucast x" "0x1FF"] b r by simp
qed

text \<open>
  C40: \<^verbatim>\<open>memcmp\<close> is the lexicographic comparison of the two blocks as unsigned bytes:
  0 exactly when they are equal, otherwise -1 or 1 by the first byte that differs.
\<close>

theorem memcmp_lexicographic:
  "memcmp s1 s2 n m = lex_cmp (bytes m s1 (unat n)) (bytes m s2 (unat n)) \<and>
   (memcmp s1 s2 n m = 0 \<longleftrightarrow> bytes m s1 (unat n) = bytes m s2 (unat n))"
proof -
  have eq0: "length xs = length ys \<Longrightarrow> lex_cmp xs ys = 0 \<longleftrightarrow> xs = ys" for xs ys
    by (induction xs ys rule: lex_cmp.induct) auto
  have "memcmp s1 s2 n m = lex_cmp (bytes m s1 (unat n)) (bytes m s2 (unat n))"
    by (simp add: memcmp_def memcmp_loop_eq)
  then show ?thesis by (simp add: eq0)
qed

text \<open>
  \<^verbatim>\<open>strlen\<close> of a non-null string returns, and returns the distance to the first zero
  byte, whenever memory has a zero byte at some distance.
\<close>

theorem strlen_correct:
  assumes "str \<noteq> NULL" and "m (str + of_nat k) = 0" and "k < 2 ^ 64"
  shows "\<exists>l. strlen str m = Some l \<and> m (str + l) = 0 \<and> (\<forall>j < unat l. m (str + of_nat j) \<noteq> 0)"
proof -
  define l where "l = (LEAST j. m (str + of_nat j) = 0)"
  have l0: "m (str + of_nat l) = 0" unfolding l_def using assms(2) by (rule LeastI)
  have below: "\<And>j. j < l \<Longrightarrow> m (str + of_nat j) \<noteq> 0" unfolding l_def by (rule not_less_Least)
  have "l \<le> k" unfolding l_def using assms(2) by (rule Least_le)
  then have "unat (of_nat l :: u64) = l" using assms(3) by (simp add: unat_of_nat)
  moreover have "strlen str m = Some (of_nat l)"
    using strlen_loop_stops [of m str 0 l] l0 below assms(1) by (simp add: strlen_def)
  ultimately show ?thesis using l0 below by auto
qed

theorem strlen_correct_witness:
  "\<exists>l. strlen 8 (\<lambda>x. if x < 13 then 65 else 0) = Some l \<and> unat l = 5"
proof -
  let ?m = "\<lambda>x :: u64. if x < 13 then 65 else 0 :: u8"
  have h: "?m (8 + of_nat 5) = 0" by simp
  obtain l where l: "strlen 8 ?m = Some l" "?m (8 + l) = 0" "\<forall>j < unat l. ?m (8 + of_nat j) \<noteq> 0"
    using strlen_correct [of 8 ?m 5] h by auto
  have "unat l \<le> 5" using l(3) h by (metis not_le)
  moreover have "unat (8 + l) = 8 + unat l" using \<open>unat l \<le> 5\<close> by (simp add: unat_word_ariths)
  with l(2) have "13 \<le> 8 + unat l" by (simp add: word_less_nat_alt split: if_splits)
  ultimately show ?thesis using l(1) by auto
qed

end
