(* ===== verification/BootAlloc.thy ===== *)
theory BootAlloc
  imports KString
begin

text \<open>
  \<^verbatim>\<open>base/mm/bootalloc.c\<close>: the bump allocator over the early boot heap, which gives the
  frame bitmap its memory.
\<close>

section \<open>Definitions\<close>

definition mm_boot_init :: "boot_info \<Rightarrow> kstate \<Rightarrow> kstate" where
  "mm_boot_init bi s =
     (let s = klog_info ''mm'' ''initializing boot memory'' [] s;
          s = s\<lparr>boot_heap_ptr := early_heap_start bi, boot_heap_end := early_heap_end bi\<rparr>
      in klog_info ''mm'' ''initialized boot heap at 0x%x - 0x%x''
           [VNum (boot_heap_ptr s), VNum (boot_heap_end s)] s)"

definition mm_boot_alloc :: "u64 \<Rightarrow> kstate \<Rightarrow> (u64, kstate) outcome" where
  "mm_boot_alloc sz s =
     (if boot_heap_ptr s = NULL then panic ''mm'' ''uninitialized boot heap'' [] s
      else
        let sz = ALIGN_UP sz 16
        in if boot_heap_ptr s + sz > boot_heap_end s
           then panic ''mm'' ''boot heap ran out of memory'' [] s
           else Ret (boot_heap_ptr s) (s\<lparr>boot_heap_ptr := boot_heap_ptr s + sz\<rparr>))"

text \<open>The state the allocator keeps: a started heap whose pointer has not passed its end.\<close>

definition boot_wf :: "kstate \<Rightarrow> bool" where
  "boot_wf s \<longleftrightarrow> boot_heap_ptr s \<noteq> NULL \<and> boot_heap_ptr s \<le> boot_heap_end s"

text \<open>A run of requests: the blocks handed out, in order.\<close>

fun boot_allocs :: "u64 list \<Rightarrow> kstate \<Rightarrow> (u64 list, kstate) outcome" where
  "boot_allocs [] s = Ret [] s"
| "boot_allocs (n # ns) s =
     andThen (mm_boot_alloc n s) (\<lambda>p s. andThen (boot_allocs ns s) (\<lambda>ps s. Ret (p # ps) s))"

text \<open>Blocks laid out one after the other between two addresses, each a multiple of 16 bytes.\<close>

fun laid_out :: "nat \<Rightarrow> u64 list \<Rightarrow> u64 list \<Rightarrow> nat \<Rightarrow> bool" where
  "laid_out lo [] [] hi = (lo \<le> hi)"
| "laid_out lo (p # ps) (n # ns) hi =
     (lo \<le> unat p \<and> laid_out (unat p + unat n) ps ns hi)"
| "laid_out lo _ _ hi = False"

section \<open>Lemmas\<close>

lemma ALIGN_UP_16:
  assumes "unat n + 15 < 2 ^ 64"
  shows "unat (ALIGN_UP n 16) = (unat n + 15) div 16 * 16"
    and "unat n \<le> unat (ALIGN_UP n 16)"
  using unat_ALIGN_UP [of 4 n] assms by simp_all

text \<open>The successful branch, with the arithmetic of the request done without wrap-around.\<close>

lemma mm_boot_alloc_ok:
  assumes "boot_wf s" and "unat n + 15 < 2 ^ 64"
    and "unat (boot_heap_ptr s) + unat (ALIGN_UP n 16) \<le> unat (boot_heap_end s)"
  shows "mm_boot_alloc n s =
    Ret (boot_heap_ptr s) (s\<lparr>boot_heap_ptr := boot_heap_ptr s + ALIGN_UP n 16\<rparr>)"
    and "unat (boot_heap_ptr s + ALIGN_UP n 16) = unat (boot_heap_ptr s) + unat (ALIGN_UP n 16)"
proof -
  have "unat (boot_heap_ptr s) + unat (ALIGN_UP n 16) < 2 ^ 64"
    using assms(3) unat_lt_u64 [of "boot_heap_end s"] by (simp del: unat_lt_u64)
  then show sum: "unat (boot_heap_ptr s + ALIGN_UP n 16)
      = unat (boot_heap_ptr s) + unat (ALIGN_UP n 16)"
    by (simp add: unat_word_ariths)
  show "mm_boot_alloc n s =
    Ret (boot_heap_ptr s) (s\<lparr>boot_heap_ptr := boot_heap_ptr s + ALIGN_UP n 16\<rparr>)"
    using assms by (simp add: mm_boot_alloc_def boot_wf_def word_less_nat_alt sum)
qed

lemma mm_boot_alloc_Ret:
  assumes "mm_boot_alloc n s = Ret p s'"
  shows "p = boot_heap_ptr s" and "p \<noteq> NULL"
    and "s' = s\<lparr>boot_heap_ptr := boot_heap_ptr s + ALIGN_UP n 16\<rparr>"
    and "boot_heap_ptr s + ALIGN_UP n 16 \<le> boot_heap_end s"
  using assms by (auto simp: mm_boot_alloc_def Let_def split: if_splits)

text \<open>A request that fits neither wraps nor passes the end.\<close>

lemma mm_boot_alloc_block:
  assumes "boot_wf s" and "unat n + 15 < 2 ^ 64" and "mm_boot_alloc n s = Ret p s'"
    and "unat (boot_heap_ptr s) + unat (ALIGN_UP n 16) < 2 ^ 64"
  shows "boot_wf s'" and "p = boot_heap_ptr s"
    and "unat p + unat n \<le> unat (boot_heap_ptr s')"
    and "boot_heap_end s' = boot_heap_end s" and "mem s' = mem s"
proof -
  note R = mm_boot_alloc_Ret [OF assms(3)]
  have sum: "unat (boot_heap_ptr s + ALIGN_UP n 16)
      = unat (boot_heap_ptr s) + unat (ALIGN_UP n 16)"
    using assms(4) by (simp add: unat_word_ariths)
  show "p = boot_heap_ptr s" by (fact R(1))
  show "boot_wf s'"
    using R assms(1) sum by (auto simp: boot_wf_def word_le_nat_alt unat_0_iff [symmetric])
  show "unat p + unat n \<le> unat (boot_heap_ptr s')"
    using R sum ALIGN_UP_16(2) [OF assms(2)] by simp
  show "boot_heap_end s' = boot_heap_end s" and "mem s' = mem s" using R by simp_all
qed

lemma boot_allocs_laid_out:
  assumes "boot_wf s" and "boot_allocs ns s = Ret ps s'"
    and "\<forall>n \<in> set ns. unat (boot_heap_end s) + unat n + 15 < 2 ^ 64"
  shows "laid_out (unat (boot_heap_ptr s)) ps ns (unat (boot_heap_end s))"
  using assms
proof (induction ns arbitrary: s ps)
  case Nil
  then show ?case by (simp add: boot_wf_def word_le_nat_alt)
next
  case (Cons n ns)
  from Cons.prems(2) obtain p t qs where p: "mm_boot_alloc n s = Ret p t"
    and qs: "boot_allocs ns t = Ret qs s'" and ps: "ps = p # qs"
    by (auto elim!: andThen_RetE)
  have n: "unat n + 15 < 2 ^ 64" using Cons.prems(3) by simp
  have "unat (ALIGN_UP n 16) \<le> unat n + 15" using ALIGN_UP_16(1) [OF n] by simp
  moreover have "unat (boot_heap_ptr s) \<le> unat (boot_heap_end s)"
    using Cons.prems(1) by (simp add: boot_wf_def word_le_nat_alt)
  ultimately have fits: "unat (boot_heap_ptr s) + unat (ALIGN_UP n 16) < 2 ^ 64"
    using Cons.prems(3) by simp
  note B = mm_boot_alloc_block [OF Cons.prems(1) n p fits]
  have "laid_out (unat (boot_heap_ptr t)) qs ns (unat (boot_heap_end s))"
    using Cons.IH [OF B(1) qs] Cons.prems(3) B(4) by simp
  moreover have "laid_out lo' qs ns hi" if "laid_out lo qs ns hi" "lo' \<le> lo" for lo lo' hi
    using that by (induction lo qs ns hi rule: laid_out.induct) auto
  ultimately show ?case using B(2,3) ps by auto
qed

section \<open>Properties\<close>

text \<open>
  a run of boot allocations hands out blocks that lie one after the other inside the
  boot heap: each block starts at or after the end of the block before it, the first at or
  after the heap pointer, and the last ends at or before the end of the heap. (The requests are
  small enough for the size computation not to wrap.)
\<close>

theorem boot_allocs_disjoint_in_heap:
  assumes "boot_wf s" and "boot_allocs ns s = Ret ps s'"
    and "\<forall>n \<in> set ns. unat (boot_heap_end s) + unat n + 15 < 2 ^ 64"
  shows "laid_out (unat (boot_heap_ptr s)) ps ns (unat (boot_heap_end s))"
  using assms by (rule boot_allocs_laid_out)

theorem boot_allocs_disjoint_in_heap_witness:
  "laid_out 0x1000 [0x1000, 0x1020] [17, 16] 0x2000"
proof -
  let ?s = "(reset_state ARM64 (\<lambda>_. 0) 0 0)\<lparr>boot_heap_ptr := 0x1000, boot_heap_end := 0x2000\<rparr>"
  have wf: "boot_wf ?s" by (simp add: boot_wf_def)
  have run: "boot_allocs [17, 16] ?s = Ret [0x1000, 0x1020] (?s\<lparr>boot_heap_ptr := 0x1030\<rparr>)"
    by (simp add: mm_boot_alloc_def ALIGN_UP_def)
  have "\<forall>n \<in> set [17, 16 :: u64]. unat (boot_heap_end ?s) + unat n + 15 < 2 ^ 64" by simp
  from boot_allocs_disjoint_in_heap [OF wf run this] show ?thesis by simp
qed

text \<open>
  for a request whose size does not wrap, \<^verbatim>\<open>mm_boot_alloc\<close> either returns the current
  heap pointer and moves it up by the size rounded up to 16, or stops the kernel with a panic;
  it panics exactly when the heap was never initialised or the rounded request does not fit.
\<close>

theorem mm_boot_alloc_panics_iff:
  assumes "unat (boot_heap_end s) + unat n + 15 < 2 ^ 64" and "boot_heap_ptr s \<le> boot_heap_end s"
  shows "(\<exists>s'. mm_boot_alloc n s = Halt s') \<longleftrightarrow>
      boot_heap_ptr s = NULL \<or>
      unat (boot_heap_end s) < unat (boot_heap_ptr s) + (unat n + 15) div 16 * 16"
proof -
  have n: "unat n + 15 < 2 ^ 64" using assms(1) by simp
  note al = ALIGN_UP_16(1) [OF n]
  have "unat (boot_heap_ptr s) \<le> unat (boot_heap_end s)"
    using assms(2) by (simp add: word_le_nat_alt)
  moreover have "(unat n + 15) div 16 * 16 \<le> unat n + 15" by simp
  ultimately have "unat (boot_heap_ptr s) + (unat n + 15) div 16 * 16 < 2 ^ 64"
    using assms(1) by linarith
  then have sum: "unat (boot_heap_ptr s + ALIGN_UP n 16)
      = unat (boot_heap_ptr s) + (unat n + 15) div 16 * 16"
    using al by (simp add: unat_word_ariths)
  show ?thesis
    by (auto simp: mm_boot_alloc_def Let_def word_less_nat_alt sum panic_def)
qed

theorem mm_boot_alloc_panics_iff_witness:
  "\<exists>s'. mm_boot_alloc 33
     ((reset_state ARM64 (\<lambda>_. 0) 0 0)\<lparr>boot_heap_ptr := 0x1000, boot_heap_end := 0x1020\<rparr>) = Halt s'"
proof -
  let ?s = "(reset_state ARM64 (\<lambda>_. 0) 0 0)\<lparr>boot_heap_ptr := 0x1000, boot_heap_end := 0x1020\<rparr>"
  have a: "unat (boot_heap_end ?s) + unat (33 :: u64) + 15 < 2 ^ 64"
    and b: "boot_heap_ptr ?s \<le> boot_heap_end ?s" by simp_all
  show ?thesis using mm_boot_alloc_panics_iff [OF a b] by simp
qed

end
