(* ===== verification/PhysFrame.thy ===== *)
theory PhysFrame
  imports BootAlloc
begin

text \<open>
  \<^verbatim>\<open>base/mm/physframe.c\<close>: the bitmap allocator of physical frames. The bitmap lies in
  memory at \<open>frame_bitmap\<close>; a set bit is a frame in use. The abstract view is the set of the
  frames whose bit is clear; the locale \<open>frame_provider\<close> is the contract its clients (the
  slab allocator, the heap, the page tables) rely on.
\<close>

section \<open>Definitions\<close>

subsection \<open>The bitmap\<close>

definition bitmap_set :: "u64 \<Rightarrow> kstate \<Rightarrow> kstate" where
  "bitmap_set b s =
     s\<lparr>mem := (mem s)(frame_bitmap s + b div 8 :=
         mem s (frame_bitmap s + b div 8) OR push_bit (unat (b mod 8)) 1)\<rparr>"

definition bitmap_clear :: "u64 \<Rightarrow> kstate \<Rightarrow> kstate" where
  "bitmap_clear b s =
     s\<lparr>mem := (mem s)(frame_bitmap s + b div 8 :=
         mem s (frame_bitmap s + b div 8) AND NOT (push_bit (unat (b mod 8)) 1))\<rparr>"

definition bitmap_test :: "u64 \<Rightarrow> kstate \<Rightarrow> bool" where
  "bitmap_test b s \<longleftrightarrow>
     mem s (frame_bitmap s + b div 8) AND push_bit (unat (b mod 8)) 1 \<noteq> 0"

subsection \<open>Operations\<close>

definition pmm_init :: "u64 \<Rightarrow> u64 \<Rightarrow> kstate \<Rightarrow> (unit, kstate) outcome" where
  "pmm_init ram_base ram_size s =
     (let s = s\<lparr>mem_phys_base := ram_base, total_frames := ram_size div PAGE_SIZE,
               free_frames := ram_size div PAGE_SIZE\<rparr>;
          bitmap_size = ALIGN_UP (total_frames s div 8) 8;
          s = klog_info ''mm'' ''allocating %u bytes for frame bitmap (%u total frames)''
                [VNum bitmap_size, VNum (total_frames s)] s
      in andThen (mm_boot_alloc bitmap_size s) (\<lambda>p s.
         let s = s\<lparr>frame_bitmap := p\<rparr>
         in if frame_bitmap s = NULL
            then panic ''mm'' ''failed to allocate physical memory bitmap'' [] s
            else
              let s = for_loop 0 bitmap_size
                        (\<lambda>i s. s\<lparr>mem := (mem s)(frame_bitmap s + i := 0xFF)\<rparr>) s
              in Ret () (klog_info ''mm'' ''physical frame allocator initialized successfully'' [] s)))"

definition pmm_free_region :: "u64 \<Rightarrow> u64 \<Rightarrow> kstate \<Rightarrow> kstate" where
  "pmm_free_region base sz s =
     (let start_frame = (base - mem_phys_base s) div PAGE_SIZE;
          cnt = sz div PAGE_SIZE
      in for_loop 0 cnt
           (\<lambda>i s. if bitmap_test (start_frame + i) s
                  then let s = bitmap_clear (start_frame + i) s
                       in s\<lparr>free_frames := free_frames s + 1\<rparr>
                  else s) s)"

definition pmm_reserve_region :: "u64 \<Rightarrow> u64 \<Rightarrow> kstate \<Rightarrow> kstate" where
  "pmm_reserve_region base sz s =
     (let start_frame = (base - mem_phys_base s) div PAGE_SIZE;
          cnt = ALIGN_UP sz PAGE_SIZE div PAGE_SIZE
      in for_loop 0 cnt
           (\<lambda>i s. if \<not> bitmap_test (start_frame + i) s
                  then let s = bitmap_set (start_frame + i) s
                       in if free_frames s > 0 then s\<lparr>free_frames := free_frames s - 1\<rparr> else s
                  else s) s)"

text \<open>
  The search loops of \<^verbatim>\<open>pmm_alloc_frame\<close>: the first index from \<open>i\<close> on whose bit is
  clear; and what both loops do with it.
\<close>

function pmm_scan :: "u64 \<Rightarrow> u64 \<Rightarrow> kstate \<Rightarrow> u64 option" where
  "pmm_scan i hi s =
     (if i < hi then (if \<not> bitmap_test i s then Some i else pmm_scan (i + 1) hi s) else None)"
  by pat_completeness auto
termination
  by (relation "measure (\<lambda>(i, hi, _). unat hi - unat i)")
    (auto simp: word_less_nat_alt unat_Suc_u64)

definition pmm_take :: "u64 \<Rightarrow> kstate \<Rightarrow> (u64, kstate) outcome" where
  "pmm_take i s =
     (let s = bitmap_set i s;
          s = s\<lparr>free_frames := free_frames s - 1, last_free_index := i + 1\<rparr>
      in Ret (mem_phys_base s + i * PAGE_SIZE) s)"

definition pmm_alloc_frame :: "kstate \<Rightarrow> (u64, kstate) outcome" where
  "pmm_alloc_frame s =
     (if free_frames s = 0 then panic ''mm'' ''out of physical memory frames'' [] s
      else case pmm_scan (last_free_index s) (total_frames s) s of
        Some i \<Rightarrow> pmm_take i s
      | None \<Rightarrow>
          (case pmm_scan 0 (last_free_index s) s of
             Some i \<Rightarrow> pmm_take i s
           | None \<Rightarrow> Ret 0 s))"

definition pmm_free_frame :: "u64 \<Rightarrow> kstate \<Rightarrow> kstate" where
  "pmm_free_frame phys_addr s =
     (if phys_addr < mem_phys_base s then s
      else
        let frame_idx = (phys_addr - mem_phys_base s) div PAGE_SIZE
        in if frame_idx \<ge> total_frames s then s
           else if bitmap_test frame_idx s then
             let s = bitmap_clear frame_idx s;
                 s = s\<lparr>free_frames := free_frames s + 1\<rparr>
             in if frame_idx < last_free_index s then s\<lparr>last_free_index := frame_idx\<rparr> else s
           else s)"

subsection \<open>The abstract view\<close>

text \<open>The indices of the free frames, the address of a frame, and the free addresses.\<close>

definition free_set :: "kstate \<Rightarrow> nat set" where
  "free_set s = {i. i < unat (total_frames s) \<and> \<not> bitmap_test (of_nat i) s}"

definition frame_addr :: "kstate \<Rightarrow> nat \<Rightarrow> u64" where
  "frame_addr s i = mem_phys_base s + of_nat i * PAGE_SIZE"

definition avail_frames :: "kstate \<Rightarrow> u64 set" where
  "avail_frames s = frame_addr s ` free_set s"

definition managed_frames :: "kstate \<Rightarrow> u64 set" where
  "managed_frames s = frame_addr s ` {..<unat (total_frames s)}"

text \<open>
  The memory the allocator itself writes, and its invariant: the managed memory ends inside
  the address space and does not start at address 0, the search index is within the bitmap,
  and the counter is ahead of the number of free frames by some \<open>d\<close> that is at most the
  number of frames (0 for an exact counter).
\<close>

definition bitmap_region :: "kstate \<Rightarrow> u64 set" where
  "bitmap_region s = {frame_bitmap s + of_nat i div 8 | i. i < unat (total_frames s)}"

definition pmm_inv :: "nat \<Rightarrow> kstate \<Rightarrow> bool" where
  "pmm_inv d s \<longleftrightarrow>
     mem_phys_base s \<noteq> 0 \<and>
     unat (mem_phys_base s) + unat (total_frames s) * 4096 \<le> 2 ^ 64 \<and>
     last_free_index s \<le> total_frames s \<and>
     d \<le> unat (total_frames s) \<and>
     unat (free_frames s) = card (free_set s) + d"

definition pmm_ok :: "kstate \<Rightarrow> bool" where
  "pmm_ok s \<longleftrightarrow> (\<exists>d. pmm_inv d s)"

text \<open>The order the search visits the frames in: from \<open>last_free_index\<close> on, then from 0.\<close>

definition next_fit :: "kstate \<Rightarrow> nat option" where
  "next_fit s = find (\<lambda>i. i \<in> free_set s)
     ([unat (last_free_index s)..<unat (total_frames s)] @ [0..<unat (last_free_index s)])"

subsection \<open>The contract of a frame allocator\<close>

locale frame_provider =
  fixes alloc :: "'s \<Rightarrow> (u64, 's) outcome"
    and release :: "u64 \<Rightarrow> 's \<Rightarrow> 's"
    and avail :: "'s \<Rightarrow> u64 set"
    and managed :: "'s \<Rightarrow> u64 set"
    and inv :: "'s \<Rightarrow> bool"
  assumes alloc_some: "inv s \<Longrightarrow> avail s \<noteq> {} \<Longrightarrow>
      \<exists>a s'. alloc s = Ret a s' \<and> a \<in> avail s \<and> avail s' = avail s - {a} \<and>
             managed s' = managed s \<and> inv s'"
    and alloc_none: "inv s \<Longrightarrow> avail s = {} \<Longrightarrow> alloc s = Ret a s' \<Longrightarrow> a = 0 \<and> s' = s"
    and release_back: "inv s \<Longrightarrow> a \<in> managed s \<Longrightarrow>
      avail (release a s) = insert a (avail s) \<and> managed (release a s) = managed s \<and>
      inv (release a s)"
    and avail_managed: "inv s \<Longrightarrow> avail s \<subseteq> managed s"
    and managed_finite: "finite (managed s)"
    and managed_not_null: "inv s \<Longrightarrow> 0 \<notin> managed s"
begin

text \<open>A run of \<open>n\<close> requests and the addresses it returns.\<close>

primrec alloc_run :: "nat \<Rightarrow> 's \<Rightarrow> (u64 list, 's) outcome" where
  "alloc_run 0 s = Ret [] s"
| "alloc_run (Suc n) s =
     andThen (alloc s) (\<lambda>a s. andThen (alloc_run n s) (\<lambda>as s. Ret (a # as) s))"

lemma alloc_run_distinct:
  assumes "inv s" and "n \<le> card (avail s)"
  shows "\<exists>as s'. alloc_run n s = Ret as s' \<and> length as = n \<and> distinct as \<and>
           set as \<subseteq> avail s \<and> avail s' = avail s - set as \<and> 0 \<notin> set as \<and>
           managed s' = managed s \<and> inv s'"
  using assms
proof (induction n arbitrary: s)
  case 0
  then show ?case by simp
next
  case (Suc n)
  have fin: "finite (avail s)"
    using avail_managed [OF Suc.prems(1)] managed_finite by (rule finite_subset)
  have "avail s \<noteq> {}" using Suc.prems(2) by auto
  from alloc_some [OF Suc.prems(1) this] obtain a t where a: "alloc s = Ret a t" "a \<in> avail s"
    "avail t = avail s - {a}" "managed t = managed s" "inv t" by blast
  have "n \<le> card (avail t)" using a(2,3) Suc.prems(2) fin by simp
  from Suc.IH [OF a(5) this] obtain as s' where IH: "alloc_run n t = Ret as s'" "length as = n"
    "distinct as" "set as \<subseteq> avail t" "avail s' = avail t - set as" "0 \<notin> set as"
    "managed s' = managed t" "inv s'" by blast
  have "a \<noteq> 0" using a(2) avail_managed [OF Suc.prems(1)] managed_not_null [OF Suc.prems(1)] by blast
  have "alloc_run (Suc n) s = Ret (a # as) s'" using a(1) IH(1) by simp
  moreover have "a \<notin> set as" using IH(4) a(3) by blast
  ultimately show ?case using IH a \<open>a \<noteq> 0\<close> by (intro exI [of _ "a # as"] exI [of _ s']) auto
qed

lemma alloc_release:
  assumes "inv s" and "avail s \<noteq> {}"
  shows "\<exists>a s'. alloc s = Ret a s' \<and> avail (release a s') = avail s \<and> inv (release a s')"
proof -
  from alloc_some [OF assms] obtain a s' where a: "alloc s = Ret a s'" "a \<in> avail s"
    "avail s' = avail s - {a}" "managed s' = managed s" "inv s'" by blast
  have "a \<in> managed s'" using a(2,4) avail_managed [OF assms(1)] by auto
  from release_back [OF a(5) this] a show ?thesis by (intro exI [of _ a] exI [of _ s']) auto
qed

end

section \<open>Lemmas\<close>

declare pmm_scan.simps [simp del]

subsection \<open>Bits\<close>

lemma unat_mod8: "unat (b mod 8 :: u64) < 8"
  by (simp add: unat_mod)

lemma u64_div8_eq_iff:
  "(a + b div 8 = a + c div 8 \<and> unat (b mod 8) = unat (c mod 8)) = (b = (c :: u64))"
proof
  assume "a + b div 8 = a + c div 8 \<and> unat (b mod 8) = unat (c mod 8)"
  then have "b div 8 = c div 8" and "unat b mod 8 = unat c mod 8"
    by (simp_all add: unat_mod)
  then have "unat b div 8 = unat c div 8" and "unat b mod 8 = unat c mod 8"
    by (simp_all add: word_unat_eq_iff unat_div)
  then have "unat b = unat c" by (metis div_mult_mod_eq)
  then show "b = c" by (simp add: word_unat_eq_iff)
qed simp

lemma bitmap_test_bit:
  "bitmap_test b s \<longleftrightarrow> bit (mem s (frame_bitmap s + b div 8)) (unat (b mod 8))"
proof -
  have "(x AND push_bit k 1 \<noteq> 0) = bit x k" if "k < 8" for x :: u8 and k
    using that by (simp add: bit_iff_and_push_bit_not_eq_0)
  then show ?thesis by (simp add: bitmap_test_def unat_mod8)
qed

lemma bitmap_test_set [simp]:
  "bitmap_test c (bitmap_set b s) \<longleftrightarrow> c = b \<or> bitmap_test c s"
  using u64_div8_eq_iff [of "frame_bitmap s" c b] unat_mod8 [of b]
  by (auto simp: bitmap_test_bit bitmap_set_def bit_simps)

lemma bitmap_test_clear [simp]:
  "bitmap_test c (bitmap_clear b s) \<longleftrightarrow> c \<noteq> b \<and> bitmap_test c s"
  using u64_div8_eq_iff [of "frame_bitmap s" c b] unat_mod8 [of b] unat_mod8 [of c]
  by (auto simp: bitmap_test_bit bitmap_clear_def bit_simps)

lemma bitmap_test_cong:
  "mem s (frame_bitmap s + b div 8) = mem t (frame_bitmap t + b div 8) \<Longrightarrow>
   bitmap_test b s = bitmap_test b t"
  by (simp add: bitmap_test_def)

lemma bitmap_test_fields [simp]:
  "bitmap_test b (s\<lparr>free_frames := v\<rparr>) = bitmap_test b s"
  "bitmap_test b (s\<lparr>last_free_index := v\<rparr>) = bitmap_test b s"
  "bitmap_test b (s\<lparr>uart_out := out\<rparr>) = bitmap_test b s"
  "bitmap_test b (s\<lparr>total_frames := v\<rparr>) = bitmap_test b s"
  "bitmap_test b (s\<lparr>mem_phys_base := v\<rparr>) = bitmap_test b s"
  by (simp_all add: bitmap_test_def)

lemma bitmap_set_fields [simp]:
  "arch (bitmap_set b s) = arch s"
  "frame_bitmap (bitmap_set b s) = frame_bitmap s"
  "total_frames (bitmap_set b s) = total_frames s"
  "free_frames (bitmap_set b s) = free_frames s"
  "mem_phys_base (bitmap_set b s) = mem_phys_base s"
  "last_free_index (bitmap_set b s) = last_free_index s"
  by (simp_all add: bitmap_set_def)

lemma bitmap_clear_fields [simp]:
  "arch (bitmap_clear b s) = arch s"
  "frame_bitmap (bitmap_clear b s) = frame_bitmap s"
  "total_frames (bitmap_clear b s) = total_frames s"
  "free_frames (bitmap_clear b s) = free_frames s"
  "mem_phys_base (bitmap_clear b s) = mem_phys_base s"
  "last_free_index (bitmap_clear b s) = last_free_index s"
  by (simp_all add: bitmap_clear_def)

subsection \<open>The set of free frames\<close>

lemma free_set_bound: "i \<in> free_set s \<Longrightarrow> i < unat (total_frames s)"
  and free_set_subset: "free_set s \<subseteq> {..<unat (total_frames s)}"
  by (auto simp: free_set_def)

lemma finite_free_set [simp]: "finite (free_set s)"
  using free_set_subset by (rule finite_subset) simp

lemma card_free_set: "card (free_set s) \<le> unat (total_frames s)"
  using card_mono [OF _ free_set_subset [of s]] by simp

lemma free_set_fields [simp]:
  "free_set (s\<lparr>free_frames := v\<rparr>) = free_set s"
  "free_set (s\<lparr>last_free_index := v\<rparr>) = free_set s"
  "free_set (s\<lparr>uart_out := out\<rparr>) = free_set s"
  by (simp_all add: free_set_def)

lemma of_nat_u64_cancel:
  "i < unat (a :: u64) \<Longrightarrow> j < 2 ^ 64 \<Longrightarrow> (of_nat i = (of_nat j :: u64)) = (i = j)"
  using unat_lt_u64 [of a] by (intro of_nat_u64_eq_iff) (simp_all del: unat_lt_u64)

lemma free_set_bitmap_set:
  "i < 2 ^ 64 \<Longrightarrow> free_set (bitmap_set (of_nat i) s) = free_set s - {i}"
  by (auto simp: free_set_def of_nat_u64_cancel)

lemma free_set_bitmap_clear:
  "i < unat (total_frames s) \<Longrightarrow> free_set (bitmap_clear (of_nat i) s) = insert i (free_set s)"
  using unat_lt_u64 [of "total_frames s"]
  by (auto simp: free_set_def of_nat_u64_cancel [of _ "total_frames s"] simp del: unat_lt_u64)

lemma frame_addr_fields [simp]:
  "frame_addr (s\<lparr>free_frames := v\<rparr>) = frame_addr s"
  "frame_addr (s\<lparr>last_free_index := v\<rparr>) = frame_addr s"
  "frame_addr (bitmap_set b s) = frame_addr s"
  "frame_addr (bitmap_clear b s) = frame_addr s"
  by (simp_all add: frame_addr_def fun_eq_iff)

subsection \<open>Frame addresses\<close>

lemma pmm_inv_pos:
  assumes "pmm_inv d s" and "i < unat (total_frames s)"
  shows "unat (frame_addr s i) = unat (mem_phys_base s) + i * 4096"
    and "(frame_addr s i - mem_phys_base s) div PAGE_SIZE = of_nat i"
    and "mem_phys_base s \<le> frame_addr s i"
    and "unat (frame_addr s i) + 4096 \<le> 2 ^ 64"
proof -
  have le: "i * 4096 + 4096 \<le> unat (total_frames s) * 4096" using assms(2) by simp
  then have "unat (mem_phys_base s) + i * 4096 + 4096 \<le> 2 ^ 64"
    using assms(1) by (simp add: pmm_inv_def)
  then have lt: "unat (mem_phys_base s) + i * 4096 < 2 ^ 64" by simp
  have fa: "frame_addr s i = mem_phys_base s + of_nat (i * 4096)"
    by (simp add: frame_addr_def PAGE_SIZE_def)
  show un: "unat (frame_addr s i) = unat (mem_phys_base s) + i * 4096"
    unfolding fa using lt by (rule unat_add_of_nat)
  show "mem_phys_base s \<le> frame_addr s i" using un by (simp add: word_le_nat_alt)
  show "unat (frame_addr s i) + 4096 \<le> 2 ^ 64"
    using un \<open>unat (mem_phys_base s) + i * 4096 + 4096 \<le> 2 ^ 64\<close> by simp
  have "frame_addr s i - mem_phys_base s = of_nat (i * 4096)" by (simp add: fa)
  moreover have "i * 4096 < 2 ^ 64" using lt by simp
  ultimately have "unat ((frame_addr s i - mem_phys_base s) div PAGE_SIZE) = i"
    by (simp add: unat_div PAGE_SIZE_def unat_of_nat_u64 del: of_nat_mult)
  then show "(frame_addr s i - mem_phys_base s) div PAGE_SIZE = of_nat i"
    by (simp add: unat_eq_of_nat_u64)
qed

lemma frame_addr_inj: "pmm_inv d s \<Longrightarrow> inj_on (frame_addr s) {..<unat (total_frames s)}"
  by (rule inj_onI) (metis lessThan_iff pmm_inv_pos(1) add_left_cancel mult_right_cancel zero_neq_numeral)

lemma frame_addr_not_null:
  "pmm_inv d s \<Longrightarrow> i < unat (total_frames s) \<Longrightarrow> frame_addr s i \<noteq> 0"
  using pmm_inv_pos(3) [of d s i] by (auto simp: pmm_inv_def)

text \<open>Different frames are different pages of memory.\<close>

lemma frame_regions_disjoint:
  assumes "pmm_inv d s" and "i < unat (total_frames s)" and "j < unat (total_frames s)" and "i \<noteq> j"
  shows "region (frame_addr s i) 4096 \<inter> region (frame_addr s j) 4096 = {}"
proof -
  have fa: "frame_addr s k = mem_phys_base s + of_nat (k * 4096)" for k
    by (simp add: frame_addr_def PAGE_SIZE_def)
  have "k * 4096 + 4096 \<le> 2 ^ 64" if "k < unat (total_frames s)" for k
  proof -
    have "k * 4096 + 4096 \<le> unat (total_frames s) * 4096" using that by simp
    then show ?thesis using assms(1) by (simp add: pmm_inv_def)
  qed
  then show ?thesis
    unfolding fa using assms(2-4) by (intro region_off_disjoint) auto
qed

subsection \<open>The search\<close>

lemma find_append:
  "find P (xs @ ys) = (case find P xs of Some x \<Rightarrow> Some x | None \<Rightarrow> find P ys)"
  by (induction xs) auto

lemma pmm_scan_eq_find:
  "pmm_scan i hi s = map_option of_nat (find (\<lambda>k. \<not> bitmap_test (of_nat k) s) [unat i..<unat hi])"
proof (induction i hi s rule: pmm_scan.induct)
  case (1 i hi s)
  show ?case
  proof (cases "i < hi")
    case True
    then have "[unat i..<unat hi] = unat i # [unat (i + 1)..<unat hi]"
      by (simp add: unat_Suc_u64 upt_conv_Cons word_less_nat_alt)
    with True 1 show ?thesis by (subst pmm_scan.simps) simp
  next
    case False
    then show ?thesis by (subst pmm_scan.simps) (simp add: word_less_nat_alt)
  qed
qed

lemma next_fit_eq_scans:
  assumes "last_free_index s \<le> total_frames s"
  shows "map_option of_nat (next_fit s) =
    (case pmm_scan (last_free_index s) (total_frames s) s of
       Some i \<Rightarrow> Some i
     | None \<Rightarrow> pmm_scan 0 (last_free_index s) s)"
proof -
  have "find (\<lambda>k. \<not> bitmap_test (of_nat k) s) xs = find (\<lambda>i. i \<in> free_set s) xs"
    if "set xs \<subseteq> {..<unat (total_frames s)}" for xs
    using that by (intro find_cong) (auto simp: free_set_def)
  then show ?thesis
    using assms
    by (simp add: next_fit_def pmm_scan_eq_find find_append word_le_nat_alt subset_eq
        split: option.split)
qed

lemma next_fit_Some: "next_fit s = Some i \<Longrightarrow> i \<in> free_set s"
  by (auto simp: next_fit_def find_Some_iff)

lemma next_fit_None:
  assumes "last_free_index s \<le> total_frames s"
  shows "next_fit s = None \<longleftrightarrow> free_set s = {}"
proof -
  have "{unat (last_free_index s)..<unat (total_frames s)} \<union> {0..<unat (last_free_index s)}
      = {..<unat (total_frames s)}"
    using assms by (auto simp: word_le_nat_alt)
  then show ?thesis
    using free_set_subset [of s] by (auto simp: next_fit_def find_None_iff)
qed

subsection \<open>Allocation\<close>

lemma pmm_alloc_frame_next_fit:
  assumes "last_free_index s \<le> total_frames s" and "free_frames s \<noteq> 0"
  shows "pmm_alloc_frame s =
    (case next_fit s of Some i \<Rightarrow> pmm_take (of_nat i) s | None \<Rightarrow> Ret 0 s)"
  using next_fit_eq_scans [OF assms(1)] assms(2)
  by (auto simp: pmm_alloc_frame_def split: option.splits)

lemma free_frames_pos: "pmm_inv d s \<Longrightarrow> free_set s \<noteq> {} \<Longrightarrow> free_frames s \<noteq> 0"
  by (auto simp: pmm_inv_def card_gt_0_iff)

text \<open>The state after frame \<open>i\<close> has been taken.\<close>

definition taken :: "nat \<Rightarrow> kstate \<Rightarrow> kstate" where
  "taken i s = (bitmap_set (of_nat i) s)
     \<lparr>free_frames := free_frames s - 1, last_free_index := of_nat i + 1\<rparr>"

lemma pmm_take_eq: "pmm_take (of_nat i) s = Ret (frame_addr s i) (taken i s)"
  by (simp add: pmm_take_def taken_def frame_addr_def Let_def)

lemma free_set_taken: "i < unat (total_frames s) \<Longrightarrow> free_set (taken i s) = free_set s - {i}"
  using unat_lt_u64 [of "total_frames s"]
  by (simp add: taken_def free_set_bitmap_set del: unat_lt_u64)

lemma taken_fields [simp]:
  "arch (taken i s) = arch s"
  "frame_bitmap (taken i s) = frame_bitmap s"
  "total_frames (taken i s) = total_frames s"
  "mem_phys_base (taken i s) = mem_phys_base s"
  "boot_heap_ptr (taken i s) = boot_heap_ptr s"
  "boot_heap_end (taken i s) = boot_heap_end s"
  "cache_metadata_cache (taken i s) = cache_metadata_cache s"
  "cache_meta_initialized (taken i s) = cache_meta_initialized s"
  "kmalloc_caches (taken i s) = kmalloc_caches s"
  "kheap_initialized (taken i s) = kheap_initialized s"
  "g_om (taken i s) = g_om s"
  "g_test_destroyed (taken i s) = g_test_destroyed s"
  "sreg (taken i s) = sreg s"
  "io_hist (taken i s) = io_hist s"
  "kernel_page_table (taken i s) = kernel_page_table s"
  "g_asid_used (taken i s) = g_asid_used s"
  "g_asid_lock (taken i s) = g_asid_lock s"
  "global_ticks (taken i s) = global_ticks s" "gic_handlers (taken i s) = gic_handlers s"
  "frame_addr (taken i s) = frame_addr s"
  by (simp_all add: taken_def bitmap_set_def frame_addr_def fun_eq_iff)

lemma mem_taken:
  assumes "i < unat (total_frames s)" and "x \<notin> bitmap_region s"
  shows "mem (taken i s) x = mem s x"
  using assms by (auto simp: taken_def bitmap_set_def bitmap_region_def)

lemma pmm_inv_taken:
  assumes "pmm_inv d s" and "i \<in> free_set s"
  shows "pmm_inv d (taken i s)"
proof -
  have i: "i < unat (total_frames s)" using assms(2) by (rule free_set_bound)
  have "of_nat i + 1 \<le> total_frames s"
  proof -
    have lt: "(of_nat i :: u64) < total_frames s"
      using i unat_lt_u64 [of "total_frames s"]
      by (simp add: word_less_nat_alt unat_of_nat_u64 del: unat_lt_u64)
    then show ?thesis
      using i by (simp add: word_le_nat_alt unat_Suc_u64 [OF lt]) (simp add: word_less_nat_alt)
  qed
  moreover have "unat (free_frames s - 1) = card (free_set s - {i}) + d"
  proof -
    have "free_frames s \<noteq> 0" using free_frames_pos [OF assms(1)] assms(2) by blast
    moreover have "0 < card (free_set s)" using assms(2) by (auto simp: card_gt_0_iff)
    ultimately show ?thesis
      using assms by (simp add: unat_minus_one pmm_inv_def)
  qed
  ultimately show ?thesis
    using assms(1) by (simp add: pmm_inv_def free_set_taken [OF i])
      (simp add: taken_def)
qed

text \<open>What an allocation does when a frame is free.\<close>

lemma pmm_alloc_frame_ok:
  assumes "pmm_inv d s" and "free_set s \<noteq> {}"
  obtains i where "next_fit s = Some i" and "i \<in> free_set s"
    and "pmm_alloc_frame s = Ret (frame_addr s i) (taken i s)"
    and "pmm_inv d (taken i s)" and "free_set (taken i s) = free_set s - {i}"
proof -
  have last: "last_free_index s \<le> total_frames s" using assms(1) by (simp add: pmm_inv_def)
  from assms(2) next_fit_None [OF last] obtain i where i: "next_fit s = Some i" by auto
  from next_fit_Some [OF i] have fi: "i \<in> free_set s" .
  show thesis
  proof
    show "next_fit s = Some i" by (fact i)
    show "i \<in> free_set s" by (fact fi)
    show "pmm_alloc_frame s = Ret (frame_addr s i) (taken i s)"
      using pmm_alloc_frame_next_fit [OF last free_frames_pos [OF assms]] i
      by (simp add: pmm_take_eq)
    show "pmm_inv d (taken i s)" using assms(1) fi by (rule pmm_inv_taken)
    show "free_set (taken i s) = free_set s - {i}"
      using free_set_bound [OF fi] by (rule free_set_taken)
  qed
qed

lemma pmm_alloc_frame_full:
  assumes "last_free_index s \<le> total_frames s" and "free_set s = {}"
  shows "pmm_alloc_frame s =
    (if free_frames s = 0 then panic ''mm'' ''out of physical memory frames'' [] s else Ret 0 s)"
  using pmm_alloc_frame_next_fit [OF assms(1)] next_fit_None [OF assms(1)] assms(2)
  by (simp add: pmm_alloc_frame_def)

text \<open>
  As long as nothing is freed, the free frames are the last ones: the search starts below them
  and an allocation takes the first. Nobody writes to a frame that stays free.
\<close>

definition free_tail :: "nat \<Rightarrow> kstate \<Rightarrow> bool" where
  "free_tail i s \<longleftrightarrow> free_set s = {i..<unat (total_frames s)} \<and> unat (last_free_index s) \<le> i"

definition tail_kept :: "kstate \<Rightarrow> kstate \<Rightarrow> bool" where
  "tail_kept s t \<longleftrightarrow> total_frames t = total_frames s \<and> mem_phys_base t = mem_phys_base s \<and>
     (\<forall>i. free_tail i s \<longrightarrow> (\<exists>j \<ge> i. free_tail j t)) \<and>
     avail_frames t \<subseteq> avail_frames s \<and> (\<forall>f \<in> avail_frames t. \<forall>y \<in> region f 4096. mem t y = mem s y)"

lemma tail_kept_refl [simp]: "tail_kept s s"
  by (auto simp: tail_kept_def)

lemma tail_kept_trans:
  assumes "tail_kept s t" and "tail_kept t u"
  shows "tail_kept s u"
proof -
  have "\<exists>j \<ge> i. free_tail j u" if "free_tail i s" for i using assms that unfolding tail_kept_def by (meson order_trans)
  moreover have "avail_frames u \<subseteq> avail_frames t" using assms(2) by (simp add: tail_kept_def)
  ultimately show ?thesis using assms by (auto simp: tail_kept_def subset_iff)
qed

lemma tail_kept_pool: "tail_kept s t \<Longrightarrow> f \<in> avail_frames t \<Longrightarrow> y \<in> region f 4096 \<Longrightarrow> mem t y = mem s y"
  by (simp add: tail_kept_def)

lemma tail_kept_same:
  assumes "total_frames t = total_frames s" and "mem_phys_base t = mem_phys_base s" and "free_set t = free_set s"
    and "last_free_index t = last_free_index s"
    and "\<And>f y. f \<in> avail_frames s \<Longrightarrow> y \<in> region f 4096 \<Longrightarrow> mem t y = mem s y"
  shows "tail_kept s t"
proof -
  have "avail_frames t = avail_frames s" using assms(2,3) by (simp add: avail_frames_def frame_addr_def fun_eq_iff)
  then show ?thesis using assms by (auto simp: tail_kept_def free_tail_def)
qed

lemma free_tail_next_fit:
  assumes "free_tail i s" and "i < unat (total_frames s)"
  shows "next_fit s = Some i"
proof -
  let ?l = "unat (last_free_index s)" and ?T = "unat (total_frames s)"
  have F: "free_set s = {i..<?T}" "?l \<le> i" using assms(1) by (simp_all add: free_tail_def)
  have "[?l..<?T] = [?l..<i] @ i # [Suc i..<?T]"
    using F(2) assms(2) upt_add_eq_append [of ?l i "?T - i"] by (simp add: upt_conv_Cons)
  moreover have "find (\<lambda>j. j \<in> free_set s) [?l..<i] = None" unfolding F(1) by (auto simp: find_None_iff)
  ultimately show ?thesis using F(1) assms(2) by (simp add: next_fit_def find_append)
qed

lemma tail_kept_taken:
  assumes "next_fit s = Some k" and "\<forall>f \<in> avail_frames s. bitmap_region s \<inter> region f 4096 = {}"
  shows "tail_kept s (taken k s)"
proof -
  have k: "k \<in> free_set s" using assms(1) by (rule next_fit_Some)
  have kt: "k < unat (total_frames s)" using k by (rule free_set_bound)
  have av: "avail_frames (taken k s) \<subseteq> avail_frames s"
    using free_set_taken [OF kt] by (auto simp: avail_frames_def taken_def frame_addr_def)
  have mk: "mem (taken k s) y = mem s y" if "f \<in> avail_frames (taken k s)" "y \<in> region f 4096" for f y
    using that av assms(2) by (intro mem_taken [OF kt]) blast
  have "free_tail (Suc i) (taken k s)" if i: "free_tail i s" for i
  proof -
    have "i < unat (total_frames s)" using i k by (auto simp: free_tail_def)
    from free_tail_next_fit [OF i this] assms(1) have e: "k = i" by simp
    have lt: "(of_nat k :: u64) < total_frames s"
      using kt unat_lt_u64 [of "total_frames s"] by (simp add: word_less_nat_alt unat_of_nat_u64 del: unat_lt_u64)
    have "unat (of_nat k + 1 :: u64) = Suc k"
      using unat_Suc_u64 [OF lt] kt unat_lt_u64 [of "total_frames s"] by (simp add: unat_of_nat_u64 del: unat_lt_u64)
    then have "unat (last_free_index (taken k s)) = Suc i" using e by (simp add: taken_def)
    moreover have "free_set (taken k s) = {Suc i..<unat (total_frames s)}"
    proof -
      have "free_set s = {i..<unat (total_frames s)}" using i by (simp only: free_tail_def)
      moreover have "{i..<n} - {i} = {Suc i..<n}" for n by auto
      ultimately show ?thesis using free_set_taken [OF kt] e by simp
    qed
    ultimately show ?thesis by (simp add: free_tail_def)
  qed
  then show ?thesis using av mk by (auto simp: tail_kept_def intro: Suc_leD)
qed

subsection \<open>Freeing\<close>

lemma pmm_free_frame_eq:
  assumes "pmm_inv d s" and "i < unat (total_frames s)"
  shows "pmm_free_frame (frame_addr s i) s =
    (if i \<in> free_set s then s
     else (bitmap_clear (of_nat i) s)
       \<lparr>free_frames := free_frames s + 1,
        last_free_index := min (of_nat i) (last_free_index s)\<rparr>)"
proof -
  have ge: "\<not> frame_addr s i < mem_phys_base s"
    using pmm_inv_pos(3) [OF assms] by (simp add: not_less)
  have lt: "\<not> total_frames s \<le> of_nat i"
    using assms(2) unat_lt_u64 [of "total_frames s"]
    by (simp add: word_le_nat_alt unat_of_nat_u64 del: unat_lt_u64)
  have used: "bitmap_test (of_nat i) s \<longleftrightarrow> i \<notin> free_set s"
    using assms(2) by (simp add: free_set_def)
  note facts = pmm_free_frame_def Let_def pmm_inv_pos(2) [OF assms] ge lt used
  consider "i \<in> free_set s" | "i \<notin> free_set s" "of_nat i < last_free_index s"
    | "i \<notin> free_set s" "\<not> of_nat i < last_free_index s" by blast
  then show ?thesis
  proof cases
    case 1
    then show ?thesis by (simp add: facts)
  next
    case 2
    then show ?thesis by (simp add: facts)
  next
    case 3
    then have "min (of_nat i) (last_free_index s) = last_free_index s"
      by (simp add: min_def not_less)
    with 3 show ?thesis by (simp add: facts bitmap_clear_def)
  qed
qed

lemma pmm_total_bound: "pmm_inv d s \<Longrightarrow> unat (total_frames s) \<le> 2 ^ 52"
  by (simp add: pmm_inv_def)

lemma pmm_free_frame_ok:
  assumes "pmm_inv d s" and "i < unat (total_frames s)"
  shows "free_set (pmm_free_frame (frame_addr s i) s) = insert i (free_set s)"
    and "pmm_inv d (pmm_free_frame (frame_addr s i) s)"
    and "total_frames (pmm_free_frame (frame_addr s i) s) = total_frames s"
    and "mem_phys_base (pmm_free_frame (frame_addr s i) s) = mem_phys_base s"
    and "frame_bitmap (pmm_free_frame (frame_addr s i) s) = frame_bitmap s"
proof -
  note eq = pmm_free_frame_eq [OF assms]
  show fs: "free_set (pmm_free_frame (frame_addr s i) s) = insert i (free_set s)"
    using assms(2) by (auto simp: eq free_set_bitmap_clear)
  show "total_frames (pmm_free_frame (frame_addr s i) s) = total_frames s"
    and "mem_phys_base (pmm_free_frame (frame_addr s i) s) = mem_phys_base s"
    and "frame_bitmap (pmm_free_frame (frame_addr s i) s) = frame_bitmap s"
    by (simp_all add: eq)
  show "pmm_inv d (pmm_free_frame (frame_addr s i) s)"
  proof (cases "i \<in> free_set s")
    case True
    with assms(1) show ?thesis by (simp add: eq)
  next
    case False
    have "unat (free_frames s) + 1 < 2 ^ 64"
      using assms(1) card_free_set [of s] pmm_total_bound [OF assms(1)] by (simp add: pmm_inv_def)
    then have "unat (free_frames s + 1) = unat (free_frames s) + 1" by (simp add: unat_word_ariths)
    moreover have "min (of_nat i) (last_free_index s) \<le> total_frames s"
      using assms(1) by (simp add: pmm_inv_def min_le_iff_disj)
    ultimately show ?thesis
      using assms False by (simp add: eq pmm_inv_def free_set_bitmap_clear)
  qed
qed

lemma mem_pmm_free_frame:
  assumes "pmm_inv d s" and "i < unat (total_frames s)" and "x \<notin> bitmap_region s"
  shows "mem (pmm_free_frame (frame_addr s i) s) x = mem s x"
  using assms(2,3) by (auto simp: pmm_free_frame_eq [OF assms(1,2)] bitmap_clear_def bitmap_region_def)

subsection \<open>Regions of frames\<close>

text \<open>Two states that differ in memory and in the counter of free frames at most.\<close>

definition pmm_frame :: "kstate \<Rightarrow> kstate \<Rightarrow> bool" where
  "pmm_frame s t \<longleftrightarrow> t\<lparr>mem := mem s, free_frames := free_frames s\<rparr> = s"

lemma pmm_frame_refl [simp]: "pmm_frame s s"
  by (simp add: pmm_frame_def)

lemma pmm_frame_update:
  "pmm_frame s t \<Longrightarrow> pmm_frame s (t\<lparr>mem := m\<rparr>)"
  "pmm_frame s t \<Longrightarrow> pmm_frame s (t\<lparr>free_frames := f\<rparr>)"
  by (simp_all add: pmm_frame_def)

lemma pmm_frame_bitmap_ops:
  "pmm_frame s t \<Longrightarrow> pmm_frame s (bitmap_clear b t)"
  "pmm_frame s t \<Longrightarrow> pmm_frame s (bitmap_set b t)"
  by (simp_all add: bitmap_clear_def bitmap_set_def pmm_frame_update)

lemma pmm_frame_fields:
  assumes "pmm_frame s t"
  shows "arch t = arch s" and "frame_bitmap t = frame_bitmap s"
    and "total_frames t = total_frames s" and "mem_phys_base t = mem_phys_base s"
    and "last_free_index t = last_free_index s" and "boot_heap_ptr t = boot_heap_ptr s"
    and "boot_heap_end t = boot_heap_end s"
    and "cache_metadata_cache t = cache_metadata_cache s"
    and "cache_meta_initialized t = cache_meta_initialized s"
    and "kmalloc_caches t = kmalloc_caches s" and "kheap_initialized t = kheap_initialized s"
    and "g_om t = g_om s" and "g_test_destroyed t = g_test_destroyed s"
    and "uart_out t = uart_out s"
    and "sreg t = sreg s"
    and "io_hist t = io_hist s"
    and "kernel_page_table t = kernel_page_table s"
    and "g_asid_used t = g_asid_used s"
    and "g_asid_lock t = g_asid_lock s"
    and "global_ticks t = global_ticks s" and "gic_handlers t = gic_handlers s"
  by (subst assms [unfolded pmm_frame_def, symmetric], simp)+

text \<open>The bytes of the bitmap that hold the bits of the frames from \<open>k\<close> on.\<close>

definition bitmap_bytes :: "kstate \<Rightarrow> nat \<Rightarrow> nat \<Rightarrow> u64 set" where
  "bitmap_bytes s k n = {frame_bitmap s + of_nat j div 8 | j. k \<le> j \<and> j < k + n}"

lemma bitmap_bytes_region: "bitmap_bytes s 0 (unat (total_frames s)) = bitmap_region s"
  by (auto simp: bitmap_bytes_def bitmap_region_def)

lemma bitmap_bytes_Suc:
  "x \<notin> bitmap_bytes s k (Suc n) \<Longrightarrow>
   x \<notin> bitmap_bytes s k n \<and> x \<noteq> frame_bitmap s + of_nat (k + n) div 8"
  unfolding bitmap_bytes_def by (fastforce simp del: of_nat_add intro: exI [of _ "k + n"])

lemma unat_div_page: "unat (x div PAGE_SIZE) = unat x div 4096"
  by (simp add: PAGE_SIZE_def unat_div)

lemma unat_div_page_lt: "unat (x div PAGE_SIZE) < 2 ^ 52"
  using unat_lt_u64 [of x] by (simp add: unat_div_page del: unat_lt_u64)

lemma card_filter_Suc:
  "card {j \<in> {k..<k + Suc n}. P j} = card {j \<in> {k..<k + n}. P j} + (if P (k + n) then 1 else 0)"
proof -
  have "{j \<in> {k..<k + Suc n}. P j} =
      {j \<in> {k..<k + n}. P j} \<union> (if P (k + n) then {k + n} else {})"
    by (auto simp: less_Suc_eq)
  then show ?thesis by (auto simp: card_insert_if)
qed

lemma mem_bitmap_clear: "x \<noteq> frame_bitmap s + b div 8 \<Longrightarrow> mem (bitmap_clear b s) x = mem s x"
  and mem_bitmap_set: "x \<noteq> frame_bitmap s + b div 8 \<Longrightarrow> mem (bitmap_set b s) x = mem s x"
  by (simp_all add: bitmap_clear_def bitmap_set_def)

text \<open>What freeing \<open>n\<close> frames from index \<open>k\<close> on has done to a state.\<close>

definition freed_upto :: "kstate \<Rightarrow> nat \<Rightarrow> nat \<Rightarrow> kstate \<Rightarrow> bool" where
  "freed_upto s k n t \<longleftrightarrow>
     pmm_frame s t \<and>
     (\<forall>j < 2 ^ 64. bitmap_test (of_nat j) t \<longleftrightarrow> bitmap_test (of_nat j) s \<and> j \<notin> {k..<k + n}) \<and>
     free_frames t = free_frames s + of_nat (card {j \<in> {k..<k + n}. bitmap_test (of_nat j) s}) \<and>
     (\<forall>x. x \<notin> bitmap_bytes s k n \<longrightarrow> mem t x = mem s x)"

lemma freed_upto_Suc:
  assumes "freed_upto s k n t" and "k + n < 2 ^ 64"
  shows "freed_upto s k (Suc n)
    (if bitmap_test (of_nat (k + n)) t
     then (bitmap_clear (of_nat (k + n)) t)\<lparr>free_frames := free_frames t + 1\<rparr> else t)"
proof -
  have fr: "pmm_frame s t" using assms(1) by (simp add: freed_upto_def)
  have test: "bitmap_test (of_nat (k + n)) t \<longleftrightarrow> bitmap_test (of_nat (k + n)) s"
    using assms by (simp add: freed_upto_def del: of_nat_add)
  have other: "bitmap_test (of_nat j) t \<longleftrightarrow> bitmap_test (of_nat j) s \<and> j \<notin> {k..<k + n}"
    if "j < 2 ^ 64" for j using assms(1) that by (simp add: freed_upto_def)
  have neq: "(of_nat j = (of_nat (k + n) :: u64)) = (j = k + n)" if "j < 2 ^ 64" for j
    using that assms(2) by (rule of_nat_u64_eq_iff)
  have outside: "mem t x = mem s x" if "x \<notin> bitmap_bytes s k n" for x
    using assms(1) that by (simp add: freed_upto_def)
  have cnt: "free_frames t = free_frames s + of_nat (card {j \<in> {k..<k + n}. bitmap_test (of_nat j) s})"
    using assms(1) by (simp add: freed_upto_def)
  show ?thesis
    unfolding freed_upto_def
  proof (intro conjI allI impI)
    show "pmm_frame s (if bitmap_test (of_nat (k + n)) t
        then (bitmap_clear (of_nat (k + n)) t)\<lparr>free_frames := free_frames t + 1\<rparr> else t)"
      using fr by (simp add: pmm_frame_update pmm_frame_bitmap_ops)
  next
    fix j :: nat assume j: "j < 2 ^ 64"
    show "bitmap_test (of_nat j) (if bitmap_test (of_nat (k + n)) t
        then (bitmap_clear (of_nat (k + n)) t)\<lparr>free_frames := free_frames t + 1\<rparr> else t)
        \<longleftrightarrow> bitmap_test (of_nat j) s \<and> j \<notin> {k..<k + Suc n}"
      using other [OF j] neq [OF j] test by (auto simp: less_Suc_eq simp del: of_nat_add)
  next
    show "free_frames (if bitmap_test (of_nat (k + n)) t
        then (bitmap_clear (of_nat (k + n)) t)\<lparr>free_frames := free_frames t + 1\<rparr> else t)
        = free_frames s + of_nat (card {j \<in> {k..<k + Suc n}. bitmap_test (of_nat j) s})"
      unfolding card_filter_Suc using cnt test by (simp del: of_nat_add)
  next
    fix x assume "x \<notin> bitmap_bytes s k (Suc n)"
    then show "mem (if bitmap_test (of_nat (k + n)) t
        then (bitmap_clear (of_nat (k + n)) t)\<lparr>free_frames := free_frames t + 1\<rparr> else t) x = mem s x"
      using outside bitmap_bytes_Suc [of x s k n] pmm_frame_fields(2) [OF fr]
      by (simp add: mem_bitmap_clear del: of_nat_add)
  qed
qed

lemma pmm_free_region_effect:
  "freed_upto s (unat ((base - mem_phys_base s) div PAGE_SIZE)) (unat (sz div PAGE_SIZE))
     (pmm_free_region base sz s)"
proof -
  let ?start = "(base - mem_phys_base s) div PAGE_SIZE"
  let ?k = "unat ?start"
  have small: "?k + unat (sz div PAGE_SIZE) < 2 ^ 64"
    using unat_div_page_lt [of "base - mem_phys_base s"] unat_div_page_lt [of sz] by simp
  show ?thesis
    unfolding pmm_free_region_def Let_def
  proof (rule for_loop_invariant [where I = "freed_upto s ?k"])
    show "freed_upto s ?k (unat 0) s" by (simp add: freed_upto_def)
  next
    fix c t assume c: "c < unat (sz div PAGE_SIZE)" and I: "freed_upto s ?k c t"
    have idx: "?start + of_nat c = of_nat (?k + c)" by simp
    have "?k + c < 2 ^ 64" using c small by linarith
    from freed_upto_Suc [OF I this]
    show "freed_upto s ?k (Suc c)
        (if bitmap_test (?start + of_nat c) t
         then (bitmap_clear (?start + of_nat c) t)
           \<lparr>free_frames := free_frames (bitmap_clear (?start + of_nat c) t) + 1\<rparr> else t)"
      unfolding idx bitmap_clear_fields .
  qed simp
qed

subsection \<open>The contract holds\<close>

lemma avail_frames_taken:
  assumes "pmm_inv d s" and "i \<in> free_set s"
  shows "avail_frames (taken i s) = avail_frames s - {frame_addr s i}"
proof -
  have inj: "inj_on (frame_addr s) (free_set s)"
    using frame_addr_inj [OF assms(1)] free_set_subset by (rule inj_on_subset)
  have "free_set (taken i s) = free_set s - {i}"
    using free_set_bound [OF assms(2)] by (rule free_set_taken)
  then show ?thesis
    using inj_on_image_set_diff [OF inj, of "free_set s" "{i}"] assms(2)
    by (simp add: avail_frames_def)
qed

interpretation pmm: frame_provider pmm_alloc_frame pmm_free_frame avail_frames managed_frames pmm_ok
proof
  fix s assume "pmm_ok s" and ne: "avail_frames s \<noteq> {}"
  then obtain d where inv: "pmm_inv d s" by (auto simp: pmm_ok_def)
  have "free_set s \<noteq> {}" using ne by (auto simp: avail_frames_def)
  from pmm_alloc_frame_ok [OF inv this] obtain i where i: "i \<in> free_set s"
    "pmm_alloc_frame s = Ret (frame_addr s i) (taken i s)" "pmm_inv d (taken i s)" .
  then show "\<exists>a s'. pmm_alloc_frame s = Ret a s' \<and> a \<in> avail_frames s \<and>
      avail_frames s' = avail_frames s - {a} \<and> managed_frames s' = managed_frames s \<and> pmm_ok s'"
    using avail_frames_taken [OF inv i(1)]
    by (intro exI [of _ "frame_addr s i"] exI [of _ "taken i s"])
      (auto simp: avail_frames_def managed_frames_def pmm_ok_def)
next
  fix s s' a assume "pmm_ok s" and "avail_frames s = {}" and r: "pmm_alloc_frame s = Ret a s'"
  then obtain d where "pmm_inv d s" and "free_set s = {}"
    by (auto simp: pmm_ok_def avail_frames_def)
  with r pmm_alloc_frame_full [of s] show "a = 0 \<and> s' = s"
    by (auto simp: pmm_inv_def split: if_splits)
next
  fix s a assume "pmm_ok s" and "a \<in> managed_frames s"
  then obtain d i where inv: "pmm_inv d s" and i: "i < unat (total_frames s)" "a = frame_addr s i"
    by (auto simp: pmm_ok_def managed_frames_def)
  note F = pmm_free_frame_ok [OF inv i(1)]
  have "frame_addr (pmm_free_frame a s) = frame_addr s"
    using F(4) i(2) by (simp add: frame_addr_def fun_eq_iff)
  with F i show "avail_frames (pmm_free_frame a s) = insert a (avail_frames s) \<and>
      managed_frames (pmm_free_frame a s) = managed_frames s \<and> pmm_ok (pmm_free_frame a s)"
    by (auto simp: avail_frames_def managed_frames_def pmm_ok_def)
next
  fix s show "avail_frames s \<subseteq> managed_frames s"
    using free_set_subset by (auto simp: avail_frames_def managed_frames_def)
next
  fix s show "finite (managed_frames s)" by (simp add: managed_frames_def)
next
  fix s assume "pmm_ok s"
  then obtain d where "pmm_inv d s" by (auto simp: pmm_ok_def)
  then show "0 \<notin> managed_frames s"
    using frame_addr_not_null by (auto simp: managed_frames_def)
qed

lemma pmm_frame_trans:
  assumes "pmm_frame s t" and "pmm_frame t u"
  shows "pmm_frame s u"
proof -
  have "u\<lparr>mem := mem s, free_frames := free_frames s\<rparr>
      = (u\<lparr>mem := mem t, free_frames := free_frames t\<rparr>)\<lparr>mem := mem s, free_frames := free_frames s\<rparr>"
    by simp
  also have "\<dots> = s" using assms by (simp add: pmm_frame_def)
  finally show ?thesis by (simp add: pmm_frame_def)
qed

subsection \<open>Reserving a region\<close>

text \<open>What reserving \<open>n\<close> frames from index \<open>k\<close> on has done to a state.\<close>

definition reserved_upto :: "kstate \<Rightarrow> nat \<Rightarrow> nat \<Rightarrow> kstate \<Rightarrow> bool" where
  "reserved_upto s k n t \<longleftrightarrow>
     pmm_frame s t \<and>
     (\<forall>j < 2 ^ 64. bitmap_test (of_nat j) t \<longleftrightarrow> bitmap_test (of_nat j) s \<or> j \<in> {k..<k + n}) \<and>
     unat (free_frames t) =
       unat (free_frames s) - card {j \<in> {k..<k + n}. \<not> bitmap_test (of_nat j) s} \<and>
     (\<forall>x. x \<notin> bitmap_bytes s k n \<longrightarrow> mem t x = mem s x)"

lemma reserved_upto_Suc:
  assumes "reserved_upto s k n t" and "k + n < 2 ^ 64"
  shows "reserved_upto s k (Suc n)
    (if \<not> bitmap_test (of_nat (k + n)) t
     then (if free_frames t > 0
           then (bitmap_set (of_nat (k + n)) t)\<lparr>free_frames := free_frames t - 1\<rparr>
           else bitmap_set (of_nat (k + n)) t)
     else t)" (is "reserved_upto s k (Suc n) ?t")
proof -
  have fr: "pmm_frame s t"
    and test: "bitmap_test (of_nat (k + n)) t \<longleftrightarrow> bitmap_test (of_nat (k + n)) s"
    and cnt: "unat (free_frames t) =
      unat (free_frames s) - card {j \<in> {k..<k + n}. \<not> bitmap_test (of_nat j) s}"
    using assms by (simp_all add: reserved_upto_def del: of_nat_add)
  have other: "bitmap_test (of_nat j) t \<longleftrightarrow> bitmap_test (of_nat j) s \<or> j \<in> {k..<k + n}"
    if "j < 2 ^ 64" for j using assms(1) that by (simp add: reserved_upto_def)
  have neq: "(of_nat j = (of_nat (k + n) :: u64)) = (j = k + n)" if "j < 2 ^ 64" for j
    using that assms(2) by (rule of_nat_u64_eq_iff)
  have outside: "mem t x = mem s x" if "x \<notin> bitmap_bytes s k n" for x
    using assms(1) that by (simp add: reserved_upto_def)
  have dec: "unat (if free_frames t > 0 then free_frames t - 1 else free_frames t)
      = unat (free_frames t) - 1"
    by (auto simp: unat_minus_one word_gt_0)
  have "pmm_frame s ?t" using fr by (simp add: pmm_frame_update pmm_frame_bitmap_ops)
  moreover have "bitmap_test (of_nat j) ?t \<longleftrightarrow> bitmap_test (of_nat j) s \<or> j \<in> {k..<k + Suc n}"
    if "j < 2 ^ 64" for j
    using other [OF that] neq [OF that] test by (auto simp: less_Suc_eq simp del: of_nat_add)
  moreover have "unat (free_frames ?t) =
      unat (free_frames s) - card {j \<in> {k..<k + Suc n}. \<not> bitmap_test (of_nat j) s}"
    unfolding card_filter_Suc using cnt test dec by (auto simp del: of_nat_add)
  moreover have "mem ?t x = mem s x" if "x \<notin> bitmap_bytes s k (Suc n)" for x
    using that outside bitmap_bytes_Suc [of x s k n] pmm_frame_fields(2) [OF fr]
    by (simp add: mem_bitmap_set del: of_nat_add)
  ultimately show ?thesis by (simp add: reserved_upto_def)
qed

lemma pmm_reserve_region_effect:
  "reserved_upto s (unat ((base - mem_phys_base s) div PAGE_SIZE))
     (unat (ALIGN_UP sz PAGE_SIZE div PAGE_SIZE)) (pmm_reserve_region base sz s)"
proof -
  let ?start = "(base - mem_phys_base s) div PAGE_SIZE"
    and ?cnt = "ALIGN_UP sz PAGE_SIZE div PAGE_SIZE"
  let ?k = "unat ?start"
  have small: "?k + unat ?cnt < 2 ^ 64"
    using unat_div_page_lt [of "base - mem_phys_base s"] unat_div_page_lt [of "ALIGN_UP sz PAGE_SIZE"]
    by simp
  show ?thesis
    unfolding pmm_reserve_region_def Let_def
  proof (rule for_loop_invariant [where I = "reserved_upto s ?k"])
    show "reserved_upto s ?k (unat 0) s" by (simp add: reserved_upto_def)
  next
    fix c t assume c: "c < unat ?cnt" and I: "reserved_upto s ?k c t"
    have idx: "?start + of_nat c = of_nat (?k + c)" by simp
    have "?k + c < 2 ^ 64" using c small by linarith
    from reserved_upto_Suc [OF I this]
    show "reserved_upto s ?k (Suc c)
        (if \<not> bitmap_test (?start + of_nat c) t
         then if 0 < free_frames (bitmap_set (?start + of_nat c) t)
              then (bitmap_set (?start + of_nat c) t)
                \<lparr>free_frames := free_frames (bitmap_set (?start + of_nat c) t) - 1\<rparr>
              else bitmap_set (?start + of_nat c) t
         else t)"
      unfolding idx bitmap_set_fields .
  qed simp
qed

subsection \<open>Starting the allocator\<close>

text \<open>The size of the bitmap, and when it has a bit for every frame.\<close>

definition pmm_bitmap_size :: "u64 \<Rightarrow> u64" where
  "pmm_bitmap_size tot = ALIGN_UP (tot div 8) 8"

lemma unat_pmm_bitmap_size: "unat (pmm_bitmap_size tot) = (unat tot div 8 + 7) div 8 * 8"
proof -
  have "unat tot div 8 + 7 < 2 ^ 64" using unat_lt_u64 [of tot] by (simp del: unat_lt_u64)
  then show ?thesis using unat_ALIGN_UP [of 3 "tot div 8"] by (simp add: pmm_bitmap_size_def unat_div)
qed

lemma pmm_bitmap_size_covers_iff:
  "unat tot \<le> 8 * unat (pmm_bitmap_size tot) \<longleftrightarrow> unat tot mod 64 \<notin> {1..7}"
proof -
  obtain q r where n: "unat tot = 64 * q + r" and r: "r < 64"
    by (metis mod_less_divisor mult_div_mod_eq zero_less_numeral)
  have d: "(64 * q + r) div 8 = 8 * q + r div 8" by simp
  have "(8 * q + r div 8 + 7) div 8 = q + (r div 8 + 7) div 8"
    using div_mult_self4 [of 8 q "r div 8 + 7"] by (simp add: ac_simps)
  moreover have "(r div 8 + 7) div 8 = (if r < 8 then 0 else 1)" using r by auto
  ultimately show ?thesis using r unfolding unat_pmm_bitmap_size n d by auto
qed

text \<open>Memory with \<open>n\<close> bytes at \<open>a\<close> set to \<open>v\<close>, and the loop that marks every frame used.\<close>

definition filled :: "memory \<Rightarrow> u64 \<Rightarrow> nat \<Rightarrow> u8 \<Rightarrow> memory" where
  "filled m a n v = (\<lambda>x. if x \<in> region a n then v else m x)"

lemma pmm_init_fill:
  "for_loop 0 n (\<lambda>i s. s\<lparr>mem := (mem s)(frame_bitmap s + i := 0xFF)\<rparr>) s
     = s\<lparr>mem := filled (mem s) (frame_bitmap s) (unat n) 0xFF\<rparr>"
proof -
  let ?F = "\<lambda>k. s\<lparr>mem := filled (mem s) (frame_bitmap s) k 0xFF\<rparr>"
  have "for_loop 0 n (\<lambda>i s. s\<lparr>mem := (mem s)(frame_bitmap s + i := 0xFF)\<rparr>) s = ?F (unat n)"
  proof (rule for_loop_invariant [where I = "\<lambda>k t. t = ?F k"])
    show "s = ?F (unat 0)" by (simp add: region_def filled_def)
  next
    fix k t assume k: "k < unat n" and t: "t = ?F k"
    have "k < 2 ^ 64" using k unat_lt_u64 [of n] by (simp del: unat_lt_u64)
    then have "x = frame_bitmap s + of_nat k \<longleftrightarrow> unat (x - frame_bitmap s) = k" for x
      by (metis add_diff_cancel_left' add_diff_cancel_right' diff_add_cancel unat_eq_of_nat_u64
          unat_of_nat_u64 add.commute)
    then have "(mem (?F k))(frame_bitmap s + of_nat k := 0xFF) = mem (?F (Suc k))"
      by (auto simp: fun_eq_iff region_def filled_def less_Suc_eq)
    then show "t\<lparr>mem := (mem t)(frame_bitmap t + of_nat k := 0xFF)\<rparr> = ?F (Suc k)"
      by (simp add: t)
  qed simp
  then show ?thesis .
qed


lemma pmm_init_ok:
  assumes "boot_wf s"
    and "unat (boot_heap_ptr s) + unat (pmm_bitmap_size (sz div PAGE_SIZE)) + 15
      \<le> unat (boot_heap_end s)"
  obtains out p' where "pmm_init base sz s = Ret ()
    (s\<lparr>mem_phys_base := base, total_frames := sz div PAGE_SIZE, free_frames := sz div PAGE_SIZE,
       boot_heap_ptr := p', frame_bitmap := boot_heap_ptr s, uart_out := out,
       mem := filled (mem s) (boot_heap_ptr s) (unat (pmm_bitmap_size (sz div PAGE_SIZE))) 0xFF\<rparr>)"
    and "unat p' = unat (boot_heap_ptr s) + unat (ALIGN_UP (pmm_bitmap_size (sz div PAGE_SIZE)) 16)"
    and "p' \<le> boot_heap_end s"
proof -
  let ?n = "pmm_bitmap_size (sz div PAGE_SIZE)"
  have n: "unat ?n + 15 < 2 ^ 64" using assms(2) unat_lt_u64 [of "boot_heap_end s"]
    by (simp del: unat_lt_u64)
  have le: "unat (boot_heap_ptr s) + unat (ALIGN_UP ?n 16) \<le> unat (boot_heap_end s)"
    using ALIGN_UP_16(1) [OF n] assms(2) by simp
  let ?t = "klog_info ''mm'' ''allocating %u bytes for frame bitmap (%u total frames)''
     [VNum ?n, VNum (sz div PAGE_SIZE)]
     (s\<lparr>mem_phys_base := base, total_frames := sz div PAGE_SIZE, free_frames := sz div PAGE_SIZE\<rparr>)"
  have "boot_wf ?t" using assms(1) by (simp add: boot_wf_def)
  note A = mm_boot_alloc_ok [OF this n]
  have run: "mm_boot_alloc ?n ?t
      = Ret (boot_heap_ptr s) (?t\<lparr>boot_heap_ptr := boot_heap_ptr s + ALIGN_UP ?n 16\<rparr>)"
    and un: "unat (boot_heap_ptr s + ALIGN_UP ?n 16)
      = unat (boot_heap_ptr s) + unat (ALIGN_UP ?n 16)"
    using A le by simp_all
  have nn: "boot_heap_ptr s \<noteq> 0" using assms(1) by (simp add: boot_wf_def)
  show thesis
  proof (rule that)
    show "unat (boot_heap_ptr s + ALIGN_UP ?n 16)
      = unat (boot_heap_ptr s) + unat (ALIGN_UP ?n 16)" by (fact un)
    show "boot_heap_ptr s + ALIGN_UP ?n 16 \<le> boot_heap_end s"
      using un le by (simp add: word_le_nat_alt)
    show "pmm_init base sz s = Ret ()
      (s\<lparr>mem_phys_base := base, total_frames := sz div PAGE_SIZE, free_frames := sz div PAGE_SIZE,
         boot_heap_ptr := boot_heap_ptr s + ALIGN_UP ?n 16, frame_bitmap := boot_heap_ptr s,
         uart_out := uart_out ?t @
           klog_line Info ''mm'' ''physical frame allocator initialized successfully'' [],
         mem := filled (mem s) (boot_heap_ptr s) (unat ?n) 0xFF\<rparr>)"
      using run nn
      by (simp add: pmm_init_def Let_def pmm_bitmap_size_def [symmetric] pmm_init_fill)
        (simp add: klog_info_eq)
  qed
qed

lemma filled_outside: "x \<notin> region a n \<Longrightarrow> filled m a n v x = m x"
  by (simp add: filled_def)

lemma bitmap_test_filled:
  assumes "j div 8 < n" and "j < 2 ^ 64" and "mem s = filled m (frame_bitmap s) n 0xFF"
  shows "bitmap_test (of_nat j) s"
proof -
  have "unat (of_nat j div 8 :: u64) = j div 8" using assms(2) by (simp add: unat_div unat_of_nat_u64)
  then have "mem s (frame_bitmap s + of_nat j div 8) = 0xFF"
    using assms(1,3) by (simp add: filled_def region_def)
  moreover have "bit (0xFF :: u8) k" if "k < 8" for k
  proof -
    have "(0xFF :: u8) = mask 8" by (simp add: mask_eq_exp_minus_1)
    moreover have "bit (mask 8 :: u8) k" using that unfolding bit_mask_iff by simp
    ultimately show ?thesis by simp
  qed
  ultimately show ?thesis by (simp add: bitmap_test_bit unat_mod8)
qed

text \<open>
  The start sequence of \<^verbatim>\<open>mm_init\<close>: mark all frames used, free all of memory, reserve the
  kernel. The counter ends up ahead of the free frames by the number of all frames.
\<close>

lemma pmm_start:
  assumes s: "mem s = filled m (frame_bitmap s) (unat (pmm_bitmap_size (total_frames s))) 0xFF"
    "mem_phys_base s = base" "total_frames s = sz div PAGE_SIZE" "free_frames s = total_frames s"
    and cover: "unat (total_frames s) mod 64 \<notin> {1..7}"
    and k: "unat k + 4095 < 2 ^ 64" "(unat k + 4095) div 4096 \<le> unat (total_frames s)"
  defines "t \<equiv> pmm_reserve_region base k (pmm_free_region base sz s)"
  shows "pmm_frame s t"
    and "free_set t = {(unat k + 4095) div 4096..<unat (total_frames s)}"
    and "unat (free_frames t) = card (free_set t) + unat (total_frames s)"
    and "x \<notin> bitmap_region s \<Longrightarrow> mem t x = mem s x"
proof -
  let ?T = "unat (total_frames s)" and ?r = "(unat k + 4095) div 4096"
  let ?u = "pmm_free_region base sz s"
  have T: "?T < 2 ^ 52" using s(3) unat_div_page_lt [of sz] by simp
  have start: "unat ((base - mem_phys_base s) div PAGE_SIZE) = 0" using s(2) by (simp add: unat_div_page)
  have F: "freed_upto s 0 ?T ?u"
    using pmm_free_region_effect [of s base sz] start s(3) by simp
  have fr: "pmm_frame s ?u" using F by (simp add: freed_upto_def)
  have "unat (ALIGN_UP k (2 ^ 12)) = (unat k + 4095) div 4096 * 4096"
    using unat_ALIGN_UP [of 12 k] k(1) by simp
  then have r: "unat (ALIGN_UP k PAGE_SIZE div PAGE_SIZE) = ?r"
    by (simp add: unat_div_page) (simp add: PAGE_SIZE_def)
  have R: "reserved_upto ?u 0 ?r t"
    using pmm_reserve_region_effect [of ?u base k] r start pmm_frame_fields(4) [OF fr]
    by (simp add: t_def)
  have used: "bitmap_test (of_nat j) s" if "j < ?T" for j
  proof (rule bitmap_test_filled [OF _ _ s(1)])
    show "j div 8 < unat (pmm_bitmap_size (total_frames s))"
      using that cover pmm_bitmap_size_covers_iff [of "total_frames s"] by linarith
  qed (use that T in simp)
  show "pmm_frame s t" using fr R by (auto simp: reserved_upto_def intro: pmm_frame_trans)
  have tot: "total_frames t = total_frames s"
    using pmm_frame_fields(3) [OF \<open>pmm_frame s t\<close>] .
  have test: "bitmap_test (of_nat j) t \<longleftrightarrow> j < ?r" if "j < ?T" for j
    using that T F R used [OF that] by (simp add: freed_upto_def reserved_upto_def)
  show fs: "free_set t = {?r..<?T}" using test by (auto simp: free_set_def tot not_less)
  have "free_frames ?u = free_frames s + of_nat (card {j \<in> {0..<?T}. bitmap_test (of_nat j) s})"
    using F by (simp add: freed_upto_def)
  also have "{j \<in> {0..<?T}. bitmap_test (of_nat j) s} = {0..<?T}" using used by auto
  finally have "free_frames ?u = of_nat (2 * ?T)" using s(4) by simp
  moreover have "2 * ?T < 2 ^ 64" using T by simp
  ultimately have cu: "unat (free_frames ?u) = 2 * ?T" by (simp add: unat_of_nat_u64 del: of_nat_mult)
  have "\<not> bitmap_test (of_nat j) ?u" if "j < ?T" for j
    using that T F by (simp add: freed_upto_def)
  then have "{j \<in> {0..<?r}. \<not> bitmap_test (of_nat j) ?u} = {0..<?r}" using k(2) by auto
  then have "unat (free_frames t) = 2 * ?T - ?r" using R cu by (simp add: reserved_upto_def)
  then show "unat (free_frames t) = card (free_set t) + ?T" using fs k(2) by simp
  have "bitmap_bytes ?u 0 ?r \<subseteq> bitmap_bytes s 0 ?T"
    using k(2) pmm_frame_fields(2) [OF fr] by (auto simp: bitmap_bytes_def)
  then show "mem t x = mem s x" if "x \<notin> bitmap_region s"
    using that F R by (auto simp: freed_upto_def reserved_upto_def bitmap_bytes_region)
qed

lemma pmm_inv_start:
  assumes "pmm_frame s t" and "last_free_index s = 0" and "mem_phys_base s \<noteq> 0"
    and "unat (mem_phys_base s) + unat (total_frames s) * 4096 \<le> 2 ^ 64"
    and "unat (free_frames t) = card (free_set t) + unat (total_frames s)"
  shows "pmm_inv (unat (total_frames s)) t"
  using assms(2-5) pmm_frame_fields [OF assms(1)] by (simp add: pmm_inv_def)

lemma pmm_free_frame_inside:
  assumes "pmm_inv d s" and "mem_phys_base s \<le> a"
    and "unat (a - mem_phys_base s) div 4096 < unat (total_frames s)"
  shows "pmm_free_frame a s = pmm_free_frame (frame_addr s (unat (a - mem_phys_base s) div 4096)) s"
proof -
  let ?i = "unat (a - mem_phys_base s) div 4096"
  have "(a - mem_phys_base s) div PAGE_SIZE = of_nat ?i"
    by (rule unat_eq_of_nat_u64) (simp add: unat_div_page)
  moreover have "\<not> frame_addr s ?i < mem_phys_base s"
    using pmm_inv_pos(3) [OF assms(1,3)] by (simp add: not_less)
  ultimately show ?thesis
    using assms(2) pmm_inv_pos(2) [OF assms(1,3)] by (simp add: pmm_free_frame_def)
qed

lemma pmm_free_frame_outside:
  assumes "a < mem_phys_base s \<or> unat (total_frames s) \<le> unat (a - mem_phys_base s) div 4096"
  shows "pmm_free_frame a s = s"
  using assms by (auto simp: pmm_free_frame_def Let_def word_le_nat_alt unat_div_page)

section \<open>Properties\<close>

text \<open>
  C31: while a frame is free, \<^verbatim>\<open>pmm_alloc_frame\<close> returns: it takes the first free frame at or
  after \<open>last_free_index\<close>, or else the first one from index 0 on, marks that frame used and no
  other, writes no memory outside the bitmap, and keeps the allocator's invariant.
\<close>

theorem pmm_alloc_frame_next_fit_sound:
  assumes "pmm_inv d s" and "free_set s \<noteq> {}"
  shows "\<exists>i s'. next_fit s = Some i \<and> i \<in> free_set s \<and>
           pmm_alloc_frame s = Ret (frame_addr s i) s' \<and>
           free_set s' = free_set s - {i} \<and> pmm_inv d s' \<and>
           (\<forall>x. x \<notin> bitmap_region s \<longrightarrow> mem s' x = mem s x)"
proof -
  from pmm_alloc_frame_ok [OF assms] obtain i where "next_fit s = Some i" "i \<in> free_set s"
    "pmm_alloc_frame s = Ret (frame_addr s i) (taken i s)" "pmm_inv d (taken i s)"
    "free_set (taken i s) = free_set s - {i}" .
  then show ?thesis using mem_taken [OF free_set_bound] by blast
qed

text \<open>A small machine: sixteen frames from 2 GiB on, all free, the search at frame 5.\<close>

definition pmm_demo :: kstate where
  "pmm_demo = (reset_state RISCV (\<lambda>_. 0) 0 0)
     \<lparr>frame_bitmap := 0x1000, total_frames := 16, free_frames := 16,
      mem_phys_base := 0x80000000, last_free_index := 5\<rparr>"

lemma pmm_demo_facts:
  "free_set pmm_demo = {..<16}" "pmm_inv 0 pmm_demo" "frame_addr pmm_demo 5 = 0x80005000"
  "total_frames pmm_demo = 16" "next_fit pmm_demo = Some 5"
proof -
  show fs: "free_set pmm_demo = {..<16}"
    by (auto simp: free_set_def pmm_demo_def bitmap_test_def reset_state_def)
  then show "pmm_inv 0 pmm_demo" by (simp add: pmm_inv_def) (simp add: pmm_demo_def)
  show "frame_addr pmm_demo 5 = 0x80005000"
    by (simp add: frame_addr_def pmm_demo_def PAGE_SIZE_def)
  show "total_frames pmm_demo = 16" by (simp add: pmm_demo_def)
  have l: "last_free_index pmm_demo = 5" "total_frames pmm_demo = 16"
    by (simp_all add: pmm_demo_def)
  have "[5..<16] = 5 # [6..<16 :: nat]" by (simp add: upt_conv_Cons)
  then show "next_fit pmm_demo = Some 5" by (simp add: next_fit_def fs l)
qed

theorem pmm_alloc_frame_next_fit_sound_witness:
  "\<exists>s'. pmm_alloc_frame pmm_demo = Ret 0x80005000 s' \<and> free_set s' = {..<16} - {5}"
proof -
  have "free_set pmm_demo \<noteq> {}" by (simp add: pmm_demo_facts lessThan_empty_iff)
  from pmm_alloc_frame_next_fit_sound [OF pmm_demo_facts(2) this]
  show ?thesis by (auto simp: pmm_demo_facts)
qed

text \<open>
  when no frame is free and the counter is exact the kernel panics, and when the counter
  is ahead of the free frames the allocator returns 0 and changes nothing.
\<close>

theorem pmm_alloc_frame_exhausted:
  assumes "pmm_inv d s" and "free_set s = {}"
  shows "if d = 0 then \<exists>s'. pmm_alloc_frame s = Halt s' else pmm_alloc_frame s = Ret 0 s"
proof -
  have "free_frames s = 0 \<longleftrightarrow> d = 0"
    using assms by (simp add: pmm_inv_def unat_eq_0 [symmetric])
  then show ?thesis
    using assms pmm_alloc_frame_full [of s] panic_halts by (auto simp: pmm_inv_def)
qed

theorem pmm_alloc_frame_exhausted_witness:
  "pmm_alloc_frame (pmm_demo\<lparr>mem := \<lambda>_. 0xFF\<rparr>) = Ret 0 (pmm_demo\<lparr>mem := \<lambda>_. 0xFF\<rparr>)"
proof -
  let ?s = "pmm_demo\<lparr>mem := \<lambda>_. 0xFF\<rparr>"
  have "bitmap_test (of_nat j) ?s" if "j < 16" for j
    using that by (intro bitmap_test_filled [where n = 16 and m = "\<lambda>_. 0xFF"])
      (auto simp: filled_def)
  then have e: "free_set ?s = {}" by (auto simp: free_set_def pmm_demo_facts(4))
  have "pmm_inv 16 ?s" unfolding pmm_inv_def e by (simp add: pmm_demo_def)
  from pmm_alloc_frame_exhausted [OF this e] show ?thesis by simp
qed

text \<open>
  as many allocations as there are free frames all succeed, and the addresses they
  return are not null and are pages that do not overlap.
\<close>

theorem pmm_allocations_disjoint:
  assumes "pmm_ok s" and "n \<le> card (avail_frames s)"
  shows "\<exists>as s'. pmm.alloc_run n s = Ret as s' \<and> length as = n \<and> distinct as \<and> 0 \<notin> set as \<and>
           set as \<subseteq> avail_frames s \<and> avail_frames s' = avail_frames s - set as \<and>
           (\<forall>a b. a \<in> set as \<and> b \<in> set as \<and> a \<noteq> b \<longrightarrow> region a 4096 \<inter> region b 4096 = {})"
proof -
  from pmm.alloc_run_distinct [OF assms] obtain as s' where A: "pmm.alloc_run n s = Ret as s'"
    "length as = n" "distinct as" "set as \<subseteq> avail_frames s" "avail_frames s' = avail_frames s - set as"
    "0 \<notin> set as" by blast
  obtain d where inv: "pmm_inv d s" using assms(1) by (auto simp: pmm_ok_def)
  have "region a 4096 \<inter> region b 4096 = {}"
    if ab: "a \<in> avail_frames s" "b \<in> avail_frames s" "a \<noteq> b" for a b
  proof -
    from ab obtain i j where "i \<in> free_set s" "a = frame_addr s i" "j \<in> free_set s" "b = frame_addr s j"
      by (auto simp: avail_frames_def)
    with ab(3) frame_regions_disjoint [OF inv, of i j] free_set_bound show ?thesis by blast
  qed
  with A show ?thesis by (intro exI [of _ as] exI [of _ s']) blast
qed

theorem pmm_allocations_disjoint_witness:
  "\<exists>as s'. pmm.alloc_run 16 pmm_demo = Ret as s' \<and> distinct as \<and> avail_frames s' = avail_frames pmm_demo - set as"
proof -
  have ok: "pmm_ok pmm_demo" using pmm_demo_facts(2) by (auto simp: pmm_ok_def)
  have "card (avail_frames pmm_demo) = 16"
    using card_image [OF frame_addr_inj [OF pmm_demo_facts(2)]]
    by (simp add: avail_frames_def pmm_demo_facts)
  then have "16 \<le> card (avail_frames pmm_demo)" by simp
  from pmm_allocations_disjoint [OF ok this] show ?thesis by blast
qed

text \<open>
  C32: \<^verbatim>\<open>pmm_free_frame\<close> undoes \<^verbatim>\<open>pmm_alloc_frame\<close>: allocating a frame and freeing it gives
  back the same set of free frames, with the invariant kept.
\<close>

theorem pmm_alloc_free_roundtrip:
  assumes "pmm_ok s" and "avail_frames s \<noteq> {}"
  shows "\<exists>a s'. pmm_alloc_frame s = Ret a s' \<and>
           avail_frames (pmm_free_frame a s') = avail_frames s \<and> pmm_ok (pmm_free_frame a s')"
  using assms by (rule pmm.alloc_release)

theorem pmm_alloc_free_roundtrip_witness:
  "\<exists>a s'. pmm_alloc_frame pmm_demo = Ret a s' \<and>
     avail_frames (pmm_free_frame a s') = avail_frames pmm_demo"
proof -
  have ok: "pmm_ok pmm_demo" using pmm_demo_facts(2) by (auto simp: pmm_ok_def)
  have "avail_frames pmm_demo \<noteq> {}"
    by (simp add: avail_frames_def pmm_demo_facts lessThan_empty_iff)
  from pmm_alloc_free_roundtrip [OF ok this] show ?thesis by blast
qed

text \<open>
  \<^verbatim>\<open>pmm_free_frame\<close> on any address: an address of no managed frame is ignored; any address
  inside a managed frame makes that frame free, and no other, whether it was in use or not (so
  a second release changes nothing); the invariant is kept and only bitmap bytes are written.
\<close>

theorem pmm_free_frame_total:
  assumes "pmm_inv d s"
  shows "(if mem_phys_base s \<le> a \<and> unat (a - mem_phys_base s) div 4096 < unat (total_frames s)
          then free_set (pmm_free_frame a s) = insert (unat (a - mem_phys_base s) div 4096) (free_set s)
          else pmm_free_frame a s = s) \<and>
         pmm_inv d (pmm_free_frame a s) \<and>
         pmm_free_frame a (pmm_free_frame a s) = pmm_free_frame a s \<and>
         (\<forall>x. x \<notin> bitmap_region s \<longrightarrow> mem (pmm_free_frame a s) x = mem s x)"
proof (cases "mem_phys_base s \<le> a \<and> unat (a - mem_phys_base s) div 4096 < unat (total_frames s)")
  case True
  let ?i = "unat (a - mem_phys_base s) div 4096" and ?t = "pmm_free_frame a s"
  have eq: "?t = pmm_free_frame (frame_addr s ?i) s"
    using pmm_free_frame_inside [OF assms] True by simp
  note F = pmm_free_frame_ok [OF assms conjunct2 [OF True], folded eq]
  have "pmm_free_frame a ?t = pmm_free_frame (frame_addr ?t ?i) ?t"
    using pmm_free_frame_inside [OF F(2), of a] True F(3,4) by simp
  also have "\<dots> = ?t" using pmm_free_frame_eq [OF F(2), of ?i] True F(1,3) by simp
  finally show ?thesis
    using True F mem_pmm_free_frame [OF assms, of ?i] eq by simp
next
  case False
  then have "pmm_free_frame a s = s" by (intro pmm_free_frame_outside) auto
  with False assms show ?thesis by auto
qed

theorem pmm_free_frame_total_witness:
  "pmm_inv 0 (pmm_free_frame 0x80003123 pmm_demo) \<and> pmm_free_frame 0x7FFFFFFF pmm_demo = pmm_demo"
  using pmm_free_frame_total [OF pmm_demo_facts(2), of "0x80003123"]
    pmm_free_frame_total [OF pmm_demo_facts(2), of "0x7FFFFFFF"]
  by (simp add: pmm_demo_def)

text \<open>
  the start sequence of \<^verbatim>\<open>mm_init\<close> (initialise, free all of memory, reserve the kernel
  from the base on) returns with exactly the frames above the kernel free, the search at frame 0
  and the bitmap the only memory written; but the counter is ahead of the free frames by the
  number of all frames, because \<^verbatim>\<open>pmm_init\<close> starts it at the total while every frame is marked
  used. (The number of frames modulo 64 is not 1 to 7, where the bitmap lacks a byte.)
\<close>

theorem pmm_start_state:
  assumes "boot_wf s" and "last_free_index s = 0" and "base \<noteq> 0"
    and "unat (boot_heap_ptr s) + unat (pmm_bitmap_size (sz div PAGE_SIZE)) + 15
      \<le> unat (boot_heap_end s)"
    and "unat base + unat (sz div PAGE_SIZE) * 4096 \<le> 2 ^ 64"
    and "unat (sz div PAGE_SIZE) mod 64 \<notin> {1..7}"
    and "unat k + 4095 < 2 ^ 64" and "(unat k + 4095) div 4096 \<le> unat (sz div PAGE_SIZE)"
  shows "\<exists>s1. pmm_init base sz s = Ret () s1 \<and>
     (let s2 = pmm_reserve_region base k (pmm_free_region base sz s1)
      in free_set s2 = {(unat k + 4095) div 4096..<unat (sz div PAGE_SIZE)} \<and>
         mem_phys_base s2 = base \<and> frame_bitmap s2 = boot_heap_ptr s \<and>
         unat (free_frames s2) = card (free_set s2) + unat (sz div PAGE_SIZE) \<and>
         pmm_inv (unat (sz div PAGE_SIZE)) s2)"
proof -
  from pmm_init_ok [OF assms(1,4), of base] obtain out p' where
    run: "pmm_init base sz s = Ret ()
    (s\<lparr>mem_phys_base := base, total_frames := sz div PAGE_SIZE, free_frames := sz div PAGE_SIZE,
       boot_heap_ptr := p', frame_bitmap := boot_heap_ptr s, uart_out := out,
       mem := filled (mem s) (boot_heap_ptr s) (unat (pmm_bitmap_size (sz div PAGE_SIZE))) 0xFF\<rparr>)"
    (is "_ = Ret () ?s1") by blast
  let ?s2 = "pmm_reserve_region base k (pmm_free_region base sz ?s1)"
  note S = pmm_start [of ?s1 "mem s" base sz k, simplified, OF assms(6) [simplified]]
  have P: "pmm_frame ?s1 ?s2" "free_set ?s2 = {(unat k + 4095) div 4096..<unat (sz div PAGE_SIZE)}"
    "unat (free_frames ?s2) = card (free_set ?s2) + unat (sz div PAGE_SIZE)"
    using S assms(7,8) by simp_all
  have "pmm_inv (unat (sz div PAGE_SIZE)) ?s2"
    using pmm_inv_start [OF P(1)] P(3) assms(2,3,5) by simp
  then show ?thesis
    using run P pmm_frame_fields(2,4) [OF P(1)] by (auto simp: Let_def)
qed

theorem pmm_start_state_witness:
  "\<exists>s1. pmm_init 0x80200000 0x8000000
       ((reset_state RISCV (\<lambda>_. 0) 0 0)\<lparr>boot_heap_ptr := 0x80300000, boot_heap_end := 0x80400000\<rparr>)
     = Ret () s1 \<and>
     unat (free_frames (pmm_reserve_region 0x80200000 0x200000 (pmm_free_region 0x80200000 0x8000000 s1)))
       = 32256 + 32768"
proof -
  let ?s = "(reset_state RISCV (\<lambda>_. 0) 0 0)\<lparr>boot_heap_ptr := 0x80300000, boot_heap_end := 0x80400000\<rparr>"
  have "boot_wf ?s" "last_free_index ?s = 0" by (simp_all add: boot_wf_def reset_state_def)
  from pmm_start_state [OF this, of "0x80200000" "0x8000000" "0x200000"]
  show ?thesis by (auto simp: unat_div_page unat_pmm_bitmap_size Let_def)
qed

text \<open>
  C33: the bitmap \<^verbatim>\<open>pmm_init\<close> allocates has a bit for every frame exactly when the number of
  frames modulo 64 is not between 1 and 7; otherwise the bits of the last frames lie behind it.
\<close>

theorem pmm_bitmap_covers_frames:
  "(\<forall>j < unat n. frame_bitmap s + of_nat j div 8 \<in> region (frame_bitmap s) (unat (pmm_bitmap_size n)))
     \<longleftrightarrow> unat n mod 64 \<notin> {1..7}"
proof -
  have idx: "frame_bitmap s + of_nat j div 8 \<in> region (frame_bitmap s) (unat (pmm_bitmap_size n))
      \<longleftrightarrow> j div 8 < unat (pmm_bitmap_size n)" if "j < unat n" for j
    using that unat_lt_u64 [of n]
    by (simp add: region_def unat_div unat_of_nat_u64 del: unat_lt_u64)
  have "(\<forall>j < unat n. j div 8 < unat (pmm_bitmap_size n)) \<longleftrightarrow> unat n \<le> 8 * unat (pmm_bitmap_size n)"
    (is "?A \<longleftrightarrow> ?B")
  proof
    assume A: ?A
    show ?B
    proof (rule ccontr)
      assume "\<not> ?B"
      then have "8 * unat (pmm_bitmap_size n) < unat n" by simp
      from A [rule_format, OF this] show False by simp
    qed
  qed auto
  then show ?thesis using idx pmm_bitmap_size_covers_iff [of n] by auto
qed

theorem pmm_bitmap_covers_frames_witness:
  "\<exists>j < 65. frame_bitmap pmm_demo + of_nat j div 8
     \<notin> region (frame_bitmap pmm_demo) (unat (pmm_bitmap_size 65))"
  using pmm_bitmap_covers_frames [of 65 pmm_demo] by auto

end
