(* ===== verification/Slab.thy ===== *)
theory Slab
  imports PhysFrame
begin

text \<open>
  \<^verbatim>\<open>base/mm/slab.c\<close>: caches of objects of one size, carved out of page frames. A cache, the
  header of each of its pages and the links of its free list lie in memory, with the layout the
  compiler gives the structures of \<^verbatim>\<open>include/mm/mm.hpp\<close>. The representation predicate
  \<open>slab_rep\<close> reads the two linked lists of a cache off memory; on top of it an object is
  live when it is an object of one of the cache's pages that is not on the free list, and the
  locale \<open>object_allocator\<close> states what allocation and release do to the live objects.
\<close>

section \<open>Definitions\<close>

subsection \<open>Layout\<close>

text \<open>\<^verbatim>\<open>slab_cache_t\<close> (32 bytes) and \<^verbatim>\<open>frame_t\<close> (16 bytes): addresses of the members.\<close>

definition slab_obj_size :: "u64 \<Rightarrow> u64" where "slab_obj_size c = c"
definition slab_slabs :: "u64 \<Rightarrow> u64" where "slab_slabs c = c + 8"
definition slab_head :: "u64 \<Rightarrow> u64" where "slab_head c = c + 16"
definition slab_lock :: "u64 \<Rightarrow> u64" where "slab_lock c = c + 24"
definition frame_phys_addr :: "u64 \<Rightarrow> u64" where "frame_phys_addr f = f"
definition frame_next :: "u64 \<Rightarrow> u64" where "frame_next f = f + 8"

abbreviation load64 :: "kstate \<Rightarrow> u64 \<Rightarrow> u64" where "load64 s a \<equiv> read64 (mem s) a"

definition store64 :: "u64 \<Rightarrow> u64 \<Rightarrow> kstate \<Rightarrow> kstate" where
  "store64 a v s = s\<lparr>mem := write64 (mem s) a v\<rparr>"

subsection \<open>Operations\<close>

text \<open>
  The loop of \<^verbatim>\<open>slab_grow\<close>. It reads \<^verbatim>\<open>cache->obj_size\<close> afresh in its test and in its
  step; with an object size of 0 it does not end, which is the result \<open>None\<close>.
\<close>

partial_function (option) slab_fill :: "u64 \<Rightarrow> u64 \<Rightarrow> u64 \<Rightarrow> kstate \<Rightarrow> kstate option" where
  "slab_fill cache ptr endp s =
     (if ptr + load64 s (slab_obj_size cache) \<le> endp then
        let node = ptr;
            s = store64 node (load64 s (slab_head cache)) s;
            s = store64 (slab_head cache) node s
        in slab_fill cache (ptr + load64 s (slab_obj_size cache)) endp s
      else Some s)"

definition slab_grow :: "u64 \<Rightarrow> kstate \<Rightarrow> (unit, kstate) outcome" where
  "slab_grow cache s =
     andThen (pmm_alloc_frame s) (\<lambda>phys s.
       if phys = 0 then panic ''mm'' ''slab_grow: out of physical memory'' [] s
       else
         let virt = phys;
             frame_meta = virt;
             s = store64 (frame_phys_addr frame_meta) phys s;
             s = store64 (frame_next frame_meta) (load64 s (slab_slabs cache)) s;
             s = store64 (slab_slabs cache) frame_meta s;
             start = ALIGN_UP (virt + 16) 8;
             endp = virt + PAGE_SIZE
         in case slab_fill cache start endp s of
              Some s \<Rightarrow> Ret () s
            | None \<Rightarrow> Spin s)"

definition slab_alloc :: "u64 \<Rightarrow> kstate \<Rightarrow> (u64, kstate) outcome" where
  "slab_alloc cache s =
     (if cache = NULL then Ret NULL s
      else
        andThen (spin_lock (slab_lock cache) s) (\<lambda>_ s.
        andThen (if load64 s (slab_head cache) = NULL then slab_grow cache s else Ret () s) (\<lambda>_ s.
          let node = load64 s (slab_head cache);
              s = (if node \<noteq> NULL then store64 (slab_head cache) (load64 s node) s else s);
              s = spin_unlock (slab_lock cache) s
          in Ret node s)))"

definition slab_free :: "u64 \<Rightarrow> u64 \<Rightarrow> kstate \<Rightarrow> (unit, kstate) outcome" where
  "slab_free cache obj s =
     (if cache = NULL \<or> obj = NULL then Ret () s
      else
        andThen (spin_lock (slab_lock cache) s) (\<lambda>_ s.
          let node = obj;
              s = store64 node (load64 s (slab_head cache)) s;
              s = store64 (slab_head cache) node s
          in Ret () (spin_unlock (slab_lock cache) s)))"

definition slab_cache_create :: "u64 \<Rightarrow> kstate \<Rightarrow> (u64, kstate) outcome" where
  "slab_cache_create obj_size s =
     (let obj_size = (if obj_size < 8 then 8 else obj_size);
          obj_size = ALIGN_UP obj_size 8;
          s = (if \<not> cache_meta_initialized s then
                 let meta = cache_metadata_cache s;
                     s = store64 (slab_obj_size meta) 32 s;
                     s = store64 (slab_slabs meta) NULL s;
                     s = store64 (slab_head meta) NULL s;
                     s = spin_lock_init (slab_lock meta) s
                 in s\<lparr>cache_meta_initialized := True\<rparr>
               else s)
      in andThen (slab_alloc (cache_metadata_cache s) s) (\<lambda>cache s.
           if cache = NULL then Ret NULL s
           else
             let s = store64 (slab_obj_size cache) obj_size s;
                 s = store64 (slab_slabs cache) NULL s;
                 s = store64 (slab_head cache) NULL s;
                 s = spin_lock_init (slab_lock cache) s
             in Ret cache s))"

subsection \<open>The abstract view\<close>

text \<open>A list linked through the word at offset \<open>off\<close> of its nodes, ended by a null pointer.\<close>

fun chain :: "u64 \<Rightarrow> memory \<Rightarrow> u64 \<Rightarrow> u64 list \<Rightarrow> bool" where
  "chain off m p [] \<longleftrightarrow> p = NULL"
| "chain off m p (x # xs) \<longleftrightarrow> p = x \<and> x \<noteq> NULL \<and> chain off m (read64 m (x + off)) xs"

text \<open>The objects of size \<open>sz\<close> in a page, in the order of their addresses.\<close>

definition page_objs :: "nat \<Rightarrow> u64 \<Rightarrow> u64 list" where
  "page_objs sz p = map (\<lambda>k. p + of_nat (16 + k * sz)) [0..<4080 div sz]"

definition slab_objs :: "nat \<Rightarrow> u64 list \<Rightarrow> u64 set" where
  "slab_objs sz ps = (\<Union>p \<in> set ps. set (page_objs sz p))"

text \<open>A page frame: its address is a multiple of the page size, not 0 and not the last page.\<close>

definition page :: "u64 \<Rightarrow> bool" where
  "page p \<longleftrightarrow> unat p mod 4096 = 0 \<and> p \<noteq> 0 \<and> unat p + 4096 < 2 ^ 64"

text \<open>
  The cache at \<open>c\<close> has objects of \<open>sz\<close> bytes, the pages \<open>ps\<close> and the free list \<open>fl\<close>;
  and its lock is free.
\<close>

definition slab_lists :: "u64 \<Rightarrow> nat \<Rightarrow> u64 list \<Rightarrow> u64 list \<Rightarrow> memory \<Rightarrow> bool" where
  "slab_lists c sz ps fl m \<longleftrightarrow>
     c \<noteq> NULL \<and> 8 \<le> sz \<and> sz \<le> 4080 \<and> read64 m (slab_obj_size c) = of_nat sz \<and>
     chain 8 m (read64 m (slab_slabs c)) ps \<and> chain 0 m (read64 m (slab_head c)) fl \<and>
     distinct ps \<and> (\<forall>p \<in> set ps. page p \<and> region c 32 \<inter> region p 4096 = {}) \<and>
     distinct fl \<and> set fl \<subseteq> slab_objs sz ps"

definition slab_rep :: "u64 \<Rightarrow> nat \<Rightarrow> u64 list \<Rightarrow> u64 list \<Rightarrow> memory \<Rightarrow> bool" where
  "slab_rep c sz ps fl m \<longleftrightarrow> slab_lists c sz ps fl m \<and> read32 m (slab_lock c) = 0"

text \<open>
  The frame allocator hands out pages that a slab can use: its memory starts at a page boundary
  and ends below the top of the address space, and no free frame overlaps its bitmap.
\<close>

definition mm_ok :: "nat \<Rightarrow> kstate \<Rightarrow> bool" where
  "mm_ok d s \<longleftrightarrow>
     pmm_inv d s \<and> unat (mem_phys_base s) mod 4096 = 0 \<and>
     unat (mem_phys_base s) + unat (total_frames s) * 4096 < 2 ^ 64 \<and>
     (\<forall>f \<in> avail_frames s. bitmap_region s \<inter> region f 4096 = {})"

text \<open>The cache and its pages are in use, and they do not overlap the bitmap.\<close>

definition slab_sep :: "u64 \<Rightarrow> u64 list \<Rightarrow> kstate \<Rightarrow> bool" where
  "slab_sep c ps s \<longleftrightarrow>
     bitmap_region s \<inter> region c 32 = {} \<and>
     (\<forall>f \<in> avail_frames s. region c 32 \<inter> region f 4096 = {}) \<and>
     (\<forall>p \<in> set ps. p \<notin> avail_frames s \<and> bitmap_region s \<inter> region p 4096 = {})"

definition slab_inv :: "nat \<Rightarrow> u64 \<Rightarrow> nat \<Rightarrow> u64 list \<Rightarrow> u64 list \<Rightarrow> kstate \<Rightarrow> bool" where
  "slab_inv d c sz ps fl s \<longleftrightarrow> mm_ok d s \<and> slab_rep c sz ps fl (mem s) \<and> slab_sep c ps s"

text \<open>The live objects of a cache, their size, and the bytes of memory a client may write.\<close>

definition slab_live :: "u64 \<Rightarrow> kstate \<Rightarrow> u64 set" where
  "slab_live c s =
     {x. \<exists>sz ps fl. slab_rep c sz ps fl (mem s) \<and> x \<in> slab_objs sz ps \<and> x \<notin> set fl}"

definition slab_size :: "u64 \<Rightarrow> kstate \<Rightarrow> nat" where
  "slab_size c s = unat (load64 s (slab_obj_size c))"

definition slab_ok :: "u64 \<Rightarrow> kstate \<Rightarrow> bool" where
  "slab_ok c s \<longleftrightarrow> (\<exists>d sz ps fl. slab_inv d c sz ps fl s)"

definition store8 :: "u64 \<Rightarrow> u8 \<Rightarrow> kstate \<Rightarrow> kstate" where
  "store8 a v s = s\<lparr>mem := (mem s)(a := v)\<rparr>"

text \<open>
  What an operation on the cache at \<open>c\<close> leaves alone: the variables of the components above the
  frame allocator, the frames in use, and all memory but the cache, the bitmap and free frames.
\<close>

definition upper_same :: "kstate \<Rightarrow> kstate \<Rightarrow> bool" where
  "upper_same s t \<longleftrightarrow>
     arch t = arch s \<and> cache_metadata_cache t = cache_metadata_cache s \<and>
     cache_meta_initialized t = cache_meta_initialized s \<and>
     kmalloc_caches t = kmalloc_caches s \<and> kheap_initialized t = kheap_initialized s \<and>
     g_om t = g_om s \<and> g_test_destroyed t = g_test_destroyed s \<and>
     sreg t = sreg s \<and> io_hist t = io_hist s \<and> kernel_page_table t = kernel_page_table s \<and>
     g_asid_used t = g_asid_used s \<and> g_asid_lock t = g_asid_lock s \<and> global_ticks t = global_ticks s \<and>
     gic_handlers t = gic_handlers s"

definition slab_frame :: "u64 \<Rightarrow> kstate \<Rightarrow> kstate \<Rightarrow> bool" where
  "slab_frame c s t \<longleftrightarrow>
     upper_same s t \<and> bitmap_region t = bitmap_region s \<and> avail_frames t \<subseteq> avail_frames s \<and> tail_kept s t \<and>
     (\<forall>y. y \<notin> region c 32 \<and> y \<notin> bitmap_region s \<and> (\<forall>f \<in> avail_frames s. y \<notin> region f 4096)
       \<longrightarrow> mem t y = mem s y)"

subsection \<open>The contract of an object allocator\<close>

text \<open>
  Allocation returns an object that was not live, release takes one that is; both leave the
  bytes of the other live objects alone, and a client that writes inside its own objects does
  not harm the allocator.
\<close>

locale object_allocator =
  fixes alloc :: "'s \<Rightarrow> (u64, 's) outcome"
    and free :: "u64 \<Rightarrow> 's \<Rightarrow> (unit, 's) outcome"
    and poke :: "u64 \<Rightarrow> u8 \<Rightarrow> 's \<Rightarrow> 's"
    and byte :: "'s \<Rightarrow> u64 \<Rightarrow> u8"
    and live :: "'s \<Rightarrow> u64 set"
    and osize :: "'s \<Rightarrow> nat"
    and inv :: "'s \<Rightarrow> bool"
  assumes alloc_fresh: "inv s \<Longrightarrow> alloc s = Ret x s' \<Longrightarrow>
      x \<notin> live s \<and> x \<noteq> NULL \<and> live s' = insert x (live s) \<and> inv s' \<and> osize s' = osize s"
    and alloc_keeps: "inv s \<Longrightarrow> alloc s = Ret x s' \<Longrightarrow> y \<in> live s \<Longrightarrow> z \<in> region y (osize s) \<Longrightarrow>
      byte s' z = byte s z"
    and free_live: "inv s \<Longrightarrow> x \<in> live s \<Longrightarrow>
      \<exists>s'. free x s = Ret () s' \<and> live s' = live s - {x} \<and> inv s' \<and> osize s' = osize s \<and>
           (\<forall>y \<in> live s - {x}. \<forall>z \<in> region y (osize s). byte s' z = byte s z)"
    and write_live: "inv s \<Longrightarrow> x \<in> live s \<Longrightarrow> a \<in> region x (osize s) \<Longrightarrow>
      inv (poke a v s) \<and> live (poke a v s) = live s \<and> osize (poke a v s) = osize s \<and>
      byte (poke a v s) = (byte s)(a := v)"
    and live_disjoint: "inv s \<Longrightarrow> x \<in> live s \<Longrightarrow> y \<in> live s \<Longrightarrow> x \<noteq> y \<Longrightarrow>
      region x (osize s) \<inter> region y (osize s) = {}"
begin

text \<open>Any use of the allocator by clients that leave the object \<open>x\<close> alone.\<close>

inductive use :: "u64 \<Rightarrow> 's \<Rightarrow> 's \<Rightarrow> bool" for x :: u64 where
  use_refl: "use x s s"
| use_alloc: "use x s t \<Longrightarrow> alloc t = Ret y u \<Longrightarrow> use x s u"
| use_free: "use x s t \<Longrightarrow> y \<in> live t \<Longrightarrow> y \<noteq> x \<Longrightarrow> free y t = Ret () u \<Longrightarrow> use x s u"
| use_write: "use x s t \<Longrightarrow> y \<in> live t \<Longrightarrow> y \<noteq> x \<Longrightarrow> a \<in> region y (osize t) \<Longrightarrow>
     use x s (poke a v t)"

lemma use_keeps_object:
  assumes "use x s t" and "inv s" and "x \<in> live s"
  shows "inv t \<and> x \<in> live t \<and> osize t = osize s \<and>
    (\<forall>z \<in> region x (osize s). byte t z = byte s z)"
  using assms
proof (induction rule: use.induct)
  case (use_refl s)
  then show ?case by simp
next
  case (use_alloc s t y u)
  then have "inv t" "x \<in> live t" "osize t = osize s" by blast+
  then show ?case
    using use_alloc alloc_fresh [OF _ use_alloc.hyps(2)] alloc_keeps [OF _ use_alloc.hyps(2)] by auto
next
  case (use_free s t y u)
  then have t: "inv t" "x \<in> live t" "osize t = osize s" by blast+
  from free_live [OF t(1) use_free.hyps(2)] use_free.hyps(4) have "live u = live t - {y}" "inv u"
    "osize u = osize t" "\<forall>w \<in> live t - {y}. \<forall>z \<in> region w (osize t). byte u z = byte t z" by auto
  moreover have "x \<in> live t - {y}" using t(2) use_free.hyps(3) by simp
  ultimately have "inv u" "x \<in> live u" "osize u = osize s"
    "\<forall>z \<in> region x (osize s). byte u z = byte t z" using t(3) by auto
  then show ?case using use_free by simp
next
  case (use_write s t y a v)
  then have t: "inv t" "x \<in> live t" "osize t = osize s" by blast+
  have "a \<notin> region x (osize t)" using live_disjoint [OF t(1,2) use_write.hyps(2)] use_write.hyps by blast
  then show ?case
    using write_live [OF t(1) use_write.hyps(2,4), of v] use_write t by auto
qed

lemma alloc_free_live:
  assumes "inv s" and "alloc s = Ret x s'"
  shows "\<exists>t. free x s' = Ret () t \<and> live t = live s \<and> inv t"
  using alloc_fresh [OF assms] free_live [of s' x] by auto

end

section \<open>Lemmas\<close>

declare slab_fill.simps [simp del]

lemmas slab_layout = slab_obj_size_def slab_slabs_def slab_head_def slab_lock_def
  frame_phys_addr_def frame_next_def

lemma store64_simps [simp]:
  "mem (store64 a v s) = write64 (mem s) a v"
  "s\<lparr>mem := m\<rparr>\<lparr>mem := m'\<rparr> = s\<lparr>mem := m'\<rparr>"
  by (simp_all add: store64_def)

subsection \<open>Pages\<close>

lemma page_bound: "page p \<Longrightarrow> unat p + 8192 \<le> 2 ^ 64"
proof -
  assume "page p"
  then obtain q where q: "unat p = 4096 * q" and lt: "unat p + 4096 < 2 ^ 64"
    by (auto simp: page_def)
  have "4096 * q + 4096 < 4096 * 2 ^ 52" using q lt by simp
  then have "q + 1 < 2 ^ 52" by simp
  then show ?thesis using q by simp
qed

lemma in_page_iff: "page p \<Longrightarrow> x \<in> region p 4096 \<longleftrightarrow> unat x div 4096 = unat p div 4096"
proof -
  assume p: "page p"
  then obtain q where q: "unat p = 4096 * q" by (auto simp: page_def)
  have b: "unat p + 8192 \<le> 2 ^ 64" using p by (rule page_bound)
  show ?thesis
  proof
    assume "x \<in> region p 4096"
    then have k: "unat (x - p) < 4096" by (simp add: region_def)
    have "unat (p + of_nat (unat (x - p))) = unat p + unat (x - p)"
      using b k by (intro unat_add_of_nat) simp
    then have "unat x = 4096 * q + unat (x - p)" using q by simp
    with k q show "unat x div 4096 = unat p div 4096" by simp
  next
    assume "unat x div 4096 = unat p div 4096"
    then have d: "unat x div 4096 = q" using q by simp
    then have "unat x = unat p + unat x mod 4096" using q by (metis mult_div_mod_eq)
    then have "unat (x - p) = unat x mod 4096" by (simp add: unat_sub_if')
    then show "x \<in> region p 4096" by (simp add: region_def)
  qed
qed

lemma page_eqI: "page p \<Longrightarrow> page q \<Longrightarrow> unat p div 4096 = unat q div 4096 \<Longrightarrow> p = q"
  by (auto simp: page_def word_unat_eq_iff)

lemma pages_disjoint:
  "page p \<Longrightarrow> page q \<Longrightarrow> p \<noteq> q \<Longrightarrow> region p 4096 \<inter> region q 4096 = {}"
  using page_eqI [of p q] by (auto simp: in_page_iff)

subsection \<open>Objects of a page\<close>

lemma page_objs_offset:
  assumes "x \<in> set (page_objs sz p)"
  obtains k where "x = p + of_nat (16 + k * sz)" and "16 + k * sz + sz \<le> 4096"
proof -
  from assms obtain k where x: "x = p + of_nat (16 + k * sz)" and k: "k < 4080 div sz"
    by (auto simp: page_objs_def)
  have "Suc k * sz \<le> 4080 div sz * sz" using k by (intro mult_le_mono1) simp
  also have "\<dots> \<le> 4080" by simp
  finally have "16 + k * sz + sz \<le> 4096" by simp
  with x show thesis by (rule that)
qed

lemma page_obj_in_page: "x \<in> set (page_objs sz p) \<Longrightarrow> region x sz \<subseteq> region p 4096"
  by (elim page_objs_offset) (simp add: region_off_subset del: of_nat_add)

lemma page_obj_behind_header:
  "x \<in> set (page_objs sz p) \<Longrightarrow> region x sz \<inter> region p 16 = {}"
  by (elim page_objs_offset)
    (simp add: region_off_disjoint [of _ _ 0, simplified] del: of_nat_add)

lemma in_page_not_null: "page p \<Longrightarrow> y \<in> region p 4096 \<Longrightarrow> y \<noteq> 0"
proof -
  assume p: "page p" and "y \<in> region p 4096"
  then have "unat y div 4096 = unat p div 4096" by (simp add: in_page_iff)
  moreover have "unat p div 4096 \<noteq> 0"
    using p by (metis page_def div_eq_0_iff mod_less unat_eq_zero zero_neq_numeral)
  ultimately show "y \<noteq> 0" by auto
qed

lemma page_obj_not_null: "page p \<Longrightarrow> x \<in> set (page_objs sz p) \<Longrightarrow> 0 < sz \<Longrightarrow> x \<noteq> 0"
  using page_obj_in_page region_self in_page_not_null by blast

lemma page_objs_disjoint:
  assumes "x \<in> set (page_objs sz p)" and "y \<in> set (page_objs sz p)" and "x \<noteq> y"
  shows "region x sz \<inter> region y sz = {}"
proof -
  from assms(1) obtain j where j: "x = p + of_nat (16 + j * sz)" "16 + j * sz + sz \<le> 4096"
    by (rule page_objs_offset)
  from assms(2) obtain k where k: "y = p + of_nat (16 + k * sz)" "16 + k * sz + sz \<le> 4096"
    by (rule page_objs_offset)
  have "j < k \<or> k < j" using assms(3) j k by (metis linorder_neqE_nat)
  then have "j * sz + sz \<le> k * sz \<or> k * sz + sz \<le> j * sz"
    by (metis Suc_leI mult_Suc add.commute mult_le_mono1)
  then show ?thesis unfolding j(1) k(1) using j(2) k(2) by (intro region_off_disjoint) auto
qed

lemma distinct_page_objs: "0 < sz \<Longrightarrow> distinct (page_objs sz p)"
proof -
  assume sz: "0 < sz"
  have small: "k * sz \<le> 4080" if "k < 4080 div sz" for k
    using that by (meson div_times_less_eq_dividend le_trans less_imp_le mult_le_mono1)
  have "inj_on (\<lambda>k. p + of_nat (16 + k * sz)) {0..<4080 div sz}"
  proof (rule inj_onI)
    fix j k assume "j \<in> {0..<4080 div sz}" "k \<in> {0..<4080 div sz}"
      and eq: "p + of_nat (16 + j * sz) = p + of_nat (16 + k * sz)"
    then have "16 + j * sz < 2 ^ 64" "16 + k * sz < 2 ^ 64"
      using small [of j] small [of k] by simp_all
    then have "16 + j * sz = 16 + k * sz"
      using eq of_nat_u64_eq_iff [of "16 + j * sz" "16 + k * sz"] by (simp del: of_nat_add of_nat_mult)
    with sz show "j = k" by simp
  qed
  then show ?thesis by (simp add: page_objs_def distinct_map)
qed

lemma slab_objs_disjoint:
  assumes "\<forall>p \<in> set ps. page p" and "x \<in> slab_objs sz ps" and "y \<in> slab_objs sz ps" and "x \<noteq> y"
  shows "region x sz \<inter> region y sz = {}"
proof -
  from assms(2,3) obtain p q where p: "p \<in> set ps" "x \<in> set (page_objs sz p)"
    and q: "q \<in> set ps" "y \<in> set (page_objs sz q)"
    by (auto simp: slab_objs_def)
  show ?thesis
  proof (cases "p = q")
    case True
    then show ?thesis using p q assms(4) page_objs_disjoint by blast
  next
    case False
    then have "region p 4096 \<inter> region q 4096 = {}" using assms(1) p q by (intro pages_disjoint) auto
    then show ?thesis using page_obj_in_page [OF p(2)] page_obj_in_page [OF q(2)] by blast
  qed
qed

lemma slab_objs_Cons: "slab_objs sz (p # ps) = set (page_objs sz p) \<union> slab_objs sz ps"
  by (simp add: slab_objs_def)

lemma slab_obj_in_page:
  "x \<in> slab_objs sz ps \<Longrightarrow> \<exists>p \<in> set ps. region x sz \<subseteq> region p 4096"
  unfolding slab_objs_def using page_obj_in_page by blast

lemma region_mono: "n \<le> k \<Longrightarrow> region a n \<subseteq> region a k"
  by (auto simp: region_def)

lemma slab_obj_header:
  assumes "\<forall>q \<in> set ps. page q" and "x \<in> slab_objs sz ps" and "p \<in> set ps" and "8 \<le> sz"
  shows "region x 8 \<inter> region p 16 = {}"
proof -
  from assms(2) obtain q where q: "q \<in> set ps" "x \<in> set (page_objs sz q)" by (auto simp: slab_objs_def)
  have x8: "region x 8 \<subseteq> region x sz" using assms(4) by (rule region_mono)
  show ?thesis
  proof (cases "q = p")
    case True
    then show ?thesis using page_obj_behind_header [OF q(2)] x8 by blast
  next
    case False
    then have "region q 4096 \<inter> region p 4096 = {}" using assms(1,3) q(1) by (intro pages_disjoint) auto
    moreover have "region p 16 \<subseteq> region p 4096" by (rule region_mono) simp
    ultimately show ?thesis using page_obj_in_page [OF q(2)] x8 by blast
  qed
qed

subsection \<open>Linked lists\<close>

lemma chain_cong:
  "chain off m p xs \<Longrightarrow> (\<And>x. x \<in> set xs \<Longrightarrow> read64 m' (x + off) = read64 m (x + off)) \<Longrightarrow>
   chain off m' p xs"
  by (induction xs arbitrary: p) auto

lemma chain_functional: "chain off m p xs \<Longrightarrow> chain off m p ys \<Longrightarrow> xs = ys"
proof (induction xs arbitrary: p ys)
  case Nil
  then show ?case by (cases ys) auto
next
  case (Cons x xs)
  then show ?case by (cases ys) auto
qed

lemma chain_head_null: "chain off m p xs \<Longrightarrow> p = NULL \<longleftrightarrow> xs = []"
  by (cases xs) auto

text \<open>Putting a node in front of the free list, as \<^verbatim>\<open>slab_grow\<close> and \<^verbatim>\<open>slab_free\<close> do.\<close>

definition push_node :: "u64 \<Rightarrow> u64 \<Rightarrow> memory \<Rightarrow> memory" where
  "push_node c x m =
     write64 (write64 m x (read64 m (slab_head c))) (slab_head c) x"

text \<open>Nodes that can be on the free list of \<open>c\<close> together.\<close>

definition node_sep :: "u64 \<Rightarrow> u64 set \<Rightarrow> bool" where
  "node_sep c X \<longleftrightarrow> (\<forall>x \<in> X. x \<noteq> 0 \<and> region x 8 \<inter> region c 32 = {} \<and>
     (\<forall>y \<in> X. x \<noteq> y \<longrightarrow> region x 8 \<inter> region y 8 = {}))"

lemma node_sep_mono: "node_sep c X \<Longrightarrow> Y \<subseteq> X \<Longrightarrow> node_sep c Y"
  by (auto simp: node_sep_def)

lemma cache_parts:
  "region (slab_obj_size c) 8 \<subseteq> region c 32" "region (slab_slabs c) 8 \<subseteq> region c 32"
  "region (slab_head c) 8 \<subseteq> region c 32" "region (slab_lock c) 4 \<subseteq> region c 32"
  "region (slab_obj_size c) 8 \<inter> region (slab_slabs c) 8 = {}"
  "region (slab_obj_size c) 8 \<inter> region (slab_head c) 8 = {}"
  "region (slab_obj_size c) 8 \<inter> region (slab_lock c) 4 = {}"
  "region (slab_slabs c) 8 \<inter> region (slab_head c) 8 = {}"
  "region (slab_slabs c) 8 \<inter> region (slab_lock c) 4 = {}"
  "region (slab_head c) 8 \<inter> region (slab_lock c) 4 = {}"
  using region_off_subset [of 0 8 32 c] region_off_subset [of 8 8 32 c]
    region_off_subset [of 16 8 32 c] region_off_subset [of 24 4 32 c]
    region_off_disjoint [of 0 8 8 8 c] region_off_disjoint [of 0 8 16 8 c]
    region_off_disjoint [of 0 8 24 4 c] region_off_disjoint [of 8 8 16 8 c]
    region_off_disjoint [of 8 8 24 4 c] region_off_disjoint [of 16 8 24 4 c]
  by (simp_all add: slab_layout)

lemma push_node_outside:
  "y \<notin> region x 8 \<Longrightarrow> y \<notin> region (slab_head c) 8 \<Longrightarrow> push_node c x m y = m y"
  by (simp add: push_node_def write64_outside)

lemma push_node_chain:
  assumes "chain 0 m (read64 m (slab_head c)) fl" and "node_sep c (insert x (set fl))" and "x \<notin> set fl"
  shows "chain 0 (push_node c x m) (read64 (push_node c x m) (slab_head c)) (x # fl)"
proof -
  have x: "x \<noteq> 0" "region x 8 \<inter> region c 32 = {}"
    and y: "region x 8 \<inter> region y 8 = {}" "region y 8 \<inter> region c 32 = {}" if "y \<in> set fl" for y
    using assms(2,3) that by (auto simp: node_sep_def)
  have hx: "region (slab_head c) 8 \<inter> region x 8 = {}"
    using assms(2) cache_parts(3) [of c] by (auto simp: node_sep_def)
  have "read64 (push_node c x m) y = read64 m y" if "y \<in> set fl" for y
    using y [OF that] cache_parts(3) [of c]
    by (intro read64_cong push_node_outside) blast+
  then have "chain 0 (push_node c x m) (read64 m (slab_head c)) fl"
    using assms(1) by (intro chain_cong [OF assms(1)]) simp
  moreover have "read64 (push_node c x m) x = read64 m (slab_head c)"
    using hx by (simp add: push_node_def mem_simps read64_write64_disjoint)
  moreover have "x \<noteq> 0" using assms(2) by (simp add: node_sep_def)
  ultimately show ?thesis by (simp add: push_node_def mem_simps)
qed

lemma push_nodes:
  assumes "chain 0 m (read64 m (slab_head c)) fl" and "node_sep c (set xs \<union> set fl)"
    and "distinct (xs @ fl)"
  shows "chain 0 (fold (push_node c) xs m) (read64 (fold (push_node c) xs m) (slab_head c)) (rev xs @ fl)"
    and "y \<notin> region (slab_head c) 8 \<Longrightarrow> \<forall>x \<in> set xs. y \<notin> region x 8 \<Longrightarrow> fold (push_node c) xs m y = m y"
proof -
  show "chain 0 (fold (push_node c) xs m) (read64 (fold (push_node c) xs m) (slab_head c)) (rev xs @ fl)"
    using assms
  proof (induction xs arbitrary: m fl)
    case (Cons x xs)
    have "chain 0 (push_node c x m) (read64 (push_node c x m) (slab_head c)) (x # fl)"
      using Cons.prems by (intro push_node_chain) (auto elim: node_sep_mono)
    from Cons.IH [OF this] Cons.prems show ?case by simp
  qed simp
  show "y \<notin> region (slab_head c) 8 \<Longrightarrow> \<forall>x \<in> set xs. y \<notin> region x 8 \<Longrightarrow> fold (push_node c) xs m y = m y"
    by (induction xs arbitrary: m) (simp_all add: push_node_outside)
qed

subsection \<open>The lists of a cache\<close>

lemma slab_listsD:
  assumes "slab_lists c sz ps fl m"
  shows "8 \<le> sz" and "sz \<le> 4080" and "set fl \<subseteq> slab_objs sz ps"
    and "\<forall>p \<in> set ps. page p" and "p \<in> set ps \<Longrightarrow> region c 32 \<inter> region p 4096 = {}"
  using assms by (simp_all add: slab_lists_def)

lemma slab_lists_node_sep:
  assumes "slab_lists c sz ps fl m"
  shows "node_sep c (slab_objs sz ps)"
proof -
  have sz: "8 \<le> sz" and pg: "\<forall>p \<in> set ps. page p \<and> region c 32 \<inter> region p 4096 = {}"
    using assms by (simp_all add: slab_lists_def)
  have sub: "region x 8 \<subseteq> region x sz" for x using sz by (rule region_mono)
  have "x \<noteq> 0 \<and> region x 8 \<inter> region c 32 = {}" if "x \<in> slab_objs sz ps" for x
  proof -
    from that obtain p where p: "p \<in> set ps" "x \<in> set (page_objs sz p)" by (auto simp: slab_objs_def)
    then have "x \<noteq> 0" using pg sz by (intro page_obj_not_null [of p x sz]) auto
    moreover have "region x 8 \<subseteq> region p 4096" using sub page_obj_in_page [OF p(2)] by blast
    ultimately show ?thesis using pg p(1) by blast
  qed
  moreover have "region x 8 \<inter> region y 8 = {}"
    if "x \<in> slab_objs sz ps" "y \<in> slab_objs sz ps" "x \<noteq> y" for x y
    using slab_objs_disjoint [OF _ that] pg sub [of x] sub [of y] by blast
  ultimately show ?thesis by (simp add: node_sep_def)
qed

lemma slab_lists_cong:
  assumes "slab_lists c sz ps fl m"
    and "\<And>y. y \<in> region c 24 \<Longrightarrow> m' y = m y"
    and "\<And>p y. p \<in> set ps \<Longrightarrow> y \<in> region p 16 \<Longrightarrow> m' y = m y"
    and "\<And>x y. x \<in> set fl \<Longrightarrow> y \<in> region x 8 \<Longrightarrow> m' y = m y"
  shows "slab_lists c sz ps fl m'"
proof -
  have in24: "region c 8 \<subseteq> region c 24" "region (c + 8) 8 \<subseteq> region c 24" "region (c + 16) 8 \<subseteq> region c 24"
    using region_off_subset [of 0 8 24 c] region_off_subset [of 8 8 24 c]
      region_off_subset [of 16 8 24 c] by simp_all
  have r: "read64 m' (slab_obj_size c) = read64 m (slab_obj_size c)"
    "read64 m' (slab_slabs c) = read64 m (slab_slabs c)"
    "read64 m' (slab_head c) = read64 m (slab_head c)"
    unfolding slab_layout using in24 assms(2) by (auto intro!: read64_cong)
  have "read64 m' (p + 8) = read64 m (p + 8)" if "p \<in> set ps" for p
    using assms(3) [OF that] region_off_subset [of 8 8 16 p] by (intro read64_cong) auto
  moreover have "read64 m' x = read64 m x" if "x \<in> set fl" for x
    using assms(4) [OF that] by (rule read64_cong)
  ultimately have "chain 8 m' (read64 m (slab_slabs c)) ps" "chain 0 m' (read64 m (slab_head c)) fl"
    using assms(1) by (auto simp: slab_lists_def intro: chain_cong)
  with assms(1) r show ?thesis by (simp add: slab_lists_def)
qed

text \<open>Taking the first node off, and putting one in front.\<close>

lemma slab_lists_pop:
  assumes "slab_lists c sz ps (x # fl) m"
  shows "slab_lists c sz ps fl (write64 m (slab_head c) (read64 m x))"
    and "read64 m (slab_head c) = x" and "x \<noteq> NULL"
proof -
  let ?m = "write64 m (slab_head c) (read64 m x)"
  have out: "?m y = m y" if "y \<notin> region (slab_head c) 8" for y using that by (rule write64_outside)
  show x: "read64 m (slab_head c) = x" "x \<noteq> NULL" using assms by (simp_all add: slab_lists_def)
  have "chain 0 m (read64 m x) fl" using assms x by (simp add: slab_lists_def)
  moreover have "read64 ?m y = read64 m y" if "y \<in> set fl" for y
  proof (rule read64_write64_disjoint)
    have "y \<in> slab_objs sz ps" using that slab_listsD(3) [OF assms] by auto
    then have "region y 8 \<inter> region c 32 = {}"
      using slab_lists_node_sep [OF assms] by (simp add: node_sep_def)
    then show "region (slab_head c) 8 \<inter> region y 8 = {}" using cache_parts(3) [of c] by blast
  qed
  ultimately have fl: "chain 0 ?m (read64 ?m (slab_head c)) fl"
    by (simp add: mem_simps) (rule chain_cong, simp_all)
  have "read64 ?m (p + 8) = read64 m (p + 8)" if "p \<in> set ps" for p
  proof (rule read64_write64_disjoint)
    have "region (p + 8) 8 \<subseteq> region p 4096" using region_off_subset [of 8 8 4096 p] by simp
    then show "region (slab_head c) 8 \<inter> region (p + 8) 8 = {}"
      using slab_listsD(5) [OF assms that] cache_parts(3) [of c] by blast
  qed
  then have "chain 8 ?m (read64 m (slab_slabs c)) ps"
    using assms by (auto simp: slab_lists_def intro: chain_cong)
  with fl show "slab_lists c sz ps fl ?m"
    using assms cache_parts(6,8) [of c]
    by (auto simp: slab_lists_def read64_write64_disjoint Int_commute)
qed

lemma slab_lists_fold_push:
  assumes "slab_lists c sz ps fl m" and "set xs \<subseteq> slab_objs sz ps" and "distinct (xs @ fl)"
  shows "slab_lists c sz ps (rev xs @ fl) (fold (push_node c) xs m)"
    and "y \<notin> region (slab_head c) 8 \<Longrightarrow> \<forall>x \<in> set xs. y \<notin> region x 8 \<Longrightarrow> fold (push_node c) xs m y = m y"
proof -
  let ?m = "fold (push_node c) xs m"
  have sep: "node_sep c (slab_objs sz ps)" using assms(1) by (rule slab_lists_node_sep)
  have fl: "set fl \<subseteq> slab_objs sz ps" and ch: "chain 0 m (read64 m (slab_head c)) fl"
    using assms(1) by (simp_all add: slab_lists_def)
  have "node_sep c (set xs \<union> set fl)" using sep assms(2) fl by (auto elim: node_sep_mono)
  note P = push_nodes [OF ch this assms(3)]
  show out: "y \<notin> region (slab_head c) 8 \<Longrightarrow> \<forall>x \<in> set xs. y \<notin> region x 8 \<Longrightarrow> ?m y = m y" for y
    by (rule P(2))
  have xc: "region x 8 \<inter> region c 32 = {}" if "x \<in> set xs" for x
    using that assms(2) sep by (auto simp: node_sep_def)
  have keep: "read64 ?m a = read64 m a"
    if "region a 8 \<inter> region (slab_head c) 8 = {}" "\<forall>x \<in> set xs. region a 8 \<inter> region x 8 = {}" for a
    using that by (intro read64_cong out) auto
  have c: "read64 ?m (slab_obj_size c) = read64 m (slab_obj_size c)"
    "read64 ?m (slab_slabs c) = read64 m (slab_slabs c)"
    using xc cache_parts [of c] by (auto intro!: keep)
  have "read64 ?m (p + 8) = read64 m (p + 8)" if p: "p \<in> set ps" for p
  proof (rule keep)
    have sub: "region (p + 8) 8 \<subseteq> region p 16" using region_off_subset [of 8 8 16 p] by simp
    then show "region (p + 8) 8 \<inter> region (slab_head c) 8 = {}"
      using slab_listsD(5) [OF assms(1) p] cache_parts(3) [of c] region_mono [of 16 4096 p]
      by auto
    show "\<forall>x \<in> set xs. region (p + 8) 8 \<inter> region x 8 = {}"
      using assms(1,2) p sub slab_obj_header [of ps _ sz p] by (fastforce simp: slab_lists_def)
  qed
  then have "chain 8 ?m (read64 m (slab_slabs c)) ps"
    using assms(1) by (auto simp: slab_lists_def intro: chain_cong)
  with P(1) c show "slab_lists c sz ps (rev xs @ fl) ?m"
    using assms by (auto simp: slab_lists_def)
qed

text \<open>Linking a new page: its header is written, then the head of the list of pages.\<close>

definition link_page :: "u64 \<Rightarrow> u64 \<Rightarrow> memory \<Rightarrow> memory" where
  "link_page c p m =
     (let m = write64 m (frame_phys_addr p) p;
          m = write64 m (frame_next p) (read64 m (slab_slabs c))
      in write64 m (slab_slabs c) p)"

lemma page_parts:
  "region (frame_phys_addr p) 8 \<subseteq> region p 16" "region (frame_next p) 8 \<subseteq> region p 16"
  "region p 16 \<subseteq> region p 4096"
  "region (frame_phys_addr p) 8 \<inter> region (frame_next p) 8 = {}"
  using region_off_subset [of 0 8 16 p] region_off_subset [of 8 8 16 p]
    region_off_disjoint [of 0 8 8 8 p] region_mono [of 16 4096 p]
  by (simp_all add: slab_layout)

lemma link_page_outside:
  "y \<notin> region p 16 \<Longrightarrow> y \<notin> region (slab_slabs c) 8 \<Longrightarrow> link_page c p m y = m y"
proof -
  assume y: "y \<notin> region p 16" "y \<notin> region (slab_slabs c) 8"
  then have "y \<notin> region (frame_phys_addr p) 8" "y \<notin> region (frame_next p) 8"
    using page_parts(1,2) [of p] by blast+
  with y(2) show ?thesis by (simp add: link_page_def Let_def write64_outside)
qed

lemma slab_lists_link:
  assumes "slab_lists c sz ps fl m" and "page p" and "p \<notin> set ps"
    and "region c 32 \<inter> region p 4096 = {}"
  shows "slab_lists c sz (p # ps) fl (link_page c p m)"
proof -
  let ?m = "link_page c p m"
  have cp: "region (slab_slabs c) 8 \<inter> region p 16 = {}" "region (slab_head c) 8 \<inter> region p 16 = {}"
    "region (slab_obj_size c) 8 \<inter> region p 16 = {}"
    using assms(4) page_parts(3) [of p] cache_parts(1,2,3) [of c] by blast+
  have keep: "read64 ?m a = read64 m a"
    if "region a 8 \<inter> region p 16 = {}" "region a 8 \<inter> region (slab_slabs c) 8 = {}" for a
    using that by (intro read64_cong link_page_outside) auto
  have "read64 ?m (q + 8) = read64 m (q + 8)" if q: "q \<in> set ps" for q
  proof (rule keep)
    have sub: "region (q + 8) 8 \<subseteq> region q 4096" using region_off_subset [of 8 8 4096 q] by simp
    have "region p 4096 \<inter> region q 4096 = {}"
      using assms(2,3) q slab_listsD(4) [OF assms(1)] by (intro pages_disjoint) auto
    then show "region (q + 8) 8 \<inter> region p 16 = {}" using sub page_parts(3) [of p] by blast
    show "region (q + 8) 8 \<inter> region (slab_slabs c) 8 = {}"
      using slab_listsD(5) [OF assms(1) q] sub cache_parts(2) [of c] by blast
  qed
  then have ch: "chain 8 ?m (read64 m (slab_slabs c)) ps"
    using assms(1) by (auto simp: slab_lists_def intro: chain_cong)
  have "read64 ?m (p + 8) = read64 m (slab_slabs c)"
  proof -
    have "region (slab_slabs c) 8 \<inter> region (frame_next p) 8 = {}"
      "region (frame_phys_addr p) 8 \<inter> region (slab_slabs c) 8 = {}"
      using cp(1) page_parts(1,2) [of p] by blast+
    then show ?thesis
      by (simp add: link_page_def Let_def mem_simps read64_write64_disjoint flip: frame_next_def)
  qed
  then have ps: "chain 8 ?m (read64 ?m (slab_slabs c)) (p # ps)"
    using ch assms(2) by (simp add: link_page_def Let_def mem_simps page_def)
  have "read64 ?m x = read64 m x" if "x \<in> set fl" for x
  proof (rule keep)
    from that slab_listsD(3) [OF assms(1)] have x: "x \<in> slab_objs sz ps" by auto
    then obtain q where q: "q \<in> set ps" "region x sz \<subseteq> region q 4096" using slab_obj_in_page by blast
    have "region x 8 \<subseteq> region x sz" using slab_listsD(1) [OF assms(1)] by (rule region_mono)
    moreover have "region p 4096 \<inter> region q 4096 = {}"
      using assms(2,3) q slab_listsD(4) [OF assms(1)] by (intro pages_disjoint) auto
    ultimately show "region x 8 \<inter> region p 16 = {}" using q(2) page_parts(3) [of p] by blast
    show "region x 8 \<inter> region (slab_slabs c) 8 = {}"
      using x slab_lists_node_sep [OF assms(1)] cache_parts(2) [of c] unfolding node_sep_def by blast
  qed
  then have "chain 0 ?m (read64 m (slab_head c)) fl"
    using assms(1) by (auto simp: slab_lists_def intro: chain_cong)
  moreover have "read64 ?m (slab_head c) = read64 m (slab_head c)"
    "read64 ?m (slab_obj_size c) = read64 m (slab_obj_size c)"
    using cp cache_parts(5,8) [of c] by (auto intro!: keep simp: Int_commute)
  ultimately show ?thesis
    using assms ps by (auto simp: slab_lists_def slab_objs_Cons)
qed

subsection \<open>Filling a page\<close>

lemma slab_fill_stop:
  "\<not> ptr + load64 s (slab_obj_size c) \<le> e \<Longrightarrow> slab_fill c ptr e s = Some s"
  by (subst slab_fill.simps) simp

lemma slab_fill_go:
  "ptr + load64 s (slab_obj_size c) \<le> e \<Longrightarrow>
   slab_fill c ptr e s =
     (let s = s\<lparr>mem := push_node c ptr (mem s)\<rparr>
      in slab_fill c (ptr + load64 s (slab_obj_size c)) e s)"
  by (subst slab_fill.simps) (simp add: Let_def push_node_def store64_def)

lemma slab_fill_from:
  assumes "k \<le> 4080 div sz" and "8 \<le> sz" and "sz \<le> 4080" and "page p"
    and "region c 32 \<inter> region p 4096 = {}" and "load64 s (slab_obj_size c) = of_nat sz"
  shows "slab_fill c (p + of_nat (16 + k * sz)) (p + 4096) s
    = Some (s\<lparr>mem := fold (push_node c) (drop k (page_objs sz p)) (mem s)\<rparr>)"
  using assms
proof (induction "4080 div sz - k" arbitrary: k s)
  case 0
  then have k: "k = 4080 div sz" by simp
  have "4080 < Suc k * sz" using k \<open>8 \<le> sz\<close> by (simp add: dividend_less_div_times)
  moreover have "k * sz \<le> 4080" using k by simp
  moreover have "unat p + 8192 \<le> 2 ^ 64" using \<open>page p\<close> by (rule page_bound)
  ultimately have "unat (p + of_nat (16 + k * sz + sz)) = unat p + (16 + k * sz + sz)"
    "unat (p + of_nat 4096) = unat p + 4096"
    using \<open>sz \<le> 4080\<close> by (intro unat_add_of_nat; simp)+
  moreover have "4096 < 16 + k * sz + sz" using \<open>4080 < Suc k * sz\<close> by simp
  ultimately have "\<not> p + of_nat (16 + k * sz) + of_nat sz \<le> p + 4096"
    by (simp add: word_le_nat_alt add.assoc)
  then show ?case
    using 0 k by (subst slab_fill_stop) (simp_all add: page_objs_def)
next
  case (Suc n)
  then have k: "k < 4080 div sz" by simp
  let ?x = "p + of_nat (16 + k * sz) :: u64"
  have mem_x: "?x \<in> set (page_objs sz p)" using k by (auto simp: page_objs_def)
  have "Suc k * sz \<le> 4080 div sz * sz" using k by (intro mult_le_mono1) simp
  also have "\<dots> \<le> 4080" by simp
  finally have fits: "16 + k * sz + sz \<le> 4096" by simp
  have "unat p + 8192 \<le> 2 ^ 64" using \<open>page p\<close> by (rule page_bound)
  then have "unat (p + of_nat (16 + k * sz + sz)) = unat p + (16 + k * sz + sz)"
    "unat (p + of_nat 4096) = unat p + 4096"
    using fits by (intro unat_add_of_nat; simp)+
  then have le: "?x + load64 s (slab_obj_size c) \<le> p + 4096"
    using Suc.prems(6) fits by (simp add: word_le_nat_alt add.assoc)
  let ?s = "s\<lparr>mem := push_node c ?x (mem s)\<rparr>"
  have "region (slab_obj_size c) 8 \<inter> region ?x 8 = {}"
    using page_obj_in_page [OF mem_x] region_mono [of 8 sz ?x] Suc.prems(2,5) cache_parts(1) [of c]
    by blast
  then have os: "load64 ?s (slab_obj_size c) = of_nat sz"
    using Suc.prems(6) cache_parts(6) [of c]
    by (simp add: push_node_def read64_write64_disjoint Int_commute)
  have next_ptr: "?x + of_nat sz = p + of_nat (16 + Suc k * sz)" by (simp add: algebra_simps)
  have dr: "drop k (page_objs sz p) = ?x # drop (Suc k) (page_objs sz p)"
    using k by (simp add: page_objs_def Cons_nth_drop_Suc [symmetric])
  have "slab_fill c ?x (p + 4096) s = slab_fill c (?x + of_nat sz) (p + 4096) ?s"
    using slab_fill_go [OF le] os by (simp add: Let_def)
  also have "\<dots> = Some (?s\<lparr>mem := fold (push_node c) (drop (Suc k) (page_objs sz p)) (mem ?s)\<rparr>)"
    unfolding next_ptr using Suc.hyps(2) k Suc.prems os by (intro Suc.hyps(1)) simp_all
  finally show ?case unfolding dr by simp
qed

subsection \<open>The frame allocator below a cache\<close>

lemma bitmap_region_fields [simp]:
  "bitmap_region (s\<lparr>mem := m\<rparr>) = bitmap_region s"
  "bitmap_region (taken i s) = bitmap_region s"
  "frame_addr (s\<lparr>mem := m\<rparr>) = frame_addr s"
  by (simp_all add: bitmap_region_def frame_addr_def fun_eq_iff)

lemma free_set_mem_cong:
  assumes "\<And>x. x \<in> bitmap_region s \<Longrightarrow> m x = mem s x"
  shows "free_set (s\<lparr>mem := m\<rparr>) = free_set s"
proof -
  have "bitmap_test (of_nat i) (s\<lparr>mem := m\<rparr>) = bitmap_test (of_nat i) s" if "i < unat (total_frames s)" for i
    using that by (intro bitmap_test_cong) (auto intro!: assms simp: bitmap_region_def)
  then show ?thesis by (auto simp: free_set_def)
qed

lemma avail_frames_mem_cong:
  "(\<And>x. x \<in> bitmap_region s \<Longrightarrow> m x = mem s x) \<Longrightarrow> avail_frames (s\<lparr>mem := m\<rparr>) = avail_frames s"
  by (simp add: avail_frames_def free_set_mem_cong)

lemma tail_kept_mem:
  "(\<And>x. x \<in> bitmap_region s \<Longrightarrow> m x = mem s x) \<Longrightarrow>
   (\<And>f y. f \<in> avail_frames s \<Longrightarrow> y \<in> region f 4096 \<Longrightarrow> m y = mem s y) \<Longrightarrow> tail_kept s (s\<lparr>mem := m\<rparr>)"
  by (rule tail_kept_same) (simp_all add: free_set_mem_cong)

lemma next_fit_mem_cong: "(\<And>x. x \<in> bitmap_region s \<Longrightarrow> m x = mem s x) \<Longrightarrow> next_fit (s\<lparr>mem := m\<rparr>) = next_fit s"
  by (simp add: next_fit_def free_set_mem_cong)

lemma mm_ok_mem_cong:
  "(\<And>x. x \<in> bitmap_region s \<Longrightarrow> m x = mem s x) \<Longrightarrow> mm_ok d (s\<lparr>mem := m\<rparr>) = mm_ok d s"
  by (simp add: mm_ok_def pmm_inv_def free_set_mem_cong avail_frames_mem_cong)

lemma slab_sep_mem_cong:
  "(\<And>x. x \<in> bitmap_region s \<Longrightarrow> m x = mem s x) \<Longrightarrow> slab_sep c ps (s\<lparr>mem := m\<rparr>) = slab_sep c ps s"
  by (simp add: slab_sep_def avail_frames_mem_cong)

lemma avail_frames_page:
  assumes "mm_ok d s" and "f \<in> avail_frames s"
  shows "page f"
proof -
  have inv: "pmm_inv d s" using assms(1) by (simp add: mm_ok_def)
  from assms(2) obtain i where i: "i < unat (total_frames s)" and f: "f = frame_addr s i"
    by (auto simp: avail_frames_def free_set_def)
  note pos = pmm_inv_pos(1) [OF inv i]
  have "i * 4096 + 4096 \<le> unat (total_frames s) * 4096" using i by simp
  then have "unat f + 4096 < 2 ^ 64" using assms(1) pos f by (simp add: mm_ok_def)
  moreover have "unat f mod 4096 = 0" using assms(1) pos f by (simp add: mm_ok_def mod_add_eq)
  moreover have "f \<noteq> 0" using frame_addr_not_null [OF inv i] f by simp
  ultimately show ?thesis by (simp add: page_def)
qed

text \<open>The fields of the components above the frame allocator play no part below.\<close>

lemma upper_fields [simp]:
  "avail_frames (s\<lparr>cache_metadata_cache := v\<rparr>) = avail_frames s"
  "mm_ok d (s\<lparr>cache_metadata_cache := v\<rparr>) = mm_ok d s"
  "slab_inv d c sz ps fl (s\<lparr>cache_metadata_cache := v\<rparr>) = slab_inv d c sz ps fl s"
  "avail_frames (s\<lparr>cache_meta_initialized := b\<rparr>) = avail_frames s"
  "mm_ok d (s\<lparr>cache_meta_initialized := b\<rparr>) = mm_ok d s"
  "slab_inv d c sz ps fl (s\<lparr>cache_meta_initialized := b\<rparr>) = slab_inv d c sz ps fl s"
  "avail_frames (s\<lparr>kmalloc_caches := cs\<rparr>) = avail_frames s"
  "mm_ok d (s\<lparr>kmalloc_caches := cs\<rparr>) = mm_ok d s"
  "slab_inv d c sz ps fl (s\<lparr>kmalloc_caches := cs\<rparr>) = slab_inv d c sz ps fl s"
  "avail_frames (s\<lparr>kheap_initialized := b\<rparr>) = avail_frames s"
  "mm_ok d (s\<lparr>kheap_initialized := b\<rparr>) = mm_ok d s"
  "slab_inv d c sz ps fl (s\<lparr>kheap_initialized := b\<rparr>) = slab_inv d c sz ps fl s"
  "avail_frames (s\<lparr>uart_out := out\<rparr>) = avail_frames s"
  "mm_ok d (s\<lparr>uart_out := out\<rparr>) = mm_ok d s"
  "slab_inv d c sz ps fl (s\<lparr>uart_out := out\<rparr>) = slab_inv d c sz ps fl s"
  "avail_frames (s\<lparr>g_om := g\<rparr>) = avail_frames s"
  "mm_ok d (s\<lparr>g_om := g\<rparr>) = mm_ok d s"
  "slab_inv d c sz ps fl (s\<lparr>g_om := g\<rparr>) = slab_inv d c sz ps fl s"
  "avail_frames (s\<lparr>g_test_destroyed := b\<rparr>) = avail_frames s"
  "mm_ok d (s\<lparr>g_test_destroyed := b\<rparr>) = mm_ok d s"
  "slab_inv d c sz ps fl (s\<lparr>g_test_destroyed := b\<rparr>) = slab_inv d c sz ps fl s"
  by (simp_all add: slab_inv_def mm_ok_def pmm_inv_def slab_sep_def avail_frames_def free_set_def
      frame_addr_def bitmap_region_def bitmap_test_def)

text \<open>Taking a frame, as seen by the caches.\<close>

lemma mm_alloc_frame:
  assumes "mm_ok d s" and "avail_frames s \<noteq> {}"
  obtains i where "i \<in> free_set s" and "frame_addr s i \<in> avail_frames s"
    and "pmm_alloc_frame s = Ret (frame_addr s i) (taken i s)"
    and "mm_ok d (taken i s)" and "avail_frames (taken i s) = avail_frames s - {frame_addr s i}"
    and "\<And>x. x \<notin> bitmap_region s \<Longrightarrow> mem (taken i s) x = mem s x" and "next_fit s = Some i"
proof -
  have inv: "pmm_inv d s" using assms(1) by (simp add: mm_ok_def)
  have "free_set s \<noteq> {}" using assms(2) by (auto simp: avail_frames_def)
  from pmm_alloc_frame_ok [OF inv this] obtain i where i: "next_fit s = Some i" "i \<in> free_set s"
    "pmm_alloc_frame s = Ret (frame_addr s i) (taken i s)" "pmm_inv d (taken i s)" .
  have av: "avail_frames (taken i s) = avail_frames s - {frame_addr s i}"
    using inv i(2) by (rule avail_frames_taken)
  have "mm_ok d (taken i s)" using assms(1) i(4) av by (simp add: mm_ok_def)
  moreover have "frame_addr s i \<in> avail_frames s" using i(2) by (simp add: avail_frames_def)
  ultimately show thesis using i av mem_taken free_set_bound by (intro that) blast+
qed

lemma slab_sep_taken:
  assumes "slab_sep c ps s" and "mm_ok d s" and "f \<in> avail_frames s"
    and "avail_frames t = avail_frames s - {f}" and "bitmap_region t = bitmap_region s"
  shows "slab_sep c (f # ps) t"
  using assms by (auto simp: slab_sep_def mm_ok_def)

subsection \<open>Growing a cache\<close>

lemma page_ALIGN_UP: "page p \<Longrightarrow> ALIGN_UP (p + 16) 8 = p + 16"
proof -
  assume p: "page p"
  then obtain q where q: "unat p = 4096 * q" by (auto simp: page_def)
  have "unat p + 8192 \<le> 2 ^ 64" using p by (rule page_bound)
  then have un: "unat (p + 16) = unat p + 16" using unat_add_of_nat [of p 16] by simp
  have "unat (ALIGN_UP (p + 16) (2 ^ 3)) = (unat (p + 16) + 2 ^ 3 - 1) div 2 ^ 3 * 2 ^ 3"
    using \<open>unat p + 8192 \<le> 2 ^ 64\<close> un by (intro unat_ALIGN_UP) simp_all
  also have "unat (p + 16) + 2 ^ 3 - 1 = 8 * (512 * q + 2) + 7" unfolding un q by simp
  also have "(8 * (512 * q + 2) + 7) div 2 ^ 3 = 512 * q + 2" by simp
  also have "(512 * q + 2) * 2 ^ 3 = unat (p + 16)" unfolding un q by simp
  finally show ?thesis by (simp add: word_unat_eq_iff)
qed

lemma slab_grow_eq:
  assumes "pmm_alloc_frame s = Ret p t" and "page p" and "8 \<le> sz" and "sz \<le> 4080"
    and "region c 32 \<inter> region p 4096 = {}" and "load64 t (slab_obj_size c) = of_nat sz"
  shows "slab_grow c s =
    Ret () (t\<lparr>mem := fold (push_node c) (page_objs sz p) (link_page c p (mem t))\<rparr>)"
proof -
  let ?t = "t\<lparr>mem := link_page c p (mem t)\<rparr>"
  have "region (slab_obj_size c) 8 \<inter> region p 16 = {}"
    using assms(5) page_parts(3) [of p] cache_parts(1) [of c] by blast
  then have "read64 (link_page c p (mem t)) (slab_obj_size c) = read64 (mem t) (slab_obj_size c)"
    using cache_parts(5) [of c] by (intro read64_cong link_page_outside) auto
  then have os: "load64 ?t (slab_obj_size c) = of_nat sz" using assms(6) by simp
  have "p \<noteq> 0" using assms(2) by (simp add: page_def)
  moreover have "slab_fill c (p + 16) (p + 4096) ?t =
      Some (?t\<lparr>mem := fold (push_node c) (page_objs sz p) (mem ?t)\<rparr>)"
    using slab_fill_from [OF _ assms(3,4,2,5) os, of 0] by simp
  ultimately show ?thesis
    using assms(1) page_ALIGN_UP [OF assms(2)]
    by (simp add: slab_grow_def Let_def link_page_def store64_def PAGE_SIZE_def)
qed

text \<open>The lists of a cache do not see the bitmap, and a new page has new objects.\<close>

lemma slab_lists_bitmap:
  assumes "slab_lists c sz ps fl (mem s)" and "slab_sep c ps s"
    and "\<And>x. x \<notin> bitmap_region s \<Longrightarrow> m x = mem s x"
  shows "slab_lists c sz ps fl m"
proof (rule slab_lists_cong [OF assms(1)])
  have c24: "region c 24 \<subseteq> region c 32" by (rule region_mono) simp
  have page_ok: "m y = mem s y" if "q \<in> set ps" "y \<in> region q 4096" for q y
    using assms(2,3) that unfolding slab_sep_def by blast
  show "m y = mem s y" if "y \<in> region c 24" for y
    using assms(2,3) that c24 unfolding slab_sep_def by blast
  show "m y = mem s y" if "q \<in> set ps" "y \<in> region q 16" for q y
    using page_ok that page_parts(3) [of q] by blast
  show "m y = mem s y" if "x \<in> set fl" "y \<in> region x 8" for x y
    using that page_ok slab_obj_in_page [of x sz ps] slab_listsD(1,3) [OF assms(1)]
      region_mono [of 8 sz x] by blast
qed

lemma page_objs_fresh:
  assumes "slab_lists c sz ps fl m" and "page p" and "p \<notin> set ps"
  shows "set (page_objs sz p) \<inter> slab_objs sz ps = {}"
proof -
  have False if x: "x \<in> set (page_objs sz p)" "x \<in> slab_objs sz ps" for x
  proof -
    obtain q where q: "q \<in> set ps" "x \<in> set (page_objs sz q)" using x(2) by (auto simp: slab_objs_def)
    have "x \<in> region p 4096" "x \<in> region q 4096"
      using page_obj_in_page [OF x(1)] page_obj_in_page [OF q(2)] slab_listsD(1) [OF assms(1)]
        region_self [of sz x] by auto
    moreover have "region p 4096 \<inter> region q 4096 = {}"
      using assms(2,3) q(1) slab_listsD(4) [OF assms(1)] by (intro pages_disjoint) auto
    ultimately show False by blast
  qed
  then show ?thesis by blast
qed

text \<open>A new page linked and filled.\<close>

lemma slab_lists_new_page:
  assumes "slab_lists c sz ps fl m" and "page p" and "p \<notin> set ps"
    and "region c 32 \<inter> region p 4096 = {}"
  defines "m' \<equiv> fold (push_node c) (page_objs sz p) (link_page c p m)"
  shows "slab_lists c sz (p # ps) (rev (page_objs sz p) @ fl) m'"
    and "y \<notin> region c 24 \<Longrightarrow> y \<notin> region p 4096 \<Longrightarrow> m' y = m y"
    and "x \<in> set (page_objs sz p) \<Longrightarrow> y \<in> region x sz \<Longrightarrow> y \<notin> region x 8 \<Longrightarrow> m' y = m y"
proof -
  have L: "slab_lists c sz (p # ps) fl (link_page c p m)" using assms(1-4) by (rule slab_lists_link)
  have sub: "set (page_objs sz p) \<subseteq> slab_objs sz (p # ps)" by (simp add: slab_objs_Cons)
  have sz: "8 \<le> sz" using slab_listsD(1) [OF assms(1)] .
  have "distinct (page_objs sz p @ fl)"
    using page_objs_fresh [OF assms(1-3)] assms(1) distinct_page_objs [of sz p] sz
    by (auto simp: slab_lists_def)
  note F = slab_lists_fold_push [OF L sub this]
  show "slab_lists c sz (p # ps) (rev (page_objs sz p) @ fl) m'" unfolding m'_def by (rule F(1))
  show "m' y = m y" if x: "x \<in> set (page_objs sz p)" "y \<in> region x sz" "y \<notin> region x 8"
  proof -
    have "y \<notin> region c 32" using assms(4) page_obj_in_page [OF x(1)] x(2) by blast
    then have h: "y \<notin> region (slab_head c) 8" "y \<notin> region (slab_slabs c) 8" using cache_parts(2,3) [of c] by blast+
    have "y \<notin> region z 8" if "z \<in> set (page_objs sz p)" for z
      using x(2,3) page_objs_disjoint [OF x(1) that] region_mono [OF sz, of z] by blast
    then have "m' y = link_page c p m y" unfolding m'_def using F(2) h by blast
    also have "\<dots> = m y" using h page_obj_behind_header [OF x(1)] x(2) by (intro link_page_outside) auto
    finally show ?thesis .
  qed
  show "m' y = m y" if y: "y \<notin> region c 24" "y \<notin> region p 4096"
  proof -
    have "region (slab_head c) 8 \<subseteq> region c 24" "region (slab_slabs c) 8 \<subseteq> region c 24"
      using region_off_subset [of 16 8 24 c] region_off_subset [of 8 8 24 c]
      by (simp_all add: slab_layout)
    then have h: "y \<notin> region (slab_head c) 8" "y \<notin> region (slab_slabs c) 8" using y by blast+
    have "\<forall>x \<in> set (page_objs sz p). y \<notin> region x 8"
      using y(2) page_obj_in_page region_mono [OF sz] by blast
    then have "m' y = link_page c p m y" unfolding m'_def using F(2) h by blast
    also have "\<dots> = m y" using h y(2) page_parts(3) [of p] by (intro link_page_outside) auto
    finally show ?thesis .
  qed
qed

lemma slab_grow_ok:
  assumes "mm_ok d s" and "slab_lists c sz ps fl (mem s)" and "slab_sep c ps s"
    and "avail_frames s \<noteq> {}"
  obtains i p m where "i \<in> free_set s" and "p = frame_addr s i" and "p \<in> avail_frames s"
    and "slab_grow c s = Ret () ((taken i s)\<lparr>mem := m\<rparr>)"
    and "slab_lists c sz (p # ps) (rev (page_objs sz p) @ fl) m"
    and "\<And>y. y \<notin> region c 24 \<Longrightarrow> y \<notin> region p 4096 \<Longrightarrow> m y = mem (taken i s) y"
    and "mm_ok d (taken i s)" and "slab_sep c (p # ps) (taken i s)"
    and "avail_frames (taken i s) = avail_frames s - {p}" and "next_fit s = Some i"
    and "\<And>x y. x \<in> set (page_objs sz p) \<Longrightarrow> y \<in> region x sz \<Longrightarrow> y \<notin> region x 8 \<Longrightarrow> m y = mem (taken i s) y"
proof -
  from mm_alloc_frame [OF assms(1,4)] obtain i where i: "i \<in> free_set s"
    "frame_addr s i \<in> avail_frames s" "pmm_alloc_frame s = Ret (frame_addr s i) (taken i s)"
    "mm_ok d (taken i s)" "avail_frames (taken i s) = avail_frames s - {frame_addr s i}"
    "\<And>x. x \<notin> bitmap_region s \<Longrightarrow> mem (taken i s) x = mem s x" "next_fit s = Some i" by metis
  let ?p = "frame_addr s i" and ?t = "taken i s"
  have p: "page ?p" using avail_frames_page [OF assms(1) i(2)] .
  have new: "?p \<notin> set ps" and cp: "region c 32 \<inter> region ?p 4096 = {}"
    using assms(3) i(2) by (auto simp: slab_sep_def)
  have L: "slab_lists c sz ps fl (mem ?t)" using assms(2,3) i(6) by (rule slab_lists_bitmap)
  note N = slab_lists_new_page [OF L p new cp]
  show thesis
  proof (rule that)
    show "i \<in> free_set s" "?p \<in> avail_frames s" "mm_ok d ?t" "?p = ?p"
      "avail_frames ?t = avail_frames s - {?p}" "next_fit s = Some i" using i by simp_all
    show "slab_grow c s = Ret ()
        (?t\<lparr>mem := fold (push_node c) (page_objs sz ?p) (link_page c ?p (mem ?t))\<rparr>)"
      using i(3) p slab_listsD(1,2) [OF L] cp L by (intro slab_grow_eq) (simp_all add: slab_lists_def)
    show "slab_sep c (?p # ps) ?t" using assms(3,1) i(2,5) by (rule slab_sep_taken) simp
  qed (use N in blast)+
qed

subsection \<open>Allocation and release\<close>

lemma slab_lists_lock:
  assumes "slab_lists c sz ps fl m"
  shows "slab_lists c sz ps fl (write32 m (slab_lock c) v)"
proof -
  have out: "write32 m (slab_lock c) v y = m y" if "y \<notin> region (slab_lock c) 4" for y
    using that by (rule write32_outside)
  have l32: "region (slab_lock c) 4 \<subseteq> region c 32" by (rule cache_parts(4))
  show ?thesis
  proof (rule slab_lists_cong [OF assms]; rule out)
    have "region c 24 \<inter> region (c + 24) 4 = {}" using region_off_disjoint [of 0 24 24 4 c] by simp
    then show "y \<notin> region (slab_lock c) 4" if "y \<in> region c 24" for y
      using that by (auto simp: slab_lock_def)
    show "y \<notin> region (slab_lock c) 4" if "p \<in> set ps" "y \<in> region p 16" for p y
      using that l32 slab_listsD(5) [OF assms that(1)] page_parts(3) [of p] by blast
    show "y \<notin> region (slab_lock c) 4" if "x \<in> set fl" "y \<in> region x 8" for x y
      using that l32 slab_listsD(3) [OF assms] slab_lists_node_sep [OF assms]
      unfolding node_sep_def by blast
  qed
qed

lemma slab_rep_unlock: "slab_lists c sz ps fl m \<Longrightarrow> slab_rep c sz ps fl (write32 m (slab_lock c) 0)"
  by (simp add: slab_rep_def slab_lists_lock mem_simps)

lemma slab_repD: "slab_rep c sz ps fl m \<Longrightarrow> slab_lists c sz ps fl m"
  by (simp add: slab_rep_def)

lemma slab_rep_not_null: "slab_rep c sz ps fl m \<Longrightarrow> c \<noteq> NULL"
  by (simp add: slab_rep_def slab_lists_def)

lemma slab_spin_lock:
  "slab_rep c sz ps fl (mem s) \<Longrightarrow>
   spin_lock (slab_lock c) s = Ret () (s\<lparr>mem := write32 (mem s) (slab_lock c) 1\<rparr>)"
  by (simp add: slab_rep_def spin_lock_free)

lemma slab_lock_outside: "y \<notin> region c 32 \<Longrightarrow> write32 m (slab_lock c) v y = m y"
  using cache_parts(4) [of c] by (intro write32_outside) blast

lemma slab_head_outside: "y \<notin> region c 32 \<Longrightarrow> write64 m (slab_head c) v y = m y"
  using cache_parts(3) [of c] by (intro write64_outside) blast

text \<open>A change of memory that spares the bitmap keeps the allocator and the separation.\<close>

lemma slab_invI:
  assumes "slab_inv d c sz ps fl s" and "slab_rep c sz ps' fl' m" and "set ps' \<subseteq> set ps"
    and "\<And>y. y \<in> bitmap_region s \<Longrightarrow> m y = mem s y"
  shows "slab_inv d c sz ps' fl' (s\<lparr>mem := m\<rparr>)"
  using assms by (auto simp: slab_inv_def mm_ok_mem_cong slab_sep_mem_cong) (auto simp: slab_sep_def)

lemma slab_alloc_pop:
  assumes "slab_inv d c sz ps (x # fl) s"
  obtains m where "slab_alloc c s = Ret x (s\<lparr>mem := m\<rparr>)" and "slab_inv d c sz ps fl (s\<lparr>mem := m\<rparr>)"
    and "\<And>y. y \<notin> region c 32 \<Longrightarrow> m y = mem s y"
proof -
  have rep: "slab_rep c sz ps (x # fl) (mem s)" and bm: "bitmap_region s \<inter> region c 32 = {}"
    using assms by (simp_all add: slab_inv_def slab_sep_def)
  let ?m1 = "write32 (mem s) (slab_lock c) 1"
  have L1: "slab_lists c sz ps (x # fl) ?m1" using slab_repD [OF rep] by (rule slab_lists_lock)
  note P = slab_lists_pop [OF L1]
  let ?m = "write32 (write64 ?m1 (slab_head c) (read64 ?m1 x)) (slab_lock c) 0"
  have out: "?m y = mem s y" if "y \<notin> region c 32" for y
    using that by (simp add: slab_lock_outside slab_head_outside)
  have run: "slab_alloc c s = Ret x (s\<lparr>mem := ?m\<rparr>)"
    using P slab_spin_lock [OF rep] slab_rep_not_null [OF rep]
    by (simp add: slab_alloc_def Let_def spin_unlock_eq store64_def)
  have "slab_inv d c sz ps fl (s\<lparr>mem := ?m\<rparr>)"
    using assms slab_rep_unlock [OF P(1)] by (rule slab_invI) (use out bm in blast)+
  then show thesis using run out by (intro that) blast+
qed

text \<open>The state in which the lock is held.\<close>

lemma slab_locked:
  assumes "slab_inv d c sz ps fl s"
  defines "t \<equiv> s\<lparr>mem := write32 (mem s) (slab_lock c) 1\<rparr>"
  shows "spin_lock (slab_lock c) s = Ret () t" and "mm_ok d t" and "slab_sep c ps t"
    and "slab_lists c sz ps fl (mem t)" and "avail_frames t = avail_frames s"
    and "free_set t = free_set s"
proof -
  have rep: "slab_rep c sz ps fl (mem s)" and bm: "bitmap_region s \<inter> region c 32 = {}"
    using assms(1) by (simp_all add: slab_inv_def slab_sep_def)
  show "spin_lock (slab_lock c) s = Ret () t" using slab_spin_lock [OF rep] by (simp add: t_def)
  have same: "write32 (mem s) (slab_lock c) 1 y = mem s y" if "y \<in> bitmap_region s" for y
    using that bm slab_lock_outside [of y c] by auto
  then show "mm_ok d t" "slab_sep c ps t" "avail_frames t = avail_frames s" "free_set t = free_set s"
    using assms(1) unfolding t_def
    by (simp_all add: slab_inv_def mm_ok_mem_cong slab_sep_mem_cong avail_frames_mem_cong
        free_set_mem_cong)
  show "slab_lists c sz ps fl (mem t)"
    using slab_lists_lock [OF slab_repD [OF rep]] by (simp add: t_def)
qed

lemma slab_alloc_unlocked:
  assumes "spin_lock (slab_lock c) s = Ret () t" and "c \<noteq> NULL"
    and "load64 t (slab_head c) = NULL" and "slab_grow c t = Ret () (u\<lparr>mem := m\<rparr>)"
    and "read64 m (slab_head c) = x" and "x \<noteq> NULL"
  shows "slab_alloc c s =
    Ret x (u\<lparr>mem := write32 (write64 m (slab_head c) (read64 m x)) (slab_lock c) 0\<rparr>)"
  using assms by (simp add: slab_alloc_def Let_def spin_unlock_eq store64_def)

lemma slab_alloc_grow:
  assumes "slab_inv d c sz ps [] s" and "avail_frames s \<noteq> {}"
  obtains i p x fl m where "i \<in> free_set s" and "p = frame_addr s i" and "p \<in> avail_frames s"
    and "rev (page_objs sz p) = x # fl"
    and "slab_alloc c s = Ret x ((taken i s)\<lparr>mem := m\<rparr>)"
    and "slab_inv d c sz (p # ps) fl ((taken i s)\<lparr>mem := m\<rparr>)"
    and "avail_frames ((taken i s)\<lparr>mem := m\<rparr>) = avail_frames s - {p}"
    and "\<And>y. y \<notin> region c 32 \<Longrightarrow> y \<notin> region p 4096 \<Longrightarrow> y \<notin> bitmap_region s \<Longrightarrow> m y = mem s y"
    and "tail_kept s ((taken i s)\<lparr>mem := m\<rparr>)"
    and "\<And>z y. z \<in> set (page_objs sz p) \<Longrightarrow> y \<in> region z sz \<Longrightarrow> y \<notin> region z 8 \<Longrightarrow> m y = mem s y"
proof -
  have rep: "slab_rep c sz ps [] (mem s)" and bm: "bitmap_region s \<inter> region c 32 = {}"
    and ok: "mm_ok d s" using assms by (simp_all add: slab_inv_def slab_sep_def)
  let ?t = "s\<lparr>mem := write32 (mem s) (slab_lock c) 1\<rparr>"
  note T = slab_locked [OF assms(1)]
  from slab_grow_ok [OF T(2,4,3)] assms(2) obtain i p m where
    i: "i \<in> free_set s" "p = frame_addr s i" "p \<in> avail_frames s"
    and run: "slab_grow c ?t = Ret () ((taken i ?t)\<lparr>mem := m\<rparr>)"
    and L: "slab_lists c sz (p # ps) (rev (page_objs sz p)) m"
    and out: "\<And>y. y \<notin> region c 24 \<Longrightarrow> y \<notin> region p 4096 \<Longrightarrow> m y = mem (taken i ?t) y"
    and ok': "mm_ok d (taken i ?t)" "slab_sep c (p # ps) (taken i ?t)"
    and av: "avail_frames (taken i ?t) = avail_frames s - {p}" and nf: "next_fit ?t = Some i"
    and body: "\<And>x y. x \<in> set (page_objs sz p) \<Longrightarrow> y \<in> region x sz \<Longrightarrow> y \<notin> region x 8 \<Longrightarrow> m y = mem (taken i ?t) y"
    using T(5,6) by (metis append_Nil2 bitmap_region_fields(3))
  have "page_objs sz p \<noteq> []"
    using slab_listsD(1,2) [OF L] by (simp add: page_objs_def div_eq_0_iff)
  then obtain x fl where xfl: "rev (page_objs sz p) = x # fl" by (cases "rev (page_objs sz p)") auto
  note P = slab_lists_pop [OF L [unfolded xfl]]
  let ?m = "write32 (write64 m (slab_head c) (read64 m x)) (slab_lock c) 0"
  have same: "(taken i ?t)\<lparr>mem := ?m\<rparr> = (taken i s)\<lparr>mem := ?m\<rparr>"
    by (simp add: taken_def bitmap_set_def)
  have "load64 ?t (slab_head c) = NULL" using T(4) by (simp add: slab_lists_def)
  from slab_alloc_unlocked [OF T(1) slab_rep_not_null [OF rep] this run P(2,3)]
  have alloc: "slab_alloc c s = Ret x ((taken i s)\<lparr>mem := ?m\<rparr>)" by (simp only: same)
  have c24: "region c 24 \<subseteq> region c 32" by (rule region_mono) simp
  have outm: "?m y = mem (taken i ?t) y" if "y \<notin> region c 32" "y \<notin> region p 4096" for y
    using that out [of y] c24 by (auto simp: slab_lock_outside slab_head_outside)
  have bmm: "?m y = mem (taken i ?t) y" if "y \<in> bitmap_region (taken i ?t)" for y
    using that bm ok i(3) by (intro outm) (auto simp: mm_ok_def)
  have "slab_inv d c sz (p # ps) fl ((taken i ?t)\<lparr>mem := ?m\<rparr>)"
    using ok' slab_rep_unlock [OF P(1)] mm_ok_mem_cong [OF bmm] slab_sep_mem_cong [OF bmm]
    by (simp add: slab_inv_def)
  moreover have "avail_frames ((taken i ?t)\<lparr>mem := ?m\<rparr>) = avail_frames s - {p}"
    using av avail_frames_mem_cong [of "taken i ?t" ?m] bmm by simp
  moreover have "?m y = mem s y" if "y \<notin> region c 32" "y \<notin> region p 4096" "y \<notin> bitmap_region s" for y
    using outm [of y] that mem_taken [of i ?t y] free_set_bound [OF i(1)]
    by (simp add: slab_lock_outside)
  moreover have "tail_kept s ((taken i ?t)\<lparr>mem := ?m\<rparr>)"
  proof -
    have cf: "region c 32 \<inter> region f 4096 = {}" if "f \<in> avail_frames s" for f
      using assms(1) that by (auto simp: slab_inv_def slab_sep_def)
    have "tail_kept s ?t" using bm cf slab_lock_outside by (intro tail_kept_mem) blast+
    moreover have "tail_kept ?t (taken i ?t)" using nf T(2) by (intro tail_kept_taken) (simp_all add: mm_ok_def)
    moreover have "tail_kept (taken i ?t) ((taken i ?t)\<lparr>mem := ?m\<rparr>)"
      using bmm
    proof (rule tail_kept_mem)
      fix f y assume "f \<in> avail_frames (taken i ?t)" and y: "y \<in> region f 4096"
      then have f: "f \<in> avail_frames s" "f \<noteq> p" using av by simp_all
      have "region f 4096 \<inter> region p 4096 = {}"
        using f(2) avail_frames_page [OF ok f(1)] avail_frames_page [OF ok i(3)] by (intro pages_disjoint)
      then show "?m y = mem (taken i ?t) y" using y cf [OF f(1)] by (intro outm) blast+
    qed
    ultimately show ?thesis using tail_kept_trans by blast
  qed
  moreover have "?m y = mem s y" if z: "z \<in> set (page_objs sz p)" "y \<in> region z sz" "y \<notin> region z 8" for z y
  proof -
    have "region c 32 \<inter> region p 4096 = {}" "bitmap_region s \<inter> region p 4096 = {}"
      using i(3) assms(1) ok by (auto simp: slab_inv_def slab_sep_def mm_ok_def)
    then have "y \<notin> region c 32" "y \<notin> bitmap_region s" using page_obj_in_page [OF z(1)] z(2) by blast+
    then show ?thesis
      using body [OF z] mem_taken [of i ?t y] free_set_bound [OF i(1)]
      by (simp add: slab_lock_outside slab_head_outside)
  qed
  ultimately show thesis using i xfl alloc unfolding same by (intro that)
qed

text \<open>No page left: the panic of \<^verbatim>\<open>slab_grow\<close> or of the frame allocator.\<close>

lemma slab_alloc_exhausted:
  assumes "slab_inv d c sz ps [] s" and "avail_frames s = {}"
  shows "\<exists>s'. slab_alloc c s = Halt s'"
proof -
  note T = slab_locked [OF assms(1)]
  let ?t = "s\<lparr>mem := write32 (mem s) (slab_lock c) 1\<rparr>"
  have "c \<noteq> NULL" using assms(1) slab_rep_not_null unfolding slab_inv_def by blast
  moreover have "load64 ?t (slab_head c) = NULL" using T(4) by (simp add: slab_lists_def)
  moreover have "free_set ?t = {}" "last_free_index ?t \<le> total_frames ?t"
    using assms(2) T(2,6) by (auto simp: avail_frames_def mm_ok_def pmm_inv_def)
  then have "(\<exists>u. pmm_alloc_frame ?t = Halt u) \<or> pmm_alloc_frame ?t = Ret 0 ?t"
    using pmm_alloc_frame_full [of ?t] panic_halts by (cases "free_frames ?t = 0") auto
  then have "\<exists>s'. slab_grow c ?t = Halt s'" using panic_halts by (auto simp: slab_grow_def)
  ultimately show ?thesis using T(1) by (auto simp: slab_alloc_def)
qed

lemma slab_free_ok:
  assumes "slab_inv d c sz ps fl s" and "x \<in> slab_objs sz ps" and "x \<notin> set fl"
  obtains m where "slab_free c x s = Ret () (s\<lparr>mem := m\<rparr>)"
    and "slab_inv d c sz ps (x # fl) (s\<lparr>mem := m\<rparr>)"
    and "\<And>y. y \<notin> region c 32 \<Longrightarrow> y \<notin> region x 8 \<Longrightarrow> m y = mem s y"
proof -
  note T = slab_locked [OF assms(1)]
  let ?t = "s\<lparr>mem := write32 (mem s) (slab_lock c) 1\<rparr>"
  have rep: "slab_rep c sz ps fl (mem s)" and sep: "slab_sep c ps s"
    using assms(1) by (simp_all add: slab_inv_def)
  have "x \<noteq> NULL" using slab_lists_node_sep [OF T(4)] assms(2) by (auto simp: node_sep_def)
  have "distinct ([x] @ fl)" using assms(3) T(4) by (simp add: slab_lists_def)
  then have L: "slab_lists c sz ps (x # fl) (push_node c x (mem ?t))"
    using slab_lists_fold_push(1) [OF T(4), of "[x]"] assms(2) by simp
  let ?m = "write32 (push_node c x (mem ?t)) (slab_lock c) 0"
  have run: "slab_free c x s = Ret () (s\<lparr>mem := ?m\<rparr>)"
    using T(1) \<open>x \<noteq> NULL\<close> slab_rep_not_null [OF rep]
    by (simp add: slab_free_def Let_def push_node_def spin_unlock_eq store64_def)
  have out: "?m y = mem s y" if "y \<notin> region c 32" "y \<notin> region x 8" for y
  proof -
    have "y \<notin> region (slab_head c) 8" using that(1) cache_parts(3) [of c] by blast
    then show ?thesis using that by (simp add: slab_lock_outside push_node_outside)
  qed
  have "?m y = mem s y" if "y \<in> bitmap_region s" for y
  proof (rule out)
    show "y \<notin> region c 32" using that sep by (auto simp: slab_sep_def)
    obtain p where "p \<in> set ps" "region x sz \<subseteq> region p 4096" using assms(2) slab_obj_in_page by blast
    then show "y \<notin> region x 8"
      using that sep region_mono [OF slab_listsD(1) [OF T(4)], of x] unfolding slab_sep_def by blast
  qed
  then have "slab_inv d c sz ps (x # fl) (s\<lparr>mem := ?m\<rparr>)"
    using assms(1) slab_rep_unlock [OF L] by (intro slab_invI [OF assms(1)]) simp_all
  with run out show thesis by (intro that) blast+
qed

subsection \<open>The contract holds\<close>

lemma slab_rep_unique:
  assumes "slab_rep c sz ps fl m" and "slab_rep c sz' ps' fl' m"
  shows "sz' = sz \<and> ps' = ps \<and> fl' = fl"
proof -
  have "of_nat sz = (of_nat sz' :: u64)" "sz < 2 ^ 64" "sz' < 2 ^ 64"
    using assms by (simp_all add: slab_rep_def slab_lists_def)
  then have "sz' = sz" by (metis of_nat_u64_eq_iff)
  then show ?thesis using assms by (auto simp: slab_rep_def slab_lists_def dest: chain_functional)
qed

lemma slab_inv_live:
  assumes "slab_inv d c sz ps fl s"
  shows "slab_live c s = slab_objs sz ps - set fl" and "slab_size c s = sz" and "slab_ok c s"
proof -
  have rep: "slab_rep c sz ps fl (mem s)" using assms by (simp add: slab_inv_def)
  show "slab_live c s = slab_objs sz ps - set fl"
  proof -
    have "sz' = sz \<and> ps' = ps \<and> fl' = fl" if "slab_rep c sz' ps' fl' (mem s)" for sz' ps' fl'
      using rep that by (rule slab_rep_unique)
    then show ?thesis using rep unfolding slab_live_def by blast
  qed
  have "sz < 2 ^ 64" "load64 s (slab_obj_size c) = of_nat sz"
    using rep by (simp_all add: slab_rep_def slab_lists_def)
  then show "slab_size c s = sz" by (simp add: slab_size_def unat_of_nat_u64)
  show "slab_ok c s" using assms by (auto simp: slab_ok_def)
qed

text \<open>Live objects lie in pages of the cache, apart from everything the allocator writes.\<close>

lemma slab_live_region:
  assumes "slab_inv d c sz ps fl s" and "x \<in> slab_objs sz ps" and "x \<notin> set fl"
    and "y \<in> region x sz"
  shows "y \<notin> region c 32" and "y \<notin> bitmap_region s"
    and "p \<in> avail_frames s \<Longrightarrow> y \<notin> region p 4096"
    and "p \<in> set ps \<Longrightarrow> y \<notin> region p 16" and "z \<in> set fl \<Longrightarrow> y \<notin> region z 8"
proof -
  have L: "slab_lists c sz ps fl (mem s)" and sep: "slab_sep c ps s" and ok: "mm_ok d s"
    using assms(1) by (simp_all add: slab_inv_def slab_rep_def)
  obtain q where q: "q \<in> set ps" "x \<in> set (page_objs sz q)" using assms(2) by (auto simp: slab_objs_def)
  have y: "y \<in> region q 4096" using page_obj_in_page [OF q(2)] assms(4) by auto
  have pq: "page q" using slab_listsD(4) [OF L] q(1) by blast
  show "y \<notin> region c 32" using slab_listsD(5) [OF L q(1)] y by blast
  show "y \<notin> bitmap_region s" using sep q(1) y by (auto simp: slab_sep_def)
  show "y \<notin> region p 4096" if "p \<in> avail_frames s"
    using sep q(1) y that pages_disjoint [OF avail_frames_page [OF ok that] pq] by (auto simp: slab_sep_def)
  show "y \<notin> region p 16" if "p \<in> set ps"
  proof (cases "p = q")
    case True
    then show ?thesis using page_obj_behind_header [OF q(2)] assms(4) by blast
  next
    case False
    then have "region p 4096 \<inter> region q 4096 = {}"
      using that pq slab_listsD(4) [OF L] by (intro pages_disjoint) auto
    then show ?thesis using y page_parts(3) [of p] by blast
  qed
  show "y \<notin> region z 8" if z: "z \<in> set fl"
  proof -
    have "region x sz \<inter> region z sz = {}"
      using slab_objs_disjoint [OF slab_listsD(4) [OF L] assms(2)] slab_listsD(3) [OF L] z assms(3)
      by blast
    then show ?thesis using assms(4) region_mono [OF slab_listsD(1) [OF L], of z] by blast
  qed
qed

text \<open>Writing inside a live object does not harm the cache.\<close>

lemma slab_inv_client:
  assumes "slab_inv d c sz ps fl s" and "x \<in> slab_objs sz ps" and "x \<notin> set fl"
    and "\<And>y. y \<notin> region x sz \<Longrightarrow> m y = mem s y"
  shows "slab_inv d c sz ps fl (s\<lparr>mem := m\<rparr>)"
proof -
  note R = slab_live_region [OF assms(1-3)]
  have L: "slab_lists c sz ps fl (mem s)" and lk: "read32 (mem s) (slab_lock c) = 0"
    using assms(1) by (simp_all add: slab_inv_def slab_rep_def)
  have c24: "region c 24 \<subseteq> region c 32" by (rule region_mono) simp
  have "slab_lists c sz ps fl m"
    using R c24 by (intro slab_lists_cong [OF L]; intro assms(4)) blast+
  moreover have "read32 m (slab_lock c) = read32 (mem s) (slab_lock c)"
    using R(1) cache_parts(4) [of c] by (intro read32_cong assms(4)) blast
  ultimately have "slab_rep c sz ps fl m" using lk by (simp add: slab_rep_def)
  then show ?thesis by (rule slab_invI [OF assms(1)]) (use R(2) assms(4) in blast)+
qed

lemma slab_inv_store8:
  assumes "slab_inv d c sz ps fl s" and "x \<in> slab_objs sz ps" and "x \<notin> set fl" and "a \<in> region x sz"
  shows "slab_inv d c sz ps fl (store8 a v s)"
  unfolding store8_def using assms by (intro slab_inv_client [OF assms(1-3)]) auto

text \<open>Behind its first eight bytes a new object is as it was, in a free frame when the cache grows.\<close>

lemma slab_alloc_body:
  assumes inv: "slab_inv d c sz ps fl s" and al: "slab_alloc c s = Ret x s'"
  shows "y \<in> region x sz \<Longrightarrow> y \<notin> region x 8 \<Longrightarrow> mem s' y = mem s y"
    and "fl = [] \<Longrightarrow> \<exists>f \<in> avail_frames s. region x sz \<subseteq> region f 4096"
proof -
  have "(\<forall>y. y \<in> region x sz \<longrightarrow> y \<notin> region x 8 \<longrightarrow> mem s' y = mem s y) \<and>
      (fl = [] \<longrightarrow> (\<exists>f \<in> avail_frames s. region x sz \<subseteq> region f 4096))"
  proof (cases fl)
    case (Cons z zs)
    obtain m where m: "slab_alloc c s = Ret z (s\<lparr>mem := m\<rparr>)" "\<And>y. y \<notin> region c 32 \<Longrightarrow> m y = mem s y"
      using slab_alloc_pop [OF inv [unfolded Cons]] by metis
    have lists: "slab_lists c sz ps (z # zs) (mem s)" using inv slab_repD Cons by (auto simp: slab_inv_def)
    then obtain p where "p \<in> set ps" "region z sz \<subseteq> region p 4096"
      using slab_listsD(3) [OF lists] slab_obj_in_page [of z sz ps] by auto
    then have "region z sz \<inter> region c 32 = {}" using slab_listsD(5) [OF lists] by blast
    then show ?thesis using m al Cons by auto
  next
    case Nil
    have ne: "avail_frames s \<noteq> {}" using slab_alloc_exhausted [OF inv [unfolded Nil]] al by auto
    from slab_alloc_grow [OF inv [unfolded Nil] ne] obtain i p w zs m where
      p: "p \<in> avail_frames s" "rev (page_objs sz p) = w # zs" and run: "slab_alloc c s = Ret w ((taken i s)\<lparr>mem := m\<rparr>)"
      and b: "\<And>z y. z \<in> set (page_objs sz p) \<Longrightarrow> y \<in> region z sz \<Longrightarrow> y \<notin> region z 8 \<Longrightarrow> m y = mem s y"
      by metis
    have "w \<in> set (page_objs sz p)" using p(2) by (metis set_rev list.set_intros(1))
    then show ?thesis using b [of w] page_obj_in_page [of w sz p] p(1) run al by auto
  qed
  then show "y \<in> region x sz \<Longrightarrow> y \<notin> region x 8 \<Longrightarrow> mem s' y = mem s y"
    "fl = [] \<Longrightarrow> \<exists>f \<in> avail_frames s. region x sz \<subseteq> region f 4096" by blast+
qed

text \<open>Every way a call of \<^verbatim>\<open>slab_alloc\<close> that returns can go.\<close>

lemma slab_alloc_Ret:
  assumes "slab_inv d c sz ps fl s" and "slab_alloc c s = Ret x s'"
  obtains ps' fl' where "slab_inv d c sz ps' fl' s'" and "x \<in> slab_objs sz ps'" and "x \<notin> set fl'"
    and "x \<notin> slab_objs sz ps - set fl"
    and "slab_objs sz ps' - set fl' = insert x (slab_objs sz ps - set fl)"
    and "set ps' \<subseteq> set ps \<union> avail_frames s" and "slab_frame c s s'"
    and "length fl' + 1 = (if fl = [] then 4080 div sz else length fl)"
    and "\<exists>p. avail_frames s - (if fl = [] then {p} else {}) \<subseteq> avail_frames s'"
proof (cases fl)
  case (Cons z zs)
  from slab_alloc_pop [OF assms(1) [unfolded Cons]] obtain m where
    run: "slab_alloc c s = Ret z (s\<lparr>mem := m\<rparr>)" and inv: "slab_inv d c sz ps zs (s\<lparr>mem := m\<rparr>)"
    and out: "\<And>y. y \<notin> region c 32 \<Longrightarrow> m y = mem s y" by metis
  have x: "x = z" "s' = s\<lparr>mem := m\<rparr>" using run assms(2) by simp_all
  have L: "slab_lists c sz ps fl (mem s)" and bm: "bitmap_region s \<inter> region c 32 = {}"
    using assms(1) by (simp_all add: slab_inv_def slab_rep_def slab_sep_def)
  then have z: "z \<in> slab_objs sz ps" "z \<notin> set zs" by (auto simp: slab_lists_def Cons)
  have "avail_frames s' = avail_frames s"
    unfolding x using bm out by (intro avail_frames_mem_cong) blast
  moreover have "tail_kept s s'"
    unfolding x using bm out assms(1) by (intro tail_kept_mem) (auto simp: slab_inv_def slab_sep_def)
  ultimately have "slab_frame c s s'" "\<exists>p. avail_frames s - (if fl = [] then {p} else {}) \<subseteq> avail_frames s'"
    using x out by (simp_all add: slab_frame_def upper_same_def)
  with inv z x Cons show thesis by (intro that [of ps zs]) auto
next
  case Nil
  have L: "slab_lists c sz ps [] (mem s)" using assms(1) Nil by (simp add: slab_inv_def slab_rep_def)
  have ne: "avail_frames s \<noteq> {}"
    using slab_alloc_exhausted [OF assms(1) [unfolded Nil]] assms(2) by auto
  from slab_alloc_grow [OF assms(1) [unfolded Nil] ne] obtain i p w zs m where
    p: "p \<in> avail_frames s" "rev (page_objs sz p) = w # zs"
    and run: "slab_alloc c s = Ret w ((taken i s)\<lparr>mem := m\<rparr>)"
    and inv: "slab_inv d c sz (p # ps) zs ((taken i s)\<lparr>mem := m\<rparr>)"
    and av: "avail_frames ((taken i s)\<lparr>mem := m\<rparr>) = avail_frames s - {p}"
    and out: "\<And>y. y \<notin> region c 32 \<Longrightarrow> y \<notin> region p 4096 \<Longrightarrow> y \<notin> bitmap_region s \<Longrightarrow> m y = mem s y"
    and tail: "tail_kept s ((taken i s)\<lparr>mem := m\<rparr>)"
    by metis
  have x: "x = w" "s' = (taken i s)\<lparr>mem := m\<rparr>" using run assms(2) by simp_all
  have pg: "page p" "p \<notin> set ps"
    using p(1) assms(1) by (auto simp: slab_inv_def slab_sep_def intro: avail_frames_page)
  have objs: "set (page_objs sz p) = insert w (set zs)" using p(2) by (metis set_rev list.simps(15))
  have dist: "w \<notin> set zs"
    using distinct_page_objs [of sz p] slab_listsD(1) [OF L] p(2)
    by (metis distinct.simps(2) distinct_rev less_le_trans zero_less_numeral)
  have fresh: "set (page_objs sz p) \<inter> slab_objs sz ps = {}" using L pg by (rule page_objs_fresh)
  show thesis
  proof (rule that)
    show "slab_inv d c sz (p # ps) zs s'" using inv x by simp
    show "x \<in> slab_objs sz (p # ps)" "x \<notin> set zs" "x \<notin> slab_objs sz ps - set fl"
      "slab_objs sz (p # ps) - set zs = insert x (slab_objs sz ps - set fl)"
      using objs dist fresh x Nil by (auto simp: slab_objs_Cons)
    show "set (p # ps) \<subseteq> set ps \<union> avail_frames s" using p(1) by auto
    show "slab_frame c s s'" using x av p(1) out tail by (auto simp: slab_frame_def upper_same_def)
    show "\<exists>p. avail_frames s - (if fl = [] then {p} else {}) \<subseteq> avail_frames s'"
      using av x Nil by auto
    show "length zs + 1 = (if fl = [] then 4080 div sz else length fl)"
      using Nil arg_cong [OF p(2), of length] by (simp add: page_objs_def)
  qed
qed

lemma slab_frame_live:
  assumes "slab_inv d c sz ps fl s" and "slab_frame c s t"
    and "w \<in> slab_objs sz ps" and "w \<notin> set fl" and "y \<in> region w sz"
  shows "mem t y = mem s y"
  using assms(2) slab_live_region [OF assms(1,3-5)] by (auto simp: slab_frame_def)

interpretation slab: object_allocator "slab_alloc c" "slab_free c" store8 mem "slab_live c"
  "slab_size c" "slab_ok c" for c :: u64
proof
  fix s x s' assume ok: "slab_ok c s" and run: "slab_alloc c s = Ret x s'"
  then obtain d sz ps fl where inv: "slab_inv d c sz ps fl s" by (auto simp: slab_ok_def)
  note I = slab_inv_live [OF inv]
  from slab_alloc_Ret [OF inv run] obtain ps' fl' where A: "slab_inv d c sz ps' fl' s'"
    "x \<in> slab_objs sz ps'" "x \<notin> slab_objs sz ps - set fl"
    "slab_objs sz ps' - set fl' = insert x (slab_objs sz ps - set fl)" "slab_frame c s s'"
    by metis
  note I' = slab_inv_live [OF A(1)]
  have "x \<noteq> NULL"
    using slab_lists_node_sep A(1,2) unfolding slab_inv_def slab_rep_def node_sep_def by blast
  then show "x \<notin> slab_live c s \<and> x \<noteq> NULL \<and> slab_live c s' = insert x (slab_live c s) \<and>
      slab_ok c s' \<and> slab_size c s' = slab_size c s"
    using A I I' by simp
  show "mem s' z = mem s z" if "y \<in> slab_live c s" "z \<in> region y (slab_size c s)" for y z
    using that I slab_frame_live [OF inv A(5)] by auto
next
  fix s x assume ok: "slab_ok c s" and x: "x \<in> slab_live c s"
  then obtain d sz ps fl where inv: "slab_inv d c sz ps fl s" by (auto simp: slab_ok_def)
  note I = slab_inv_live [OF inv]
  have x': "x \<in> slab_objs sz ps" "x \<notin> set fl" using x I by auto
  from slab_free_ok [OF inv x'] obtain m where run: "slab_free c x s = Ret () (s\<lparr>mem := m\<rparr>)"
    and inv': "slab_inv d c sz ps (x # fl) (s\<lparr>mem := m\<rparr>)"
    and out: "\<And>y. y \<notin> region c 32 \<Longrightarrow> y \<notin> region x 8 \<Longrightarrow> m y = mem s y" by metis
  note I' = slab_inv_live [OF inv']
  have "m z = mem s z" if y: "y \<in> slab_live c s - {x}" "z \<in> region y (slab_size c s)" for y z
  proof (rule out)
    have y': "y \<in> slab_objs sz ps" "y \<notin> set (x # fl)" "z \<in> region y sz" using y I by auto
    show "z \<notin> region c 32" using slab_live_region(1) [OF inv' y'] .
    show "z \<notin> region x 8" using slab_live_region(5) [OF inv' y'] by simp
  qed
  then show "\<exists>s'. slab_free c x s = Ret () s' \<and> slab_live c s' = slab_live c s - {x} \<and>
      slab_ok c s' \<and> slab_size c s' = slab_size c s \<and>
      (\<forall>y \<in> slab_live c s - {x}. \<forall>z \<in> region y (slab_size c s). mem s' z = mem s z)"
    using run I I' by (intro exI [of _ "s\<lparr>mem := m\<rparr>"]) auto
next
  fix s x a v
  assume ok: "slab_ok c s" and x: "x \<in> slab_live c s" and a: "a \<in> region x (slab_size c s)"
  then obtain d sz ps fl where inv: "slab_inv d c sz ps fl s" by (auto simp: slab_ok_def)
  note I = slab_inv_live [OF inv]
  have x': "x \<in> slab_objs sz ps" "x \<notin> set fl" using x I by auto
  have "slab_inv d c sz ps fl (store8 a v s)"
    using inv x' a I by (intro slab_inv_store8) auto
  from slab_inv_live [OF this] I
  show "slab_ok c (store8 a v s) \<and> slab_live c (store8 a v s) = slab_live c s \<and>
      slab_size c (store8 a v s) = slab_size c s \<and> mem (store8 a v s) = (mem s)(a := v)"
    by (simp add: store8_def)
next
  fix s x y assume ok: "slab_ok c s" and x: "x \<in> slab_live c s" "y \<in> slab_live c s" "x \<noteq> y"
  then obtain d sz ps fl where inv: "slab_inv d c sz ps fl s" by (auto simp: slab_ok_def)
  note I = slab_inv_live [OF inv]
  show "region x (slab_size c s) \<inter> region y (slab_size c s) = {}"
    using x I inv slab_objs_disjoint [of ps x sz y] slab_listsD(4)
    unfolding slab_inv_def slab_rep_def by blast
qed

subsection \<open>Other caches\<close>

text \<open>A step that spares a cache and its pages, and takes none of them back as a free frame, keeps its invariant.\<close>

lemma slab_inv_spared:
  assumes "slab_inv d c sz ps fl s" and "mm_ok d t" and "bitmap_region t = bitmap_region s"
    and "\<And>f. f \<in> avail_frames t \<Longrightarrow> f \<in> avail_frames s \<or> f \<notin> set ps \<and> region c 32 \<inter> region f 4096 = {}"
    and "\<And>y. y \<in> region c 32 \<Longrightarrow> mem t y = mem s y"
    and "\<And>p y. p \<in> set ps \<Longrightarrow> y \<in> region p 4096 \<Longrightarrow> mem t y = mem s y"
  shows "slab_inv d c sz ps fl t"
proof -
  have L: "slab_lists c sz ps fl (mem s)" and lk: "read32 (mem s) (slab_lock c) = 0"
    using assms(1) by (simp_all add: slab_inv_def slab_rep_def)
  have "slab_lists c sz ps fl (mem t)"
  proof (rule slab_lists_cong [OF L])
    show "mem t y = mem s y" if "y \<in> region c 24" for y
      using assms(5) that region_mono [of 24 32 c] by auto
    show "mem t y = mem s y" if "p \<in> set ps" "y \<in> region p 16" for p y
      using assms(6) that page_parts(3) by blast
    show "mem t y = mem s y" if "x \<in> set fl" "y \<in> region x 8" for x y
      using that assms(6) slab_obj_in_page [of x sz ps] slab_listsD(1,3) [OF L]
        region_mono [of 8 sz x] by blast
  qed
  moreover have "read32 (mem t) (slab_lock c) = 0"
    using lk assms(5) cache_parts(4) [of c] read32_cong [of "slab_lock c" "mem t" "mem s"] by auto
  moreover have "slab_sep c ps t"
    using assms(1,3,4) unfolding slab_inv_def slab_sep_def by blast
  ultimately show ?thesis using assms(2) by (simp add: slab_inv_def slab_rep_def)
qed

lemma slab_inv_other:
  assumes "slab_inv d c sz ps fl s" and "mm_ok d t" and "bitmap_region t = bitmap_region s"
    and "avail_frames t \<subseteq> avail_frames s"
    and "\<And>y. y \<in> region c 32 \<Longrightarrow> mem t y = mem s y"
    and "\<And>p y. p \<in> set ps \<Longrightarrow> y \<in> region p 4096 \<Longrightarrow> mem t y = mem s y"
  shows "slab_inv d c sz ps fl t"
  using assms by (intro slab_inv_spared [OF assms(1-3)]) blast+

subsection \<open>Creating a cache\<close>

text \<open>The memory of an empty cache.\<close>

definition cache_init :: "u64 \<Rightarrow> u64 \<Rightarrow> memory \<Rightarrow> memory" where
  "cache_init c n m =
     write32 (write64 (write64 (write64 m (slab_obj_size c) n) (slab_slabs c) NULL)
       (slab_head c) NULL) (slab_lock c) 0"

lemma cache_init_outside: "y \<notin> region c 32 \<Longrightarrow> cache_init c n m y = m y"
proof -
  assume "y \<notin> region c 32"
  then have "y \<notin> region (slab_obj_size c) 8" "y \<notin> region (slab_slabs c) 8" "y \<notin> region (slab_head c) 8"
    using cache_parts(1-3) [of c] by blast+
  with \<open>y \<notin> region c 32\<close> show ?thesis
    by (simp add: cache_init_def slab_lock_outside write64_outside)
qed

lemma cache_init_rep:
  assumes "c \<noteq> NULL" and "8 \<le> sz" and "sz \<le> 4080"
  shows "slab_rep c sz [] [] (cache_init c (of_nat sz) m)"
  using assms cache_parts [of c]
  by (simp add: slab_rep_def slab_lists_def cache_init_def mem_simps rw_disjoint Int_commute)

text \<open>The size \<^verbatim>\<open>slab_cache_create\<close> gives the objects of a cache.\<close>

definition slab_round :: "u64 \<Rightarrow> u64" where
  "slab_round n = ALIGN_UP (if n < 8 then 8 else n) 8"

lemma unat_slab_round:
  assumes "unat n \<le> 4080"
  shows "unat (slab_round n) = (max 8 (unat n) + 7) div 8 * 8"
    and "8 \<le> unat (slab_round n)" and "unat (slab_round n) \<le> 4080"
proof -
  let ?k = "if n < 8 then 8 else n"
  have k: "unat ?k = max 8 (unat n)" by (auto simp: word_less_nat_alt max_def)
  have "unat (ALIGN_UP ?k (2 ^ 3)) = (unat ?k + 2 ^ 3 - 1) div 2 ^ 3 * 2 ^ 3"
    using assms k by (intro unat_ALIGN_UP) auto
  then show r: "unat (slab_round n) = (max 8 (unat n) + 7) div 8 * 8"
    using k by (simp add: slab_round_def)
  have "(8 + 7) div 8 * 8 \<le> (max 8 (unat n) + 7) div 8 * 8"
    by (intro mult_le_mono1 div_le_mono) simp
  then show "8 \<le> unat (slab_round n)" by (simp add: r)
  have "(max 8 (unat n) + 7) div 8 * 8 \<le> (4080 + 7) div 8 * 8"
    using assms by (intro mult_le_mono1 div_le_mono) simp
  then show "unat (slab_round n) \<le> 4080" by (simp add: r)
qed

lemma slab_cache_create_eq:
  assumes "cache_meta_initialized s"
  shows "slab_cache_create n s =
    andThen (slab_alloc (cache_metadata_cache s) s) (\<lambda>c s.
      if c = NULL then Ret NULL s else Ret c (s\<lparr>mem := cache_init c (slab_round n) (mem s)\<rparr>))"
  using assms
  by (simp add: slab_cache_create_def Let_def slab_round_def cache_init_def store64_def
      spin_lock_init_def cong: if_cong)

text \<open>The first call starts the cache of caches.\<close>

lemma slab_cache_create_first:
  assumes "\<not> cache_meta_initialized s"
  shows "slab_cache_create n s =
    slab_cache_create n (s\<lparr>mem := cache_init (cache_metadata_cache s) 32 (mem s),
                           cache_meta_initialized := True\<rparr>)"
  using assms
  by (simp add: slab_cache_create_def Let_def cache_init_def store64_def spin_lock_init_def)

text \<open>
  A new cache is a live object of the cache of caches; it has no page and no free object, and
  the cache of caches keeps its invariant.
\<close>

lemma slab_cache_create_ok:
  assumes "slab_inv d (cache_metadata_cache s) 32 ps fl s" and "cache_meta_initialized s"
    and "unat n \<le> 4080" and "slab_alloc (cache_metadata_cache s) s = Ret c s'"
  obtains ps' fl' t where "slab_cache_create n s = Ret c t" and "t = s'\<lparr>mem := cache_init c (slab_round n) (mem s')\<rparr>"
    and "slab_inv d (cache_metadata_cache s) 32 ps' fl' t"
    and "slab_inv d c (unat (slab_round n)) [] [] t"
    and "c \<in> slab_objs 32 ps'" and "c \<notin> set fl'"
    and "slab_objs 32 ps' - set fl' = insert c (slab_objs 32 ps - set fl)" and "c \<notin> slab_objs 32 ps - set fl"
    and "slab_frame (cache_metadata_cache s) s s'"
    and "length fl' + 1 = (if fl = [] then 127 else length fl)"
    and "\<exists>p. avail_frames s - (if fl = [] then {p} else {}) \<subseteq> avail_frames t"
    and "avail_frames t \<subseteq> avail_frames s" and "set ps' \<subseteq> set ps \<union> avail_frames s" and "tail_kept s t"
proof -
  let ?meta = "cache_metadata_cache s"
  from slab_alloc_Ret [OF assms(1,4)] obtain ps' fl' where A: "slab_inv d ?meta 32 ps' fl' s'"
    "c \<in> slab_objs 32 ps'" "c \<notin> set fl'" "c \<notin> slab_objs 32 ps - set fl"
    "slab_objs 32 ps' - set fl' = insert c (slab_objs 32 ps - set fl)" "slab_frame ?meta s s'"
    "length fl' + 1 = (if fl = [] then 4080 div 32 else length fl)"
    "\<exists>p. avail_frames s - (if fl = [] then {p} else {}) \<subseteq> avail_frames s'"
    "set ps' \<subseteq> set ps \<union> avail_frames s" by metis
  let ?t = "s'\<lparr>mem := cache_init c (slab_round n) (mem s')\<rparr>"
  have nn: "c \<noteq> NULL"
    using slab_lists_node_sep A(1,2) unfolding slab_inv_def slab_rep_def node_sep_def by blast
  have meta: "slab_inv d ?meta 32 ps' fl' ?t"
    using A(1-3) by (rule slab_inv_client) (rule cache_init_outside)
  have rep: "slab_rep c (unat (slab_round n)) [] [] (mem ?t)"
    using cache_init_rep [OF nn unat_slab_round(2,3) [OF assms(3)]] by simp
  note R = slab_live_region [OF meta A(2,3)]
  have "avail_frames ?t = avail_frames s'"
    using slab_live_region(2) [OF A(1-3)] by (intro avail_frames_mem_cong cache_init_outside) blast
  moreover have "tail_kept s' ?t"
    using slab_live_region(2,3) [OF A(1-3)] by (intro tail_kept_mem cache_init_outside) blast+
  then have "tail_kept s ?t" using A(6) tail_kept_trans by (auto simp: slab_frame_def)
  moreover have "avail_frames s' \<subseteq> avail_frames s" using A(6) by (simp add: slab_frame_def)
  moreover have "slab_sep c [] ?t" using R(2,3) by (auto simp: slab_sep_def)
  moreover from this have "slab_inv d c (unat (slab_round n)) [] [] ?t"
    using rep meta by (simp add: slab_inv_def)
  moreover have "slab_cache_create n s = Ret c ?t"
    using slab_cache_create_eq [OF assms(2)] assms(4) nn by simp
  ultimately show thesis using meta A by (intro that [of ?t ps' fl']) auto
qed

lemma slab_alloc_returns:
  assumes "slab_inv d c sz ps fl s" and "fl \<noteq> [] \<or> avail_frames s \<noteq> {}"
  obtains x s' where "slab_alloc c s = Ret x s'"
proof (cases fl)
  case Nil
  then have "avail_frames s \<noteq> {}" using assms(2) by simp
  from slab_alloc_grow [OF assms(1) [unfolded Nil] this] show ?thesis using that by metis
next
  case (Cons x fl')
  from slab_alloc_pop [OF assms(1) [unfolded Cons]] show ?thesis using that by metis
qed

section \<open>Properties\<close>

text \<open>A machine with sixteen free frames and an empty cache of 1360-byte objects, three to a page.\<close>

definition slab_demo :: kstate where
  "slab_demo = pmm_demo\<lparr>mem := cache_init 0x2000 1360 (\<lambda>_. 0)\<rparr>"

lemma in_region_unat:
  assumes "unat a + n \<le> 2 ^ 64"
  shows "x \<in> region a n \<longleftrightarrow> unat a \<le> unat x \<and> unat x < unat a + n"
  using assms unat_lt_u64 [of x] by (auto simp: region_def unat_sub_if' simp del: unat_lt_u64)

lemma pmm_demo_bitmap: "bitmap_region pmm_demo \<subseteq> region 0x1000 2"
proof
  fix x assume "x \<in> bitmap_region pmm_demo"
  then obtain i where i: "i < 16" "x = 0x1000 + of_nat i div 8"
    by (auto simp: bitmap_region_def pmm_demo_def)
  then show "x \<in> region 0x1000 2" by (simp add: region_def unat_div unat_of_nat_u64)
qed

lemma pmm_demo_avail: "f \<in> avail_frames pmm_demo \<Longrightarrow> unat f \<ge> 0x80000000 \<and> unat f + 4096 \<le> 0x80010000"
proof -
  assume "f \<in> avail_frames pmm_demo"
  then obtain i where i: "i < 16" "f = frame_addr pmm_demo i"
    by (auto simp: avail_frames_def pmm_demo_facts)
  then have "unat f = unat (mem_phys_base pmm_demo) + i * 4096"
    using pmm_inv_pos(1) [OF pmm_demo_facts(2), of i] by (simp add: pmm_demo_facts(4))
  then show ?thesis using i(1) by (simp add: pmm_demo_def)
qed

lemma demo_bitmap_apart: "x \<in> bitmap_region pmm_demo \<Longrightarrow> unat x < 0x2000"
  using pmm_demo_bitmap by (auto simp: in_region_unat)

lemma pmm_demo_mm_ok: "mm_ok 0 pmm_demo"
proof -
  have "bitmap_region pmm_demo \<inter> region f 4096 = {}" if "f \<in> avail_frames pmm_demo" for f
    using pmm_demo_avail [OF that] demo_bitmap_apart by (fastforce simp: in_region_unat)
  then show ?thesis using pmm_demo_facts(2) by (simp add: mm_ok_def) (simp add: pmm_demo_def)
qed

lemma slab_demo_inv: "slab_inv 0 0x2000 1360 [] [] slab_demo" and slab_demo_avail: "avail_frames slab_demo \<noteq> {}"
proof -
  have c: "mem slab_demo y = mem pmm_demo y" if "y \<in> bitmap_region pmm_demo" for y
    using demo_bitmap_apart [OF that]
    by (simp add: slab_demo_def pmm_demo_def reset_state_def cache_init_outside in_region_unat)
  then have ok: "mm_ok 0 slab_demo" and av: "avail_frames slab_demo = avail_frames pmm_demo"
    using pmm_demo_mm_ok mm_ok_mem_cong [of pmm_demo "mem slab_demo"]
      avail_frames_mem_cong [of pmm_demo "mem slab_demo"] by (simp_all add: slab_demo_def)
  have "bitmap_region slab_demo \<inter> region 0x2000 32 = {}"
    using demo_bitmap_apart by (fastforce simp: slab_demo_def in_region_unat)
  moreover have "region 0x2000 32 \<inter> region f 4096 = {}" if "f \<in> avail_frames slab_demo" for f
    using pmm_demo_avail [of f] that av by (auto simp: in_region_unat)
  ultimately have "slab_sep 0x2000 [] slab_demo" by (simp add: slab_sep_def)
  moreover have "slab_rep 0x2000 1360 [] [] (mem slab_demo)"
    using cache_init_rep [of "0x2000" 1360] by (simp add: slab_demo_def)
  ultimately show "slab_inv 0 0x2000 1360 [] [] slab_demo" using ok by (simp add: slab_inv_def)
  show "avail_frames slab_demo \<noteq> {}"
    unfolding av by (simp add: avail_frames_def pmm_demo_facts lessThan_empty_iff)
qed

text \<open>The machine after one allocation: one live object, two free ones.\<close>

lemma demo_page_objs: "rev (page_objs 1360 p) = [p + 2736, p + 1376, p + 16]"
  by (simp add: page_objs_def upt_rec)

lemma slab_demo_one:
  obtains p s where "slab_inv 0 0x2000 1360 [p] [p + 1376, p + 16] s"
    and "slab_live 0x2000 s = {p + 2736}"
proof -
  from slab_alloc_grow [OF slab_demo_inv slab_demo_avail] obtain p x fl s where
    "rev (page_objs 1360 p) = x # fl" and "slab_inv 0 0x2000 1360 [p] fl s" by metis
  then have inv: "slab_inv 0 0x2000 1360 [p] [p + 1376, p + 16] s" by (simp add: demo_page_objs)
  have dist: "distinct [p + 2736, p + 1376, p + 16]"
    using distinct_page_objs [of 1360 p] demo_page_objs [of p] by (metis distinct_rev zero_less_numeral)
  have "set (page_objs 1360 p) = {p + 2736, p + 1376, p + 16}"
    using demo_page_objs [of p] by (metis set_rev list.set(1) list.simps(15))
  then have "slab_live 0x2000 s = {p + 2736}"
    using dist by (auto simp: slab_inv_live [OF inv] slab_objs_def)
  with inv show thesis by (rule that)
qed

text \<open>
  C29: isolation of slab objects. While an object of a cache stays allocated, nothing that
  other clients do with the cache (allocate, release their own objects, write inside their own
  objects), in any order and number, changes a byte of it, and the object stays allocated.
\<close>

theorem slab_objects_isolated:
  assumes "slab_ok c s" and "x \<in> slab_live c s" and "slab.use c x s t"
  shows "slab_ok c t \<and> x \<in> slab_live c t \<and>
    (\<forall>z \<in> region x (slab_size c s). mem t z = mem s z)"
  using slab.use_keeps_object [OF assms(3,1,2)] by blast

text \<open>
  C30: what \<^verbatim>\<open>slab_alloc\<close> does in every case: it takes the object freed last; with an empty free
  list it takes a page frame, adds all its objects and returns the one at the highest address;
  and when there is no frame it stops the kernel. It leaves the cache unlocked and well formed.
\<close>

theorem slab_alloc_total:
  assumes "slab_inv d c sz ps fl s"
  shows "case fl of
      x # fl' \<Rightarrow> \<exists>s'. slab_alloc c s = Ret x s' \<and> slab_inv d c sz ps fl' s'
    | [] \<Rightarrow>
        if avail_frames s = {} then \<exists>s'. slab_alloc c s = Halt s'
        else \<exists>p x fl' s'. p \<in> avail_frames s \<and> rev (page_objs sz p) = x # fl' \<and>
               slab_alloc c s = Ret x s' \<and> slab_inv d c sz (p # ps) fl' s' \<and>
               avail_frames s' = avail_frames s - {p}"
proof (cases fl)
  case Nil
  show ?thesis
  proof (cases "avail_frames s = {}")
    case True
    then show ?thesis using slab_alloc_exhausted assms Nil by auto
  next
    case False
    from slab_alloc_grow [OF assms [unfolded Nil] False] show ?thesis using Nil False by (simp, metis)
  qed
next
  case (Cons x fl')
  from slab_alloc_pop [OF assms [unfolded Cons]] show ?thesis using Cons by (simp, metis)
qed

theorem slab_alloc_total_witness:
  "\<exists>p s'. p \<in> avail_frames slab_demo \<and> slab_alloc 0x2000 slab_demo = Ret (p + 2736) s' \<and>
     slab_inv 0 0x2000 1360 [p] [p + 1376, p + 16] s'"
  using slab_alloc_total [OF slab_demo_inv] slab_demo_avail by (auto simp: demo_page_objs)

theorem slab_objects_isolated_witness:
  "\<exists>s x. x \<in> slab_live 0x2000 s \<and> (\<exists>y t. slab_alloc 0x2000 s = Ret y t \<and> x \<in> slab_live 0x2000 t)"
proof -
  obtain p s where inv: "slab_inv 0 0x2000 1360 [p] [p + 1376, p + 16] s"
    and x: "slab_live 0x2000 s = {p + 2736}" by (rule slab_demo_one)
  from slab_alloc_pop [OF inv] obtain t where t: "slab_alloc 0x2000 s = Ret (p + 1376) t" by metis
  then have "slab.use 0x2000 (p + 2736) s t" by (blast intro: slab.use.intros)
  from slab_objects_isolated [OF slab_inv_live(3) [OF inv] _ this] x t show ?thesis by auto
qed

text \<open>
  the allocated objects of a cache are not null, do not overlap one another, and do not
  overlap the cache itself, the frame bitmap or any page that is still free.
\<close>

theorem slab_live_objects_apart:
  assumes "slab_inv d c sz ps fl s" and "x \<in> slab_live c s"
  shows "x \<noteq> NULL \<and> region x sz \<inter> region c 32 = {} \<and> region x sz \<inter> bitmap_region s = {} \<and>
    (\<forall>f. f \<in> avail_frames s \<longrightarrow> region x sz \<inter> region f 4096 = {}) \<and>
    (\<forall>y. y \<in> slab_live c s \<and> y \<noteq> x \<longrightarrow> region x sz \<inter> region y sz = {})"
proof -
  note I = slab_inv_live [OF assms(1)]
  have x: "x \<in> slab_objs sz ps" "x \<notin> set fl" using assms(2) I by auto
  note R = slab_live_region [OF assms(1) x]
  have "x \<noteq> NULL"
    using slab_lists_node_sep x assms(1) unfolding slab_inv_def slab_rep_def node_sep_def by blast
  moreover have "region x sz \<inter> region y sz = {}" if "y \<in> slab_live c s" "y \<noteq> x" for y
    using slab.live_disjoint [OF I(3) assms(2)] that I(2) by auto
  ultimately show ?thesis using R(1,2,3) by blast
qed

theorem slab_live_objects_apart_witness:
  "\<exists>s p. slab_live 0x2000 s = {p + 2736} \<and> region (p + 2736) 1360 \<inter> region 0x2000 32 = {}"
proof -
  obtain p s where inv: "slab_inv 0 0x2000 1360 [p] [p + 1376, p + 16] s"
    and x: "slab_live 0x2000 s = {p + 2736}" by (rule slab_demo_one)
  then show ?thesis using slab_live_objects_apart [OF inv, of "p + 2736"] by auto
qed

text \<open>
  the free list is a stack. Releasing an allocated object and allocating again returns the
  same object, with the cache as it was before the release.
\<close>

theorem slab_free_alloc_lifo:
  assumes "slab_inv d c sz ps fl s" and "x \<in> slab_live c s"
  shows "\<exists>t u. slab_free c x s = Ret () t \<and> slab_live c t = slab_live c s - {x} \<and>
    slab_alloc c t = Ret x u \<and> slab_inv d c sz ps fl u"
proof -
  note I = slab_inv_live [OF assms(1)]
  have x: "x \<in> slab_objs sz ps" "x \<notin> set fl" using assms(2) I by auto
  from slab_free_ok [OF assms(1) x] obtain m where m: "slab_free c x s = Ret () (s\<lparr>mem := m\<rparr>)"
    "slab_inv d c sz ps (x # fl) (s\<lparr>mem := m\<rparr>)" by metis
  from slab_alloc_pop [OF m(2)] obtain u where "slab_alloc c (s\<lparr>mem := m\<rparr>) = Ret x u"
    "slab_inv d c sz ps fl u" by metis
  with m slab_inv_live(1) [OF m(2)] I show ?thesis by (intro exI [of _ "s\<lparr>mem := m\<rparr>"] exI [of _ u]) auto
qed

theorem slab_free_alloc_lifo_witness:
  "\<exists>s x t u. slab_free 0x2000 x s = Ret () t \<and> slab_alloc 0x2000 t = Ret x u"
proof -
  obtain p s where inv: "slab_inv 0 0x2000 1360 [p] [p + 1376, p + 16] s"
    and x: "slab_live 0x2000 s = {p + 2736}" by (rule slab_demo_one)
  then show ?thesis using slab_free_alloc_lifo [OF inv, of "p + 2736"] by blast
qed

text \<open>
  \<^verbatim>\<open>slab_cache_create\<close> for objects of at most 4080 bytes: while the cache of caches has a
  free object or a frame is free, it returns a new cache, an object of the cache of caches that
  was not allocated before; the new cache is well formed, empty, unlocked and has the object
  size rounded up to a multiple of 8 and at least 8, and the cache of caches stays well formed.
\<close>

theorem slab_cache_create_sound:
  assumes "slab_inv d (cache_metadata_cache s) 32 ps fl s" and "cache_meta_initialized s"
    and "unat n \<le> 4080" and "fl \<noteq> [] \<or> avail_frames s \<noteq> {}"
  shows "\<exists>c t. slab_cache_create n s = Ret c t \<and>
    c \<notin> slab_live (cache_metadata_cache s) s \<and>
    slab_live (cache_metadata_cache s) t = insert c (slab_live (cache_metadata_cache s) s) \<and>
    slab_inv d c ((max 8 (unat n) + 7) div 8 * 8) [] [] t \<and>
    slab_ok (cache_metadata_cache s) t"
proof -
  obtain c s' where run: "slab_alloc (cache_metadata_cache s) s = Ret c s'"
    using assms(1,4) by (rule slab_alloc_returns)
  from slab_cache_create_ok [OF assms(1-3) run] obtain ps' fl' t where
    T: "slab_cache_create n s = Ret c t" "slab_inv d (cache_metadata_cache s) 32 ps' fl' t"
    "slab_inv d c (unat (slab_round n)) [] [] t"
    "slab_objs 32 ps' - set fl' = insert c (slab_objs 32 ps - set fl)"
    "c \<notin> slab_objs 32 ps - set fl" by metis
  with slab_inv_live [OF assms(1)] slab_inv_live [OF T(2)] unat_slab_round(1) [OF assms(3)]
  show ?thesis by (intro exI [of _ c] exI [of _ t]) simp
qed

theorem slab_cache_create_sound_witness:
  "\<exists>s c t. slab_cache_create 100 s = Ret c t \<and> slab_inv 0 c 104 [] [] t"
proof -
  let ?s = "slab_demo\<lparr>mem := cache_init 0x2000 32 (mem slab_demo),
     cache_meta_initialized := True, cache_metadata_cache := 0x2000\<rparr>"
  have rep: "slab_rep 0x2000 32 [] [] (cache_init 0x2000 32 (mem slab_demo))"
    using cache_init_rep [of "0x2000" 32] by simp
  have sep: "bitmap_region slab_demo \<inter> region 0x2000 32 = {}" "slab_sep 0x2000 [] slab_demo" "mm_ok 0 slab_demo"
    using slab_demo_inv by (simp_all add: slab_inv_def slab_sep_def)
  have same: "cache_init 0x2000 32 (mem slab_demo) y = mem slab_demo y" if "y \<in> bitmap_region slab_demo" for y
    using that sep(1) by (intro cache_init_outside) blast
  have "slab_inv 0 0x2000 32 [] [] (slab_demo\<lparr>mem := cache_init 0x2000 32 (mem slab_demo)\<rparr>)"
    using sep rep same by (simp add: slab_inv_def mm_ok_mem_cong slab_sep_mem_cong)
  then have inv: "slab_inv 0 (cache_metadata_cache ?s) 32 [] [] ?s" by simp
  have "avail_frames (slab_demo\<lparr>mem := cache_init 0x2000 32 (mem slab_demo)\<rparr>) = avail_frames slab_demo"
    using same by (rule avail_frames_mem_cong)
  with slab_demo_avail have "avail_frames ?s \<noteq> {}" by simp
  then show ?thesis using slab_cache_create_sound [OF inv, of 100] by auto
qed

end
