(* ===== verification/KHeap.thy ===== *)
theory KHeap
  imports Slab
begin

text \<open>
  \<^verbatim>\<open>base/mm/kheap.c\<close>: the kernel heap. A request of up to 2048 bytes is served by one of
  eight slab caches, a larger one by consecutive page frames; a 16-byte header in front of the
  block records the size asked for and the cache.
\<close>

section \<open>Definitions\<close>

text \<open>\<^verbatim>\<open>alloc_header_t\<close> (16 bytes): addresses of the members.\<close>

definition header_size :: "u64 \<Rightarrow> u64" where "header_size h = h"
definition header_cache :: "u64 \<Rightarrow> u64" where "header_cache h = h + 8"

definition get_bucket_index :: "u64 \<Rightarrow> int" where
  "get_bucket_index sz =
     (if sz \<le> 16 then 0 else if sz \<le> 32 then 1 else if sz \<le> 64 then 2
      else if sz \<le> 128 then 3 else if sz \<le> 256 then 4 else if sz \<le> 512 then 5
      else if sz \<le> 1024 then 6 else if sz \<le> 2048 then 7 else -1)"

text \<open>The loop of \<^verbatim>\<open>kheap_init\<close>, from bucket \<open>i\<close> on.\<close>

function kheap_init_loop :: "nat \<Rightarrow> u64 \<Rightarrow> kstate \<Rightarrow> (unit, kstate) outcome" where
  "kheap_init_loop i bucket_size s =
     (if i < 8 then
        andThen (slab_cache_create (bucket_size + 16) s) (\<lambda>c s.
          let s = s\<lparr>kmalloc_caches := (kmalloc_caches s)[i := c]\<rparr>
          in if kmalloc_caches s ! i = NULL
             then panic ''mm'' ''kheap_init: failed to initialize slab bucket'' [] s
             else kheap_init_loop (Suc i) (push_bit 1 bucket_size) s)
      else Ret () s)"
  by pat_completeness auto
termination by (relation "measure (\<lambda>(i, _, _). 8 - i)") auto

definition kheap_init :: "kstate \<Rightarrow> (unit, kstate) outcome" where
  "kheap_init s =
     (if kheap_initialized s then Ret () s
      else andThen (kheap_init_loop 0 16 s) (\<lambda>_ s.
        let s = s\<lparr>kheap_initialized := True\<rparr>
        in Ret () (klog_info ''mm'' ''kernel heap initialized'' [] s)))"

text \<open>The pages behind the first one of a large block.\<close>

definition kmalloc_more :: "u64 \<Rightarrow> u64 \<Rightarrow> kstate \<Rightarrow> (unit, kstate) outcome" where
  "kmalloc_more phys num_pages s =
     for_out 1 num_pages (\<lambda>i s.
       andThen (pmm_alloc_frame s) (\<lambda>next_phys s.
         if next_phys \<noteq> phys + i * PAGE_SIZE
         then panic ''mm'' ''kmalloc: non-contiguous frame allocation for large request'' [] s
         else Ret () s)) s"

definition kmalloc :: "u64 \<Rightarrow> kstate \<Rightarrow> (u64, kstate) outcome" where
  "kmalloc sz s =
     (if sz = 0 then Ret NULL s
      else if \<not> kheap_initialized s then panic ''mm'' ''kmalloc called before kheap_init'' [] s
      else
        let total_size = sz + 16;
            bucket = get_bucket_index sz
        in if bucket \<noteq> -1 then
             let cache = kmalloc_caches s ! nat bucket
             in andThen (slab_alloc cache s) (\<lambda>header s.
                  if header = NULL then Ret NULL s
                  else
                    let s = store64 (header_size header) sz s;
                        s = store64 (header_cache header) cache s
                    in Ret (header + 16) s)
           else
             let num_pages = ALIGN_UP total_size PAGE_SIZE div PAGE_SIZE
             in andThen (pmm_alloc_frame s) (\<lambda>phys s.
                  if phys = 0 then Ret NULL s
                  else
                    andThen (kmalloc_more phys num_pages s) (\<lambda>_ s.
                      let header = phys;
                          s = store64 (header_size header) sz s;
                          s = store64 (header_cache header) NULL s
                      in Ret (header + 16) s)))"

text \<open>The loop with which \<^verbatim>\<open>kfree\<close> and \<^verbatim>\<open>kfree_sized\<close> give the frames of a large block back.\<close>

definition kfree_pages :: "u64 \<Rightarrow> u64 \<Rightarrow> kstate \<Rightarrow> kstate" where
  "kfree_pages phys total_size s =
     (let num_pages = ALIGN_UP total_size PAGE_SIZE div PAGE_SIZE
      in for_loop 0 num_pages (\<lambda>i s. pmm_free_frame (phys + i * PAGE_SIZE) s) s)"

definition kfree :: "u64 \<Rightarrow> kstate \<Rightarrow> (unit, kstate) outcome" where
  "kfree ptr s =
     (if ptr = NULL then Ret () s
      else
        let header = ptr - 16
        in if load64 s (header_cache header) \<noteq> NULL
           then slab_free (load64 s (header_cache header)) header s
           else
             let total_size = load64 s (header_size header) + 16
             in Ret () (kfree_pages header total_size s))"

definition kcalloc :: "u64 \<Rightarrow> u64 \<Rightarrow> kstate \<Rightarrow> (u64, kstate) outcome" where
  "kcalloc num sz s =
     (let total_size = num * sz
      in if num \<noteq> 0 \<and> total_size div num \<noteq> sz then Ret NULL s
         else
           andThen (kmalloc total_size s) (\<lambda>ptr s.
             let s = (if ptr \<noteq> NULL
                      then for_loop 0 total_size (\<lambda>i s. s\<lparr>mem := (mem s)(ptr + i := 0)\<rparr>) s
                      else s)
             in Ret ptr s))"

definition krealloc :: "u64 \<Rightarrow> u64 \<Rightarrow> kstate \<Rightarrow> (u64, kstate) outcome" where
  "krealloc ptr new_size s =
     (if ptr = NULL then kmalloc new_size s
      else if new_size = 0 then andThen (kfree ptr s) (\<lambda>_ s. Ret NULL s)
      else
        let header = ptr - 16;
            old_size = load64 s (header_size header)
        in if new_size \<le> old_size then Ret ptr s
           else
             andThen (kmalloc new_size s) (\<lambda>new_ptr s.
               if new_ptr = NULL then Ret NULL s
               else
                 let s = for_loop 0 old_size
                           (\<lambda>i s. s\<lparr>mem := (mem s)(new_ptr + i := mem s (ptr + i))\<rparr>) s
                 in andThen (kfree ptr s) (\<lambda>_ s. Ret new_ptr s)))"

definition kfree_sized :: "u64 \<Rightarrow> u64 \<Rightarrow> kstate \<Rightarrow> (unit, kstate) outcome" where
  "kfree_sized ptr sz s =
     (if ptr = NULL then Ret () s
      else
        let header = ptr - 16;
            bucket = get_bucket_index sz
        in if bucket \<noteq> -1 then slab_free (kmalloc_caches s ! nat bucket) header s
           else
             let total_size = sz + 16
             in Ret () (kfree_pages header total_size s))"

subsection \<open>The abstract view\<close>

text \<open>
  The size of the objects of a bucket, header included. The heap is eight caches; bucket \<open>i\<close>
  has the pages and the free list \<open>B ! i\<close>.
\<close>

definition bucket_size :: "nat \<Rightarrow> nat" where "bucket_size i = 16 * 2 ^ i"
definition block_size :: "nat \<Rightarrow> nat" where "block_size i = bucket_size i + 16"

definition heap_inv :: "nat \<Rightarrow> (u64 list \<times> u64 list) list \<Rightarrow> kstate \<Rightarrow> bool" where
  "heap_inv d B s \<longleftrightarrow>
     kheap_initialized s \<and> length (kmalloc_caches s) = 8 \<and> length B = 8 \<and>
     (\<forall>i < 8. slab_inv d (kmalloc_caches s ! i) (block_size i) (fst (B ! i)) (snd (B ! i)) s) \<and>
     (\<forall>i < 8. \<forall>j < 8. i \<noteq> j \<longrightarrow>
        region (kmalloc_caches s ! i) 32 \<inter> region (kmalloc_caches s ! j) 32 = {} \<and>
        set (fst (B ! i)) \<inter> set (fst (B ! j)) = {} \<and>
        (\<forall>p \<in> set (fst (B ! j)). region (kmalloc_caches s ! i) 32 \<inter> region p 4096 = {}))"

text \<open>The headers of the allocated small blocks of a bucket.\<close>

definition heap_live :: "(u64 list \<times> u64 list) list \<Rightarrow> nat \<Rightarrow> u64 set" where
  "heap_live B i = slab_objs (block_size i) (fst (B ! i)) - set (snd (B ! i))"

section \<open>Lemmas\<close>

declare kheap_init_loop.simps [simp del]

subsection \<open>Buckets\<close>

lemma get_bucket_index_small:
  assumes "n \<le> 2048"
  obtains i where "get_bucket_index n = int i" and "i < 8" and "unat n \<le> bucket_size i"
    and "\<And>j. j < i \<Longrightarrow> bucket_size j < unat n"
proof -
  have n: "unat n \<le> 2048" using assms by (simp add: word_le_nat_alt)
  define k where "k = unat n"
  have idx: "get_bucket_index n =
     (if k \<le> 16 then 0 else if k \<le> 32 then 1 else if k \<le> 64 then 2
      else if k \<le> 128 then 3 else if k \<le> 256 then 4 else if k \<le> 512 then 5
      else if k \<le> 1024 then 6 else if k \<le> 2048 then 7 else -1)"
    by (simp add: get_bucket_index_def word_le_nat_alt k_def)
  have mono: "bucket_size j \<le> bucket_size (i - 1)" if "j < i" for i j
    using that by (simp add: bucket_size_def)
  have "\<exists>i. get_bucket_index n = int i \<and> i < 8 \<and> k \<le> bucket_size i \<and> (i = 0 \<or> bucket_size (i - 1) < k)"
  proof -
    consider "k \<le> 16" | "16 < k" "k \<le> 32" | "32 < k" "k \<le> 64" | "64 < k" "k \<le> 128"
      | "128 < k" "k \<le> 256" | "256 < k" "k \<le> 512" | "512 < k" "k \<le> 1024" | "1024 < k" "k \<le> 2048"
      using n unfolding k_def by linarith
    then show ?thesis
    proof cases
      case 1 then show ?thesis by (intro exI [of _ 0]) (simp add: idx bucket_size_def)
    next
      case 2 then show ?thesis by (intro exI [of _ 1]) (simp add: idx bucket_size_def)
    next
      case 3 then show ?thesis by (intro exI [of _ 2]) (simp add: idx bucket_size_def)
    next
      case 4 then show ?thesis by (intro exI [of _ 3]) (simp add: idx bucket_size_def)
    next
      case 5 then show ?thesis by (intro exI [of _ 4]) (simp add: idx bucket_size_def)
    next
      case 6 then show ?thesis by (intro exI [of _ 5]) (simp add: idx bucket_size_def)
    next
      case 7 then show ?thesis by (intro exI [of _ 6]) (simp add: idx bucket_size_def)
    next
      case 8 then show ?thesis by (intro exI [of _ 7]) (simp add: idx bucket_size_def)
    qed
  qed
  then obtain i where i: "get_bucket_index n = int i" "i < 8" "k \<le> bucket_size i"
    "i = 0 \<or> bucket_size (i - 1) < k" by blast
  show thesis
  proof (rule that)
    show "bucket_size j < unat n" if "j < i" for j
      using mono [OF that] i(4) that unfolding k_def by auto
  qed (use i k_def in auto)
qed

lemma get_bucket_index_large: "2048 < n \<Longrightarrow> get_bucket_index n = -1"
  by (auto simp: get_bucket_index_def word_le_nat_alt word_less_nat_alt)

subsection \<open>The heap as eight caches\<close>

lemma heap_invD:
  assumes "heap_inv d B s"
  shows "kheap_initialized s" and "length (kmalloc_caches s) = 8" and "length B = 8"
    and "i < 8 \<Longrightarrow> slab_inv d (kmalloc_caches s ! i) (block_size i) (fst (B ! i)) (snd (B ! i)) s"
  using assms by (simp_all add: heap_inv_def)

lemma heap_apart:
  assumes "heap_inv d B s" and "i < 8" and "j < 8" and "i \<noteq> j"
  shows "region (kmalloc_caches s ! i) 32 \<inter> region (kmalloc_caches s ! j) 32 = {}"
    and "p \<in> set (fst (B ! j)) \<Longrightarrow> region (kmalloc_caches s ! i) 32 \<inter> region p 4096 = {}"
    and "p \<in> set (fst (B ! i)) \<Longrightarrow> q \<in> set (fst (B ! j)) \<Longrightarrow> region p 4096 \<inter> region q 4096 = {}"
    and "set (fst (B ! i)) \<inter> set (fst (B ! j)) = {}"
proof -
  show "region (kmalloc_caches s ! i) 32 \<inter> region (kmalloc_caches s ! j) 32 = {}"
    and "p \<in> set (fst (B ! j)) \<Longrightarrow> region (kmalloc_caches s ! i) 32 \<inter> region p 4096 = {}"
    and disj: "set (fst (B ! i)) \<inter> set (fst (B ! j)) = {}"
    using assms by (simp_all add: heap_inv_def)
  have pages: "\<forall>p \<in> set (fst (B ! k)). page p" if "k < 8" for k
    using heap_invD(4) [OF assms(1) that] slab_listsD(4) unfolding slab_inv_def slab_rep_def by blast
  show "region p 4096 \<inter> region q 4096 = {}" if "p \<in> set (fst (B ! i))" "q \<in> set (fst (B ! j))"
  proof (rule pages_disjoint)
    show "page p" "page q" using pages assms(2,3) that by blast+
    show "p \<noteq> q" using disj that by blast
  qed
qed

text \<open>
  A step of one bucket: it writes the bucket's cache and pages, the bitmap and free frames, and
  the bucket keeps its own invariant with pages it had or that were free. Then the heap does.
\<close>

lemma heap_update:
  assumes "heap_inv d B s" and "i < 8"
    and "slab_inv d (kmalloc_caches s ! i) (block_size i) ps' fl' t"
    and "kmalloc_caches t = kmalloc_caches s" and "kheap_initialized t = kheap_initialized s"
    and "bitmap_region t = bitmap_region s" and "avail_frames t \<subseteq> avail_frames s"
    and "set ps' \<subseteq> set (fst (B ! i)) \<union> avail_frames s"
    and "\<And>y. y \<notin> region (kmalloc_caches s ! i) 32 \<Longrightarrow> y \<notin> bitmap_region s \<Longrightarrow>
      (\<forall>f \<in> avail_frames s. y \<notin> region f 4096) \<Longrightarrow>
      (\<forall>p \<in> set (fst (B ! i)). y \<notin> region p 4096) \<Longrightarrow> mem t y = mem s y"
  shows "heap_inv d (B[i := (ps', fl')]) t"
proof -
  have ok: "mm_ok d s" "mm_ok d t" using heap_invD(4) [OF assms(1,2)] assms(3) by (simp_all add: slab_inv_def)
  have sep: "slab_sep (kmalloc_caches s ! j) (fst (B ! j)) s" if "j < 8" for j
    using heap_invD(4) [OF assms(1) that] by (simp add: slab_inv_def)
  have pg: "page p" if "j < 8" "p \<in> set (fst (B ! j))" for j p
    using heap_invD(4) [OF assms(1) that(1)] slab_listsD(4) that(2)
    unfolding slab_inv_def slab_rep_def by blast
  have free_page: "region p 4096 \<inter> region f 4096 = {}"
    if "j < 8" "p \<in> set (fst (B ! j))" "f \<in> avail_frames s" for j p f
    using sep [OF that(1)] that pg [OF that(1,2)] avail_frames_page [OF ok(1) that(3)]
    by (intro pages_disjoint) (auto simp: slab_sep_def)
  have other: "slab_inv d (kmalloc_caches s ! j) (block_size j) (fst (B ! j)) (snd (B ! j)) t"
    if j: "j < 8" "j \<noteq> i" for j
  proof (rule slab_inv_other [OF heap_invD(4) [OF assms(1) j(1)] ok(2) assms(6,7)])
    show "mem t y = mem s y" if "y \<in> region (kmalloc_caches s ! j) 32" for y
      using that heap_apart(1,2) [OF assms(1) j(1) assms(2) j(2)] sep [OF j(1)]
      unfolding slab_sep_def by (intro assms(9)) blast+
    show "mem t y = mem s y" if "p \<in> set (fst (B ! j))" "y \<in> region p 4096" for p y
      using that heap_apart(2) [OF assms(1,2) j(1)] heap_apart(3) [OF assms(1) j(1) assms(2) j(2)]
        j(2) sep [OF j(1)] free_page [OF j(1)]
      unfolding slab_sep_def by (intro assms(9)) blast+
  qed
  have new_pages: "set ps' \<inter> set (fst (B ! j)) = {}"
    "p \<in> set ps' \<Longrightarrow> region (kmalloc_caches s ! j) 32 \<inter> region p 4096 = {}" if j: "j < 8" "j \<noteq> i" for j p
    using assms(8) sep [OF j(1)] heap_apart(2,4) [OF assms(1) j(1) assms(2) j(2)]
    unfolding slab_sep_def by blast+
  have len: "length B = 8" using assms(1) by (simp add: heap_inv_def)
  show ?thesis
    unfolding heap_inv_def assms(4)
  proof (intro conjI allI impI)
    show "kheap_initialized t" "length (kmalloc_caches s) = 8" "length (B[i := (ps', fl')]) = 8"
      using assms(1,5) by (simp_all add: heap_inv_def)
    show "slab_inv d (kmalloc_caches s ! j) (block_size j) (fst (B[i := (ps', fl')] ! j))
        (snd (B[i := (ps', fl')] ! j)) t" if "j < 8" for j
      using that other assms(3) len by (cases "j = i") auto
    fix j k :: nat assume jk: "j < 8" "k < 8" "j \<noteq> k"
    show "region (kmalloc_caches s ! j) 32 \<inter> region (kmalloc_caches s ! k) 32 = {}"
      using heap_apart(1) [OF assms(1) jk] .
    show "set (fst (B[i := (ps', fl')] ! j)) \<inter> set (fst (B[i := (ps', fl')] ! k)) = {}"
      using jk len heap_apart(4) [OF assms(1) jk] new_pages(1) [OF jk(2)] new_pages(1) [OF jk(1)]
      by (cases "j = i"; cases "k = i") (simp_all add: Int_commute)
    show "\<forall>p \<in> set (fst (B[i := (ps', fl')] ! k)). region (kmalloc_caches s ! j) 32 \<inter> region p 4096 = {}"
      using jk len new_pages(2) heap_apart(2) [OF assms(1) jk] by (cases "k = i") auto
  qed
qed

text \<open>A step of another component: it spares the caches and the pages of the heap.\<close>

lemma heap_inv_spared:
  assumes "heap_inv d B s" and "mm_ok d t" and "bitmap_region t = bitmap_region s"
    and "kmalloc_caches t = kmalloc_caches s" and "kheap_initialized t = kheap_initialized s"
    and "\<And>i f. i < 8 \<Longrightarrow> f \<in> avail_frames t \<Longrightarrow> f \<in> avail_frames s \<or>
      f \<notin> set (fst (B ! i)) \<and> region (kmalloc_caches s ! i) 32 \<inter> region f 4096 = {}"
    and "\<And>i y. i < 8 \<Longrightarrow> y \<in> region (kmalloc_caches s ! i) 32 \<Longrightarrow> mem t y = mem s y"
    and "\<And>i p y. i < 8 \<Longrightarrow> p \<in> set (fst (B ! i)) \<Longrightarrow> y \<in> region p 4096 \<Longrightarrow> mem t y = mem s y"
  shows "heap_inv d B t"
proof -
  have "slab_inv d (kmalloc_caches s ! i) (block_size i) (fst (B ! i)) (snd (B ! i)) t" if "i < 8" for i
    using heap_invD(4) [OF assms(1) that] assms(2,3) assms(6-8) [OF that] by (rule slab_inv_spared)
  then show ?thesis using assms(1,4,5) by (simp add: heap_inv_def)
qed

text \<open>Allocated blocks of the heap do not overlap, whatever their buckets.\<close>

lemma heap_live_page:
  assumes "x \<in> heap_live B i" and "y \<in> region x (block_size i)"
  shows "\<exists>p \<in> set (fst (B ! i)). y \<in> region p 4096"
  using assms slab_obj_in_page unfolding heap_live_def by blast

lemma heap_live_disjoint:
  assumes "heap_inv d B s" and "i < 8" and "j < 8" and "x \<in> heap_live B i" and "y \<in> heap_live B j"
    and "(i, x) \<noteq> (j, y)"
  shows "region x (block_size i) \<inter> region y (block_size j) = {}"
proof (cases "i = j")
  case True
  have "slab_lists (kmalloc_caches s ! i) (block_size i) (fst (B ! i)) (snd (B ! i)) (mem s)"
    using heap_invD(4) [OF assms(1,2)] by (simp add: slab_inv_def slab_rep_def)
  from slab_objs_disjoint [OF slab_listsD(4) [OF this]] show ?thesis
    using True assms(4-6) by (auto simp: heap_live_def)
next
  case False
  have "z \<notin> region y (block_size j)" if "z \<in> region x (block_size i)" for z
    using heap_live_page [OF assms(4) that] heap_live_page [OF assms(5), of z]
      heap_apart(3) [OF assms(1-3) False] by blast
  then show ?thesis by blast
qed

lemma heap_live_update:
  assumes "length B = 8" and "i < 8"
  shows "heap_live (B[i := (ps, fl)]) j =
    (if j = i then slab_objs (block_size i) ps - set fl else heap_live B j)"
  using assms by (simp add: heap_live_def)

text \<open>Allocated blocks lie apart from the caches, the bitmap and the free frames.\<close>

lemma heap_live_outside:
  assumes "heap_inv d B s" and "i < 8" and "j < 8" and "w \<in> heap_live B j"
    and "y \<in> region w (block_size j)"
  shows "y \<notin> region (kmalloc_caches s ! i) 32" and "y \<notin> bitmap_region s"
    and "f \<in> avail_frames s \<Longrightarrow> y \<notin> region f 4096"
proof -
  have w: "w \<in> slab_objs (block_size j) (fst (B ! j))" "w \<notin> set (snd (B ! j))"
    using assms(4) by (simp_all add: heap_live_def)
  note R = slab_live_region [OF heap_invD(4) [OF assms(1,3)] w assms(5)]
  show "y \<notin> bitmap_region s" "f \<in> avail_frames s \<Longrightarrow> y \<notin> region f 4096" using R(2,3) by blast+
  show "y \<notin> region (kmalloc_caches s ! i) 32"
  proof (cases "i = j")
    case False
    then show ?thesis using heap_apart(2) [OF assms(1-3)] heap_live_page [OF assms(4,5)] by blast
  qed (use R(1) in simp)
qed

text \<open>Writing inside an allocated block.\<close>

lemma heap_client:
  assumes "heap_inv d B s" and "i < 8" and "x \<in> heap_live B i"
    and "\<And>y. y \<notin> region x (block_size i) \<Longrightarrow> m y = mem s y"
  shows "heap_inv d B (s\<lparr>mem := m\<rparr>)"
proof -
  note inv = heap_invD(4) [OF assms(1,2)]
  have x: "x \<in> slab_objs (block_size i) (fst (B ! i))" "x \<notin> set (snd (B ! i))"
    using assms(3) by (simp_all add: heap_live_def)
  have I: "slab_inv d (kmalloc_caches s ! i) (block_size i) (fst (B ! i)) (snd (B ! i)) (s\<lparr>mem := m\<rparr>)"
    using inv x assms(4) by (rule slab_inv_client)
  have "avail_frames (s\<lparr>mem := m\<rparr>) = avail_frames s"
    using slab_live_region(2) [OF inv x] assms(4) by (intro avail_frames_mem_cong) blast
  then have "heap_inv d (B[i := (fst (B ! i), snd (B ! i))]) (s\<lparr>mem := m\<rparr>)"
    using assms(4) heap_live_page [OF assms(3)]
    by (intro heap_update [OF assms(1,2) I]) (simp_all, blast)
  then show ?thesis by simp
qed

subsection \<open>Small blocks\<close>

lemma block_header:
  assumes "x \<in> heap_live B i"
  shows "region (header_size x) 8 \<subseteq> region x (block_size i)"
    and "region (header_cache x) 8 \<subseteq> region x (block_size i)"
    and "region (header_size x) 8 \<inter> region (header_cache x) 8 = {}"
    and "n \<le> bucket_size i \<Longrightarrow> n + 16 \<le> 2 ^ 64 \<Longrightarrow> region (x + 16) n \<subseteq> region x (block_size i)"
    and "n + 16 \<le> 2 ^ 64 \<Longrightarrow> region (x + 16) n \<inter> region (header_cache x) 8 = {}"
    and "n + 16 \<le> 2 ^ 64 \<Longrightarrow> region (x + 16) n \<inter> region (header_size x) 8 = {}"
proof -
  have b: "16 \<le> block_size i" by (simp add: block_size_def)
  have "region (x + of_nat 0) 8 \<subseteq> region x 16" "region (x + of_nat 8) 8 \<subseteq> region x 16"
    by (intro region_off_subset; simp)+
  then show "region (header_size x) 8 \<subseteq> region x (block_size i)"
    "region (header_cache x) 8 \<subseteq> region x (block_size i)"
    using region_mono [OF b, of x] by (auto simp: header_size_def header_cache_def)
  show "region (header_size x) 8 \<inter> region (header_cache x) 8 = {}"
    using region_off_disjoint [of 0 8 8 8 x] by (simp add: header_size_def header_cache_def)
  show "region (x + 16) n \<subseteq> region x (block_size i)" if "n \<le> bucket_size i" "n + 16 \<le> 2 ^ 64"
  proof -
    have "region (x + of_nat 16) n \<subseteq> region x (n + 16)" using that by (intro region_off_subset) simp_all
    then show ?thesis using region_mono [of "n + 16" "block_size i" x] that by (auto simp: block_size_def)
  qed
  show "region (x + 16) n \<inter> region (header_cache x) 8 = {}"
    "region (x + 16) n \<inter> region (header_size x) 8 = {}" if "n + 16 \<le> 2 ^ 64"
    using that region_off_disjoint [of 16 n 8 8 x] region_off_disjoint [of 16 n 0 8 x]
    by (simp_all add: header_size_def header_cache_def)
qed

text \<open>A block as \<^verbatim>\<open>kmalloc\<close> makes it: its header holds the size and the bucket's cache.\<close>

definition block_ok :: "(u64 list \<times> u64 list) list \<Rightarrow> nat \<Rightarrow> u64 \<Rightarrow> u64 \<Rightarrow> kstate \<Rightarrow> bool" where
  "block_ok B i x n s \<longleftrightarrow>
     i < 8 \<and> x \<in> heap_live B i \<and> unat n \<le> bucket_size i \<and>
     load64 s (header_size x) = n \<and> load64 s (header_cache x) = kmalloc_caches s ! i"

text \<open>The bytes of all blocks allocated in \<open>B\<close> are the same in two states.\<close>

definition blocks_same :: "(u64 list \<times> u64 list) list \<Rightarrow> kstate \<Rightarrow> kstate \<Rightarrow> bool" where
  "blocks_same B s t \<longleftrightarrow>
     (\<forall>i < 8. \<forall>x \<in> heap_live B i. \<forall>y \<in> region x (block_size i). mem t y = mem s y)"

lemma blocks_same_trans: "blocks_same B s t \<Longrightarrow> blocks_same B t u \<Longrightarrow> blocks_same B s u"
  by (simp add: blocks_same_def)

lemma blocks_same_frame:
  "heap_inv d B s \<Longrightarrow> i < 8 \<Longrightarrow> slab_frame (kmalloc_caches s ! i) s t \<Longrightarrow> blocks_same B s t"
  using heap_live_outside unfolding blocks_same_def slab_frame_def by metis

text \<open>A write inside one block leaves the others as they are.\<close>

lemma blocks_same_write:
  assumes "heap_inv d B s" and "i < 8" and "x \<in> heap_live B i"
    and "\<And>y. y \<notin> region x (block_size i) \<Longrightarrow> m y = mem s y"
    and "j < 8" and "w \<in> heap_live B j" and "(i, x) \<noteq> (j, w)" and "y \<in> region w (block_size j)"
  shows "m y = mem s y"
  using heap_live_disjoint [OF assms(1,2,5,3,6,7)] assms(4,8) by blast

text \<open>
  What the heap may change: its caches, its pages, free frames and the bitmap; its pages are
  pages it had or that were free.
\<close>

definition heap_frame ::
    "(u64 list \<times> u64 list) list \<Rightarrow> kstate \<Rightarrow> (u64 list \<times> u64 list) list \<Rightarrow> kstate \<Rightarrow> bool" where
  "heap_frame B s B' t \<longleftrightarrow>
     bitmap_region t = bitmap_region s \<and> avail_frames t \<subseteq> avail_frames s \<and>
     (\<forall>i < 8. set (fst (B' ! i)) \<subseteq> set (fst (B ! i)) \<union> avail_frames s) \<and>
     (\<forall>y. (\<forall>i < 8. y \<notin> region (kmalloc_caches s ! i) 32 \<and> (\<forall>p \<in> set (fst (B ! i)). y \<notin> region p 4096)) \<and>
        y \<notin> bitmap_region s \<and> (\<forall>f \<in> avail_frames s. y \<notin> region f 4096) \<longrightarrow> mem t y = mem s y)"

lemma kmalloc_small_frame:
  assumes "heap_inv d B s" and "0 < n" and "get_bucket_index n = int i" and "i < 8"
    and "unat n \<le> bucket_size i" and "slab_alloc (kmalloc_caches s ! i) s = Ret x s1"
  obtains B' t where "kmalloc n s = Ret (x + 16) t" and "heap_inv d B' t" and "block_ok B' i x n t"
    and "x \<notin> heap_live B i" and "heap_live B' i = insert x (heap_live B i)"
    and "\<And>j. j \<noteq> i \<Longrightarrow> heap_live B' j = heap_live B j" and "blocks_same B s t"
    and "upper_same s t" and "\<exists>p. avail_frames s - {p} \<subseteq> avail_frames t"
    and "heap_frame B s B' t"
proof -
  let ?c = "kmalloc_caches s ! i"
  note inv = heap_invD(4) [OF assms(1,4)]
  from slab_alloc_Ret [OF inv assms(6)] obtain ps' fl' where A: "slab_inv d ?c (block_size i) ps' fl' s1"
    "x \<in> slab_objs (block_size i) ps'" "x \<notin> set fl'" "x \<notin> heap_live B i"
    "slab_objs (block_size i) ps' - set fl' = insert x (heap_live B i)"
    "set ps' \<subseteq> set (fst (B ! i)) \<union> avail_frames s" and fr: "slab_frame ?c s s1"
    and av: "\<exists>p. avail_frames s - (if snd (B ! i) = [] then {p} else {}) \<subseteq> avail_frames s1"
    unfolding heap_live_def by metis
  let ?B = "B[i := (ps', fl')]"
  have up: "upper_same s s1" using fr by (simp add: slab_frame_def)
  have H1: "heap_inv d ?B s1"
    using A(6) fr by (intro heap_update [OF assms(1,4) A(1)]) (auto simp: slab_frame_def upper_same_def)
  note LU = heap_live_update [OF heap_invD(3) [OF assms(1)] assms(4)]
  have live: "heap_live ?B i = insert x (heap_live B i)" "\<And>j. j \<noteq> i \<Longrightarrow> heap_live ?B j = heap_live B j"
    using A(5) by (simp_all add: LU)
  then have x: "x \<in> heap_live ?B i" by simp
  let ?m = "write64 (write64 (mem s1) (header_size x) n) (header_cache x) ?c"
  let ?t = "s1\<lparr>mem := ?m\<rparr>"
  have out: "?m y = mem s1 y" if "y \<notin> region x (block_size i)" for y
  proof -
    have "y \<notin> region (header_size x) 8" "y \<notin> region (header_cache x) 8"
      using that block_header(1,2) [OF x] by blast+
    then show ?thesis by (simp add: write64_outside)
  qed
  have H: "heap_inv d ?B ?t" using H1 assms(4) x out by (rule heap_client)
  have nn: "x \<noteq> NULL"
    using slab_lists_node_sep A(1,2) unfolding slab_inv_def slab_rep_def node_sep_def by blast
  have "kmalloc n s = Ret (x + 16) ?t"
    using assms nn heap_invD(1) [OF assms(1)] word_gt_0 [of n]
    by (simp add: kmalloc_def Let_def store64_def)
  moreover have "block_ok ?B i x n ?t"
    using assms(4,5) x up block_header(3) [OF x]
    by (simp add: block_ok_def mem_simps rw_disjoint Int_commute upper_same_def)
  moreover have "?m y = mem s1 y" if "j < 8" "w \<in> heap_live B j" "y \<in> region w (block_size j)" for j w y
    using blocks_same_write [OF H1 assms(4) x out that(1) _ _ that(3)] that(2) live A(4) by (cases "j = i") auto
  then have "blocks_same B s1 ?t" by (simp add: blocks_same_def)
  then have "blocks_same B s ?t"
    using blocks_same_frame [OF assms(1,4) fr] blocks_same_trans by blast
  moreover have "upper_same s ?t" using up by (simp add: upper_same_def)
  moreover have "avail_frames ?t = avail_frames s1"
    using heap_live_outside(2) [OF H1 assms(4,4) x] by (intro avail_frames_mem_cong out) blast
  then have "\<exists>p. avail_frames s - {p} \<subseteq> avail_frames ?t" "avail_frames ?t \<subseteq> avail_frames s"
    using av fr by (auto simp: slab_frame_def split: if_splits)
  moreover have "heap_frame B s ?B ?t"
    unfolding heap_frame_def
  proof (intro conjI allI impI)
    show "bitmap_region ?t = bitmap_region s" using fr by (simp add: slab_frame_def bitmap_region_def)
    show "avail_frames ?t \<subseteq> avail_frames s" by fact
    show "set (fst (?B ! j)) \<subseteq> set (fst (B ! j)) \<union> avail_frames s" if "j < 8" for j
      using A(6) heap_invD(3) [OF assms(1)] assms(4) by (cases "j = i") auto
    fix y assume y: "(\<forall>i < 8. y \<notin> region (kmalloc_caches s ! i) 32 \<and> (\<forall>p \<in> set (fst (B ! i)). y \<notin> region p 4096)) \<and>
        y \<notin> bitmap_region s \<and> (\<forall>f \<in> avail_frames s. y \<notin> region f 4096)"
    then have "mem s1 y = mem s y" using fr assms(4) by (simp add: slab_frame_def)
    moreover have "y \<notin> region x (block_size i)"
    proof
      assume "y \<in> region x (block_size i)"
      then obtain p where "p \<in> set ps'" "y \<in> region p 4096" using slab_obj_in_page [OF A(2)] by blast
      then show False using A(6) y assms(4) by blast
    qed
    ultimately show "mem ?t y = mem s y" using out by simp
  qed
  ultimately show thesis using H A(4) live by (intro that)
qed

lemma kmalloc_small:
  assumes "heap_inv d B s" and "0 < n" and "get_bucket_index n = int i" and "i < 8"
    and "unat n \<le> bucket_size i" and "slab_alloc (kmalloc_caches s ! i) s = Ret x s1"
  obtains B' t where "kmalloc n s = Ret (x + 16) t" and "heap_inv d B' t" and "block_ok B' i x n t"
    and "x \<notin> heap_live B i" and "heap_live B' i = insert x (heap_live B i)"
    and "\<And>j. j \<noteq> i \<Longrightarrow> heap_live B' j = heap_live B j" and "blocks_same B s t"
    and "upper_same s t" and "\<exists>p. avail_frames s - {p} \<subseteq> avail_frames t"
  by (rule kmalloc_small_frame [OF assms]) (rule that; assumption)

lemma block_not_null:
  assumes "heap_inv d B s" and "block_ok B i x n s"
  shows "x + 16 \<noteq> NULL"
proof -
  have i: "i < 8" and x: "x \<in> slab_objs (block_size i) (fst (B ! i))"
    using assms(2) by (simp_all add: block_ok_def heap_live_def)
  have L: "slab_lists (kmalloc_caches s ! i) (block_size i) (fst (B ! i)) (snd (B ! i)) (mem s)"
    using heap_invD(4) [OF assms(1) i] by (simp add: slab_inv_def slab_rep_def)
  obtain p where p: "p \<in> set (fst (B ! i))" "region x (block_size i) \<subseteq> region p 4096"
    using slab_obj_in_page [OF x] by blast
  have "16 < block_size i" by (simp add: block_size_def bucket_size_def)
  moreover have "block_size i \<le> 2 ^ 64" using slab_listsD(2) [OF L] by simp
  ultimately have "x + of_nat 16 \<in> region x (block_size i)" by (rule region_off_mem)
  then show ?thesis using p in_page_not_null slab_listsD(4) [OF L] by auto
qed

lemma kfree_small_frame:
  assumes "heap_inv d B s" and "block_ok B i x n s"
  obtains B' t where "kfree (x + 16) s = Ret () t" and "heap_inv d B' t"
    and "heap_live B' i = heap_live B i - {x}" and "\<And>j. j \<noteq> i \<Longrightarrow> heap_live B' j = heap_live B j"
    and "blocks_same B' s t" and "upper_same s t" and "avail_frames t = avail_frames s" and "heap_frame B s B' t"
proof -
  let ?c = "kmalloc_caches s ! i"
  have i: "i < 8" and x: "x \<in> slab_objs (block_size i) (fst (B ! i))" "x \<notin> set (snd (B ! i))"
    using assms(2) by (simp_all add: block_ok_def heap_live_def)
  note inv = heap_invD(4) [OF assms(1) i]
  from slab_free_ok [OF inv x] obtain m where run: "slab_free ?c x s = Ret () (s\<lparr>mem := m\<rparr>)"
    and inv': "slab_inv d ?c (block_size i) (fst (B ! i)) (x # snd (B ! i)) (s\<lparr>mem := m\<rparr>)"
    and out: "\<And>y. y \<notin> region ?c 32 \<Longrightarrow> y \<notin> region x 8 \<Longrightarrow> m y = mem s y" by metis
  let ?B = "B[i := (fst (B ! i), x # snd (B ! i))]" and ?t = "s\<lparr>mem := m\<rparr>"
  note len = heap_invD(3) [OF assms(1)]
  note LU = heap_live_update [OF len i]
  have x8: "region x 8 \<subseteq> region x (block_size i)" by (rule region_mono) (simp add: block_size_def)
  have "avail_frames ?t = avail_frames s"
    using slab_live_region(2) [OF inv x] inv out x8 unfolding slab_inv_def slab_sep_def
    by (intro avail_frames_mem_cong out) blast+
  then have H: "heap_inv d ?B ?t"
    using x8 slab_obj_in_page [OF x(1)]
    by (intro heap_update [OF assms(1) i inv']) (simp_all, blast intro: out)
  have "?c \<noteq> NULL" using inv unfolding slab_inv_def slab_rep_def slab_lists_def by blast
  moreover have "x + 16 \<noteq> NULL" using assms by (rule block_not_null)
  ultimately have "kfree (x + 16) s = Ret () ?t"
    using assms(2) run by (simp add: kfree_def Let_def block_ok_def)
  moreover have live: "heap_live ?B i = heap_live B i - {x}" "\<And>j. j \<noteq> i \<Longrightarrow> heap_live ?B j = heap_live B j"
    by (simp_all add: LU) (auto simp: heap_live_def)
  moreover have "m y = mem s y" if j: "j < 8" and w: "w \<in> heap_live ?B j" and y: "y \<in> region w (block_size j)" for j w y
  proof (rule out)
    have wB: "w \<in> heap_live B j" "(i, x) \<noteq> (j, w)" using w live by (cases "j = i"; auto)+
    show "y \<notin> region ?c 32" using heap_live_outside(1) [OF assms(1) i j wB(1) y] .
    have "x \<in> heap_live B i" using x by (simp add: heap_live_def)
    then show "y \<notin> region x 8" using heap_live_disjoint [OF assms(1) i j _ wB] x8 y by blast
  qed
  then have "blocks_same ?B s ?t" by (simp add: blocks_same_def)
  moreover have "upper_same s ?t" by (simp add: upper_same_def)
  moreover have "heap_frame B s ?B ?t"
    unfolding heap_frame_def
  proof (intro conjI allI impI)
    show "bitmap_region ?t = bitmap_region s" by (simp add: bitmap_region_def)
    show "avail_frames ?t \<subseteq> avail_frames s" using \<open>avail_frames ?t = avail_frames s\<close> by simp
    show "set (fst (?B ! j)) \<subseteq> set (fst (B ! j)) \<union> avail_frames s" if "j < 8" for j
      using len i by (cases "j = i") auto
    fix y assume y: "(\<forall>i < 8. y \<notin> region (kmalloc_caches s ! i) 32 \<and> (\<forall>p \<in> set (fst (B ! i)). y \<notin> region p 4096)) \<and>
        y \<notin> bitmap_region s \<and> (\<forall>f \<in> avail_frames s. y \<notin> region f 4096)"
    then have "y \<notin> region ?c 32" "y \<notin> region x 8" using i x8 slab_obj_in_page [OF x(1)] by blast+
    then show "mem ?t y = mem s y" using out by simp
  qed
  ultimately show thesis using H \<open>avail_frames ?t = avail_frames s\<close> by (intro that)
qed

lemma kfree_small:
  assumes "heap_inv d B s" and "block_ok B i x n s"
  obtains B' t where "kfree (x + 16) s = Ret () t" and "heap_inv d B' t"
    and "heap_live B' i = heap_live B i - {x}" and "\<And>j. j \<noteq> i \<Longrightarrow> heap_live B' j = heap_live B j"
    and "blocks_same B' s t" and "upper_same s t"
  by (rule kfree_small_frame [OF assms]) (rule that; assumption)

text \<open>The byte loops of \<^verbatim>\<open>kcalloc\<close> and \<^verbatim>\<open>krealloc\<close> are \<^verbatim>\<open>memset\<close> and \<^verbatim>\<open>memcpy\<close>.\<close>

lemma for_loop_mem:
  "for_loop i hi (\<lambda>k s. s\<lparr>mem := f k (mem s)\<rparr>) s = s\<lparr>mem := for_loop i hi f (mem s)\<rparr>"
proof (induction i hi f "mem s" arbitrary: s rule: for_loop.induct)
  case (1 i hi f)
  show ?case
  proof (cases "i < hi")
    case True
    then show ?thesis using "1.hyps" [of "s\<lparr>mem := f i (mem s)\<rparr>"] by (simp add: for_loop_step)
  qed simp
qed

lemma zero_loop:
  "for_loop 0 n (\<lambda>i s. s\<lparr>mem := (mem s)(p + i := 0)\<rparr>) s = s\<lparr>mem := memset p 0 n (mem s)\<rparr>"
  using for_loop_mem [of 0 n "\<lambda>i m. m(p + i := 0)" s] by (simp add: memset_def)

lemma copy_loop:
  "for_loop 0 n (\<lambda>i s. s\<lparr>mem := (mem s)(q + i := mem s (p + i))\<rparr>) s = s\<lparr>mem := memcpy q p n (mem s)\<rparr>"
  using for_loop_mem [of 0 n "\<lambda>i m. m(q + i := m (p + i))" s] by (simp add: memcpy_def)

subsection \<open>Starting the heap\<close>

lemma unat_bucket_size: "i < 8 \<Longrightarrow> unat (of_nat (bucket_size i) + 16 :: u64) = block_size i"
  and bucket_size_le: "i < 8 \<Longrightarrow> bucket_size i \<le> 2048"
proof -
  show le: "bucket_size i \<le> 2048" if "i < 8"
  proof -
    have "(2::nat) ^ i \<le> 2 ^ 7" using that by (intro power_increasing) auto
    then show ?thesis by (simp add: bucket_size_def)
  qed
  show "unat (of_nat (bucket_size i) + 16 :: u64) = block_size i" if "i < 8"
  proof -
    have "unat (of_nat (bucket_size i + 16) :: u64) = bucket_size i + 16"
      using le [OF that] by (intro unat_of_nat_u64) simp
    then show ?thesis by (simp add: block_size_def)
  qed
qed

lemma unat_slab_round_bucket:
  assumes "i < 8"
  shows "unat (slab_round (of_nat (bucket_size i) + 16)) = block_size i"
    and "unat (of_nat (bucket_size i) + 16 :: u64) \<le> 4080"
proof -
  note b = unat_bucket_size [OF assms]
  show le: "unat (of_nat (bucket_size i) + 16 :: u64) \<le> 4080"
    using b bucket_size_le [OF assms] by (simp add: block_size_def)
  have m: "max 8 (block_size i) = 8 * (2 * 2 ^ i + 2)" "block_size i = 8 * (2 * 2 ^ i + 2)"
    by (simp_all add: block_size_def bucket_size_def)
  have "(8 * q + 7) div 8 * 8 = 8 * q" for q :: nat by simp
  then have "(max 8 (block_size i) + 7) div 8 * 8 = block_size i" using m by metis
  then show "unat (slab_round (of_nat (bucket_size i) + 16)) = block_size i"
    using unat_slab_round(1) [OF le] unfolding b by (simp only:)
qed

text \<open>
  The state after \<open>i\<close> caches have been made: they are distinct allocated objects of the cache of
  caches, each of them empty, and they took at most one of the page frames \<open>A\<close> that were free.
\<close>

definition others_same :: "kstate \<Rightarrow> kstate \<Rightarrow> bool" where
  "others_same s t \<longleftrightarrow>
     arch t = arch s \<and> sreg t = sreg s \<and> io_hist t = io_hist s \<and> kernel_page_table t = kernel_page_table s \<and>
     g_asid_used t = g_asid_used s \<and> g_asid_lock t = g_asid_lock s \<and> global_ticks t = global_ticks s \<and>
     g_om t = g_om s \<and> g_test_destroyed t = g_test_destroyed s \<and> cache_metadata_cache t = cache_metadata_cache s \<and>
     bitmap_region t = bitmap_region s \<and> gic_handlers t = gic_handlers s"

text \<open>The frame allocator's memory: the bitmap and the free frames.\<close>

definition pool_area :: "kstate \<Rightarrow> u64 set" where
  "pool_area s = bitmap_region s \<union> (\<Union>f \<in> avail_frames s. region f 4096)"

text \<open>\<open>S\<close> is the state the loop started in.\<close>

definition kheap_progress :: "kstate \<Rightarrow> nat \<Rightarrow> nat \<Rightarrow> kstate \<Rightarrow> bool" where
  "kheap_progress S d i s \<longleftrightarrow>
     others_same S s \<and> avail_frames s \<subseteq> avail_frames S \<and> tail_kept S s \<and>
     (\<forall>y. y \<notin> region (cache_metadata_cache S) 32 \<and> y \<notin> pool_area S \<longrightarrow> mem s y = mem S y) \<and>
     (if i = 0 then avail_frames s = avail_frames S else \<exists>p. avail_frames S - {p} \<subseteq> avail_frames s) \<and>
     cache_meta_initialized s \<and> length (kmalloc_caches s) = 8 \<and>
     (\<exists>ps fl. slab_inv d (cache_metadata_cache s) 32 ps fl s \<and> set ps \<subseteq> avail_frames S \<and>
        (if i = 0 then fl = [] \<and> avail_frames s \<noteq> {} else length fl + i = 127) \<and>
        (\<forall>j < i. kmalloc_caches s ! j \<in> slab_objs 32 ps - set fl)) \<and>
     (\<forall>j < i. slab_inv d (kmalloc_caches s ! j) (block_size j) [] [] s) \<and>
     (\<forall>j < i. \<forall>k < i. j \<noteq> k \<longrightarrow> region (kmalloc_caches s ! j) 32 \<inter> region (kmalloc_caches s ! k) 32 = {})"

text \<open>Making one more cache.\<close>

lemma new_cache_spares:
  assumes "slab_inv d (cache_metadata_cache s) 32 ps fl s" and "cache_meta_initialized s"
    and "unat n \<le> 4080" and "slab_alloc (cache_metadata_cache s) s = Ret c s'"
    and "x \<in> slab_objs 32 ps - set fl" and "slab_inv d x sz [] [] s"
    and "slab_cache_create n s = Ret c t"
  shows "slab_inv d x sz [] [] t" and "region x 32 \<inter> region c 32 = {}"
proof -
  let ?meta = "cache_metadata_cache s"
  from slab_cache_create_ok [OF assms(1-4)] obtain ps' fl' where
    "slab_cache_create n s = Ret c (s'\<lparr>mem := cache_init c (slab_round n) (mem s')\<rparr>)"
    and inv': "slab_inv d ?meta 32 ps' fl' (s'\<lparr>mem := cache_init c (slab_round n) (mem s')\<rparr>)"
    and c: "c \<in> slab_objs 32 ps'" "c \<notin> set fl'"
    and live: "slab_objs 32 ps' - set fl' = insert c (slab_objs 32 ps - set fl)" "c \<notin> slab_objs 32 ps - set fl"
    and fr: "slab_frame ?meta s s'" by metis
  then have t: "t = s'\<lparr>mem := cache_init c (slab_round n) (mem s')\<rparr>" using assms(7) by simp
  have inv: "slab_inv d ?meta 32 ps' fl' t" using inv' t by simp
  have "x \<in> slab_objs 32 ps'" "x \<noteq> c" using live assms(5) by blast+
  then show disj: "region x 32 \<inter> region c 32 = {}"
    using slab_objs_disjoint [of ps' x 32 c] inv c(1) slab_listsD(4)
    unfolding slab_inv_def slab_rep_def by blast
  have bm: "bitmap_region t = bitmap_region s" "bitmap_region s' = bitmap_region s"
    using t fr by (simp_all add: slab_frame_def)
  have "y \<notin> region c 32" if "y \<in> bitmap_region s'" for y
    using slab_live_region(2) [OF inv c] that bm by auto
  then have "avail_frames t = avail_frames s'"
    unfolding t by (intro avail_frames_mem_cong) (simp add: cache_init_outside)
  then have av: "avail_frames t \<subseteq> avail_frames s" using fr by (simp add: slab_frame_def)
  have same: "mem t y = mem s y" if y: "y \<in> region x 32" for y
  proof -
    have "mem t y = mem s' y" using disj y by (auto simp: t intro: cache_init_outside)
    also have "\<dots> = mem s y" using slab_frame_live [OF assms(1) fr] assms(5) y by blast
    finally show ?thesis .
  qed
  have "mm_ok d t" using inv by (simp add: slab_inv_def)
  from slab_inv_other [OF assms(6) this bm(1) av same] show "slab_inv d x sz [] [] t" by simp
qed

lemma kheap_progress_step:
  assumes "kheap_progress S d i s" and "i < 8"
  obtains c t where "slab_cache_create (of_nat (bucket_size i) + 16) s = Ret c t" and "c \<noteq> NULL"
    and "kheap_progress S d (Suc i) (t\<lparr>kmalloc_caches := (kmalloc_caches t)[i := c]\<rparr>)"
    and "length (kmalloc_caches t) = 8" and "kheap_initialized t = kheap_initialized s"
proof -
  let ?meta = "cache_metadata_cache s" and ?n = "of_nat (bucket_size i) + 16 :: u64"
  from assms(1) obtain ps fl where inv: "slab_inv d ?meta 32 ps fl s" and ps: "set ps \<subseteq> avail_frames S"
    and fl: "if i = 0 then fl = [] \<and> avail_frames s \<noteq> {} else length fl + i = 127"
    and objs: "\<forall>j < i. kmalloc_caches s ! j \<in> slab_objs 32 ps - set fl"
    unfolding kheap_progress_def by (elim conjE exE)
  have init: "cache_meta_initialized s" and len: "length (kmalloc_caches s) = 8"
    and caches: "\<And>j. j < i \<Longrightarrow> slab_inv d (kmalloc_caches s ! j) (block_size j) [] [] s"
    and apart: "\<And>j k. j < i \<Longrightarrow> k < i \<Longrightarrow> j \<noteq> k \<Longrightarrow>
      region (kmalloc_caches s ! j) 32 \<inter> region (kmalloc_caches s ! k) 32 = {}"
    using assms(1) by (simp_all add: kheap_progress_def)
  note n = unat_slab_round_bucket [OF assms(2)]
  have "fl \<noteq> [] \<or> avail_frames s \<noteq> {}" using fl assms(2) by (auto split: if_splits)
  with inv obtain c s' where alloc: "slab_alloc ?meta s = Ret c s'"
    by (rule slab_alloc_returns)
  from slab_cache_create_ok [OF inv init n(2) alloc] obtain ps' fl' t where
    T: "slab_cache_create ?n s = Ret c t" "t = s'\<lparr>mem := cache_init c (slab_round ?n) (mem s')\<rparr>"
    "slab_inv d ?meta 32 ps' fl' t" "slab_inv d c (unat (slab_round ?n)) [] [] t"
    "slab_objs 32 ps' - set fl' = insert c (slab_objs 32 ps - set fl)"
    "slab_frame ?meta s s'" "length fl' + 1 = (if fl = [] then 127 else length fl)"
    "\<exists>p. avail_frames s - (if fl = [] then {p} else {}) \<subseteq> avail_frames t"
    "avail_frames t \<subseteq> avail_frames s" "set ps' \<subseteq> set ps \<union> avail_frames s" "tail_kept s t" by metis
  have N: "slab_inv d (kmalloc_caches s ! j) (block_size j) [] [] t"
    "region (kmalloc_caches s ! j) 32 \<inter> region c 32 = {}" if "j < i" for j
    using new_cache_spares [OF inv init n(2) alloc objs [rule_format] caches T(1)] that by simp_all
  have "upper_same s s'" using T(6) by (simp add: slab_frame_def)
  then have up: "kmalloc_caches t = kmalloc_caches s" "cache_metadata_cache t = ?meta"
    "cache_meta_initialized t" "kheap_initialized t = kheap_initialized s"
    unfolding T(2) using init by (simp_all add: upper_same_def)
  let ?u = "t\<lparr>kmalloc_caches := (kmalloc_caches t)[i := c]\<rparr>"
  have nth: "kmalloc_caches ?u ! j = (if j = i then c else kmalloc_caches s ! j)" if "j < Suc i" for j
    using that assms(2) len up by simp
  have "kheap_progress S d (Suc i) ?u"
    unfolding kheap_progress_def
  proof (intro conjI exI allI impI)
    have A: "if i = 0 then avail_frames s = avail_frames S else \<exists>p. avail_frames S - {p} \<subseteq> avail_frames s"
      "avail_frames s \<subseteq> avail_frames S" "others_same S s"
      using assms(1) by (simp_all add: kheap_progress_def)
    show "mem ?u y = mem S y" if y: "y \<notin> region (cache_metadata_cache S) 32 \<and> y \<notin> pool_area S" for y
    proof -
      have meta: "?meta = cache_metadata_cache S" "bitmap_region s = bitmap_region S" using A(3) by (simp_all add: others_same_def)
      have "c \<in> slab_objs 32 ps'" using T(5) by auto
      then obtain p where p: "p \<in> set ps'" "region c 32 \<subseteq> region p 4096" using slab_obj_in_page by blast
      then have "p \<in> avail_frames S" using ps A(2) T(10) by blast
      then have "y \<notin> region c 32" using p(2) y unfolding pool_area_def by blast
      then have "mem t y = mem s' y" by (simp add: T(2) cache_init_outside)
      also have "y \<notin> region ?meta 32" "y \<notin> bitmap_region s" "\<forall>f \<in> avail_frames s. y \<notin> region f 4096"
        using y A(2) unfolding meta pool_area_def by blast+
      then have "mem s' y = mem s y" using T(6) by (simp add: slab_frame_def)
      also have "\<dots> = mem S y" using assms(1) y by (simp add: kheap_progress_def)
      finally show ?thesis by simp
    qed
    show "others_same S ?u"
      using A(3) T(6) unfolding T(2) by (simp add: others_same_def slab_frame_def upper_same_def bitmap_region_def)
    show "avail_frames ?u \<subseteq> avail_frames S" using A(2) T(9) by auto
    have "tail_kept t ?u" by (rule tail_kept_same) (simp_all add: free_set_def bitmap_test_def)
    moreover have "tail_kept S s" using assms(1) by (simp add: kheap_progress_def)
    ultimately show "tail_kept S ?u" using T(11) tail_kept_trans by blast
    show "set ps' \<subseteq> avail_frames S" using ps A(2) T(10) by blast
    have "\<exists>p. avail_frames S - {p} \<subseteq> avail_frames t"
    proof (cases "i = 0")
      case True
      then show ?thesis using T(8) A(1) fl by simp
    next
      case False
      then have "fl \<noteq> []" using fl assms(2) by auto
      then have "avail_frames s \<subseteq> avail_frames t" using T(8) by simp
      then show ?thesis using A(1) False by (metis order_trans)
    qed
    then show "if Suc i = 0 then avail_frames ?u = avail_frames S else \<exists>p. avail_frames S - {p} \<subseteq> avail_frames ?u" by simp
    show "cache_meta_initialized ?u" "length (kmalloc_caches ?u) = 8" using up len by simp_all
    show "slab_inv d (cache_metadata_cache ?u) 32 ps' fl' ?u" using T(3) up by simp
    show "if Suc i = 0 then fl' = [] \<and> avail_frames ?u \<noteq> {} else length fl' + Suc i = 127"
      using T(7) fl assms(2) by (auto split: if_splits)
    show "kmalloc_caches ?u ! j \<in> slab_objs 32 ps' - set fl'" if "j < Suc i" for j
      unfolding nth [OF that] T(5) using that objs by simp
    show "slab_inv d (kmalloc_caches ?u ! j) (block_size j) [] [] ?u" if "j < Suc i" for j
      unfolding nth [OF that] using that T(4) n(1) N(1) [of j] by (cases "j = i") simp_all
    show "region (kmalloc_caches ?u ! j) 32 \<inter> region (kmalloc_caches ?u ! k) 32 = {}"
      if "j < Suc i" "k < Suc i" "j \<noteq> k" for j k
      unfolding nth [OF that(1)] nth [OF that(2)]
      using that apart [of j k] N(2) [of j] N(2) [of k]
      by (cases "j = i"; cases "k = i") (simp_all add: Int_commute)
  qed
  moreover have "c \<noteq> NULL" using T(4) unfolding slab_inv_def slab_rep_def slab_lists_def by blast
  ultimately show thesis using T(1) up(1,4) len by (intro that [of c t]) simp_all
qed

lemma kheap_init_loop_ok:
  "kheap_progress S d i s \<Longrightarrow> i \<le> 8 \<Longrightarrow>
   \<exists>t. kheap_init_loop i (of_nat (bucket_size i)) s = Ret () t \<and> kheap_progress S d 8 t"
proof (induction "8 - i" arbitrary: i s)
  case 0
  then have "i = 8" by simp
  with 0 show ?case by (subst kheap_init_loop.simps) simp
next
  case (Suc k)
  then have i: "i < 8" by simp
  from kheap_progress_step [OF Suc.prems(1) i] obtain c t where
    c: "slab_cache_create (of_nat (bucket_size i) + 16) s = Ret c t" "c \<noteq> NULL"
    and P: "kheap_progress S d (Suc i) (t\<lparr>kmalloc_caches := (kmalloc_caches t)[i := c]\<rparr>)"
    and len: "length (kmalloc_caches t) = 8" by metis
  let ?u = "t\<lparr>kmalloc_caches := (kmalloc_caches t)[i := c]\<rparr>"
  have next_size: "push_bit 1 (of_nat (bucket_size i) :: u64) = of_nat (bucket_size (Suc i))"
    by (simp add: bucket_size_def push_bit_eq_mult)
  have "kheap_init_loop i (of_nat (bucket_size i)) s
      = kheap_init_loop (Suc i) (of_nat (bucket_size (Suc i))) ?u"
    using c i len next_size by (subst kheap_init_loop.simps) (simp add: Let_def)
  moreover have "\<exists>v. kheap_init_loop (Suc i) (of_nat (bucket_size (Suc i))) ?u = Ret () v \<and> kheap_progress S d 8 v"
    using Suc.hyps(2) P i by (intro Suc.hyps(1)) simp_all
  ultimately show ?case by simp
qed

lemma kheap_init_ok_frames:
  assumes "mm_ok d s" and "slab_sep (cache_metadata_cache s) [] s" and "cache_metadata_cache s \<noteq> NULL"
    and "\<not> cache_meta_initialized s" and "\<not> kheap_initialized s" and "length (kmalloc_caches s) = 8"
    and "avail_frames s \<noteq> {}"
  shows "\<exists>t. kheap_init s = Ret () t \<and> heap_inv d (replicate 8 ([], [])) t \<and>
    avail_frames t \<subseteq> avail_frames s \<and> (\<exists>p. avail_frames s - {p} \<subseteq> avail_frames t) \<and> others_same s t \<and>
    (\<forall>i < 8. \<exists>p \<in> avail_frames s. region (kmalloc_caches t ! i) 32 \<subseteq> region p 4096) \<and>
    tail_kept s t \<and> cache_meta_initialized t \<and>
    (\<forall>y. y \<notin> region (cache_metadata_cache s) 32 \<and> y \<notin> pool_area s \<longrightarrow> mem t y = mem s y) \<and>
    (\<exists>ps fl. slab_inv d (cache_metadata_cache s) 32 ps fl t \<and> set ps \<subseteq> avail_frames s \<and> length fl = 119)"
proof -
  let ?meta = "cache_metadata_cache s"
  let ?s = "s\<lparr>mem := cache_init ?meta 32 (mem s), cache_meta_initialized := True\<rparr>"
  have bm: "cache_init ?meta 32 (mem s) y = mem s y" if "y \<in> bitmap_region s" for y
    using that assms(2) by (intro cache_init_outside) (auto simp: slab_sep_def)
  have rep: "slab_rep ?meta 32 [] [] (cache_init ?meta 32 (mem s))"
    using cache_init_rep [OF assms(3), of 32] by simp
  have "slab_inv d ?meta 32 [] [] (s\<lparr>mem := cache_init ?meta 32 (mem s)\<rparr>)"
    using assms(1,2) rep bm by (simp add: slab_inv_def mm_ok_mem_cong slab_sep_mem_cong)
  moreover have "avail_frames (s\<lparr>mem := cache_init ?meta 32 (mem s)\<rparr>) = avail_frames s"
    using bm by (rule avail_frames_mem_cong)
  moreover have tail: "tail_kept s ?s"
  proof (rule tail_kept_same)
    show "free_set ?s = free_set s" using free_set_mem_cong [OF bm] by (simp add: free_set_def bitmap_test_def)
    show "mem ?s y = mem s y" if "f \<in> avail_frames s" "y \<in> region f 4096" for f y
    proof -
      have "y \<notin> region ?meta 32" using that assms(2) unfolding slab_sep_def by blast
      then show ?thesis by (simp add: cache_init_outside)
    qed
  qed simp_all
  ultimately have "kheap_progress s d 0 ?s"
    using assms(6,7) tail by (auto simp: kheap_progress_def others_same_def bitmap_region_def cache_init_outside)
  from kheap_init_loop_ok [OF this] obtain t where
    t: "kheap_init_loop 0 16 ?s = Ret () t" "kheap_progress s d 8 t"
    by (auto simp: bucket_size_def)
  have first: "kheap_init_loop 0 16 s = kheap_init_loop 0 16 ?s"
    using slab_cache_create_first [OF assms(4)]
    by (subst (1 2) kheap_init_loop.simps) simp
  have "heap_inv d (replicate 8 ([], [])) (t\<lparr>kheap_initialized := True\<rparr>)"
    using t(2) by (auto simp: heap_inv_def kheap_progress_def)
  moreover have "avail_frames t \<subseteq> avail_frames s" "\<exists>p. avail_frames s - {p} \<subseteq> avail_frames t"
    using t(2) by (simp_all add: kheap_progress_def)
  moreover have same: "others_same s t" using t(2) by (simp add: kheap_progress_def)
  then have "others_same s (t\<lparr>kheap_initialized := True, uart_out := out\<rparr>)" for out
    by (simp add: others_same_def bitmap_region_def)
  moreover obtain ps fl where ps: "slab_inv d (cache_metadata_cache t) 32 ps fl t" "set ps \<subseteq> avail_frames s"
      "if 8 = (0 :: nat) then fl = [] \<and> avail_frames t \<noteq> {} else length fl + 8 = 127"
      "\<forall>j < 8. kmalloc_caches t ! j \<in> slab_objs 32 ps - set fl"
    using t(2) unfolding kheap_progress_def by (elim conjE exE)
  have "\<exists>p \<in> avail_frames s. region (kmalloc_caches t ! i) 32 \<subseteq> region p 4096" if "i < 8" for i
    using that ps(2,4) slab_obj_in_page [of "kmalloc_caches t ! i" 32 ps] by blast
  moreover have "cache_metadata_cache t = ?meta" using same by (simp add: others_same_def)
  with ps(1,3) have "slab_inv d ?meta 32 ps fl t" "length fl = 119" by simp_all
  moreover have "cache_meta_initialized t" and tail_t: "tail_kept s t" using t(2) by (simp_all add: kheap_progress_def)
  have "tail_kept t (t\<lparr>kheap_initialized := True, uart_out := out\<rparr>)" for out
    by (rule tail_kept_same) (simp_all add: free_set_def bitmap_test_def)
  with tail_t have "tail_kept s (t\<lparr>kheap_initialized := True, uart_out := out\<rparr>)" for out by (rule tail_kept_trans)
  moreover have "\<forall>y. y \<notin> region ?meta 32 \<and> y \<notin> pool_area s \<longrightarrow> mem t y = mem s y"
    using t(2) by (simp add: kheap_progress_def)
  moreover note ps(2) \<open>cache_meta_initialized t\<close>
  ultimately show ?thesis
    using assms(5) t(1) first
    by (auto simp: kheap_init_def Let_def klog_info_eq heap_inv_def)
qed

lemma kheap_init_ok:
  assumes "mm_ok d s" and "slab_sep (cache_metadata_cache s) [] s" and "cache_metadata_cache s \<noteq> NULL"
    and "\<not> cache_meta_initialized s" and "\<not> kheap_initialized s" and "length (kmalloc_caches s) = 8"
    and "avail_frames s \<noteq> {}"
  shows "\<exists>t. kheap_init s = Ret () t \<and> heap_inv d (replicate 8 ([], [])) t \<and>
    avail_frames t \<subseteq> avail_frames s \<and> (\<exists>p. avail_frames s - {p} \<subseteq> avail_frames t)"
  using kheap_init_ok_frames [OF assms] by blast

subsection \<open>Large blocks\<close>

definition large_pages :: "u64 \<Rightarrow> nat" where
  "large_pages n = (unat n + 16 + 4095) div 4096"

lemma unat_large_pages:
  assumes "unat n + 16 + 4095 < 2 ^ 64"
  shows "unat (ALIGN_UP (n + 16) PAGE_SIZE div PAGE_SIZE) = large_pages n"
proof -
  have "unat (n + 16) = unat n + 16" using assms unat_add_of_nat [of n 16] by simp
  then have "unat (ALIGN_UP (n + 16) (2 ^ 12)) = (unat n + 16 + 4095) div 4096 * 4096"
    using unat_ALIGN_UP [of 12 "n + 16"] assms by simp
  then show ?thesis by (simp add: unat_div_page large_pages_def) (simp add: PAGE_SIZE_def)
qed

text \<open>The search takes the frame it starts at, when that one is free.\<close>

lemma next_fit_here:
  assumes "last_free_index s = of_nat i" and "i \<in> free_set s"
  shows "next_fit s = Some i"
proof -
  have i: "i < unat (total_frames s)" using assms(2) by (rule free_set_bound)
  then have "unat (last_free_index s) = i"
    using assms(1) unat_lt_u64 [of "total_frames s"] by (simp add: unat_of_nat_u64 del: unat_lt_u64)
  then have "[unat (last_free_index s)..<unat (total_frames s)] = i # [Suc i..<unat (total_frames s)]"
    using i by (simp add: upt_conv_Cons)
  then show ?thesis using assms(2) by (simp add: next_fit_def)
qed

text \<open>The state after \<open>k\<close> frames from \<open>i\<close> on have been taken one after the other.\<close>

definition run_taken :: "nat \<Rightarrow> kstate \<Rightarrow> nat \<Rightarrow> nat \<Rightarrow> kstate \<Rightarrow> bool" where
  "run_taken d s i k t \<longleftrightarrow>
     pmm_inv d t \<and> free_set t = free_set s - {i..<i + k} \<and> last_free_index t = of_nat (i + k) \<and>
     frame_addr t = frame_addr s \<and> total_frames t = total_frames s \<and>
     mem_phys_base t = mem_phys_base s \<and> bitmap_region t = bitmap_region s \<and>
     (\<forall>y. y \<notin> bitmap_region s \<longrightarrow> mem t y = mem s y) \<and> upper_same s t"

lemma run_taken_Suc:
  assumes "run_taken d s i k t" and "i + k \<in> free_set s"
  shows "pmm_alloc_frame t = Ret (frame_addr s (i + k)) (taken (i + k) t)"
    and "run_taken d s i (Suc k) (taken (i + k) t)"
proof -
  have inv: "pmm_inv d t" and fs: "free_set t = free_set s - {i..<i + k}"
    using assms(1) by (simp_all add: run_taken_def)
  have free: "i + k \<in> free_set t" using assms(2) fs by simp
  have here: "next_fit t = Some (i + k)"
    using assms(1) free by (intro next_fit_here) (simp_all add: run_taken_def)
  from pmm_alloc_frame_ok [OF inv] free obtain j where j: "next_fit t = Some j"
    "pmm_alloc_frame t = Ret (frame_addr t j) (taken j t)" "pmm_inv d (taken j t)"
    "free_set (taken j t) = free_set t - {j}" by blast
  have jk: "j = i + k" using j(1) here by simp
  show "pmm_alloc_frame t = Ret (frame_addr s (i + k)) (taken (i + k) t)"
    using j(2) jk assms(1) by (simp add: run_taken_def)
  have out: "mem (taken (i + k) t) y = mem t y" if "y \<notin> bitmap_region s" for y
    using that assms(1) by (intro mem_taken free_set_bound [OF free]) (simp add: run_taken_def)
  have "{i..<i + Suc k} = insert (i + k) {i..<i + k}" by auto
  then have "free_set (taken (i + k) t) = free_set s - {i..<i + Suc k}"
    using j(4) [unfolded jk] fs by (simp only:) blast
  moreover have "last_free_index (taken (i + k) t) = of_nat (i + Suc k)" by (simp add: taken_def)
  moreover have "frame_addr t = frame_addr s" "total_frames t = total_frames s"
    "mem_phys_base t = mem_phys_base s" "bitmap_region t = bitmap_region s" "upper_same s t"
    "\<forall>y. y \<notin> bitmap_region s \<longrightarrow> mem t y = mem s y"
    using assms(1) by (simp_all add: run_taken_def)
  moreover have "upper_same s (taken (i + k) t)"
    using \<open>upper_same s t\<close> by (simp add: upper_same_def)
  ultimately show "run_taken d s i (Suc k) (taken (i + k) t)"
    unfolding run_taken_def using j(3) [unfolded jk] out by (intro conjI) simp_all
qed

lemma kmalloc_more_ok:
  assumes "run_taken d s i 1 t" and "{i..<i + unat n} \<subseteq> free_set s" and "1 \<le> n"
  shows "\<exists>u. kmalloc_more (frame_addr s i) n t = Ret () u \<and> run_taken d s i (unat n) u"
  unfolding kmalloc_more_def
proof (rule for_out_invariant [where I = "run_taken d s i"])
  show "run_taken d s i (unat 1) t" using assms(1) by simp
  show "1 \<le> n" by (fact assms(3))
  fix k u assume k: "unat (1 :: u64) \<le> k" "k < unat n" and I: "run_taken d s i k u"
  have "i + k \<in> free_set s" using assms(2) k by auto
  note R = run_taken_Suc [OF I this]
  have "frame_addr s (i + k) = frame_addr s i + of_nat k * PAGE_SIZE"
    by (simp add: frame_addr_def algebra_simps)
  then show "\<exists>t'. andThen (pmm_alloc_frame u)
      (\<lambda>next_phys v. if next_phys \<noteq> frame_addr s i + of_nat k * PAGE_SIZE
        then panic ''mm'' ''kmalloc: non-contiguous frame allocation for large request'' [] v
        else Ret () v) = Ret () t' \<and> run_taken d s i (Suc k) t'"
    using R by simp
qed

lemma run_taken_first:
  assumes "pmm_inv d s" and "next_fit s = Some i"
  shows "pmm_alloc_frame s = Ret (frame_addr s i) (taken i s)" and "run_taken d s i 1 (taken i s)"
proof -
  have free: "i \<in> free_set s" using assms(2) by (rule next_fit_Some)
  from pmm_alloc_frame_ok [OF assms(1)] free obtain j where j: "next_fit s = Some j"
    "pmm_alloc_frame s = Ret (frame_addr s j) (taken j s)" "pmm_inv d (taken j s)"
    "free_set (taken j s) = free_set s - {j}" by blast
  have ji: "j = i" using j(1) assms(2) by simp
  show "pmm_alloc_frame s = Ret (frame_addr s i) (taken i s)" using j(2) ji by simp
  have out: "mem (taken i s) y = mem s y" if "y \<notin> bitmap_region s" for y
    using free_set_bound [OF free] that by (rule mem_taken)
  have "free_set (taken i s) = free_set s - {i..<i + 1}" using j(4) ji by simp
  moreover have "last_free_index (taken i s) = of_nat (i + 1)" by (simp add: taken_def)
  moreover have "upper_same s (taken i s)" by (simp add: upper_same_def)
  ultimately show "run_taken d s i 1 (taken i s)"
    unfolding run_taken_def using j(3) [unfolded ji] out by (intro conjI) simp_all
qed

lemma run_taken_mm_ok:
  assumes "mm_ok d s" and "run_taken d s i k t"
  shows "mm_ok d t" and "avail_frames t \<subseteq> avail_frames s"
proof -
  have "free_set t \<subseteq> free_set s" "frame_addr t = frame_addr s" using assms(2) by (auto simp: run_taken_def)
  then show av: "avail_frames t \<subseteq> avail_frames s" by (auto simp: avail_frames_def)
  have "pmm_inv d t" "bitmap_region t = bitmap_region s" "mem_phys_base t = mem_phys_base s"
    "total_frames t = total_frames s" using assms(2) by (simp_all add: run_taken_def)
  with assms(1) av show "mm_ok d t" by (auto simp: mm_ok_def)
qed

text \<open>A large block: the header at the start of a run of frames that are all in use.\<close>

definition large_ok :: "nat \<Rightarrow> u64 \<Rightarrow> kstate \<Rightarrow> bool" where
  "large_ok i n s \<longleftrightarrow>
     i + large_pages n \<le> unat (total_frames s) \<and> {i..<i + large_pages n} \<inter> free_set s = {} \<and>
     load64 s (header_size (frame_addr s i)) = n \<and> load64 s (header_cache (frame_addr s i)) = NULL"

lemma header_in_page: "region (header_size p) 8 \<subseteq> region p 4096" "region (header_cache p) 8 \<subseteq> region p 4096"
  "region (header_size p) 8 \<inter> region (header_cache p) 8 = {}"
  using region_off_subset [of 0 8 4096 p] region_off_subset [of 8 8 4096 p]
    region_off_disjoint [of 0 8 8 8 p]
  by (simp_all add: header_size_def header_cache_def)

lemma run_taken_tail:
  assumes "run_taken d s i k t" and "next_fit s = Some i" and "{i..<i + k} \<subseteq> free_set s" and "0 < k"
    and ok: "mm_ok d s"
  shows "tail_kept s t"
proof -
  have i: "i \<in> free_set s" using assms(2) by (rule next_fit_Some)
  have ik: "i + k \<le> unat (total_frames s)"
  proof -
    have "i + k - 1 \<in> free_set s" using assms(3,4) by auto
    then show ?thesis using free_set_bound by fastforce
  qed
  have "\<exists>j \<ge> q. free_tail j t" if q: "free_tail q s" for q
  proof -
    have F: "free_set s = {q..<unat (total_frames s)}" using q by (simp add: free_tail_def)
    then have "q < unat (total_frames s)" using i by auto
    from free_tail_next_fit [OF q this] have e: "q = i" using assms(2) by simp
    have "unat (of_nat (i + k) :: u64) = i + k"
      using ik unat_lt_u64 [of "total_frames s"] by (intro unat_of_nat_u64) (simp del: unat_lt_u64)
    moreover have "{i..<n} - {i..<i + k} = {i + k..<n}" for n by auto
    ultimately have "free_tail (i + k) t" using assms(1) F e unfolding run_taken_def free_tail_def by simp
    then show ?thesis using e by (intro exI [of _ "i + k"]) simp
  qed
  moreover have "mem t y = mem s y" if "f \<in> avail_frames t" "y \<in> region f 4096" for f y
  proof -
    have "y \<notin> bitmap_region s" using that run_taken_mm_ok(2) [OF ok assms(1)] ok by (auto simp: mm_ok_def)
    then show ?thesis using assms(1) by (simp add: run_taken_def)
  qed
  ultimately show ?thesis using assms(1) run_taken_mm_ok(2) [OF ok assms(1)] by (simp add: tail_kept_def run_taken_def)
qed

lemma kmalloc_large:
  assumes "mm_ok d s" and "kheap_initialized s" and "2048 < n" and "unat n + 4111 < 2 ^ 64"
    and "next_fit s = Some i" and "{i..<i + large_pages n} \<subseteq> free_set s"
  obtains t where "kmalloc n s = Ret (frame_addr s i + 16) t" and "mm_ok d t"
    and "free_set t = free_set s - {i..<i + large_pages n}" and "large_ok i n t"
    and "frame_addr t = frame_addr s"
    and "\<And>y. y \<notin> bitmap_region s \<Longrightarrow> y \<notin> region (frame_addr s i) 4096 \<Longrightarrow> mem t y = mem s y"
    and "bitmap_region t = bitmap_region s" and "upper_same s t" and "tail_kept s t"
proof -
  let ?p = "frame_addr s i" and ?N = "ALIGN_UP (n + 16) PAGE_SIZE div PAGE_SIZE"
  have inv: "pmm_inv d s" using assms(1) by (simp add: mm_ok_def)
  have N: "unat ?N = large_pages n" using assms(4) by (intro unat_large_pages) simp
  have pos: "1 \<le> large_pages n" by (simp add: large_pages_def)
  note F = run_taken_first [OF inv assms(5)]
  have "1 \<le> ?N" using N pos by (simp add: word_le_nat_alt)
  from kmalloc_more_ok [OF F(2) _ this] assms(6) N obtain u where
    u: "kmalloc_more ?p ?N (taken i s) = Ret () u" "run_taken d s i (large_pages n) u" by auto
  let ?m = "write64 (write64 (mem u) (header_size ?p) n) (header_cache ?p) NULL" and ?t = "u\<lparr>mem := write64 (write64 (mem u) (header_size (frame_addr s i)) n) (header_cache (frame_addr s i)) NULL\<rparr>"
  have free: "i \<in> free_set s" using assms(5) by (rule next_fit_Some)
  have pav: "?p \<in> avail_frames s" using free by (simp add: avail_frames_def)
  have out: "?m y = mem u y" if "y \<notin> region ?p 4096" for y
  proof -
    have "y \<notin> region (header_size ?p) 8" "y \<notin> region (header_cache ?p) 8"
      using that header_in_page(1,2) [of ?p] by blast+
    then show ?thesis by (simp add: write64_outside)
  qed
  have bm: "?m y = mem u y" if "y \<in> bitmap_region u" for y
    using that u(2) assms(1) pav by (intro out) (auto simp: run_taken_def mm_ok_def)
  have fa: "frame_addr u = frame_addr s" "total_frames u = total_frames s"
    "free_set u = free_set s - {i..<i + large_pages n}"
    "\<And>y. y \<notin> bitmap_region s \<Longrightarrow> mem u y = mem s y" using u(2) by (simp_all add: run_taken_def)
  have fs: "free_set ?t = free_set s - {i..<i + large_pages n}"
    using free_set_mem_cong [OF bm] fa(3) by simp
  have "?p \<noteq> 0" using frame_addr_not_null [OF inv free_set_bound [OF free]] .
  then have run: "kmalloc n s = Ret (?p + 16) ?t"
    using assms(2,3) F(1) u(1) get_bucket_index_large [OF assms(3)]
    by (auto simp: kmalloc_def Let_def store64_def)
  have "i + large_pages n - 1 \<in> free_set s" using assms(6) pos by auto
  then have "i + large_pages n \<le> unat (total_frames s)" using free_set_bound by fastforce
  then have "large_ok i n ?t"
    using fs fa header_in_page(3) [of ?p]
    by (auto simp: large_ok_def mem_simps read64_write64_disjoint Int_commute)
  moreover have "mm_ok d ?t" using run_taken_mm_ok(1) [OF assms(1) u(2)] mm_ok_mem_cong [OF bm] by simp
  moreover have "tail_kept s ?t"
  proof -
    have "?m y = mem u y" if "f \<in> avail_frames u" "y \<in> region f 4096" for f y
    proof (rule out)
      have f: "f \<in> avail_frames s" using run_taken_mm_ok(2) [OF assms(1) u(2)] that(1) by blast
      have "?p \<notin> avail_frames u"
      proof
        assume "?p \<in> avail_frames u"
        then obtain x where x: "x \<in> free_set s" "x \<notin> {i..<i + large_pages n}" "?p = frame_addr s x"
          using fa(1,3) by (auto simp: avail_frames_def)
        have "i = x"
          using x(3) by (rule inj_onD [OF frame_addr_inj [OF inv]]) (simp_all add: free_set_bound [OF free] free_set_bound [OF x(1)])
        then show False using x(2) pos by simp
      qed
      then have "region f 4096 \<inter> region ?p 4096 = {}"
        using that(1) avail_frames_page [OF assms(1) f] avail_frames_page [OF assms(1) pav] by (intro pages_disjoint) auto
      then show "y \<notin> region ?p 4096" using that(2) by blast
    qed
    then have "tail_kept u ?t" using bm by (intro tail_kept_mem)
    moreover have "tail_kept s u" using u(2) assms(5,6) pos assms(1) by (intro run_taken_tail) (simp_all add: Suc_le_eq)
    ultimately show ?thesis using tail_kept_trans by blast
  qed
  moreover have "bitmap_region ?t = bitmap_region s" "upper_same s ?t"
    using u(2) by (simp_all add: run_taken_def upper_same_def)
  ultimately show thesis using run fs fa out by (intro that [of ?t]) simp_all
qed

text \<open>Giving the frames back.\<close>

lemma kfree_pages_ok:
  assumes "pmm_inv d s" and "i + large_pages n \<le> unat (total_frames s)" and "unat n + 4111 < 2 ^ 64"
  shows "pmm_inv d (kfree_pages (frame_addr s i) (n + 16) s)"
    and "free_set (kfree_pages (frame_addr s i) (n + 16) s) = free_set s \<union> {i..<i + large_pages n}"
proof -
  let ?N = "ALIGN_UP (n + 16) PAGE_SIZE div PAGE_SIZE"
  let ?I = "\<lambda>k t. pmm_inv d t \<and> free_set t = free_set s \<union> {i..<i + k} \<and> frame_addr t = frame_addr s \<and>
    total_frames t = total_frames s"
  have N: "unat ?N = large_pages n" using assms(3) by (intro unat_large_pages) simp
  have "?I (unat ?N) (kfree_pages (frame_addr s i) (n + 16) s)"
    unfolding kfree_pages_def Let_def
  proof (rule for_loop_invariant [where I = ?I])
    show "?I (unat 0) s" using assms(1) by simp
  next
    fix k t assume k: "k < unat ?N" and I: "?I k t"
    have ik: "i + k < unat (total_frames t)" using I k N assms(2) by simp
    have a: "frame_addr s i + of_nat k * PAGE_SIZE = frame_addr t (i + k)"
      using I by (simp add: frame_addr_def [of s] algebra_simps)
    note F = pmm_free_frame_ok [OF conjunct1 [OF I] ik]
    have "frame_addr (pmm_free_frame (frame_addr t (i + k)) t) = frame_addr t"
      using F(4) by (simp add: frame_addr_def fun_eq_iff)
    moreover have "{i..<i + Suc k} = insert (i + k) {i..<i + k}" by auto
    ultimately show "?I (Suc k) (pmm_free_frame (frame_addr s i + of_nat k * PAGE_SIZE) t)"
      unfolding a using F I by simp
  qed simp
  then show "pmm_inv d (kfree_pages (frame_addr s i) (n + 16) s)"
    "free_set (kfree_pages (frame_addr s i) (n + 16) s) = free_set s \<union> {i..<i + large_pages n}"
    using N by simp_all
qed

lemma kfree_large:
  assumes "pmm_inv d s" and "large_ok i n s" and "unat n + 4111 < 2 ^ 64"
    and "frame_addr s i + 16 \<noteq> NULL"
  shows "kfree (frame_addr s i + 16) s = Ret () (kfree_pages (frame_addr s i) (n + 16) s)"
  using assms by (simp add: kfree_def large_ok_def Let_def)

subsection \<open>Using a block\<close>

text \<open>A client that writes its block keeps the heap, its own header and all other blocks.\<close>

lemma block_write:
  assumes "heap_inv d B s" and "block_ok B i x n s"
    and "\<And>y. y \<notin> region (x + 16) (unat n) \<Longrightarrow> m y = mem s y"
  shows "heap_inv d B (s\<lparr>mem := m\<rparr>)" and "block_ok B i x n (s\<lparr>mem := m\<rparr>)"
    and "j < 8 \<Longrightarrow> w \<in> heap_live B j \<Longrightarrow> (i, x) \<noteq> (j, w) \<Longrightarrow> y \<in> region w (block_size j) \<Longrightarrow> m y = mem s y"
proof -
  have i: "i < 8" "x \<in> heap_live B i" "unat n \<le> bucket_size i" using assms(2) by (simp_all add: block_ok_def)
  have n: "unat n + 16 \<le> 2 ^ 64" using i(3) bucket_size_le [OF i(1)] by simp
  note H = block_header [OF i(2)]
  have out: "m y = mem s y" if "y \<notin> region x (block_size i)" for y
    using that H(4) [OF i(3) n] by (intro assms(3)) blast
  show "heap_inv d B (s\<lparr>mem := m\<rparr>)" using assms(1) i(1,2) out by (rule heap_client)
  have "read64 m (header_size x) = read64 (mem s) (header_size x)"
    "read64 m (header_cache x) = read64 (mem s) (header_cache x)"
    using H(5,6) [OF n] by (intro read64_cong assms(3); blast)+
  then show "block_ok B i x n (s\<lparr>mem := m\<rparr>)" using assms(2) by (simp add: block_ok_def)
  show "m y = mem s y" if "j < 8" "w \<in> heap_live B j" "(i, x) \<noteq> (j, w)" "y \<in> region w (block_size j)"
    using blocks_same_write [OF assms(1) i(1,2) out that] .
qed

text \<open>A block whose bytes, header included, are the same in another state.\<close>

lemma block_ok_same:
  assumes "block_ok B i x n s" and "x \<in> heap_live B' i" and "kmalloc_caches t = kmalloc_caches s"
    and "\<And>y. y \<in> region x (block_size i) \<Longrightarrow> mem t y = mem s y"
  shows "block_ok B' i x n t"
proof -
  have "read64 (mem t) (header_size x) = read64 (mem s) (header_size x)"
    "read64 (mem t) (header_cache x) = read64 (mem s) (header_cache x)"
    using block_header(1,2) [OF assms(2)] by (intro read64_cong assms(4); blast)+
  then show ?thesis using assms(1-3) by (simp add: block_ok_def)
qed

lemma bytes_cong:
  "(\<And>y. y \<in> region a n \<Longrightarrow> m y = m' y) \<Longrightarrow> n \<le> 2 ^ 64 \<Longrightarrow> bytes m a n = bytes m' a n"
  by (simp add: bytes_def region_off_mem)

lemma bytes_memset: "bytes (memset p c n m) p (unat n) = replicate (unat n) (ucast c)"
proof (rule nth_equalityI)
  fix k assume "k < length (bytes (memset p c n m) p (unat n))"
  then have "k < unat n" by (simp add: bytes_def)
  moreover from this have "p + of_nat k \<in> region p (unat n)"
    using unat_lt_u64 [of n] by (intro region_off_mem) (simp_all del: unat_lt_u64)
  ultimately show "bytes (memset p c n m) p (unat n) ! k = replicate (unat n) (ucast c) ! k"
    by (simp add: bytes_def memset_eq)
qed (simp add: bytes_def)

text \<open>The overflow test of \<^verbatim>\<open>kcalloc\<close> is exact.\<close>

lemma kcalloc_overflow_iff:
  "(num \<noteq> 0 \<and> num * sz div num \<noteq> sz) \<longleftrightarrow> 2 ^ 64 \<le> unat num * unat (sz :: u64)"
proof -
  let ?N = "unat num" and ?S = "unat sz"
  have eq: "num * sz div num = sz \<longleftrightarrow> (?N * ?S) mod 2 ^ 64 div ?N = ?S"
    by (simp add: word_unat_eq_iff unat_div unat_word_ariths)
  show ?thesis
  proof (cases "2 ^ 64 \<le> ?N * ?S")
    case True
    then have N: "0 < ?N" by (cases "?N = 0") auto
    have "(?N * ?S) mod 2 ^ 64 \<le> ?N * ?S - 2 ^ 64"
      using True by (metis le_mod_geq mod_less_eq_dividend)
    also have "\<dots> < ?S * ?N" using True by (simp add: mult.commute)
    finally have "(?N * ?S) mod 2 ^ 64 div ?N < ?S" using N by (simp add: div_less_iff_less_mult)
    then show ?thesis using True N eq by (auto simp: unat_gt_0)
  next
    case False
    then have "(?N * ?S) mod 2 ^ 64 div ?N = ?S" if "num \<noteq> 0" using that by (simp add: unat_gt_0)
    then show ?thesis using False eq by auto
  qed
qed

text \<open>The common case: a frame is free, or the bucket has a free object.\<close>

lemma kmalloc_small_returns:
  assumes "heap_inv d B s" and "0 < n" and "n \<le> 2048"
    and "avail_frames s \<noteq> {} \<or> snd (B ! nat (get_bucket_index n)) \<noteq> []"
  obtains i x B' t where "get_bucket_index n = int i" and "i < 8" and "unat n \<le> bucket_size i"
    and "\<And>j. j < i \<Longrightarrow> bucket_size j < unat n"
    and "kmalloc n s = Ret (x + 16) t" and "heap_inv d B' t" and "block_ok B' i x n t"
    and "x \<notin> heap_live B i" and "heap_live B' i = insert x (heap_live B i)"
    and "\<And>j. j \<noteq> i \<Longrightarrow> heap_live B' j = heap_live B j" and "blocks_same B s t" and "upper_same s t"
    and "\<exists>p. avail_frames s - {p} \<subseteq> avail_frames t"
proof -
  from get_bucket_index_small [OF assms(3)] obtain i where i: "get_bucket_index n = int i" "i < 8"
    "unat n \<le> bucket_size i" "\<And>j. j < i \<Longrightarrow> bucket_size j < unat n" by metis
  have "snd (B ! i) \<noteq> [] \<or> avail_frames s \<noteq> {}" using assms(4) i(1) by auto
  with heap_invD(4) [OF assms(1) i(2)] obtain x s1 where
    "slab_alloc (kmalloc_caches s ! i) s = Ret x s1" by (rule slab_alloc_returns)
  from kmalloc_small [OF assms(1,2) i(1-3) this] show thesis using i by (metis that)
qed

lemma kmalloc_small_returns_frame:
  assumes "heap_inv d B s" and "0 < n" and "n \<le> 2048" and "avail_frames s \<noteq> {}"
  obtains i x B' t where "get_bucket_index n = int i" and "i < 8" and "kmalloc n s = Ret (x + 16) t"
    and "heap_inv d B' t" and "block_ok B' i x n t" and "x \<notin> heap_live B i"
    and "heap_live B' i = insert x (heap_live B i)" and "\<And>j. j \<noteq> i \<Longrightarrow> heap_live B' j = heap_live B j"
    and "blocks_same B s t" and "upper_same s t" and "\<exists>p. avail_frames s - {p} \<subseteq> avail_frames t"
    and "heap_frame B s B' t"
proof -
  from get_bucket_index_small [OF assms(3)] obtain i where i: "get_bucket_index n = int i" "i < 8"
    "unat n \<le> bucket_size i" by metis
  have "snd (B ! i) \<noteq> [] \<or> avail_frames s \<noteq> {}" using assms(4) by simp
  with heap_invD(4) [OF assms(1) i(2)] obtain x s1 where x: "slab_alloc (kmalloc_caches s ! i) s = Ret x s1"
    by (rule slab_alloc_returns)
  show thesis by (rule kmalloc_small_frame [OF assms(1,2) i x]) (rule that [OF i(1,2)]; assumption)
qed

lemma heap_blocks_apart:
  assumes "heap_inv d B s" and "block_ok B i x n s" and "block_ok B j y k s" and "(i, x) \<noteq> (j, y)"
  shows "region (x + 16) (unat n) \<inter> region (y + 16) (unat k) = {}"
proof -
  have i: "i < 8" "x \<in> heap_live B i" "unat n \<le> bucket_size i" and j: "j < 8" "y \<in> heap_live B j"
    "unat k \<le> bucket_size j" using assms(2,3) by (simp_all add: block_ok_def)
  have "region (x + 16) (unat n) \<subseteq> region x (block_size i)"
    "region (y + 16) (unat k) \<subseteq> region y (block_size j)"
    using block_header(4) [OF i(2), of "unat n"] block_header(4) [OF j(2), of "unat k"]
      i(3) j(3) bucket_size_le [OF i(1)] bucket_size_le [OF j(1)] by simp_all
  then show ?thesis using heap_live_disjoint [OF assms(1) i(1) j(1) i(2) j(2) assms(4)] by blast
qed

text \<open>The end of \<^verbatim>\<open>krealloc\<close>: copy the old block into the new one and release it.\<close>

lemma bytes_memcpy:
  assumes "region q (unat n) \<inter> region p (unat n) = {}"
  shows "bytes (memcpy q p n m) q (unat n) = bytes m p (unat n)"
proof (rule nth_equalityI)
  fix k assume "k < length (bytes (memcpy q p n m) q (unat n))"
  then have "k < unat n" by (simp add: bytes_def)
  moreover from this have "q + of_nat k \<in> region q (unat n)"
    using unat_lt_u64 [of n] by (intro region_off_mem) (simp_all del: unat_lt_u64)
  ultimately show "bytes (memcpy q p n m) q (unat n) ! k = bytes m p (unat n) ! k"
    by (simp add: bytes_def memcpy_eq [OF assms])
qed (simp add: bytes_def)

lemma copy_then_free:
  assumes "heap_inv d B s" and "block_ok B k z n s" and "block_ok B i x old s" and "(k, z) \<noteq> (i, x)"
    and "unat old \<le> unat n"
  obtains B' t where
    "kfree (x + 16) (s\<lparr>mem := memcpy (z + 16) (x + 16) old (mem s)\<rparr>) = Ret () t"
    and "heap_inv d B' t" and "block_ok B' k z n t" and "x \<notin> heap_live B' i"
    and "bytes (mem t) (z + 16) (unat old) = bytes (mem s) (x + 16) (unat old)"
    and "\<And>j w. j < 8 \<Longrightarrow> w \<in> heap_live B j \<Longrightarrow> (j, w) \<noteq> (i, x) \<Longrightarrow> w \<in> heap_live B' j"
    and "\<And>j w y. j < 8 \<Longrightarrow> w \<in> heap_live B j \<Longrightarrow> (j, w) \<noteq> (i, x) \<Longrightarrow> (j, w) \<noteq> (k, z) \<Longrightarrow>
      y \<in> region w (block_size j) \<Longrightarrow> mem t y = mem s y"
proof -
  let ?m = "memcpy (z + 16) (x + 16) old (mem s)"
  let ?s = "s\<lparr>mem := ?m\<rparr>"
  have i: "i < 8" "x \<in> heap_live B i" and k: "k < 8" "z \<in> heap_live B k" "unat n \<le> bucket_size k"
    using assms(2,3) by (simp_all add: block_ok_def)
  have inz: "region (z + 16) (unat old) \<subseteq> region (z + 16) (unat n)" using assms(5) by (rule region_mono)
  have disj: "region (z + 16) (unat old) \<inter> region (x + 16) (unat old) = {}"
    using heap_blocks_apart [OF assms(1-4)] inz by blast
  have out: "?m y = mem s y" if "y \<notin> region (z + 16) (unat n)" for y
    using that inz by (auto simp: memcpy_eq [OF disj])
  have W: "heap_inv d B ?s" "block_ok B k z n ?s" using block_write(1,2) [OF assms(1,2) out] by simp_all
  have other: "?m y = mem s y" if "j < 8" "w \<in> heap_live B j" "(j, w) \<noteq> (k, z)" "y \<in> region w (block_size j)" for j w y
    using block_write(3) [OF assms(1,2) out, of j w y] that by auto
  have "block_ok B i x old ?s"
    using other [OF i] assms(4) i(2) by (intro block_ok_same [OF assms(3)]) auto
  from kfree_small [OF W(1) this] obtain B' t where
    F: "kfree (x + 16) ?s = Ret () t" "heap_inv d B' t" "heap_live B' i = heap_live B i - {x}"
    "\<And>j. j \<noteq> i \<Longrightarrow> heap_live B' j = heap_live B j" "blocks_same B' ?s t" "upper_same ?s t" by metis
  have live: "w \<in> heap_live B' j" if "w \<in> heap_live B j" "(j, w) \<noteq> (i, x)" for j w
    using that F(3,4) by (cases "j = i") auto
  have keep: "mem t y = ?m y" if "j < 8" "w \<in> heap_live B j" "(j, w) \<noteq> (i, x)" "y \<in> region w (block_size j)" for j w y
    using F(5) that(1,4) live [OF that(2,3)] by (simp add: blocks_same_def)
  have z: "block_ok B' k z n t"
    using F(6) live [OF k(2)] keep [OF k(1,2)] assms(4)
    by (intro block_ok_same [OF W(2)]) (auto simp: upper_same_def)
  have "region (z + 16) (unat old) \<subseteq> region z (block_size k)"
  proof -
    have "unat n + 16 \<le> 2 ^ 64" using bucket_size_le [OF k(1)] k(3) by simp
    from block_header(4) [OF k(2,3) this] inz show ?thesis by blast
  qed
  then have "bytes (mem t) (z + 16) (unat old) = bytes ?m (z + 16) (unat old)"
    using keep [OF k(1,2) assms(4)] unat_lt_u64 [of old] by (intro bytes_cong) (auto simp del: unat_lt_u64)
  also have "\<dots> = bytes (mem s) (x + 16) (unat old)" using disj by (rule bytes_memcpy)
  finally show thesis using F(1-3) z live keep other by (intro that [of t B']) auto
qed

section \<open>Properties\<close>

subsection \<open>A machine with a started heap\<close>

definition heap_boot :: kstate where
  "heap_boot = pmm_demo\<lparr>cache_metadata_cache := 0x2000\<rparr>"

lemma heap_boot_facts:
  "avail_frames heap_boot = avail_frames pmm_demo" "mm_ok 0 heap_boot"
  "slab_sep (cache_metadata_cache heap_boot) [] heap_boot" "avail_frames heap_boot \<noteq> {}"
  "cache_metadata_cache heap_boot \<noteq> NULL" "\<not> cache_meta_initialized heap_boot"
  "\<not> kheap_initialized heap_boot" "length (kmalloc_caches heap_boot) = 8"
proof -
  show eq: "avail_frames heap_boot = avail_frames pmm_demo" and "mm_ok 0 heap_boot"
    using pmm_demo_mm_ok by (simp_all add: heap_boot_def)
  have bm: "bitmap_region heap_boot = bitmap_region pmm_demo"
    by (simp add: heap_boot_def bitmap_region_def)
  have "bitmap_region pmm_demo \<inter> region 0x2000 32 = {}"
    using demo_bitmap_apart by (fastforce simp: in_region_unat)
  moreover have "region 0x2000 32 \<inter> region f 4096 = {}" if "f \<in> avail_frames pmm_demo" for f
    using pmm_demo_avail [OF that] by (auto simp: in_region_unat)
  ultimately show "slab_sep (cache_metadata_cache heap_boot) [] heap_boot"
    using eq bm by (simp add: slab_sep_def) (simp add: heap_boot_def)
  show "avail_frames heap_boot \<noteq> {}"
    unfolding eq by (simp add: avail_frames_def pmm_demo_facts lessThan_empty_iff)
  show "cache_metadata_cache heap_boot \<noteq> NULL" "\<not> cache_meta_initialized heap_boot"
    "\<not> kheap_initialized heap_boot" "length (kmalloc_caches heap_boot) = 8"
    by (simp_all add: heap_boot_def pmm_demo_def reset_state_def)
qed

lemma finite_avail_frames [simp]: "finite (avail_frames s)"
  by (simp add: avail_frames_def)

lemma card_avail_step:
  assumes "\<exists>p. avail_frames s - {p} \<subseteq> avail_frames t"
  shows "card (avail_frames s) \<le> Suc (card (avail_frames t))"
proof -
  from assms obtain p where "avail_frames s \<subseteq> insert p (avail_frames t)" by blast
  then have "card (avail_frames s) \<le> card (insert p (avail_frames t))" by (intro card_mono) simp_all
  also have "\<dots> \<le> Suc (card (avail_frames t))" by (rule card_insert_le_m1) simp_all
  finally show ?thesis .
qed

lemma heap_demo:
  obtains t where "kheap_init heap_boot = Ret () t" and "heap_inv 0 (replicate 8 ([], [])) t"
    and "avail_frames t \<noteq> {}" and "15 \<le> card (avail_frames t)" and "others_same heap_boot t"
    and "avail_frames t \<subseteq> avail_frames pmm_demo"
    and "\<forall>i < 8. \<exists>p \<in> avail_frames pmm_demo. region (kmalloc_caches t ! i) 32 \<subseteq> region p 4096"
proof -
  from kheap_init_ok_frames [OF heap_boot_facts(2,3,5-8,4)] obtain t where
    t: "kheap_init heap_boot = Ret () t" "heap_inv 0 (replicate 8 ([], [])) t"
    "\<exists>p. avail_frames heap_boot - {p} \<subseteq> avail_frames t" "others_same heap_boot t"
    "avail_frames t \<subseteq> avail_frames pmm_demo"
    "\<forall>i < 8. \<exists>p \<in> avail_frames pmm_demo. region (kmalloc_caches t ! i) 32 \<subseteq> region p 4096"
    unfolding heap_boot_facts(1) by blast
  have "card (avail_frames heap_boot) = 16"
    using card_image [OF frame_addr_inj [OF pmm_demo_facts(2)]]
    by (simp add: heap_boot_facts(1)) (simp add: avail_frames_def pmm_demo_facts)
  then have c: "15 \<le> card (avail_frames t)" using card_avail_step [OF t(3)] by simp
  then have "avail_frames t \<noteq> {}" by auto
  with t(1,2,4-6) c show thesis by (intro that)
qed

text \<open>A heap with two allocated blocks.\<close>

lemma bucket_unique:
  assumes "n \<le> bucket_size i" and "\<And>j. j < i \<Longrightarrow> bucket_size j < n"
    and "n \<le> bucket_size k" and "\<And>j. j < k \<Longrightarrow> bucket_size j < n"
  shows "i = k"
  using assms by (meson linorder_neqE_nat not_less)

lemma heap_two_blocks:
  obtains s B x y where "heap_inv 0 B s" and "block_ok B 3 x 100 s" and "avail_frames s \<noteq> {}"
    and "block_ok B 0 y 16 s"
proof -
  from heap_demo obtain s where s: "heap_inv 0 (replicate 8 ([], [])) s" "15 \<le> card (avail_frames s)" by metis
  have ne: "avail_frames s \<noteq> {}" using s(2) by auto
  have "(0 :: u64) < 100" "(100 :: u64) \<le> 2048" "(0 :: u64) < 16" "(16 :: u64) \<le> 2048" by simp_all
  note num = this
  have b3: "unat (100 :: u64) \<le> bucket_size 3" "\<And>j. j < 3 \<Longrightarrow> bucket_size j < unat (100 :: u64)"
    by (auto simp: bucket_size_def less_Suc_eq numeral_3_eq_3)
  have b0: "unat (16 :: u64) \<le> bucket_size 0" by (simp add: bucket_size_def)
  from kmalloc_small_returns [OF s(1) num(1,2)] ne obtain i x B t where
    K: "unat (100 :: u64) \<le> bucket_size i" "\<And>j. j < i \<Longrightarrow> bucket_size j < unat (100 :: u64)"
    "heap_inv 0 B t" "block_ok B i x 100 t" "\<exists>p. avail_frames s - {p} \<subseteq> avail_frames t" by metis
  have i: "i = 3" using K(1,2) b3 by (rule bucket_unique)
  have c1: "14 \<le> card (avail_frames t)" using card_avail_step [OF K(5)] s(2) by simp
  then have ne': "avail_frames t \<noteq> {}" by auto
  from kmalloc_small_returns [OF K(3) num(3,4)] ne' obtain k y B' u where
    M: "unat (16 :: u64) \<le> bucket_size k" "\<And>j. j < k \<Longrightarrow> bucket_size j < unat (16 :: u64)"
    "heap_inv 0 B' u" "block_ok B' k y 16 u" "\<exists>p. avail_frames t - {p} \<subseteq> avail_frames u"
    "heap_live B' k = insert y (heap_live B k)" "\<And>j. j \<noteq> k \<Longrightarrow> heap_live B' j = heap_live B j"
    "blocks_same B t u" "upper_same t u" by metis
  have k: "k = 0" using M(1,2) b0 by (rule bucket_unique) auto
  have x: "block_ok B 3 x 100 t" "x \<in> heap_live B 3" using K(4) i by (simp_all add: block_ok_def)
  have "block_ok B' 3 x 100 u"
  proof (rule block_ok_same [OF x(1)])
    show "x \<in> heap_live B' 3" using M(7) [of 3] k x(2) by simp
    show "kmalloc_caches u = kmalloc_caches t" using M(9) by (simp add: upper_same_def)
    show "mem u y = mem t y" if "y \<in> region x (block_size 3)" for y
      using M(8) [unfolded blocks_same_def, rule_format, of 3 x y] x(2) that by simp
  qed
  moreover have "avail_frames u \<noteq> {}" using card_avail_step [OF M(5)] c1 by auto
  ultimately show thesis using M(3,4) k by (intro that) simp_all
qed

subsection \<open>Claims\<close>

text \<open>
  \<^verbatim>\<open>kheap_init\<close>, run once on a started frame allocator with a free frame, returns with the
  heap's invariant established: eight well-formed, empty, unlocked caches for blocks of 16 to
  2048 bytes plus the header, which do not overlap; at most one page frame is taken.
\<close>

theorem kheap_init_establishes:
  assumes "mm_ok d s" and "slab_sep (cache_metadata_cache s) [] s" and "cache_metadata_cache s \<noteq> NULL"
    and "\<not> cache_meta_initialized s" and "\<not> kheap_initialized s" and "length (kmalloc_caches s) = 8"
    and "avail_frames s \<noteq> {}"
  shows "\<exists>t. kheap_init s = Ret () t \<and> heap_inv d (replicate 8 ([], [])) t \<and>
    avail_frames t \<subseteq> avail_frames s \<and> (\<exists>p. avail_frames s - {p} \<subseteq> avail_frames t)"
  using assms by (rule kheap_init_ok)

theorem kheap_init_establishes_witness:
  "\<exists>t. kheap_init heap_boot = Ret () t \<and> heap_inv 0 (replicate 8 ([], [])) t"
  using kheap_init_establishes [OF heap_boot_facts(2,3,5-8,4)] by blast

text \<open>
  C26: \<^verbatim>\<open>kmalloc\<close> of 1 to 2048 bytes, while the bucket has a free object or a frame is free,
  returns a new block of the smallest bucket the request fits in; its header records the size
  and the bucket's cache, no other bucket changes, the bytes of every block allocated before are
  unchanged, and the invariant of the heap is kept.
\<close>

theorem kmalloc_small_sound:
  assumes "heap_inv d B s" and "0 < n" and "n \<le> 2048"
    and "avail_frames s \<noteq> {} \<or> snd (B ! nat (get_bucket_index n)) \<noteq> []"
  shows "\<exists>i x B' t. i < 8 \<and> unat n \<le> bucket_size i \<and> (\<forall>j. j < i \<longrightarrow> bucket_size j < unat n) \<and>
    kmalloc n s = Ret (x + 16) t \<and> heap_inv d B' t \<and> block_ok B' i x n t \<and>
    x \<notin> heap_live B i \<and> heap_live B' i = insert x (heap_live B i) \<and>
    (\<forall>j. j \<noteq> i \<longrightarrow> heap_live B' j = heap_live B j) \<and> blocks_same B s t"
  using kmalloc_small_returns [OF assms] by metis

theorem kmalloc_small_sound_witness:
  "\<exists>s i x B t. kmalloc 100 s = Ret (x + 16) t \<and> heap_inv 0 B t \<and> block_ok B i x 100 t"
proof -
  from heap_demo obtain s where s: "heap_inv 0 (replicate 8 ([], [])) s" "avail_frames s \<noteq> {}" by metis
  have "(0 :: u64) < 100" "(100 :: u64) \<le> 2048" by simp_all
  from kmalloc_small_sound [OF s(1) this] s(2) show ?thesis by metis
qed



text \<open>
  \<^verbatim>\<open>kfree\<close> undoes \<^verbatim>\<open>kmalloc\<close> for small blocks: the block is no longer allocated, every other
  block is still allocated with its bytes unchanged, and the invariant is kept.
\<close>

theorem kfree_small_sound:
  assumes "heap_inv d B s" and "block_ok B i x n s"
  shows "\<exists>B' t. kfree (x + 16) s = Ret () t \<and> heap_inv d B' t \<and>
    heap_live B' i = heap_live B i - {x} \<and> (\<forall>j. j \<noteq> i \<longrightarrow> heap_live B' j = heap_live B j) \<and>
    blocks_same B' s t"
  using kfree_small [OF assms] by metis

theorem kfree_small_sound_witness:
  "\<exists>s B B' x t. x \<in> heap_live B 3 \<and> kfree (x + 16) s = Ret () t \<and> heap_inv 0 B' t \<and> x \<notin> heap_live B' 3"
proof -
  obtain s B x y where s: "heap_inv 0 B s" "block_ok B 3 x 100 s" by (rule heap_two_blocks)
  from kfree_small_sound [OF this] s(2) show ?thesis by (auto simp: block_ok_def)
qed

text \<open>
  \<^verbatim>\<open>kcalloc\<close>: when the product of its arguments does not fit in 64 bits it returns a null
  pointer and changes nothing; when the product is 1 to 2048 (and a frame is free) it returns a
  new block with that many bytes, all of them zero, and spares every block allocated before.
\<close>

theorem kcalloc_zeroed_or_refused:
  assumes "heap_inv d B s" and "avail_frames s \<noteq> {}"
  shows "if 2 ^ 64 \<le> unat num * unat sz then kcalloc num sz s = Ret NULL s
    else if unat num * unat sz \<in> {1..2048}
    then \<exists>i x B' t. kcalloc num sz s = Ret (x + 16) t \<and> heap_inv d B' t \<and>
           block_ok B' i x (num * sz) t \<and> x \<notin> heap_live B i \<and> blocks_same B s t \<and>
           bytes (mem t) (x + 16) (unat num * unat sz) = replicate (unat num * unat sz) 0
    else True"
proof (cases "2 ^ 64 \<le> unat num * unat sz")
  case True
  then show ?thesis using kcalloc_overflow_iff [of num sz] by (simp add: kcalloc_def)
next
  case False
  let ?n = "num * sz"
  have un: "unat ?n = unat num * unat sz" using False by (simp add: unat_word_ariths)
  have "\<exists>i x B' t. kcalloc num sz s = Ret (x + 16) t \<and> heap_inv d B' t \<and>
      block_ok B' i x ?n t \<and> x \<notin> heap_live B i \<and> blocks_same B s t \<and>
      bytes (mem t) (x + 16) (unat ?n) = replicate (unat ?n) 0" if "unat ?n \<in> {1..2048}"
  proof -
    have n: "0 < ?n" "?n \<le> 2048"
      using that by (simp_all add: word_less_nat_alt word_le_nat_alt del: mult_eq_0_iff)
    from kmalloc_small_returns [OF assms(1) n] assms(2) obtain i x B' t where
      K: "kmalloc ?n s = Ret (x + 16) t" "heap_inv d B' t" "block_ok B' i x ?n t" "x \<notin> heap_live B i"
      "heap_live B' i = insert x (heap_live B i)" "\<And>j. j \<noteq> i \<Longrightarrow> heap_live B' j = heap_live B j"
      "blocks_same B s t" by metis
    let ?m = "memset (x + 16) 0 ?n (mem t)"
    have out: "?m y = mem t y" if "y \<notin> region (x + 16) (unat ?n)" for y
      using that by (simp add: memset_eq)
    have W: "heap_inv d B' (t\<lparr>mem := ?m\<rparr>)" "block_ok B' i x ?n (t\<lparr>mem := ?m\<rparr>)"
      using block_write(1,2) [OF K(2,3) out] by simp_all
    have "x + 16 \<noteq> NULL" using K(2,3) by (rule block_not_null)
    then have "kcalloc num sz s = Ret (x + 16) (t\<lparr>mem := ?m\<rparr>)"
      using K(1) kcalloc_overflow_iff [of num sz] False by (simp add: kcalloc_def Let_def zero_loop)
    moreover have "blocks_same B s (t\<lparr>mem := ?m\<rparr>)"
      unfolding blocks_same_def
    proof (intro allI impI ballI)
      fix j w y assume j: "j < 8" "w \<in> heap_live B j" "y \<in> region w (block_size j)"
      have "w \<in> heap_live B' j" "(i, x) \<noteq> (j, w)" using j(2) K(4-6) by (cases "j = i"; auto)+
      with block_write(3) [OF K(2,3) out, of j w y] K(7) j show "mem (t\<lparr>mem := ?m\<rparr>) y = mem s y"
        by (simp add: blocks_same_def)
    qed
    ultimately show ?thesis using W(1,2) K(4) bytes_memset [of "x + 16" 0 ?n "mem t"] by auto
  qed
  then show ?thesis using False un by simp
qed

theorem kcalloc_zeroed_or_refused_witness:
  "\<exists>s x t. kcalloc 5 20 s = Ret (x + 16) t \<and> bytes (mem t) (x + 16) 100 = replicate 100 0 \<and>
     kcalloc 0x100000000 0x100000000 s = Ret NULL s"
proof -
  from heap_demo obtain s where s: "heap_inv 0 (replicate 8 ([], [])) s" "avail_frames s \<noteq> {}" by metis
  show ?thesis
    using kcalloc_zeroed_or_refused [OF s, of 5 20]
      kcalloc_zeroed_or_refused [OF s, of "0x100000000" "0x100000000"] by (simp, metis)
qed



text \<open>
  C34: large blocks. When the search finds a run of free frames long enough for the request and
  its header, \<^verbatim>\<open>kmalloc\<close> returns a block at the start of the run, exactly these frames are taken,
  and no memory outside the bitmap and the header's page changes; \<^verbatim>\<open>kfree\<close> gives exactly these
  frames back.
\<close>

theorem kmalloc_kfree_large:
  assumes "mm_ok d s" and "kheap_initialized s" and "2048 < n" and "unat n + 4111 < 2 ^ 64"
    and "next_fit s = Some i" and "{i..<i + large_pages n} \<subseteq> free_set s"
  shows "\<exists>t u. kmalloc n s = Ret (frame_addr s i + 16) t \<and>
    free_set t = free_set s - {i..<i + large_pages n} \<and>
    (\<forall>y. y \<notin> bitmap_region s \<and> y \<notin> region (frame_addr s i) 4096 \<longrightarrow> mem t y = mem s y) \<and>
    kfree (frame_addr s i + 16) t = Ret () u \<and> free_set u = free_set s \<and> pmm_inv d u"
proof -
  from kmalloc_large [OF assms] obtain t where K: "kmalloc n s = Ret (frame_addr s i + 16) t"
    "mm_ok d t" "free_set t = free_set s - {i..<i + large_pages n}" "large_ok i n t"
    "frame_addr t = frame_addr s"
    "\<And>y. y \<notin> bitmap_region s \<Longrightarrow> y \<notin> region (frame_addr s i) 4096 \<Longrightarrow> mem t y = mem s y" by metis
  have inv: "pmm_inv d t" using K(2) by (simp add: mm_ok_def)
  have len: "i + large_pages n \<le> unat (total_frames t)" using K(4) by (simp add: large_ok_def)
  have free: "i \<in> free_set s" using assms(5) by (rule next_fit_Some)
  then have "page (frame_addr s i)"
    using assms(1) by (intro avail_frames_page [of d s]) (auto simp: avail_frames_def)
  moreover have "frame_addr s i + of_nat 16 \<in> region (frame_addr s i) 4096" by (rule region_off_mem) simp_all
  ultimately have "frame_addr t i + 16 \<noteq> NULL" using in_page_not_null K(5) by auto
  from kfree_large [OF inv K(4) assms(4) this] kfree_pages_ok [OF inv len assms(4)] K assms(6)
  show ?thesis by (intro exI [of _ t] exI) (auto simp: K(5))
qed

theorem kmalloc_kfree_large_witness:
  "\<exists>t u. kmalloc 9000 (pmm_demo\<lparr>kheap_initialized := True\<rparr>) = Ret 0x80005010 t \<and>
     free_set t = {..<16} - {5, 6, 7} \<and> kfree 0x80005010 t = Ret () u \<and> free_set u = {..<16}"
proof -
  let ?s = "pmm_demo\<lparr>kheap_initialized := True\<rparr>"
  have fs: "free_set ?s = {..<16}" using pmm_demo_facts(1) by (simp add: free_set_def bitmap_test_def)
  have nf: "next_fit ?s = Some 5" using pmm_demo_facts(5) fs pmm_demo_facts(1) by (simp add: next_fit_def)
  have fa: "frame_addr ?s 5 + 16 = 0x80005010" using pmm_demo_facts(3) by (simp add: frame_addr_def)
  have lp: "{5..<5 + large_pages 9000} = {5, 6, 7}" by (auto simp: large_pages_def)
  have ok: "mm_ok 0 ?s" using pmm_demo_mm_ok by simp
  have "kheap_initialized ?s" "2048 < (9000 :: u64)" "unat (9000 :: u64) + 4111 < 2 ^ 64"
    "{5..<5 + large_pages 9000} \<subseteq> free_set ?s" by (simp_all add: lp fs)
  from kmalloc_kfree_large [OF ok this(1-3) nf this(4)] show ?thesis unfolding fa lp fs by blast
qed

text \<open>
  the remaining branches of \<^verbatim>\<open>kmalloc\<close>: size 0 gives a null pointer and no change, a call
  before \<^verbatim>\<open>kheap_init\<close> stops the kernel, and so does a small request when neither the bucket nor
  the frame allocator has anything left.
\<close>

theorem kmalloc_refusals:
  "kmalloc 0 s = Ret NULL s \<and>
   (0 < n \<and> \<not> kheap_initialized s \<longrightarrow> (\<exists>t. kmalloc n s = Halt t)) \<and>
   (heap_inv d B s \<and> 0 < n \<and> n \<le> 2048 \<and> avail_frames s = {} \<and>
      snd (B ! nat (get_bucket_index n)) = [] \<longrightarrow> (\<exists>t. kmalloc n s = Halt t))"
proof (intro conjI impI)
  show "kmalloc 0 s = Ret NULL s" by (simp add: kmalloc_def)
  show "\<exists>t. kmalloc n s = Halt t" if "0 < n \<and> \<not> kheap_initialized s"
    using that panic_halts word_gt_0 [of n] by (auto simp: kmalloc_def)
  show "\<exists>t. kmalloc n s = Halt t"
    if h: "heap_inv d B s \<and> 0 < n \<and> n \<le> 2048 \<and> avail_frames s = {} \<and> snd (B ! nat (get_bucket_index n)) = []"
  proof -
    from h get_bucket_index_small [of n] obtain i where i: "get_bucket_index n = int i" "i < 8" by metis
    have "slab_inv d (kmalloc_caches s ! i) (block_size i) (fst (B ! i)) [] s"
      using heap_invD(4) [of d B s i] h i by simp
    from slab_alloc_exhausted [OF this] h obtain t where "slab_alloc (kmalloc_caches s ! i) s = Halt t" by blast
    then show ?thesis using h i word_gt_0 [of n] heap_invD(1) [of d B s]
      by (auto simp: kmalloc_def Let_def)
  qed
qed

theorem kmalloc_refusals_witness: "\<exists>t. kmalloc 40 pmm_demo = Halt t"
proof -
  have "\<not> kheap_initialized pmm_demo" by (simp add: pmm_demo_def reset_state_def)
  then show ?thesis using kmalloc_refusals [of pmm_demo 40] by simp
qed

end
