(* ===== verification/MM.thy ===== *)
theory MM
  imports KHeap
begin

text \<open>
  \<^verbatim>\<open>base/mm/mm.c\<close>: \<^verbatim>\<open>mm_init\<close> starts the boot heap, the frame allocator and the kernel heap, in
  this order. The theorem at the end composes the lemmas of the three components: from the
  state the machine boots in, with a boot description that meets the stated layout conditions,
  memory management comes up with the invariant every later proof starts from.
\<close>

section \<open>Definitions\<close>

definition mm_init :: "boot_info \<Rightarrow> kstate \<Rightarrow> (unit, kstate) outcome" where
  "mm_init bi s =
     (let s = mm_boot_init bi s
      in andThen (pmm_init (kernel_image_start bi) (machine_ram_total bi) s) (\<lambda>_ s.
         let s = pmm_free_region (kernel_image_start bi) (machine_ram_total bi) s;
             kern_start = kernel_image_start bi;
             kern_end = early_heap_end bi;
             kern_size = kern_end - kern_start;
             s = pmm_reserve_region kern_start kern_size s;
             s = klog_info ''kern''
                   ''physical memory initialized (reserved 0x%x - 0x%x, size: %u KB)''
                   [VNum kern_start, VNum kern_end, VNum (kern_size div 1024)] s
         in kheap_init s))"

text \<open>
  What the code relies on in the boot description: the kernel image starts at a page, the boot
  heap lies in front of the managed memory's end and holds the bitmap, the static cache of
  caches lies between the image's start and the boot heap, at least one frame is left over, and
  the number of frames is one for which the bitmap has a bit per frame.
\<close>

definition boot_layout :: "boot_info \<Rightarrow> u64 \<Rightarrow> bool" where
  "boot_layout bi meta \<longleftrightarrow>
     (let base = unat (kernel_image_start bi);
          hs = unat (early_heap_start bi);
          he = unat (early_heap_end bi);
          frames = unat (machine_ram_total bi) div 4096
      in 0 < base \<and> base mod 4096 = 0 \<and> base \<le> unat meta \<and> unat meta + 32 \<le> hs \<and>
         hs + unat (pmm_bitmap_size (machine_ram_total bi div PAGE_SIZE)) + 15 \<le> he \<and>
         he + 4096 \<le> base + frames * 4096 \<and> base + frames * 4096 < 2 ^ 64 \<and>
         frames mod 64 \<notin> {1..7})"

section \<open>Lemmas\<close>

lemma bitmap_region_covered:
  assumes "unat (total_frames s) mod 64 \<notin> {1..7}"
  shows "bitmap_region s \<subseteq> region (frame_bitmap s) (unat (pmm_bitmap_size (total_frames s)))"
proof
  fix x assume "x \<in> bitmap_region s"
  then obtain j where j: "j < unat (total_frames s)" "x = frame_bitmap s + of_nat j div 8"
    by (auto simp: bitmap_region_def)
  have "j < 2 ^ 64" using j(1) unat_lt_u64 [of "total_frames s"] by (simp del: unat_lt_u64)
  then have "unat (of_nat j div 8 :: u64) = j div 8" by (simp add: unat_div unat_of_nat_u64)
  moreover have "j div 8 < unat (pmm_bitmap_size (total_frames s))"
    using j(1) assms pmm_bitmap_size_covers_iff [of "total_frames s"] by linarith
  ultimately show "x \<in> region (frame_bitmap s) (unat (pmm_bitmap_size (total_frames s)))"
    using j(2) by (simp add: region_def)
qed

lemma avail_frames_above:
  assumes "pmm_inv d s" and "free_set s = {r..<unat (total_frames s)}" and "f \<in> avail_frames s"
  shows "unat (mem_phys_base s) + r * 4096 \<le> unat f" and "unat f + 4096 \<le> 2 ^ 64"
    and "unat f + 4096 \<le> unat (mem_phys_base s) + unat (total_frames s) * 4096"
proof -
  from assms(2,3) obtain i where i: "r \<le> i" "i < unat (total_frames s)" "f = frame_addr s i"
    by (auto simp: avail_frames_def)
  then show "unat (mem_phys_base s) + r * 4096 \<le> unat f" "unat f + 4096 \<le> 2 ^ 64"
    "unat f + 4096 \<le> unat (mem_phys_base s) + unat (total_frames s) * 4096"
    using pmm_inv_pos(1,4) [OF assms(1) i(2)] by simp_all
qed

lemma region_below_disjoint:
  assumes "unat a + n \<le> k" and "k \<le> unat f" and "unat f + 4096 \<le> 2 ^ 64"
  shows "region a n \<inter> region f 4096 = {}"
proof -
  have "unat a + n \<le> 2 ^ 64" using assms by linarith
  then show ?thesis using assms by (auto simp: in_region_unat)
qed

text \<open>The frame allocator after the first part of \<^verbatim>\<open>mm_init\<close>.\<close>

lemma pmm_started:
  assumes "boot_layout bi meta" and "boot_wf s" and "last_free_index s = 0"
    and "boot_heap_ptr s = early_heap_start bi" and "boot_heap_end s = early_heap_end bi"
  obtains s1 t where "pmm_init (kernel_image_start bi) (machine_ram_total bi) s = Ret () s1"
    and "t = pmm_reserve_region (kernel_image_start bi) (early_heap_end bi - kernel_image_start bi)
           (pmm_free_region (kernel_image_start bi) (machine_ram_total bi) s1)"
    and "mm_ok (unat (machine_ram_total bi) div 4096) t" and "upper_same s t"
    and "bitmap_region t \<subseteq> region (early_heap_start bi)
           (unat (early_heap_end bi) - unat (early_heap_start bi))"
    and "\<And>f. f \<in> avail_frames t \<Longrightarrow> unat (early_heap_end bi) \<le> unat f \<and> unat f + 4096 \<le> 2 ^ 64"
    and "\<And>f. f \<in> avail_frames t \<Longrightarrow>
      unat f + 4096 \<le> unat (kernel_image_start bi) + unat (machine_ram_total bi) div 4096 * 4096"
    and "avail_frames t \<noteq> {}" and "total_frames t = machine_ram_total bi div PAGE_SIZE"
    and "free_tail ((unat (early_heap_end bi) - unat (kernel_image_start bi) + 4095) div 4096) t"
    and "\<And>f y. f \<in> avail_frames t \<Longrightarrow> y \<in> region f 4096 \<Longrightarrow> mem t y = mem s y"
    and "\<And>y. y \<notin> region (early_heap_start bi) (unat (early_heap_end bi) - unat (early_heap_start bi)) \<Longrightarrow> mem t y = mem s y"
proof -
  let ?base = "kernel_image_start bi" and ?ram = "machine_ram_total bi" and ?he = "early_heap_end bi"
  let ?T = "unat ?ram div 4096" and ?k = "?he - ?base"
  have T: "unat (?ram div PAGE_SIZE) = ?T" by (rule unat_div_page)
  have L: "0 < unat ?base" "unat ?base mod 4096 = 0" "unat ?base < unat (early_heap_start bi)"
    "unat (early_heap_start bi) + unat (pmm_bitmap_size (?ram div PAGE_SIZE)) + 15 \<le> unat ?he"
    "unat ?he + 4096 \<le> unat ?base + ?T * 4096" "unat ?base + ?T * 4096 < 2 ^ 64" "?T mod 64 \<notin> {1..7}"
    using assms(1) by (auto simp: boot_layout_def Let_def)
  have k: "unat ?k = unat ?he - unat ?base" using L by (simp add: unat_sub_if')
  let ?r = "(unat ?k + 4095) div 4096"
  have r: "?r < ?T" "unat ?he \<le> unat ?base + ?r * 4096" "unat ?k + 4095 < 2 ^ 64"
    using L k by linarith+
  from pmm_init_ok [OF assms(2), of ?ram ?base] L(4) assms(4,5) obtain out p' where
    run: "pmm_init ?base ?ram s = Ret ()
      (s\<lparr>mem_phys_base := ?base, total_frames := ?ram div PAGE_SIZE, free_frames := ?ram div PAGE_SIZE,
         boot_heap_ptr := p', frame_bitmap := early_heap_start bi, uart_out := out,
         mem := filled (mem s) (early_heap_start bi) (unat (pmm_bitmap_size (?ram div PAGE_SIZE))) 0xFF\<rparr>)"
    (is "_ = Ret () ?s1") by metis
  let ?t = "pmm_reserve_region ?base ?k (pmm_free_region ?base ?ram ?s1)"
  have P: "pmm_frame ?s1 ?t" "free_set ?t = {?r..<?T}" "unat (free_frames ?t) = card (free_set ?t) + ?T"
    using pmm_start [of ?s1 "mem s" ?base ?ram ?k] T L(7) r by simp_all
  note F = pmm_frame_fields [OF P(1)]
  have inv: "pmm_inv ?T ?t"
    using pmm_inv_start [OF P(1)] P(3) T L assms(3) by (simp add: unat_gt_0)
  have fs: "free_set ?t = {?r..<unat (total_frames ?t)}" using P(2) F(3) T by simp
  have above: "unat ?he \<le> unat f \<and> unat f + 4096 \<le> 2 ^ 64" if "f \<in> avail_frames ?t" for f
    using avail_frames_above [OF inv fs that] r(2) F(4) by simp
  have top: "unat f + 4096 \<le> unat ?base + ?T * 4096" if "f \<in> avail_frames ?t" for f
    using avail_frames_above(3) [OF inv fs that] F(3,4) T by simp
  have "bitmap_region ?t \<subseteq> region (early_heap_start bi) (unat (pmm_bitmap_size (?ram div PAGE_SIZE)))"
    using bitmap_region_covered [of ?t] F(2,3) T L(7) by simp
  also have "\<dots> \<subseteq> region (early_heap_start bi) (unat ?he - unat (early_heap_start bi))"
    using L(4) by (intro region_mono) simp
  finally have bm: "bitmap_region ?t \<subseteq> region (early_heap_start bi) (unat ?he - unat (early_heap_start bi))" .
  have heap: "region (early_heap_start bi) (unat ?he - unat (early_heap_start bi)) \<inter> region f 4096 = {}"
    if "f \<in> avail_frames ?t" for f
    using above [OF that] L(4)
      region_below_disjoint [of "early_heap_start bi" "unat ?he - unat (early_heap_start bi)" "unat ?he" f] by auto
  have "bitmap_region ?s1 = bitmap_region ?t" using F(2,3) by (simp add: bitmap_region_def)
  then have low: "mem ?t y = mem s y" if y: "y \<notin> region (early_heap_start bi) (unat ?he - unat (early_heap_start bi))" for y
  proof -
    have "mem ?t y = mem ?s1 y"
      using y pmm_start(4) [of ?s1 "mem s" ?base ?ram ?k y] bm \<open>bitmap_region ?s1 = bitmap_region ?t\<close> T L(7) r by auto
    also have "unat (pmm_bitmap_size (?ram div PAGE_SIZE)) \<le> unat ?he - unat (early_heap_start bi)" using L(4) by simp
    then have "y \<notin> region (early_heap_start bi) (unat (pmm_bitmap_size (?ram div PAGE_SIZE)))"
      using y region_mono by blast
    then have "mem ?s1 y = mem s y" by (simp add: filled_def region_def)
    finally show ?thesis .
  qed
  have pool: "mem ?t y = mem s y" if "f \<in> avail_frames ?t" "y \<in> region f 4096" for f y
    using heap [OF that(1)] that(2) by (intro low) blast
  have "bitmap_region ?t \<inter> region f 4096 = {}" if "f \<in> avail_frames ?t" for f using bm heap [OF that] by blast
  then have ok: "mm_ok ?T ?t" using inv F(3,4) T L(2,6) by (simp add: mm_ok_def)
  have "upper_same s ?t" using F by (simp add: upper_same_def)
  moreover have "avail_frames ?t \<noteq> {}" using P(2) r(1) by (auto simp: avail_frames_def)
  moreover have "free_tail ?r ?t" using fs F(5) assms(3) by (simp add: free_tail_def)
  ultimately show thesis using run ok bm above top F(3) pool low unfolding k by (intro that) (assumption | blast | simp)+
qed

text \<open>
  What \<^verbatim>\<open>mm_init\<close> needs of the kernel's variables, and all it brings about: beside the heap it leaves
  the cache of caches with one page, and the free frames are the last ones of the RAM.
\<close>

definition fresh_kernel :: "u64 \<Rightarrow> kstate \<Rightarrow> bool" where
  "fresh_kernel meta s \<longleftrightarrow>
     last_free_index s = 0 \<and> cache_metadata_cache s = meta \<and> \<not> cache_meta_initialized s \<and>
     \<not> kheap_initialized s \<and> length (kmalloc_caches s) = 8"

lemma mm_init_ok:
  assumes lay: "boot_layout bi meta" and fresh: "fresh_kernel meta s"
  obtains t ps fl r where "mm_init bi s = Ret () t"
    and "heap_inv (unat (machine_ram_total bi) div 4096) (replicate 8 ([], [])) t"
    and "\<And>f. f \<in> avail_frames t \<Longrightarrow> unat (early_heap_end bi) \<le> unat f \<and> unat f + 4096 \<le> 2 ^ 64"
    and "\<And>f. f \<in> avail_frames t \<Longrightarrow>
      unat f + 4096 \<le> unat (kernel_image_start bi) + unat (machine_ram_total bi) div 4096 * 4096"
    and "bitmap_region t \<subseteq> region (early_heap_start bi) (unat (early_heap_end bi) - unat (early_heap_start bi))"
    and "slab_inv (unat (machine_ram_total bi) div 4096) meta 32 ps fl t" and "cache_meta_initialized t" and "length fl = 119"
    and "\<And>p. p \<in> set ps \<Longrightarrow> unat (early_heap_end bi) \<le> unat p \<and> unat p + 4096 \<le> 2 ^ 64"
    and "\<And>i. i < 8 \<Longrightarrow> \<exists>p. unat (early_heap_end bi) \<le> unat p \<and> unat p + 4096 \<le> 2 ^ 64 \<and>
      p \<notin> avail_frames t \<and> region (kmalloc_caches t ! i) 32 \<subseteq> region p 4096"
    and "free_tail r t" and "unat (machine_ram_total bi) div 4096 \<le>
      Suc (card (avail_frames t) + (unat (early_heap_end bi) - unat (kernel_image_start bi) + 4095) div 4096)"
    and "arch t = arch s" "sreg t = sreg s" "io_hist t = io_hist s" "kernel_page_table t = kernel_page_table s"
      "global_ticks t = global_ticks s" "g_om t = g_om s" "g_test_destroyed t = g_test_destroyed s"
      "cache_metadata_cache t = meta"
    and "\<And>f y. f \<in> avail_frames t \<Longrightarrow> y \<in> region f 4096 \<Longrightarrow> mem t y = mem s y"
    and "\<And>y. y \<notin> region meta 32 \<Longrightarrow> unat y < unat (early_heap_start bi) \<Longrightarrow> mem t y = mem s y"
    and "gic_handlers t = gic_handlers s"
proof -
  let ?T = "unat (machine_ram_total bi) div 4096" and ?he = "early_heap_end bi" and ?hs = "early_heap_start bi"
  let ?s = "mm_boot_init bi s" and ?r = "(unat (early_heap_end bi) - unat (kernel_image_start bi) + 4095) div 4096"
  have L: "unat (kernel_image_start bi) \<le> unat meta" "0 < unat (kernel_image_start bi)"
    "unat meta + 32 \<le> unat ?hs" "unat ?hs \<le> unat ?he"
    using lay by (auto simp: boot_layout_def Let_def)
  have s: "boot_heap_ptr ?s = ?hs" "boot_heap_end ?s = ?he" "last_free_index ?s = 0"
    "cache_metadata_cache ?s = meta" "\<not> cache_meta_initialized ?s" "\<not> kheap_initialized ?s"
    "length (kmalloc_caches ?s) = 8"
    "arch ?s = arch s" "sreg ?s = sreg s" "io_hist ?s = io_hist s" "kernel_page_table ?s = kernel_page_table s"
    "global_ticks ?s = global_ticks s" "g_om ?s = g_om s" "g_test_destroyed ?s = g_test_destroyed s"
    "gic_handlers ?s = gic_handlers s"
    using fresh by (simp_all add: mm_boot_init_def Let_def fresh_kernel_def klog_info_eq)
  have wf: "boot_wf ?s" using s(1,2) L by (auto simp: boot_wf_def word_le_nat_alt)
  obtain s1 t where
    P: "pmm_init (kernel_image_start bi) (machine_ram_total bi) ?s = Ret () s1"
    "t = pmm_reserve_region (kernel_image_start bi) (?he - kernel_image_start bi)
       (pmm_free_region (kernel_image_start bi) (machine_ram_total bi) s1)"
    "mm_ok ?T t" "upper_same ?s t" "bitmap_region t \<subseteq> region ?hs (unat ?he - unat ?hs)"
    "\<And>f. f \<in> avail_frames t \<Longrightarrow> unat ?he \<le> unat f \<and> unat f + 4096 \<le> 2 ^ 64" "avail_frames t \<noteq> {}"
    "\<And>f. f \<in> avail_frames t \<Longrightarrow> unat f + 4096 \<le> unat (kernel_image_start bi) + ?T * 4096"
    "total_frames t = machine_ram_total bi div PAGE_SIZE" "free_tail ?r t"
    "\<And>f y. f \<in> avail_frames t \<Longrightarrow> y \<in> region f 4096 \<Longrightarrow> mem t y = mem ?s y"
    "\<And>y. y \<notin> region ?hs (unat ?he - unat ?hs) \<Longrightarrow> mem t y = mem ?s y"
    by (rule pmm_started [OF lay wf s(3,1,2)]) (rule that; assumption)
  let ?t = "klog_info ''kern'' ''physical memory initialized (reserved 0x%x - 0x%x, size: %u KB)''
     [VNum (kernel_image_start bi), VNum ?he, VNum ((?he - kernel_image_start bi) div 1024)] t"
  have up: "cache_metadata_cache ?t = meta" "\<not> cache_meta_initialized ?t" "\<not> kheap_initialized ?t"
    "length (kmalloc_caches ?t) = 8" using P(4) s by (simp_all add: upper_same_def)
  have "bitmap_region t \<inter> region meta 32 = {}"
    using P(5) L unat_lt_u64 [of ?he] by (fastforce simp: in_region_unat simp del: unat_lt_u64)
  moreover have "region meta 32 \<inter> region f 4096 = {}" if "f \<in> avail_frames t" for f
    using P(6) [OF that] L by (intro region_below_disjoint [of _ _ "unat ?he"]) auto
  ultimately have "slab_sep meta [] t" by (simp add: slab_sep_def)
  then have pre: "mm_ok ?T ?t" "slab_sep (cache_metadata_cache ?t) [] ?t" "avail_frames ?t = avail_frames t"
    "bitmap_region ?t = bitmap_region t" "free_tail ?r ?t" "total_frames ?t = total_frames t"
    using up(1) P(3,10) by (simp_all add: klog_info_eq slab_sep_def bitmap_region_def free_tail_def free_set_def bitmap_test_def)
  have nn: "cache_metadata_cache ?t \<noteq> NULL" using up(1) L by auto
  from kheap_init_ok_frames [OF pre(1,2) nn up(2-4)] P(7) obtain u ps fl where
    U: "kheap_init ?t = Ret () u" "heap_inv ?T (replicate 8 ([], [])) u" "avail_frames u \<subseteq> avail_frames t"
    "\<exists>p. avail_frames t - {p} \<subseteq> avail_frames u" "others_same ?t u"
    "\<forall>i < 8. \<exists>p \<in> avail_frames t. region (kmalloc_caches u ! i) 32 \<subseteq> region p 4096"
    "tail_kept ?t u" "cache_meta_initialized u" "slab_inv ?T meta 32 ps fl u" "set ps \<subseteq> avail_frames t" "length fl = 119"
    "\<forall>y. y \<notin> region meta 32 \<and> y \<notin> pool_area ?t \<longrightarrow> mem u y = mem ?t y"
    unfolding pre(3) up(1) by blast
  obtain q where q: "free_tail q u" using U(7) pre(5) by (auto simp: tail_kept_def)
  have "mm_init bi s = Ret () u" unfolding mm_init_def Let_def P(1) using U(1) by (simp add: P(2))
  moreover have "\<exists>p. unat ?he \<le> unat p \<and> unat p + 4096 \<le> 2 ^ 64 \<and> p \<notin> avail_frames u \<and> region (kmalloc_caches u ! i) 32 \<subseteq> region p 4096"
    if i: "i < 8" for i
  proof -
    obtain p where p: "p \<in> avail_frames t" "region (kmalloc_caches u ! i) 32 \<subseteq> region p 4096" using U(6) i by blast
    have "slab_inv ?T (kmalloc_caches u ! i) (block_size i) [] [] u" using heap_invD(4) [OF U(2) i] i by simp
    moreover have "kmalloc_caches u ! i \<in> region (kmalloc_caches u ! i) 32" by (simp add: region_def)
    ultimately have "p \<notin> avail_frames u" using p(2) unfolding slab_inv_def slab_sep_def by blast
    then show ?thesis using p P(6) by blast
  qed
  moreover have "?T \<le> Suc (card (avail_frames u) + ?r)"
  proof -
    have inv: "pmm_inv ?T t" using P(3) by (simp add: mm_ok_def)
    have "card (avail_frames t) = card (free_set t)"
      unfolding avail_frames_def using frame_addr_inj [OF inv] by (intro card_image) (rule inj_on_subset, auto dest: free_set_bound)
    also have "\<dots> = ?T - ?r" using P(9,10) by (simp add: free_tail_def unat_div_page)
    finally show ?thesis using card_avail_step [OF U(4)] by linarith
  qed
  moreover have "arch u = arch s" "sreg u = sreg s" "io_hist u = io_hist s" "kernel_page_table u = kernel_page_table s"
      "global_ticks u = global_ticks s" "g_om u = g_om s" "g_test_destroyed u = g_test_destroyed s"
      "cache_metadata_cache u = meta" "bitmap_region u = bitmap_region t"
    using U(5) P(4) s(8-14) up(1) pre(4) by (simp_all add: others_same_def upper_same_def)
  moreover have "mem ?s = mem s" by (simp add: mm_boot_init_def Let_def klog_info_eq)
  then have "mem u y = mem s y" if "f \<in> avail_frames u" "y \<in> region f 4096" for f y
    using tail_kept_pool [OF U(7) that] P(11) [of f y] U(3) that by auto
  moreover have "mem u y = mem s y" if y: "y \<notin> region meta 32" "unat y < unat ?hs" for y
  proof -
    have h: "y \<notin> region ?hs (unat ?he - unat ?hs)"
      using y(2) L unat_lt_u64 [of ?he] by (simp add: in_region_unat del: unat_lt_u64)
    have "y \<notin> region f 4096" if "f \<in> avail_frames t" for f
      using P(6) [OF that] y(2) L by (simp add: in_region_unat)
    then have "y \<notin> pool_area ?t" using h P(5) unfolding pool_area_def pre(3,4) by blast
    then have "mem u y = mem t y" using U(12) y(1) by (simp add: klog_info_eq)
    then show ?thesis using P(12) [OF h] \<open>mem ?s = mem s\<close> by simp
  qed
  moreover have "gic_handlers u = gic_handlers s" using U(5) P(4) s(15) by (simp add: others_same_def upper_same_def)
  ultimately show thesis using U(2,3,8,9,10,11) P(5,6,8) q
    by (intro that [of u ps fl q]) (blast | simp)+
qed

section \<open>Properties\<close>

text \<open>
  C4: memory management comes up. From the state the machine boots in, with a boot description
  that meets the layout conditions, \<^verbatim>\<open>mm_init\<close> returns; the kernel heap's invariant holds, the
  heap is empty, and no free frame overlaps the kernel image or the boot heap, so no allocation
  can ever hand out memory of either. (The counter of free frames is then ahead of the free
  frames by the number of all frames.)
\<close>

theorem mm_init_brings_up_heap:
  assumes "boot_layout bi meta"
  shows "\<exists>t. mm_init bi (reset_state A m meta lock) = Ret () t \<and>
    heap_inv (unat (machine_ram_total bi) div 4096) (replicate 8 ([], [])) t \<and>
    (\<forall>f. f \<in> avail_frames t \<longrightarrow> unat (early_heap_end bi) \<le> unat f) \<and>
    unat (free_frames t) = card (free_set t) + unat (machine_ram_total bi) div 4096"
proof -
  let ?T = "unat (machine_ram_total bi) div 4096"
  have "fresh_kernel meta (reset_state A m meta lock)" by (simp add: fresh_kernel_def reset_state_def)
  from mm_init_ok [OF assms this] obtain u where u: "mm_init bi (reset_state A m meta lock) = Ret () u"
    "heap_inv ?T (replicate 8 ([], [])) u" "\<And>f. f \<in> avail_frames u \<Longrightarrow> unat (early_heap_end bi) \<le> unat f" by metis
  have "pmm_inv ?T u" using heap_invD(4) [OF u(2), of 0] by (auto simp: slab_inv_def mm_ok_def)
  then have "unat (free_frames u) = card (free_set u) + ?T" by (simp add: pmm_inv_def)
  then show ?thesis using u by (intro exI [of _ u]) simp
qed

text \<open>
  A boot description as \<^verbatim>\<open>boot_main\<close> of the RISC-V port makes it: the image is linked at
  0x80200000, the boot heap takes 4 MiB behind the image, 128 MiB of RAM.
\<close>

definition virt_rv_boot :: boot_info where
  "virt_rv_boot = \<lparr>early_heap_start = 0x80210000, early_heap_end = 0x80610000,
     kernel_image_start = 0x80200000, kernel_image_end = 0x80610000,
     kernel_readonly_end = 0x80208000, machine_ram_base = 0x80000000, machine_ram_total = 0x8000000\<rparr>"

theorem mm_init_brings_up_heap_witness:
  "\<exists>t. mm_init virt_rv_boot (reset_state RISCV (\<lambda>_. 0) 0x8020C000 0) = Ret () t \<and>
     heap_inv 32768 (replicate 8 ([], [])) t"
proof -
  have "boot_layout virt_rv_boot 0x8020C000"
    by (simp add: boot_layout_def virt_rv_boot_def unat_pmm_bitmap_size unat_div_page)
  from mm_init_brings_up_heap [OF this, of RISCV "\<lambda>_. 0" 0] show ?thesis
    by (auto simp: virt_rv_boot_def)
qed

end
