(* ===== verification/Hash.thy ===== *)
theory Hash
  imports MM
begin

text \<open>
  \<^verbatim>\<open>libkern/hash.c\<close>: the chained hash table of the object manager. The bucket array and the
  nodes lie in memory; the descriptor \<^verbatim>\<open>hashtable_t\<close> is a record that the operations take and
  return. A table represents a map from keys to the values inserted for the key and not removed
  since, newest first; the locale \<open>key_table\<close> is the contract the object manager relies on.
\<close>

section \<open>Definitions\<close>

text \<open>\<^verbatim>\<open>hash_node_t\<close> (24 bytes) and the bucket array: addresses of the members.\<close>

definition node_key :: "u64 \<Rightarrow> u64" where "node_key n = n"
definition node_value :: "u64 \<Rightarrow> u64" where "node_value n = n + 8"
definition node_next :: "u64 \<Rightarrow> u64" where "node_next n = n + 16"
definition bucket_slot :: "hashtable \<Rightarrow> u64 \<Rightarrow> u64" where "bucket_slot ht b = buckets ht + 8 * b"

subsection \<open>Operations\<close>

definition hash_u64 :: "u64 \<Rightarrow> u64 \<Rightarrow> u64" where
  "hash_u64 key nb =
     (let key = key XOR drop_bit 33 key;
          key = key * 0xff51afd7ed558ccd;
          key = key XOR drop_bit 33 key
      in key mod nb)"

definition hashtable_init :: "u64 \<Rightarrow> hashtable \<Rightarrow> kstate \<Rightarrow> (hashtable, kstate) outcome" where
  "hashtable_init nb ht s =
     andThen (kmalloc (8 * nb) s) (\<lambda>p s.
       let ht = ht\<lparr>buckets := p\<rparr>;
           s = s\<lparr>mem := memset (buckets ht) 0 (8 * nb) (mem s)\<rparr>;
           ht = ht\<lparr>nbuckets := nb, count := 0\<rparr>
       in andThen (slab_cache_create 24 s) (\<lambda>c s. Ret (ht\<lparr>node_cache := c\<rparr>) s))"

definition hashtable_insert :: "u64 \<Rightarrow> u64 \<Rightarrow> hashtable \<Rightarrow> kstate \<Rightarrow> (hashtable, kstate) outcome" where
  "hashtable_insert key v ht s =
     andThen (slab_alloc (node_cache ht) s) (\<lambda>n s.
       let s = store64 (node_key n) key s;
           s = store64 (node_value n) v s;
           b = hash_u64 key (nbuckets ht);
           s = store64 (node_next n) (load64 s (bucket_slot ht b)) s;
           s = store64 (bucket_slot ht b) n s
       in Ret (ht\<lparr>count := count ht + 1\<rparr>) s)"

text \<open>
  The loops over a chain. A chain that runs in a circle would keep them going, which is the
  result \<open>None\<close>. The second loop returns the address of the pointer to the node it found.
\<close>

partial_function (option) hash_find :: "u64 \<Rightarrow> u64 \<Rightarrow> kstate \<Rightarrow> u64 option" where
  "hash_find n key s =
     (if n \<noteq> NULL then
        (if load64 s (node_key n) = key then Some (load64 s (node_value n))
         else hash_find (load64 s (node_next n)) key s)
      else Some NULL)"

definition hashtable_lookup :: "u64 \<Rightarrow> hashtable \<Rightarrow> kstate \<Rightarrow> (u64, kstate) outcome" where
  "hashtable_lookup key ht s =
     (case hash_find (load64 s (bucket_slot ht (hash_u64 key (nbuckets ht)))) key s of
        Some v \<Rightarrow> Ret v s
      | None \<Rightarrow> Spin s)"

partial_function (option) hash_find_ref :: "u64 \<Rightarrow> u64 \<Rightarrow> kstate \<Rightarrow> u64 option option" where
  "hash_find_ref pp key s =
     (if load64 s pp \<noteq> NULL then
        (if load64 s (node_key (load64 s pp)) = key then Some (Some pp)
         else hash_find_ref (node_next (load64 s pp)) key s)
      else Some None)"

definition hashtable_remove :: "u64 \<Rightarrow> hashtable \<Rightarrow> kstate \<Rightarrow> (hashtable, kstate) outcome" where
  "hashtable_remove key ht s =
     (case hash_find_ref (bucket_slot ht (hash_u64 key (nbuckets ht))) key s of
        Some (Some pp) \<Rightarrow>
          (let dead = load64 s pp;
               s = store64 pp (load64 s (node_next dead)) s
           in andThen (slab_free (node_cache ht) dead s) (\<lambda>_ s.
                Ret (ht\<lparr>count := count ht - 1\<rparr>) s))
      | Some None \<Rightarrow> Ret ht s
      | None \<Rightarrow> Spin s)"

subsection \<open>The abstract view\<close>

definition bucket_of :: "hashtable \<Rightarrow> u64 \<Rightarrow> nat" where
  "bucket_of ht key = unat (hash_u64 key (nbuckets ht))"

abbreviation bucket_array :: "hashtable \<Rightarrow> u64 set" where
  "bucket_array ht \<equiv> region (buckets ht) (8 * unat (nbuckets ht))"

text \<open>
  The table has the chain \<open>N b\<close> in bucket \<open>b\<close>: a linked list of nodes taken from the set \<open>L\<close>,
  each with a key that belongs in the bucket.
\<close>

definition hash_chains :: "hashtable \<Rightarrow> u64 set \<Rightarrow> (nat \<Rightarrow> u64 list) \<Rightarrow> memory \<Rightarrow> bool" where
  "hash_chains ht L N m \<longleftrightarrow>
     (\<forall>b < unat (nbuckets ht).
        chain 16 m (read64 m (bucket_slot ht (of_nat b))) (N b) \<and> distinct (N b) \<and> set (N b) \<subseteq> L \<and>
        (\<forall>n \<in> set (N b). bucket_of ht (read64 m (node_key n)) = b))"

text \<open>The bucket array overlaps nothing the slab or frame allocator uses.\<close>

definition hash_sep :: "hashtable \<Rightarrow> u64 list \<Rightarrow> kstate \<Rightarrow> bool" where
  "hash_sep ht ps s \<longleftrightarrow>
     nbuckets ht \<noteq> 0 \<and> unat (nbuckets ht) * 8 < 2 ^ 63 \<and>
     bucket_array ht \<inter> region (node_cache ht) 32 = {} \<and> bucket_array ht \<inter> bitmap_region s = {} \<and>
     (\<forall>p \<in> set ps \<union> avail_frames s. bucket_array ht \<inter> region p 4096 = {})"

definition hash_inv ::
  "nat \<Rightarrow> hashtable \<Rightarrow> u64 list \<Rightarrow> u64 list \<Rightarrow> (nat \<Rightarrow> u64 list) \<Rightarrow> kstate \<Rightarrow> bool" where
  "hash_inv d ht ps fl N s \<longleftrightarrow>
     slab_inv d (node_cache ht) 24 ps fl s \<and> hash_sep ht ps s \<and>
     hash_chains ht (slab_objs 24 ps - set fl) N (mem s)"

text \<open>The values of a key, newest first.\<close>

definition hash_abs :: "hashtable \<Rightarrow> (nat \<Rightarrow> u64 list) \<Rightarrow> memory \<Rightarrow> u64 \<Rightarrow> u64 list" where
  "hash_abs ht N m key =
     map (\<lambda>n. read64 m (node_value n))
       (filter (\<lambda>n. read64 m (node_key n) = key) (N (bucket_of ht key)))"

text \<open>
  The table represents the map \<open>M\<close>, and its counter is the number of nodes (modulo the width
  of the counter).
\<close>

definition hash_total :: "hashtable \<Rightarrow> (nat \<Rightarrow> u64 list) \<Rightarrow> nat" where
  "hash_total ht N = (\<Sum>b < unat (nbuckets ht). length (N b))"

definition hash_rep :: "hashtable \<times> kstate \<Rightarrow> (u64 \<Rightarrow> u64 list) \<Rightarrow> bool" where
  "hash_rep t M \<longleftrightarrow>
     (\<exists>d ps fl N. hash_inv d (fst t) ps fl N (snd t) \<and> M = hash_abs (fst t) N (mem (snd t)) \<and>
       count (fst t) = of_nat (hash_total (fst t) N))"

subsection \<open>The contract of a key table\<close>

text \<open>
  What the object manager relies on. \<open>rep t M\<close>: the table \<open>t\<close> stands for the map \<open>M\<close> from
  keys to stacks of values. An insertion may stop the kernel (no memory for the node); the
  other operations always return.
\<close>

datatype table_op = Insert u64 u64 | Remove u64

primrec table_spec :: "table_op \<Rightarrow> (u64 \<Rightarrow> u64 list) \<Rightarrow> u64 \<Rightarrow> u64 list" where
  "table_spec (Insert k v) M = M(k := v # M k)"
| "table_spec (Remove k) M = M(k := tl (M k))"

definition newest :: "u64 list \<Rightarrow> u64" where
  "newest vs = (case vs of [] \<Rightarrow> NULL | v # _ \<Rightarrow> v)"

locale key_table =
  fixes rep :: "'t \<Rightarrow> (u64 \<Rightarrow> u64 list) \<Rightarrow> bool"
    and tab_insert :: "u64 \<Rightarrow> u64 \<Rightarrow> 't \<Rightarrow> (unit, 't) outcome"
    and tab_lookup :: "u64 \<Rightarrow> 't \<Rightarrow> (u64, 't) outcome"
    and tab_remove :: "u64 \<Rightarrow> 't \<Rightarrow> (unit, 't) outcome"
  assumes insert_law: "rep t M \<Longrightarrow> tab_insert k v t = Ret () t' \<Longrightarrow> rep t' (M(k := v # M k))"
    and lookup_law: "rep t M \<Longrightarrow> tab_lookup k t = Ret (newest (M k)) t"
    and remove_law: "rep t M \<Longrightarrow> \<exists>t'. tab_remove k t = Ret () t' \<and> rep t' (M(k := tl (M k)))"
begin

primrec run :: "table_op list \<Rightarrow> 't \<Rightarrow> (unit, 't) outcome" where
  "run [] t = Ret () t"
| "run (c # cs) t =
     andThen (case c of Insert k v \<Rightarrow> tab_insert k v t | Remove k \<Rightarrow> tab_remove k t) (\<lambda>_. run cs)"

lemma run_refines:
  assumes "rep t M" and "run cs t = Ret () t'"
  shows "rep t' (fold table_spec cs M)"
  using assms
proof (induction cs arbitrary: t M)
  case (Cons c cs)
  from Cons.prems(2) obtain u where
    u: "(case c of Insert k v \<Rightarrow> tab_insert k v t | Remove k \<Rightarrow> tab_remove k t) = Ret () u" "run cs u = Ret () t'"
    by (auto elim: andThen_RetE)
  have "rep u (table_spec c M)"
  proof (cases c)
    case (Insert k v)
    then show ?thesis using u(1) insert_law [OF Cons.prems(1)] by simp
  next
    case (Remove k)
    then show ?thesis using u(1) remove_law [OF Cons.prems(1), of k] by auto
  qed
  from Cons.IH [OF this u(2)] show ?case by simp
qed simp

lemma lookup_after_run:
  "rep t M \<Longrightarrow> run cs t = Ret () t' \<Longrightarrow> tab_lookup k t' = Ret (newest (fold table_spec cs M k)) t'"
  using run_refines lookup_law by blast

text \<open>Removing what was just inserted brings the old map back.\<close>

lemma insert_remove:
  assumes "rep t M" and "tab_insert k v t = Ret () u"
  shows "\<exists>t'. tab_remove k u = Ret () t' \<and> rep t' M"
  using remove_law [OF insert_law [OF assms], of k] by simp

end

text \<open>The operations on the pair of the descriptor and the kernel state.\<close>

fun on_table :: "hashtable \<Rightarrow> (hashtable, kstate) outcome \<Rightarrow> (unit, hashtable \<times> kstate) outcome" where
  "on_table _ (Ret ht s) = Ret () (ht, s)"
| "on_table ht (Halt s) = Halt (ht, s)"
| "on_table ht (Spin s) = Spin (ht, s)"

definition table_insert :: "u64 \<Rightarrow> u64 \<Rightarrow> hashtable \<times> kstate \<Rightarrow> (unit, hashtable \<times> kstate) outcome" where
  "table_insert k v t = on_table (fst t) (hashtable_insert k v (fst t) (snd t))"

definition table_remove :: "u64 \<Rightarrow> hashtable \<times> kstate \<Rightarrow> (unit, hashtable \<times> kstate) outcome" where
  "table_remove k t = on_table (fst t) (hashtable_remove k (fst t) (snd t))"

fun table_lookup :: "u64 \<Rightarrow> hashtable \<times> kstate \<Rightarrow> (u64, hashtable \<times> kstate) outcome" where
  "table_lookup k (ht, s) =
     (case hashtable_lookup k ht s of Ret v s \<Rightarrow> Ret v (ht, s) | Halt s \<Rightarrow> Halt (ht, s) | Spin s \<Rightarrow> Spin (ht, s))"

section \<open>Lemmas\<close>

declare hash_find.simps [simp del] and hash_find_ref.simps [simp del]

lemma bucket_of_lt: "nbuckets ht \<noteq> 0 \<Longrightarrow> bucket_of ht key < unat (nbuckets ht)"
  by (simp add: bucket_of_def hash_u64_def Let_def unat_mod unat_gt_0)

lemma bucket_slot_of: "bucket_slot ht (hash_u64 key (nbuckets ht)) = bucket_slot ht (of_nat (bucket_of ht key))"
  by (simp add: bucket_of_def)

lemma bucket_slot_region:
  assumes "b < unat (nbuckets ht)" and "unat (nbuckets ht) * 8 < 2 ^ 63"
  shows "region (bucket_slot ht (of_nat b)) 8 \<subseteq> region (buckets ht) (8 * unat (nbuckets ht))"
proof -
  have "region (buckets ht + of_nat (8 * b)) 8 \<subseteq> region (buckets ht) (8 * unat (nbuckets ht))"
    using assms by (intro region_off_subset) simp_all
  then show ?thesis by (simp add: bucket_slot_def)
qed

lemma bucket_slots_disjoint:
  assumes "b < unat (nbuckets ht)" and "c < unat (nbuckets ht)" and "b \<noteq> c" and "unat (nbuckets ht) * 8 < 2 ^ 63"
  shows "region (bucket_slot ht (of_nat b)) 8 \<inter> region (bucket_slot ht (of_nat c)) 8 = {}"
proof -
  have "region (buckets ht + of_nat (8 * b)) 8 \<inter> region (buckets ht + of_nat (8 * c)) 8 = {}"
    using assms by (intro region_off_disjoint) auto
  then show ?thesis by (simp add: bucket_slot_def)
qed

lemma node_parts:
  "region (node_key n) 8 \<subseteq> region n 24" "region (node_value n) 8 \<subseteq> region n 24"
  "region (node_next n) 8 \<subseteq> region n 24"
  "region (node_key n) 8 \<inter> region (node_value n) 8 = {}"
  "region (node_key n) 8 \<inter> region (node_next n) 8 = {}"
  "region (node_value n) 8 \<inter> region (node_next n) 8 = {}"
  using region_off_subset [of 0 8 24 n] region_off_subset [of 8 8 24 n] region_off_subset [of 16 8 24 n]
    region_off_disjoint [of 0 8 8 8 n] region_off_disjoint [of 0 8 16 8 n]
    region_off_disjoint [of 8 8 16 8 n]
  by (simp_all add: node_key_def node_value_def node_next_def)

lemma chain_node:
  "chain 16 m p (x # xs) \<longleftrightarrow> p = x \<and> x \<noteq> NULL \<and> chain 16 m (read64 m (node_next x)) xs"
  by (simp add: node_next_def)

subsection \<open>The loops over a chain\<close>

lemma hash_find_chain:
  "chain 16 (mem s) n xs \<Longrightarrow>
   hash_find n key s =
     Some (case filter (\<lambda>n. load64 s (node_key n) = key) xs of [] \<Rightarrow> NULL | x # _ \<Rightarrow> load64 s (node_value x))"
proof (induction xs arbitrary: n)
  case Nil
  then show ?case by (subst hash_find.simps) simp
next
  case (Cons x xs)
  then show ?case by (subst hash_find.simps) (simp add: node_next_def)
qed

text \<open>Where the second loop stops: in front of the first node with the key.\<close>

lemma hash_find_ref_absent:
  "chain 16 (mem s) (load64 s pp) xs \<Longrightarrow> \<forall>n \<in> set xs. load64 s (node_key n) \<noteq> key \<Longrightarrow>
   hash_find_ref pp key s = Some None"
  by (induction xs arbitrary: pp; subst hash_find_ref.simps) (simp_all add: node_next_def)

lemma hash_find_ref_present:
  "chain 16 (mem s) (load64 s pp) (us @ x # vs) \<Longrightarrow> \<forall>n \<in> set us. load64 s (node_key n) \<noteq> key \<Longrightarrow>
   load64 s (node_key x) = key \<Longrightarrow>
   hash_find_ref pp key s = Some (Some (last (pp # map node_next us)))"
proof (induction us arbitrary: pp)
  case Nil
  then show ?case by (subst hash_find_ref.simps) simp
next
  case (Cons u us)
  then have u: "load64 s pp = u" "u \<noteq> NULL" "load64 s (node_key u) \<noteq> key"
    and ch: "chain 16 (mem s) (load64 s (node_next u)) (us @ x # vs)"
    by (simp_all add: node_next_def)
  have "hash_find_ref pp key s = hash_find_ref (node_next u) key s"
    using u by (subst hash_find_ref.simps) simp
  also have "\<dots> = Some (Some (last (node_next u # map node_next us)))"
    using Cons.prems(2,3) by (intro Cons.IH ch) simp_all
  finally show ?case by simp
qed

text \<open>Putting a node in front of a chain and taking one out of it.\<close>

lemma chain_link_in_front:
  assumes "chain 16 m (read64 m slot) xs" and "n \<noteq> NULL" and "read64 m (node_next n) = read64 m slot"
    and "region slot 8 \<inter> region (node_next n) 8 = {}"
    and "\<forall>x \<in> set xs. region slot 8 \<inter> region (node_next x) 8 = {}"
  shows "chain 16 (write64 m slot n) (read64 (write64 m slot n) slot) (n # xs)"
proof -
  have "chain 16 (write64 m slot n) (read64 m slot) xs"
    using assms(1,5) by (intro chain_cong [OF assms(1)] read64_write64_disjoint) (simp_all add: node_next_def)
  then show ?thesis
    using assms(2-4) by (simp add: mem_simps read64_write64_disjoint node_next_def)
qed

lemma chain_unlink:
  assumes "chain 16 m (read64 m slot) (us @ x # vs)" and "distinct (us @ x # vs)"
    and "\<forall>n \<in> set (us @ x # vs). region slot 8 \<inter> region (node_next n) 8 = {}"
    and "\<forall>n \<in> set (us @ x # vs). \<forall>k \<in> set (us @ x # vs). n \<noteq> k \<longrightarrow>
      region (node_next n) 8 \<inter> region (node_next k) 8 = {}"
  shows "chain 16 (write64 m (last (slot # map node_next us)) (read64 m (node_next x)))
    (read64 (write64 m (last (slot # map node_next us)) (read64 m (node_next x))) slot) (us @ vs)"
    and "read64 m (last (slot # map node_next us)) = x"
  using assms
proof (induction us arbitrary: slot)
  case Nil
  {
    case 1
    have "chain 16 m (read64 m (node_next x)) vs" using 1(1) by (simp add: node_next_def)
    then have "chain 16 (write64 m slot (read64 m (node_next x))) (read64 m (node_next x)) vs"
      by (rule chain_cong) (use 1(3) in \<open>simp add: read64_write64_disjoint node_next_def\<close>)
    then show ?case by (simp add: mem_simps)
  next
    case 2
    then show ?case by simp
  }
next
  case (Cons u us)
  {
    case 1
    let ?r = "last (node_next u # map node_next us)" and ?nx = "read64 m (node_next x)"
    have u: "read64 m slot = u" "u \<noteq> NULL" and ch: "chain 16 m (read64 m (node_next u)) (us @ x # vs)"
      using 1(1) by (simp_all add: node_next_def)
    have IH: "chain 16 (write64 m ?r ?nx) (read64 (write64 m ?r ?nx) (node_next u)) (us @ vs)"
      using 1(2-4) ch by (intro Cons.IH(1)) auto
    have "?r \<in> set (map node_next (u # us))"
      using last_in_set [of "map node_next (u # us)"] by simp
    then obtain k where "k \<in> set (u # us)" and k: "?r = node_next k" unfolding set_map by blast
    then have "region slot 8 \<inter> region ?r 8 = {}" unfolding k by (intro bspec [OF 1(3)]) auto
    then have "read64 (write64 m ?r ?nx) slot = u"
      using u(1) by (simp add: read64_write64_disjoint Int_commute)
    moreover have "last (slot # map node_next (u # us)) = ?r" by simp
    ultimately show ?case using IH u(2) by (simp only: append_Cons chain_node simp_thms)
  next
    case 2
    have "chain 16 m (read64 m (node_next u)) (us @ x # vs)" using 2(1) by (simp add: node_next_def)
    then have "read64 m (last (node_next u # map node_next us)) = x"
      using 2(2-4) by (intro Cons.IH(2)) auto
    then show ?case by simp
  }
qed

subsection \<open>The chains under writes\<close>

text \<open>Nodes that overlap neither the bucket array nor each other.\<close>

definition nodes_apart :: "hashtable \<Rightarrow> u64 set \<Rightarrow> bool" where
  "nodes_apart ht L \<longleftrightarrow>
     (\<forall>x \<in> L. x \<noteq> NULL \<and> region x 24 \<inter> bucket_array ht = {} \<and>
        (\<forall>y \<in> L. x \<noteq> y \<longrightarrow> region x 24 \<inter> region y 24 = {}))"

lemma nodes_apart_mono: "nodes_apart ht L \<Longrightarrow> K \<subseteq> L \<Longrightarrow> nodes_apart ht K"
  unfolding nodes_apart_def by blast

lemma nodes_apartD:
  assumes "nodes_apart ht L" and "x \<in> L"
  shows "x \<noteq> NULL" and "region x 24 \<inter> bucket_array ht = {}"
    and "z \<in> L \<Longrightarrow> x \<noteq> z \<Longrightarrow> region x 24 \<inter> region z 24 = {}"
  using assms by (simp_all add: nodes_apart_def)

lemma hash_chainsD:
  assumes "hash_chains ht L N m" and "b < unat (nbuckets ht)"
  shows "chain 16 m (read64 m (bucket_slot ht (of_nat b))) (N b)" and "distinct (N b)"
    and "n \<in> set (N b) \<Longrightarrow> n \<in> L" and "n \<in> set (N b) \<Longrightarrow> bucket_of ht (read64 m (node_key n)) = b"
  using assms by (auto simp: hash_chains_def)

lemma node_field_cong:
  assumes "\<And>y. y \<in> region n 24 \<Longrightarrow> m' y = m y"
  shows "read64 m' (node_key n) = read64 m (node_key n)"
    and "read64 m' (node_value n) = read64 m (node_value n)"
    and "read64 m' (node_next n) = read64 m (node_next n)"
  using assms node_parts [of n] by (blast intro: read64_cong)+

lemma hash_chains_cong:
  assumes h: "hash_chains ht L N m" and "unat (nbuckets ht) * 8 < 2 ^ 63" and "L \<subseteq> L'"
    and a: "\<And>y. y \<in> bucket_array ht \<Longrightarrow> m' y = m y"
    and n: "\<And>x y. x \<in> L \<Longrightarrow> y \<in> region x 24 \<Longrightarrow> m' y = m y"
  shows "hash_chains ht L' N m'"
  unfolding hash_chains_def
proof (intro allI impI conjI ballI)
  fix b assume b: "b < unat (nbuckets ht)"
  note c = hash_chainsD [OF h b]
  have slot: "read64 m' (bucket_slot ht (of_nat b)) = read64 m (bucket_slot ht (of_nat b))"
    using a bucket_slot_region [OF b assms(2)] by (blast intro: read64_cong)
  show "chain 16 m' (read64 m' (bucket_slot ht (of_nat b))) (N b)"
    unfolding slot using c(1)
  proof (rule chain_cong)
    fix x assume "x \<in> set (N b)"
    then have "read64 m' (node_next x) = read64 m (node_next x)"
      using c(3) n by (intro node_field_cong) blast
    then show "read64 m' (x + 16) = read64 m (x + 16)" by (simp add: node_next_def)
  qed
  show "distinct (N b)" by (fact c(2))
  show "set (N b) \<subseteq> L'" using c(3) assms(3) by blast
  fix x assume x: "x \<in> set (N b)"
  then have "read64 m' (node_key x) = read64 m (node_key x)"
    using c(3) n by (intro node_field_cong) blast
  with c(4) x show "bucket_of ht (read64 m' (node_key x)) = b" by simp
qed

lemma hash_abs_cong:
  assumes h: "hash_chains ht L N m" and "nbuckets ht \<noteq> 0"
    and n: "\<And>x y. x \<in> L \<Longrightarrow> y \<in> region x 24 \<Longrightarrow> m' y = m y"
  shows "hash_abs ht N m' = hash_abs ht N m"
proof
  fix key
  have "read64 m' (node_key x) = read64 m (node_key x) \<and> read64 m' (node_value x) = read64 m (node_value x)"
    if "x \<in> set (N (bucket_of ht key))" for x
    using hash_chainsD(3) [OF h bucket_of_lt [OF assms(2)] that] n node_field_cong [of x m' m] by blast
  then show "hash_abs ht N m' key = hash_abs ht N m key"
    unfolding hash_abs_def by (intro map_cong filter_cong) auto
qed

text \<open>Filling a new node and linking it in front of its bucket.\<close>

definition node_init :: "u64 \<Rightarrow> u64 \<Rightarrow> u64 \<Rightarrow> u64 \<Rightarrow> memory \<Rightarrow> memory" where
  "node_init n key v nx m =
     write64 (write64 (write64 m (node_key n) key) (node_value n) v) (node_next n) nx"

lemma node_init_outside: "y \<notin> region n 24 \<Longrightarrow> node_init n key v nx m y = m y"
  unfolding node_init_def by (metis node_parts(1-3) subsetD write64_outside)

lemma node_init_fields:
  "read64 (node_init n key v nx m) (node_key n) = key"
  "read64 (node_init n key v nx m) (node_value n) = v"
  "read64 (node_init n key v nx m) (node_next n) = nx"
  using node_parts(4-6) [of n]
  by (simp_all add: node_init_def mem_simps read64_write64_disjoint Int_commute)

lemma chains_slot_write:
  assumes h: "hash_chains ht L N m" and sz: "unat (nbuckets ht) * 8 < 2 ^ 63"
    and ap: "nodes_apart ht (insert n L)" and b: "b < unat (nbuckets ht)"
    and n: "n \<notin> L" "bucket_of ht (read64 m (node_key n)) = b"
      "read64 m (node_next n) = read64 m (bucket_slot ht (of_nat b))"
  shows "hash_chains ht (insert n L) (N(b := n # N b)) (write64 m (bucket_slot ht (of_nat b)) n)"
    (is "hash_chains _ _ _ ?m")
  unfolding hash_chains_def
proof (intro allI impI)
  let ?slot = "bucket_slot ht (of_nat b)"
  have node: "region ?slot 8 \<inter> region x 24 = {}" if "x \<in> insert n L" for x
    using ap that bucket_slot_region [OF b sz] unfolding nodes_apart_def by blast
  then have keys: "read64 ?m (node_key x) = read64 m (node_key x)"
    and nexts: "region ?slot 8 \<inter> region (node_next x) 8 = {}" if "x \<in> insert n L" for x
    using that node_parts(1,3) [of x] by (blast intro: read64_write64_disjoint)+
  fix c assume c: "c < unat (nbuckets ht)"
  note hc = hash_chainsD [OF h c]
  have "chain 16 ?m (read64 ?m (bucket_slot ht (of_nat c))) ((N(b := n # N b)) c)"
  proof (cases "c = b")
    case True
    with hc(1,3) nexts n(3) ap show ?thesis
      by (simp del: chain.simps) (intro chain_link_in_front; simp add: nodes_apart_def)
  next
    case False
    have "read64 ?m (x + 16) = read64 m (x + 16)" if "x \<in> set (N c)" for x
      using nexts [of x] hc(3) [OF that] by (intro read64_write64_disjoint) (simp add: node_next_def)
    with chain_cong [OF hc(1)] False bucket_slots_disjoint [OF b c _ sz]
    show ?thesis by (simp add: read64_write64_disjoint)
  qed
  moreover have "distinct ((N(b := n # N b)) c)" "set ((N(b := n # N b)) c) \<subseteq> insert n L"
    using hc(2,3) n(1) by auto
  moreover have "\<forall>x \<in> set ((N(b := n # N b)) c). bucket_of ht (read64 ?m (node_key x)) = c"
    using hc(3,4) n(2) by (auto simp: keys)
  ultimately show "chain 16 ?m (read64 ?m (bucket_slot ht (of_nat c))) ((N(b := n # N b)) c) \<and>
      distinct ((N(b := n # N b)) c) \<and> set ((N(b := n # N b)) c) \<subseteq> insert n L \<and>
      (\<forall>x \<in> set ((N(b := n # N b)) c). bucket_of ht (read64 ?m (node_key x)) = c)"
    by blast
qed

lemma chains_insert:
  fixes key v :: u64
  assumes h: "hash_chains ht L N m" and sz: "unat (nbuckets ht) * 8 < 2 ^ 63" "nbuckets ht \<noteq> 0"
    and ap: "nodes_apart ht (insert n L)" and n: "n \<notin> L"
  defines "b \<equiv> bucket_of ht key"
  defines "m1 \<equiv> node_init n key v (read64 m (bucket_slot ht (of_nat b))) m"
  defines "m2 \<equiv> write64 m1 (bucket_slot ht (of_nat b)) n"
  shows "hash_chains ht (insert n L) (N(b := n # N b)) m2"
    and "hash_abs ht (N(b := n # N b)) m2 = (hash_abs ht N m)(key := v # hash_abs ht N m key)"
proof -
  let ?slot = "bucket_slot ht (of_nat b)"
  have b: "b < unat (nbuckets ht)" using bucket_of_lt [OF sz(2)] by (simp add: b_def)
  have outs: "m1 y = m y" if "y \<notin> region n 24" for y
    using that by (simp add: m1_def node_init_outside)
  note apn = nodes_apartD [OF ap insertI1]
  have on_L: "m1 y = m y" if "x \<in> L" "y \<in> region x 24" for x y
  proof (rule outs)
    have "region n 24 \<inter> region x 24 = {}" using n that(1) by (intro apn(3)) auto
    with that(2) show "y \<notin> region n 24" by blast
  qed
  have on_array: "m1 y = m y" if "y \<in> bucket_array ht" for y
    using apn(2) that by (intro outs) blast
  have h1: "hash_chains ht L N m1"
    using on_array on_L by (rule hash_chains_cong [OF h sz(1) subset_refl])
  have abs1: "hash_abs ht N m1 = hash_abs ht N m" using on_L by (rule hash_abs_cong [OF h sz(2)])
  have slot1: "read64 m1 ?slot = read64 m ?slot"
    using on_array bucket_slot_region [OF b sz(1)] by (blast intro: read64_cong)
  have fields: "read64 m1 (node_key n) = key" "read64 m1 (node_value n) = v"
    "read64 m1 (node_next n) = read64 m ?slot"
    by (simp_all add: m1_def node_init_fields)
  show "hash_chains ht (insert n L) (N(b := n # N b)) m2"
    unfolding m2_def using h1 sz(1) ap b n by (rule chains_slot_write) (simp_all add: fields slot1 b_def [symmetric])
  have "read64 m2 (node_key x) = read64 m1 (node_key x) \<and> read64 m2 (node_value x) = read64 m1 (node_value x)"
    if "x \<in> insert n L" for x
  proof -
    have "region ?slot 8 \<inter> region x 24 = {}"
      using nodes_apartD(2) [OF ap that] bucket_slot_region [OF b sz(1)] by blast
    then show ?thesis
      unfolding m2_def using node_parts(1,2) [of x] by (blast intro: read64_write64_disjoint)
  qed
  then have "hash_abs ht N m2 = hash_abs ht N m1" and n1: "read64 m2 (node_key n) = key" "read64 m2 (node_value n) = v"
    using hash_chainsD(3) [OF h1 bucket_of_lt [OF sz(2)]] fields
    unfolding hash_abs_def by (auto simp: fun_eq_iff intro!: map_cong filter_cong)
  moreover have "hash_abs ht (N(b := n # N b)) m2 k =
      (if k = key then v # hash_abs ht N m2 k else hash_abs ht N m2 k)" for k
    using n1 by (simp add: hash_abs_def b_def)
  ultimately show "hash_abs ht (N(b := n # N b)) m2 = (hash_abs ht N m)(key := v # hash_abs ht N m key)"
    using abs1 by (simp add: fun_eq_iff)
qed

text \<open>
  Taking a node out of its bucket. The pointer that leads to the node, at \<open>r\<close>, is the bucket's
  slot or the link of a node before it.
\<close>

lemma chain_ref_cases:
  obtains "last (slot # map node_next us) = slot"
  | k where "k \<in> set us" and "last (slot # map node_next us) = node_next k"
proof (cases us rule: rev_cases)
  case Nil
  then show ?thesis by (intro that(1)) simp
next
  case (snoc ys y)
  then show ?thesis by (intro that(2) [of y]) simp_all
qed

lemma chain_ref_apart:
  assumes sz: "unat (nbuckets ht) * 8 < 2 ^ 63" and ap: "nodes_apart ht L"
    and b: "b < unat (nbuckets ht)" and us: "set us \<subseteq> L"
  defines "r \<equiv> last (bucket_slot ht (of_nat b) # map node_next us)"
  shows "z \<in> L \<Longrightarrow> region r 8 \<inter> region (node_key z) 8 = {}"
    and "z \<in> L \<Longrightarrow> region r 8 \<inter> region (node_value z) 8 = {}"
    and "z \<in> L \<Longrightarrow> z \<notin> set us \<Longrightarrow> region r 8 \<inter> region (node_next z) 8 = {}"
    and "c < unat (nbuckets ht) \<Longrightarrow> c \<noteq> b \<Longrightarrow> region r 8 \<inter> region (bucket_slot ht (of_nat c)) 8 = {}"
    and "z \<in> L \<Longrightarrow> z \<notin> set us \<Longrightarrow> region r 8 \<inter> region z 24 = {}"
    and "y \<in> region r 8 \<Longrightarrow> y \<in> bucket_array ht \<or> (\<exists>k \<in> set us. y \<in> region k 24)"
proof -
  note slot = bucket_slot_region [OF b sz]
  have all: "(z \<in> L \<longrightarrow> region r 8 \<inter> region (node_key z) 8 = {} \<and> region r 8 \<inter> region (node_value z) 8 = {} \<and>
        (z \<notin> set us \<longrightarrow> region r 8 \<inter> region z 24 = {})) \<and>
      (c < unat (nbuckets ht) \<longrightarrow> c \<noteq> b \<longrightarrow> region r 8 \<inter> region (bucket_slot ht (of_nat c)) 8 = {}) \<and>
      (y \<in> region r 8 \<longrightarrow> y \<in> bucket_array ht \<or> (\<exists>k \<in> set us. y \<in> region k 24))" for z c y
  proof (rule chain_ref_cases [of "bucket_slot ht (of_nat b)" us])
    assume "last (bucket_slot ht (of_nat b) # map node_next us) = bucket_slot ht (of_nat b)"
    then have r: "r = bucket_slot ht (of_nat b)" by (simp add: r_def)
    have "region r 8 \<inter> region z 24 = {}" if "z \<in> L"
      using nodes_apartD(2) [OF ap that] slot unfolding r by blast
    then show ?thesis
      using node_parts(1,2) [of z] bucket_slots_disjoint [OF b _ _ sz, of c] slot unfolding r by blast
  next
    fix k assume k: "k \<in> set us" and "last (bucket_slot ht (of_nat b) # map node_next us) = node_next k"
    then have r: "r = node_next k" by (simp add: r_def)
    have kL: "k \<in> L" using k us by blast
    have zk: "region k 24 \<inter> region z 24 = {}" if "z \<in> L" "z \<noteq> k"
      using nodes_apartD(3) [OF ap kL that(1)] that(2) by blast
    have rk: "region r 8 \<subseteq> region k 24" unfolding r by (rule node_parts(3))
    have c: "region r 8 \<inter> region (bucket_slot ht (of_nat c)) 8 = {}" if "c < unat (nbuckets ht)"
      using nodes_apartD(2) [OF ap kL] rk bucket_slot_region [OF that sz] by blast
    have "region r 8 \<inter> region (node_key z) 8 = {} \<and> region r 8 \<inter> region (node_value z) 8 = {}" if "z \<in> L"
    proof (cases "z = k")
      case True
      with node_parts(5,6) [of k] show ?thesis unfolding r by blast
    next
      case False
      with zk [OF that] rk node_parts(1,2) [of z] show ?thesis by blast
    qed
    moreover have "region r 8 \<inter> region z 24 = {}" if "z \<in> L" "z \<notin> set us"
      using zk [OF that(1)] that(2) k rk by blast
    ultimately show ?thesis using c rk k by blast
  qed
  from all show "z \<in> L \<Longrightarrow> region r 8 \<inter> region (node_key z) 8 = {}" by blast
  from all show "z \<in> L \<Longrightarrow> region r 8 \<inter> region (node_value z) 8 = {}" by blast
  from all node_parts(3) [of z] show "z \<in> L \<Longrightarrow> z \<notin> set us \<Longrightarrow> region r 8 \<inter> region (node_next z) 8 = {}" by blast
  from all show "c < unat (nbuckets ht) \<Longrightarrow> c \<noteq> b \<Longrightarrow> region r 8 \<inter> region (bucket_slot ht (of_nat c)) 8 = {}" by blast
  from all show "z \<in> L \<Longrightarrow> z \<notin> set us \<Longrightarrow> region r 8 \<inter> region z 24 = {}" by blast
  from all show "y \<in> region r 8 \<Longrightarrow> y \<in> bucket_array ht \<or> (\<exists>k \<in> set us. y \<in> region k 24)" by blast
qed

lemma chains_remove:
  assumes h: "hash_chains ht L N m" and sz: "unat (nbuckets ht) * 8 < 2 ^ 63"
    and ap: "nodes_apart ht L" and b: "b < unat (nbuckets ht)" and N: "N b = us @ x # vs"
  defines "r \<equiv> last (bucket_slot ht (of_nat b) # map node_next us)"
  defines "m' \<equiv> write64 m r (read64 m (node_next x))"
  shows "read64 m r = x"
    and "hash_chains ht (L - {x}) (N(b := us @ vs)) m'"
    and "z \<in> L \<Longrightarrow> read64 m' (node_key z) = read64 m (node_key z)"
    and "z \<in> L \<Longrightarrow> read64 m' (node_value z) = read64 m (node_value z)"
proof -
  note hb = hash_chainsD [OF h b]
  have us: "set us \<subseteq> L" and inL: "\<And>n. n \<in> set (us @ x # vs) \<Longrightarrow> n \<in> L" using hb(3) N by auto
  note ref = chain_ref_apart [OF sz ap b us, folded r_def]
  have slotn: "\<forall>n \<in> set (us @ x # vs). region (bucket_slot ht (of_nat b)) 8 \<inter> region (node_next n) 8 = {}"
  proof
    fix n assume "n \<in> set (us @ x # vs)"
    then show "region (bucket_slot ht (of_nat b)) 8 \<inter> region (node_next n) 8 = {}"
      using nodes_apartD(2) [OF ap inL] node_parts(3) [of n] bucket_slot_region [OF b sz] by blast
  qed
  have nextn: "\<forall>n \<in> set (us @ x # vs). \<forall>k \<in> set (us @ x # vs). n \<noteq> k \<longrightarrow>
      region (node_next n) 8 \<inter> region (node_next k) 8 = {}"
  proof (intro ballI impI)
    fix n k assume "n \<in> set (us @ x # vs)" "k \<in> set (us @ x # vs)" "n \<noteq> k"
    then show "region (node_next n) 8 \<inter> region (node_next k) 8 = {}"
      using nodes_apartD(3) [OF ap inL inL] node_parts(3) [of n] node_parts(3) [of k] by blast
  qed
  note unlinked = chain_unlink [OF hb(1) [unfolded N] hb(2) [unfolded N] slotn nextn, folded r_def]
  have unl: "chain 16 m' (read64 m' (bucket_slot ht (of_nat b))) (us @ vs)" and rx: "read64 m r = x"
    unfolding m'_def by (fact unlinked)+
  show "read64 m r = x" by (fact rx)
  show key: "read64 m' (node_key z) = read64 m (node_key z)" if "z \<in> L" for z
    unfolding m'_def using ref(1) [OF that] by (rule read64_write64_disjoint)
  show "read64 m' (node_value z) = read64 m (node_value z)" if "z \<in> L" for z
    unfolding m'_def using ref(2) [OF that] by (rule read64_write64_disjoint)
  show "hash_chains ht (L - {x}) (N(b := us @ vs)) m'"
    unfolding hash_chains_def
  proof (intro allI impI)
    fix c assume c: "c < unat (nbuckets ht)"
    note hc = hash_chainsD [OF h c]
    show "chain 16 m' (read64 m' (bucket_slot ht (of_nat c))) ((N(b := us @ vs)) c) \<and>
      distinct ((N(b := us @ vs)) c) \<and> set ((N(b := us @ vs)) c) \<subseteq> L - {x} \<and>
      (\<forall>n \<in> set ((N(b := us @ vs)) c). bucket_of ht (read64 m' (node_key n)) = c)"
    proof (cases "c = b")
      case True
      with unl hb(2-4) key N show ?thesis by auto
    next
      case False
      have sep: "n \<notin> set (N b)" if "n \<in> set (N c)" for n using hc(4) [OF that] hb(4) False by blast
      have "read64 m' (n + 16) = read64 m (n + 16)" if "n \<in> set (N c)" for n
        unfolding m'_def using ref(3) [OF hc(3) [OF that]] sep [OF that] N
        by (intro read64_write64_disjoint) (simp add: node_next_def)
      then have "chain 16 m' (read64 m (bucket_slot ht (of_nat c))) (N c)" by (rule chain_cong [OF hc(1)])
      moreover have "read64 m' (bucket_slot ht (of_nat c)) = read64 m (bucket_slot ht (of_nat c))"
        unfolding m'_def using ref(4) [OF c False] by (rule read64_write64_disjoint)
      moreover have "x \<notin> set (N c)" using sep N by auto
      ultimately show ?thesis using False hc(2-4) key by auto
    qed
  qed
qed

lemma hash_abs_remove:
  assumes "N (bucket_of ht key) = us @ x # vs" and "read64 m (node_key x) = key"
    and "\<forall>n \<in> set us. read64 m (node_key n) \<noteq> key"
  shows "hash_abs ht (N(bucket_of ht key := us @ vs)) m = (hash_abs ht N m)(key := tl (hash_abs ht N m key))"
proof
  fix k
  have none: "filter (\<lambda>n. read64 m (node_key n) = key) us = []" using assms(3) by simp
  show "hash_abs ht (N(bucket_of ht key := us @ vs)) m k =
      ((hash_abs ht N m)(key := tl (hash_abs ht N m key))) k"
    by (cases "k = key"; cases "bucket_of ht k = bucket_of ht key")
      (simp_all add: hash_abs_def assms(1,2) none)
qed

subsection \<open>The operations on a table\<close>

text \<open>What the table and the allocators below it may write.\<close>

definition hash_foot :: "hashtable \<Rightarrow> u64 list \<Rightarrow> kstate \<Rightarrow> u64 set" where
  "hash_foot ht ps s =
     bucket_array ht \<union> region (node_cache ht) 32 \<union> bitmap_region s \<union>
     (\<Union>p \<in> set ps \<union> avail_frames s. region p 4096)"

definition hash_frame :: "hashtable \<Rightarrow> u64 list \<Rightarrow> kstate \<Rightarrow> kstate \<Rightarrow> bool" where
  "hash_frame ht ps s t \<longleftrightarrow>
     upper_same s t \<and> bitmap_region t = bitmap_region s \<and> avail_frames t \<subseteq> avail_frames s \<and> tail_kept s t \<and>
     (\<forall>y. y \<notin> hash_foot ht ps s \<longrightarrow> mem t y = mem s y)"

lemma hash_invD:
  assumes "hash_inv d ht ps fl N s"
  shows "slab_inv d (node_cache ht) 24 ps fl s" and "hash_sep ht ps s"
    and "hash_chains ht (slab_objs 24 ps - set fl) N (mem s)"
    and "nbuckets ht \<noteq> 0" and "unat (nbuckets ht) * 8 < 2 ^ 63"
  using assms by (simp_all add: hash_inv_def hash_sep_def)

lemma slab_inv_pages:
  assumes "slab_inv d c sz ps fl s"
  shows "\<forall>p \<in> set ps. page p" and "8 \<le> sz"
  using slab_listsD(1,4) [OF slab_repD] assms by (auto simp: slab_inv_def)

lemma slab_inv_nodes_apart:
  assumes "slab_inv d c 24 ps fl s" and "\<forall>p \<in> set ps. bucket_array ht \<inter> region p 4096 = {}"
  shows "nodes_apart ht (slab_objs 24 ps - set fl)"
  unfolding nodes_apart_def
proof (intro ballI conjI impI)
  note pg = slab_inv_pages(1) [OF assms(1)]
  fix x assume "x \<in> slab_objs 24 ps - set fl"
  then have x: "x \<in> slab_objs 24 ps" by simp
  then obtain p where p: "p \<in> set ps" "region x 24 \<subseteq> region p 4096"
    using slab_obj_in_page by blast
  then show "region x 24 \<inter> bucket_array ht = {}" using assms(2) by blast
  have "x \<in> region p 4096" using p(2) by (simp add: subset_iff)
  then show "x \<noteq> NULL" using in_page_not_null pg p(1) by blast
  fix y assume "y \<in> slab_objs 24 ps - set fl" and "x \<noteq> y"
  then show "region x 24 \<inter> region y 24 = {}" using slab_objs_disjoint [OF pg x, of y] by simp
qed

lemma hash_inv_nodes:
  "hash_inv d ht ps fl N s \<Longrightarrow> nodes_apart ht (slab_objs 24 ps - set fl)"
  using hash_invD(1,2) [of d ht ps fl N s] by (intro slab_inv_nodes_apart) (auto simp: hash_sep_def)

lemma hash_inv_count [simp]:
  "hash_inv d (ht\<lparr>count := k\<rparr>) = hash_inv d ht" "hash_abs (ht\<lparr>count := k\<rparr>) = hash_abs ht"
  by (simp_all add: fun_eq_iff hash_inv_def hash_sep_def hash_chains_def hash_abs_def bucket_of_def
      bucket_slot_def)

lemma hash_u64_lt: "nb \<noteq> 0 \<Longrightarrow> hash_u64 key nb < nb"
  using bucket_of_lt [of "\<lparr>buckets = 0, nbuckets = nb, count = 0, node_cache = 0\<rparr>" key]
  by (simp add: bucket_of_def word_less_nat_alt)

text \<open>Looking a key up.\<close>

lemma hashtable_lookup_ok:
  assumes "hash_inv d ht ps fl N s"
  shows "hashtable_lookup key ht s =
    Ret (case hash_abs ht N (mem s) key of [] \<Rightarrow> NULL | v # _ \<Rightarrow> v) s"
proof -
  note h = hash_chainsD(1) [OF hash_invD(3) bucket_of_lt, OF assms hash_invD(4) [OF assms], of key]
  show ?thesis
    unfolding hashtable_lookup_def bucket_slot_of hash_find_chain [OF h] hash_abs_def
    by (simp split: list.split)
qed

text \<open>Memory the allocators do not use may change.\<close>

lemma hash_sep_mem_cong:
  "(\<And>y. y \<in> bitmap_region s \<Longrightarrow> m y = mem s y) \<Longrightarrow> hash_sep ht ps (s\<lparr>mem := m\<rparr>) = hash_sep ht ps s"
  by (simp add: hash_sep_def avail_frames_mem_cong)

lemma slab_inv_array_write:
  assumes "slab_inv d (node_cache ht) 24 ps fl s" and sep: "hash_sep ht ps s"
    and m: "\<And>y. y \<notin> bucket_array ht \<Longrightarrow> m y = mem s y"
  shows "slab_inv d (node_cache ht) 24 ps fl (s\<lparr>mem := m\<rparr>)" and "hash_sep ht ps (s\<lparr>mem := m\<rparr>)"
    and "y \<in> bitmap_region s \<Longrightarrow> m y = mem s y"
proof -
  show bm: "m y = mem s y" if "y \<in> bitmap_region s" for y
    using sep that by (intro m) (auto simp: hash_sep_def)
  show "hash_sep ht ps (s\<lparr>mem := m\<rparr>)" using sep bm by (simp add: hash_sep_mem_cong)
  have "mm_ok d (s\<lparr>mem := m\<rparr>)" using assms(1) bm by (simp add: slab_inv_def mm_ok_mem_cong)
  with assms(1) show "slab_inv d (node_cache ht) 24 ps fl (s\<lparr>mem := m\<rparr>)"
  proof (rule slab_inv_other)
    show "avail_frames (s\<lparr>mem := m\<rparr>) \<subseteq> avail_frames s" using bm by (simp add: avail_frames_mem_cong)
    fix y assume "y \<in> region (node_cache ht) 32"
    then show "mem (s\<lparr>mem := m\<rparr>) y = mem s y" using sep m [of y] by (auto simp: hash_sep_def)
  next
    fix p y assume "p \<in> set ps" "y \<in> region p 4096"
    then show "mem (s\<lparr>mem := m\<rparr>) y = mem s y" using sep m [of y] by (auto simp: hash_sep_def)
  qed simp
qed

text \<open>The node cache hands out a node: the table is as it was.\<close>

lemma hash_alloc_node:
  assumes h: "hash_inv d ht ps fl N s" and al: "slab_alloc (node_cache ht) s = Ret n s1"
  obtains ps' fl' where "slab_inv d (node_cache ht) 24 ps' fl' s1" and "hash_sep ht ps' s1"
    and "n \<in> slab_objs 24 ps'" and "n \<notin> set fl'" and "n \<notin> slab_objs 24 ps - set fl"
    and "slab_objs 24 ps' - set fl' = insert n (slab_objs 24 ps - set fl)"
    and "set ps' \<subseteq> set ps \<union> avail_frames s" and "slab_frame (node_cache ht) s s1"
    and "hash_chains ht (slab_objs 24 ps - set fl) N (mem s1)" and "hash_abs ht N (mem s1) = hash_abs ht N (mem s)"
proof -
  note hD = hash_invD [OF h]
  obtain ps' fl' where a: "slab_inv d (node_cache ht) 24 ps' fl' s1" "n \<in> slab_objs 24 ps'" "n \<notin> set fl'"
    "n \<notin> slab_objs 24 ps - set fl" "slab_objs 24 ps' - set fl' = insert n (slab_objs 24 ps - set fl)"
    "set ps' \<subseteq> set ps \<union> avail_frames s" "slab_frame (node_cache ht) s s1"
    using slab_alloc_Ret [OF hD(1) al] by metis
  have fr: "bitmap_region s1 = bitmap_region s" "avail_frames s1 \<subseteq> avail_frames s"
    and same: "\<And>y. y \<notin> region (node_cache ht) 32 \<Longrightarrow> y \<notin> bitmap_region s \<Longrightarrow>
      \<forall>f \<in> avail_frames s. y \<notin> region f 4096 \<Longrightarrow> mem s1 y = mem s y"
    using a(7) by (simp_all add: slab_frame_def)
  have sep: "hash_sep ht ps' s1" using hD(2) fr a(6) unfolding hash_sep_def by blast
  have arr: "mem s1 y = mem s y" if "y \<in> bucket_array ht" for y
    using hD(2) that by (intro same) (auto simp: hash_sep_def)
  have node: "mem s1 y = mem s y" if "x \<in> slab_objs 24 ps - set fl" "y \<in> region x 24" for x y
    using slab_frame_live [OF hD(1) a(7)] that by blast
  show ?thesis
  proof (rule that [OF a(1) sep a(2-7)])
    show "hash_chains ht (slab_objs 24 ps - set fl) N (mem s1)"
      using arr node by (rule hash_chains_cong [OF hD(3) hD(5) subset_refl])
    show "hash_abs ht N (mem s1) = hash_abs ht N (mem s)"
      using node by (rule hash_abs_cong [OF hD(3) hD(4)])
  qed
qed

lemma hashtable_insert_eq:
  assumes "slab_alloc (node_cache ht) s = Ret n s1"
    and "region n 24 \<inter> region (bucket_slot ht (of_nat (bucket_of ht key))) 8 = {}"
  shows "hashtable_insert key v ht s = Ret (ht\<lparr>count := count ht + 1\<rparr>)
    (s1\<lparr>mem := write64 (node_init n key v (read64 (mem s1) (bucket_slot ht (of_nat (bucket_of ht key)))) (mem s1))
      (bucket_slot ht (of_nat (bucket_of ht key))) n\<rparr>)"
proof -
  have "region (node_key n) 8 \<inter> region (bucket_slot ht (of_nat (bucket_of ht key))) 8 = {}"
    "region (node_value n) 8 \<inter> region (bucket_slot ht (of_nat (bucket_of ht key))) 8 = {}"
    using assms(2) node_parts(1,2) [of n] by blast+
  then show ?thesis
    unfolding hashtable_insert_def assms(1) node_init_def
    by (simp add: Let_def bucket_slot_of store64_def read64_write64_disjoint)
qed

lemma hashtable_insert_ok:
  assumes h: "hash_inv d ht ps fl N s" and al: "slab_alloc (node_cache ht) s = Ret n s1"
  obtains ps' fl' t where "hashtable_insert key v ht s = Ret (ht\<lparr>count := count ht + 1\<rparr>) t"
    and "hash_inv d ht ps' fl' (N(bucket_of ht key := n # N (bucket_of ht key))) t"
    and "hash_abs ht (N(bucket_of ht key := n # N (bucket_of ht key))) (mem t) =
      (hash_abs ht N (mem s))(key := v # hash_abs ht N (mem s) key)"
    and "hash_frame ht ps s t" and "set ps' \<subseteq> set ps \<union> avail_frames s"
    and "\<exists>p. avail_frames s - {p} \<subseteq> avail_frames t"
proof -
  note hD = hash_invD [OF h]
  obtain ps' fl' where a: "slab_inv d (node_cache ht) 24 ps' fl' s1" "hash_sep ht ps' s1"
    "n \<in> slab_objs 24 ps'" "n \<notin> set fl'" "n \<notin> slab_objs 24 ps - set fl"
    "slab_objs 24 ps' - set fl' = insert n (slab_objs 24 ps - set fl)"
    "set ps' \<subseteq> set ps \<union> avail_frames s" "slab_frame (node_cache ht) s s1"
    "hash_chains ht (slab_objs 24 ps - set fl) N (mem s1)" "hash_abs ht N (mem s1) = hash_abs ht N (mem s)"
    using hash_alloc_node [OF h al] by metis
  let ?b = "bucket_of ht key"
  define slot where "slot = bucket_slot ht (of_nat ?b)"
  define m1 where "m1 = node_init n key v (read64 (mem s1) slot) (mem s1)"
  define t where "t = s1\<lparr>mem := write64 m1 slot n\<rparr>"
  have slot: "region slot 8 \<subseteq> bucket_array ht"
    unfolding slot_def by (rule bucket_slot_region [OF bucket_of_lt [OF hD(4)] hD(5)])
  have ap: "nodes_apart ht (insert n (slab_objs 24 ps - set fl))"
    using slab_inv_nodes_apart [OF a(1)] a(2,6) by (simp add: hash_sep_def)
  have n_array: "region n 24 \<inter> bucket_array ht = {}" by (rule nodes_apartD(2) [OF ap insertI1])
  have m1: "m1 y = mem s1 y" if "y \<notin> region n 24" for y
    using that by (simp add: m1_def node_init_outside)
  have i1: "slab_inv d (node_cache ht) 24 ps' fl' (s1\<lparr>mem := m1\<rparr>)"
    using m1 by (rule slab_inv_client [OF a(1,3,4)])
  have bm: "m1 y = mem s1 y" if "y \<in> bitmap_region s1" for y
    using m1 slab_live_region(2) [OF a(1,3,4)] that by blast
  have sep1: "hash_sep ht ps' (s1\<lparr>mem := m1\<rparr>)" using a(2) bm by (simp add: hash_sep_mem_cong)
  have w: "write64 m1 slot n y = mem (s1\<lparr>mem := m1\<rparr>) y" if "y \<notin> bucket_array ht" for y
    using that slot by (simp add: subset_iff) (metis write64_outside)
  note fin = slab_inv_array_write [OF i1 sep1 w, simplified, folded t_def]
  have "hashtable_insert key v ht s = Ret (ht\<lparr>count := count ht + 1\<rparr>) t"
    unfolding t_def m1_def slot_def using n_array slot by (intro hashtable_insert_eq al) (auto simp: slot_def)
  moreover have "hash_inv d ht ps' fl' (N(?b := n # N ?b)) t"
    using fin(1,2) chains_insert(1) [OF a(9) hD(5,4) ap a(5), of key v]
    by (simp add: hash_inv_def a(6) t_def m1_def slot_def)
  moreover have "hash_abs ht (N(?b := n # N ?b)) (mem t) =
      (hash_abs ht N (mem s))(key := v # hash_abs ht N (mem s) key)"
    using chains_insert(2) [OF a(9) hD(5,4) ap a(5), of key v] a(10)
    by (simp add: t_def m1_def slot_def)
  moreover have "hash_frame ht ps s t"
  proof -
    obtain p where p: "p \<in> set ps \<union> avail_frames s" "region n 24 \<subseteq> region p 4096"
      using slab_obj_in_page [OF a(3)] a(7) by blast
    have "mem t y = mem s y" if y: "y \<notin> hash_foot ht ps s" for y
    proof -
      have "y \<notin> bucket_array ht" "y \<notin> region n 24" using y p unfolding hash_foot_def by blast+
      then have "mem t y = mem s1 y" using w m1 by (simp add: t_def)
      also have "\<dots> = mem s y" using a(8) y by (simp add: slab_frame_def hash_foot_def)
      finally show ?thesis .
    qed
    moreover have "avail_frames t = avail_frames s1" "bitmap_region t = bitmap_region s1" "upper_same s1 t"
      using fin(3) bm by (simp_all add: t_def avail_frames_mem_cong upper_same_def)
    moreover have "tail_kept s1 t"
      unfolding t_def
    proof (rule tail_kept_mem)
      show "write64 m1 slot n y = mem s1 y" if "y \<in> bitmap_region s1" for y using fin(3) bm that by simp
      show "write64 m1 slot n y = mem s1 y" if "f \<in> avail_frames s1" "y \<in> region f 4096" for f y
      proof -
        have "y \<notin> bucket_array ht" using a(2) that unfolding hash_sep_def by blast
        moreover have "y \<notin> region n 24" using slab_live_region(3) [OF a(1,3,4) _ that(1)] that(2) by blast
        ultimately show ?thesis using w m1 by simp
      qed
    qed
    then have "tail_kept s t" using a(8) tail_kept_trans unfolding slab_frame_def by blast
    ultimately show ?thesis using a(8) by (simp add: hash_frame_def slab_frame_def upper_same_def)
  qed
  moreover have "\<exists>p. avail_frames s - {p} \<subseteq> avail_frames t"
  proof -
    have "avail_frames t = avail_frames s1" using fin(3) bm by (simp add: t_def avail_frames_mem_cong)
    then obtain p where "avail_frames s - (if fl = [] then {p} else {}) \<subseteq> avail_frames t"
      using slab_alloc_Ret [OF hD(1) al] by metis
    then show ?thesis by (auto split: if_splits)
  qed
  ultimately show ?thesis using a(7) by (intro that)
qed

text \<open>Removing a key.\<close>

lemma hash_unlink_node:
  assumes h: "hash_inv d ht ps fl N s" and b: "b < unat (nbuckets ht)" and N: "N b = us @ x # vs"
  defines "r \<equiv> last (bucket_slot ht (of_nat b) # map node_next us)"
  defines "t \<equiv> s\<lparr>mem := write64 (mem s) r (load64 s (node_next x))\<rparr>"
  shows "slab_inv d (node_cache ht) 24 ps fl t" and "hash_sep ht ps t"
    and "y \<in> bitmap_region s \<Longrightarrow> mem t y = mem s y"
proof -
  note hD = hash_invD [OF h]
  have us: "set us \<subseteq> slab_objs 24 ps - set fl" using hash_chainsD(3) [OF hD(3) b] N by auto
  have "slab_inv d (node_cache ht) 24 ps fl t \<and> hash_sep ht ps t \<and>
      (\<forall>y \<in> bitmap_region s. mem t y = mem s y)"
  proof (rule chain_ref_cases [of "bucket_slot ht (of_nat b)" us])
    assume "last (bucket_slot ht (of_nat b) # map node_next us) = bucket_slot ht (of_nat b)"
    then have r: "r = bucket_slot ht (of_nat b)" by (simp add: r_def)
    have "write64 (mem s) r (load64 s (node_next x)) y = mem s y" if "y \<notin> bucket_array ht" for y
      using that bucket_slot_region [OF b hD(5)] unfolding r by (blast intro: write64_outside)
    from slab_inv_array_write [OF hD(1,2) this] show ?thesis unfolding t_def by simp
  next
    fix k assume ks: "k \<in> set us" and "last (bucket_slot ht (of_nat b) # map node_next us) = node_next k"
    then have r: "r = node_next k" by (simp add: r_def)
    have k: "k \<in> slab_objs 24 ps" "k \<notin> set fl" using ks us by auto
    have w: "write64 (mem s) r v y = mem s y" if "y \<notin> region k 24" for y v
      using that node_parts(3) [of k] unfolding r by (blast intro: write64_outside)
    have bm: "write64 (mem s) r v y = mem s y" if "y \<in> bitmap_region s" for y v
      using w slab_live_region(2) [OF hD(1) k] that by blast
    have "slab_inv d (node_cache ht) 24 ps fl t"
      unfolding t_def using w by (rule slab_inv_client [OF hD(1) k])
    then show ?thesis using hD(2) bm by (simp add: t_def hash_sep_mem_cong)
  qed
  then show "slab_inv d (node_cache ht) 24 ps fl t" "hash_sep ht ps t"
    "y \<in> bitmap_region s \<Longrightarrow> mem t y = mem s y" by blast+
qed

lemma hashtable_remove_eq:
  assumes h: "hash_inv d ht ps fl N s" and N: "N (bucket_of ht key) = us @ x # vs"
    and keys: "\<forall>n \<in> set us. load64 s (node_key n) \<noteq> key" "load64 s (node_key x) = key"
  defines "r \<equiv> last (bucket_slot ht (of_nat (bucket_of ht key)) # map node_next us)"
  shows "hashtable_remove key ht s =
    andThen (slab_free (node_cache ht) x (s\<lparr>mem := write64 (mem s) r (load64 s (node_next x))\<rparr>))
      (\<lambda>_ s. Ret (ht\<lparr>count := count ht - 1\<rparr>) s)"
proof -
  note hD = hash_invD [OF h]
  note b = bucket_of_lt [OF hD(4), of key]
  have "hash_find_ref (bucket_slot ht (of_nat (bucket_of ht key))) key s = Some (Some r)"
    unfolding r_def using hash_chainsD(1) [OF hD(3) b] keys by (intro hash_find_ref_present) (simp_all add: N)
  moreover have "load64 s r = x"
    unfolding r_def by (rule chains_remove(1) [OF hD(3) hD(5) hash_inv_nodes [OF h] b N])
  ultimately show ?thesis
    unfolding hashtable_remove_def bucket_slot_of by (simp add: Let_def store64_def)
qed

lemma hashtable_remove_absent:
  assumes h: "hash_inv d ht ps fl N s" and "hash_abs ht N (mem s) key = []"
  shows "hashtable_remove key ht s = Ret ht s"
proof -
  note hD = hash_invD [OF h]
  have "hash_find_ref (bucket_slot ht (of_nat (bucket_of ht key))) key s = Some None"
    using hash_chainsD(1) [OF hD(3) bucket_of_lt [OF hD(4)]] assms(2)
    by (intro hash_find_ref_absent) (auto simp: hash_abs_def filter_empty_conv)
  then show ?thesis unfolding hashtable_remove_def bucket_slot_of by simp
qed

lemma hashtable_remove_present:
  assumes h: "hash_inv d ht ps fl N s" and N: "N (bucket_of ht key) = us @ x # vs"
    and keys: "\<forall>n \<in> set us. load64 s (node_key n) \<noteq> key" "load64 s (node_key x) = key"
  obtains t where "hashtable_remove key ht s = Ret (ht\<lparr>count := count ht - 1\<rparr>) t"
    and "hash_inv d ht ps (x # fl) (N(bucket_of ht key := us @ vs)) t"
    and "hash_abs ht (N(bucket_of ht key := us @ vs)) (mem t) =
      (hash_abs ht N (mem s))(key := tl (hash_abs ht N (mem s) key))"
    and "hash_frame ht ps s t" and "avail_frames t = avail_frames s"
proof -
  let ?b = "bucket_of ht key" and ?L = "slab_objs 24 ps - set fl"
  let ?N = "N(?b := us @ vs)"
  define r where "r = last (bucket_slot ht (of_nat ?b) # map node_next us)"
  define m1 where "m1 = write64 (mem s) r (load64 s (node_next x))"
  note hD = hash_invD [OF h]
  note b = bucket_of_lt [OF hD(4), of key]
  note ap = hash_inv_nodes [OF h]
  note inL = hash_chainsD(3) [OF hD(3) b, unfolded N]
  have x: "x \<in> slab_objs 24 ps" "x \<notin> set fl" and us: "set us \<subseteq> ?L" using inL by auto
  note un = hash_unlink_node [OF h b N, folded r_def, folded m1_def, simplified]
  note rm = chains_remove [OF hD(3) hD(5) ap b N, folded r_def, folded m1_def]
  obtain m2 where fr: "slab_free (node_cache ht) x (s\<lparr>mem := m1\<rparr>) = Ret () (s\<lparr>mem := m2\<rparr>)"
    and inv2: "slab_inv d (node_cache ht) 24 ps (x # fl) (s\<lparr>mem := m2\<rparr>)"
    and out2: "\<And>y. y \<notin> region (node_cache ht) 32 \<Longrightarrow> y \<notin> region x 8 \<Longrightarrow> m2 y = m1 y"
    by (rule slab_free_ok [OF un(1) x]) simp
  have x8: "region x 8 \<subseteq> region x 24" by (rule region_mono) simp
  have node2: "m2 y = m1 y" if "z \<in> ?L - {x}" "y \<in> region z 24" for z y
  proof (rule out2)
    show "y \<notin> region (node_cache ht) 32" using slab_live_region(1) [OF hD(1)] that by blast
    have "region x 24 \<inter> region z 24 = {}" using x that(1) by (intro nodes_apartD(3) [OF ap]) auto
    with x8 that(2) show "y \<notin> region x 8" by blast
  qed
  have arr2: "m2 y = m1 y" if "y \<in> bucket_array ht" for y
  proof (rule out2)
    show "y \<notin> region (node_cache ht) 32" using hD(2) that by (auto simp: hash_sep_def)
    show "y \<notin> region x 8" using nodes_apartD(2) [OF ap, of x] x x8 that by blast
  qed
  have bm2: "m2 y = mem s y" if "y \<in> bitmap_region s" for y
  proof -
    have "y \<notin> region x 8" "y \<notin> region (node_cache ht) 32"
      using slab_live_region(2) [OF hD(1) x] x8 hD(1) that by (auto simp: slab_inv_def slab_sep_def)
    then show ?thesis using out2 un(3) [OF that] by simp
  qed
  have "hash_chains ht (slab_objs 24 ps - set (x # fl)) ?N m2"
    using arr2 node2 by (intro hash_chains_cong [OF rm(2) hD(5)]) auto
  moreover have "hash_sep ht ps (s\<lparr>mem := m2\<rparr>)" using hD(2) bm2 by (simp add: hash_sep_mem_cong)
  ultimately have "hash_inv d ht ps (x # fl) ?N (s\<lparr>mem := m2\<rparr>)" using inv2 by (simp add: hash_inv_def)
  moreover have "hash_abs ht ?N m2 = (hash_abs ht N (mem s))(key := tl (hash_abs ht N (mem s) key))"
  proof -
    have "hash_abs ht ?N m2 = hash_abs ht ?N m1" using node2 by (rule hash_abs_cong [OF rm(2) hD(4)])
    also have "\<dots> = hash_abs ht ?N (mem s)"
      using hash_chainsD(3) [OF rm(2) bucket_of_lt [OF hD(4)]] rm(3,4)
      unfolding hash_abs_def fun_eq_iff by (intro allI map_cong filter_cong refl) auto
    also have "\<dots> = (hash_abs ht N (mem s))(key := tl (hash_abs ht N (mem s) key))"
      using N keys(2,1) by (rule hash_abs_remove)
    finally show ?thesis .
  qed
  moreover have "hash_frame ht ps s (s\<lparr>mem := m2\<rparr>)"
  proof -
    have pg: "y \<notin> region z 24" if "z \<in> ?L" "y \<notin> hash_foot ht ps s" for z y
      using slab_obj_in_page [of z 24 ps] that unfolding hash_foot_def by blast
    have "m2 y = mem s y" if y: "y \<notin> hash_foot ht ps s" for y
    proof -
      have "y \<notin> region x 8" using pg [of x y] x x8 y by blast
      then have "m2 y = m1 y" using y by (intro out2) (auto simp: hash_foot_def)
      moreover have "y \<notin> region r 8"
        using chain_ref_apart(6) [OF hD(5) ap b us, folded r_def, of y] pg us y
        unfolding hash_foot_def by blast
      ultimately show ?thesis by (simp add: m1_def write64_outside)
    qed
    moreover have "tail_kept s (s\<lparr>mem := m2\<rparr>)"
      using bm2
    proof (rule tail_kept_mem)
      fix f y assume f: "f \<in> avail_frames s" and y: "y \<in> region f 4096"
      have live: "y \<notin> region z 24" if "z \<in> ?L" for z
        using slab_live_region(3) [OF hD(1) _ _ _ f, of z y] that y by blast
      have "y \<notin> region x 8" using live [of x] x x8 by blast
      moreover have "y \<notin> region (node_cache ht) 32" using hD(1) f y by (auto simp: slab_inv_def slab_sep_def)
      ultimately have "m2 y = m1 y" by (intro out2)
      moreover have "y \<notin> region r 8"
        using chain_ref_apart(6) [OF hD(5) ap b us, folded r_def, of y] live us hD(2) f y
        unfolding hash_sep_def by blast
      ultimately show "m2 y = mem s y" by (simp add: m1_def write64_outside)
    qed
    ultimately show ?thesis using bm2 by (simp add: hash_frame_def avail_frames_mem_cong upper_same_def)
  qed
  moreover have "hashtable_remove key ht s = Ret (ht\<lparr>count := count ht - 1\<rparr>) (s\<lparr>mem := m2\<rparr>)"
    using hashtable_remove_eq [OF h N keys] fr by (simp add: r_def m1_def)
  moreover have "avail_frames (s\<lparr>mem := m2\<rparr>) = avail_frames s" using bm2 by (rule avail_frames_mem_cong)
  ultimately show ?thesis by (intro that [of "s\<lparr>mem := m2\<rparr>"]) simp_all
qed

subsection \<open>A new table\<close>

lemma run_region:
  assumes "4096 * n \<le> 2 ^ 64"
  shows "region (frame_addr s i) (4096 * n) \<subseteq> (\<Union>j \<in> {i..<i + n}. region (frame_addr s j) 4096)"
proof
  fix x assume "x \<in> region (frame_addr s i) (4096 * n)"
  then obtain k where k: "k < 4096 * n" "x = frame_addr s i + of_nat k"
    using assms by (auto simp: region_eq_image)
  let ?j = "k div 4096" and ?r = "k mod 4096"
  have j: "?j < n" using k(1) by (simp add: less_mult_imp_div_less mult.commute)
  have "(of_nat k :: u64) = of_nat (?j * 4096 + ?r)" by (simp only: div_mult_mod_eq)
  also have "\<dots> = of_nat ?j * 4096 + of_nat ?r" by (simp only: of_nat_add of_nat_mult of_nat_numeral)
  finally have "x = frame_addr s (i + ?j) + of_nat ?r"
    unfolding k(2) by (simp only: frame_addr_def PAGE_SIZE_def of_nat_add distrib_right add.assoc)
  moreover have "frame_addr s (i + ?j) + of_nat ?r \<in> region (frame_addr s (i + ?j)) 4096"
    by (rule region_off_mem) simp_all
  ultimately show "x \<in> (\<Union>j \<in> {i..<i + n}. region (frame_addr s j) 4096)" using j by auto
qed

lemma large_block_region:
  assumes "unat n + 4111 < 2 ^ 64"
  shows "region (frame_addr s i + 16) (unat n) \<subseteq>
    (\<Union>j \<in> {i..<i + large_pages n}. region (frame_addr s j) 4096)"
proof -
  have le: "16 + unat n \<le> 4096 * large_pages n" "4096 * large_pages n \<le> 2 ^ 64"
    using assms by (simp_all add: large_pages_def)
  then have "region (frame_addr s i + of_nat 16) (unat n) \<subseteq> region (frame_addr s i) (4096 * large_pages n)"
    by (rule region_off_subset)
  also have "\<dots> \<subseteq> (\<Union>j \<in> {i..<i + large_pages n}. region (frame_addr s j) 4096)"
    using le(2) by (rule run_region)
  finally show ?thesis by simp
qed

text \<open>Frames that were free and are taken now overlap nothing an allocator knows.\<close>

lemma taken_run_apart:
  assumes ok: "mm_ok d s" and J: "J \<subseteq> free_set s" and t: "free_set t = free_set s - J" "frame_addr t = frame_addr s"
    and inv: "slab_inv d c sz ps fl s" and j: "j \<in> J"
  shows "region (frame_addr s j) 4096 \<inter> bitmap_region s = {}"
    and "region (frame_addr s j) 4096 \<inter> region c 32 = {}"
    and "p \<in> set ps \<Longrightarrow> region (frame_addr s j) 4096 \<inter> region p 4096 = {}"
    and "f \<in> avail_frames t \<Longrightarrow> region (frame_addr s j) 4096 \<inter> region f 4096 = {}"
proof -
  have av: "frame_addr s j \<in> avail_frames s" using j J by (auto simp: avail_frames_def)
  have pg: "page (frame_addr s j)" using ok av by (rule avail_frames_page)
  show "region (frame_addr s j) 4096 \<inter> bitmap_region s = {}" using ok av by (auto simp: mm_ok_def)
  show "region (frame_addr s j) 4096 \<inter> region c 32 = {}"
    using inv av by (auto simp: slab_inv_def slab_sep_def)
  show "region (frame_addr s j) 4096 \<inter> region p 4096 = {}" if "p \<in> set ps"
    using slab_inv_pages(1) [OF inv] inv av that by (intro pages_disjoint pg) (auto simp: slab_inv_def slab_sep_def)
  assume "f \<in> avail_frames t"
  then obtain k where k: "k \<in> free_set s" "k \<notin> J" "f = frame_addr s k" using t by (auto simp: avail_frames_def)
  have "inj_on (frame_addr s) (free_set s)"
    using frame_addr_inj free_set_subset ok by (metis inj_on_subset mm_ok_def)
  then have "frame_addr s j \<noteq> f" using k j J by (metis inj_on_eq_iff subsetD)
  moreover have "page f" using ok k by (intro avail_frames_page [of d s]) (auto simp: avail_frames_def)
  ultimately show "region (frame_addr s j) 4096 \<inter> region f 4096 = {}" using pg by (intro pages_disjoint)
qed

lemma read64_zero: "(\<And>y. y \<in> region a 8 \<Longrightarrow> m y = 0) \<Longrightarrow> read64 m a = 0"
proof -
  assume "\<And>y. y \<in> region a 8 \<Longrightarrow> m y = 0"
  then have "read64 m a = read64 (\<lambda>_. 0) a" by (intro read64_cong) simp
  also have "\<dots> = 0" by (rule bit_word_eqI) (simp add: read64_def bit_load)
  finally show ?thesis .
qed

lemma empty_chains:
  assumes "unat (nbuckets ht) * 8 < 2 ^ 63" and "\<And>y. y \<in> bucket_array ht \<Longrightarrow> m y = 0"
  shows "hash_chains ht L (\<lambda>_. []) m"
proof -
  have "read64 m (bucket_slot ht (of_nat b)) = 0" if "b < unat (nbuckets ht)" for b
    using assms(2) bucket_slot_region [OF that assms(1)] by (intro read64_zero) blast
  then show ?thesis by (simp add: hash_chains_def)
qed

lemma hashtable_init_ok:
  assumes meta: "slab_inv d (cache_metadata_cache s) 32 ps fl s" "cache_meta_initialized s"
    and heap: "kheap_initialized s" and nb: "256 < unat nb" "8 * unat nb + 4111 < 2 ^ 63"
    and run: "next_fit s = Some i" "{i..<i + large_pages (8 * nb)} \<subseteq> free_set s"
    and room: "fl \<noteq> [] \<or> free_set s - {i..<i + large_pages (8 * nb)} \<noteq> {}"
  obtains c ps' fl' t where "hashtable_init nb ht s =
      Ret (ht\<lparr>buckets := frame_addr s i + 16, nbuckets := nb, count := 0, node_cache := c\<rparr>) t"
    and "hash_inv d (ht\<lparr>buckets := frame_addr s i + 16, nbuckets := nb, count := 0, node_cache := c\<rparr>) [] [] (\<lambda>_. []) t"
    and "slab_inv d (cache_metadata_cache s) 32 ps' fl' t"
    and "avail_frames t \<subseteq> avail_frames s" and "upper_same s t"
    and "\<exists>p. frame_addr s ` (free_set s - {i..<i + large_pages (8 * nb)}) - {p} \<subseteq> avail_frames t"
    and "c \<in> slab_objs 32 ps' - set fl'" and "set ps' \<subseteq> set ps \<union> avail_frames s"
    and "\<forall>p \<in> set ps'. region (frame_addr s i + 16) (8 * unat nb) \<inter> region p 4096 = {}"
    and "region (frame_addr s i + 16) (8 * unat nb) \<inter> region (cache_metadata_cache s) 32 = {}"
    and "region (frame_addr s i + 16) (8 * unat nb) \<subseteq> (\<Union>f \<in> avail_frames s. region f 4096)"
    and "length fl' + 1 = (if fl = [] then 127 else length fl)" and "bitmap_region t = bitmap_region s"
    and "\<And>y. y \<notin> region (cache_metadata_cache s) 32 \<Longrightarrow> y \<notin> bitmap_region s \<Longrightarrow>
      \<forall>f \<in> avail_frames s. y \<notin> region f 4096 \<Longrightarrow> \<forall>p \<in> set ps. y \<notin> region p 4096 \<Longrightarrow> mem t y = mem s y"
    and "tail_kept s t"
proof -
  let ?meta = "cache_metadata_cache s" and ?J = "{i..<i + large_pages (8 * nb)}"
  let ?a = "frame_addr s i + 16" and ?A = "region (frame_addr s i + 16) (8 * unat nb)"
  have ok: "mm_ok d s" using meta(1) by (simp add: slab_inv_def)
  have n8: "unat (8 * nb) = 8 * unat nb" using nb(2) by (simp add: unat_word_ariths)
  have pos: "i \<in> ?J" by (simp add: large_pages_def)
  have "2048 < 8 * nb" "unat (8 * nb) + 4111 < 2 ^ 64" using nb n8 by (simp_all add: word_less_nat_alt)
  then obtain s1 where K: "kmalloc (8 * nb) s = Ret ?a s1" "mm_ok d s1"
    "free_set s1 = free_set s - ?J" "frame_addr s1 = frame_addr s"
    "\<And>y. y \<notin> bitmap_region s \<Longrightarrow> y \<notin> region (frame_addr s i) 4096 \<Longrightarrow> mem s1 y = mem s y"
    "bitmap_region s1 = bitmap_region s" "upper_same s s1" "tail_kept s s1"
    using kmalloc_large [OF ok heap _ _ run] by metis
  note apart = taken_run_apart [OF ok run(2) K(3,4) meta(1)]
  have inA: "\<exists>j \<in> ?J. y \<in> region (frame_addr s j) 4096" if "y \<in> ?A" for y
    using large_block_region [of "8 * nb" s i] nb(2) that by (auto simp: n8)
  define s2 where "s2 = s1\<lparr>mem := memset ?a 0 (8 * nb) (mem s1)\<rparr>"
  have m2: "mem s2 y = (if y \<in> ?A then 0 else mem s1 y)" for y by (simp add: s2_def memset_eq n8)
  have bm2: "memset ?a 0 (8 * nb) (mem s1) y = mem s1 y" if "y \<in> bitmap_region s1" for y
  proof -
    have "y \<notin> ?A" using inA [of y] apart(1) that K(6) by blast
    then show ?thesis by (simp add: memset_eq n8)
  qed
  have av2: "avail_frames s2 = avail_frames s1" and ok2: "mm_ok d s2"
    using avail_frames_mem_cong [OF bm2] mm_ok_mem_cong [OF bm2] K(2) by (simp_all add: s2_def)
  have up2: "upper_same s s2" and bms2: "bitmap_region s2 = bitmap_region s"
    using K(6,7) by (simp_all add: s2_def upper_same_def)
  have avs: "avail_frames s1 \<subseteq> avail_frames s" using K(3,4) by (auto simp: avail_frames_def)
  have upm: "cache_metadata_cache s2 = ?meta" "cache_meta_initialized s2" using up2 meta(2) by (simp_all add: upper_same_def)
  have out2: "mem s2 y = mem s y" if "y \<notin> bitmap_region s" "\<forall>j \<in> ?J. y \<notin> region (frame_addr s j) 4096" for y
    using inA [of y] that pos K(5) [of y] by (auto simp: m2)
  have inv2: "slab_inv d (cache_metadata_cache s2) 32 ps fl s2"
    unfolding upm using meta(1) ok2 bms2 av2 [THEN equalityD1, THEN subset_trans, OF avs]
  proof (rule slab_inv_other)
    have sep: "slab_sep ?meta ps s" using meta(1) by (simp add: slab_inv_def)
    fix y assume "y \<in> region ?meta 32"
    then show "mem s2 y = mem s y" using sep apart(2) unfolding slab_sep_def by (intro out2) blast+
  next
    have sep: "slab_sep ?meta ps s" using meta(1) by (simp add: slab_inv_def)
    fix p y assume "p \<in> set ps" "y \<in> region p 4096"
    then show "mem s2 y = mem s y" using sep apart(3) unfolding slab_sep_def by (intro out2) blast+
  qed
  have "fl \<noteq> [] \<or> avail_frames s2 \<noteq> {}" unfolding av2 using room K(3) by (auto simp: avail_frames_def)
  then obtain c s3 where al: "slab_alloc (cache_metadata_cache s2) s2 = Ret c s3"
    using slab_alloc_returns [OF inv2] by metis
  have "unat (24 :: u64) \<le> 4080" by simp
  then obtain ps' fl' t where C: "slab_cache_create 24 s2 = Ret c t"
    "t = s3\<lparr>mem := cache_init c (slab_round 24) (mem s3)\<rparr>"
    "slab_inv d (cache_metadata_cache s2) 32 ps' fl' t" "slab_inv d c (unat (slab_round 24)) [] [] t"
    "c \<in> slab_objs 32 ps'" "slab_frame (cache_metadata_cache s2) s2 s3"
    "avail_frames t \<subseteq> avail_frames s2" "set ps' \<subseteq> set ps \<union> avail_frames s2"
    "\<exists>p. avail_frames s2 - (if fl = [] then {p} else {}) \<subseteq> avail_frames t"
    "c \<notin> set fl'" "length fl' + 1 = (if fl = [] then 127 else length fl)" "tail_kept s2 t"
    using slab_cache_create_ok [OF inv2 upm(2) _ al, of 24] by metis
  have "tail_kept s1 s2" unfolding s2_def
    using bm2
  proof (rule tail_kept_mem)
    fix f y assume "f \<in> avail_frames s1" "y \<in> region f 4096"
    then have "y \<notin> ?A" using inA [of y] apart(4) by blast
    then show "memset ?a 0 (8 * nb) (mem s1) y = mem s1 y" by (simp add: memset_eq n8)
  qed
  then have tail: "tail_kept s t" using K(8) C(12) tail_kept_trans by blast
  have bmt: "bitmap_region t = bitmap_region s" "upper_same s2 t"
    using C(2,6) bms2 by (simp_all add: slab_frame_def upper_same_def)
  obtain p where p: "p \<in> set ps'" "region c 32 \<subseteq> region p 4096" using slab_obj_in_page [OF C(5)] by blast
  have A_c: "?A \<inter> region c 32 = {}"
    using inA apart(3,4) p C(8) av2 by blast
  have A_p: "\<forall>p \<in> set ps'. ?A \<inter> region p 4096 = {}" "?A \<inter> region ?meta 32 = {}"
    using inA apart(2-4) C(8) av2 by blast+
  have A_s: "?A \<subseteq> (\<Union>f \<in> avail_frames s. region f 4096)"
    using inA run(2) by (fastforce simp: avail_frames_def)
  have ps': "set ps' \<subseteq> set ps \<union> avail_frames s" using C(8) av2 avs by blast
  have out: "mem t y = mem s y" if y: "y \<notin> region ?meta 32" "y \<notin> bitmap_region s"
    "\<forall>f \<in> avail_frames s. y \<notin> region f 4096" "\<forall>p \<in> set ps. y \<notin> region p 4096" for y
  proof -
    have "y \<notin> region c 32" using p ps' y(3,4) by blast
    then have "mem t y = mem s3 y" by (simp add: C(2) cache_init_outside)
    also have "\<forall>f \<in> avail_frames s2. y \<notin> region f 4096" using y(3) av2 avs by blast
    then have "mem s3 y = mem s2 y" using C(6) upm(1) bms2 y(1,2) by (simp add: slab_frame_def)
    also have "mem s2 y = mem s y"
      using run(2) y(2,3) by (intro out2) (auto simp: avail_frames_def)
    finally show ?thesis .
  qed
  have A_t: "?A \<inter> bitmap_region t = {}" "\<forall>p \<in> avail_frames t. ?A \<inter> region p 4096 = {}"
    using inA apart(1,4) C(7) bmt(1) av2 by blast+
  have zero: "mem t y = 0" if y: "y \<in> ?A" for y
  proof -
    have "y \<notin> region c 32" using A_c y by blast
    then have "mem t y = mem s3 y" by (simp add: C(2) cache_init_outside)
    also have "y \<notin> region ?meta 32" "y \<notin> bitmap_region s2" "\<forall>f \<in> avail_frames s2. y \<notin> region f 4096"
      using inA [OF y] apart(1,2,4) bms2 av2 by blast+
    then have "mem s3 y = mem s2 y" using C(6) upm(1) by (simp add: slab_frame_def)
    finally show ?thesis using y by (simp add: m2)
  qed
  let ?ht = "ht\<lparr>buckets := ?a, nbuckets := nb, count := 0, node_cache := c\<rparr>"
  have r24: "unat (slab_round 24) = 24" using unat_slab_round(1) [of 24] by simp
  have "hash_chains ?ht (slab_objs 24 [] - set []) (\<lambda>_. []) (mem t)"
    using nb zero by (intro empty_chains) simp_all
  moreover have "hash_sep ?ht [] t" using A_c A_t nb by (auto simp: hash_sep_def)
  ultimately have "hash_inv d ?ht [] [] (\<lambda>_. []) t" using C(4) r24 by (simp add: hash_inv_def)
  moreover have "hashtable_init nb ht s = Ret ?ht t"
    unfolding hashtable_init_def K(1) using C(1) by (simp add: Let_def s2_def)
  moreover have "upper_same s t" using up2 bmt(2) by (simp add: upper_same_def)
  ultimately have fin: "hash_inv d ?ht [] [] (\<lambda>_. []) t" "hashtable_init nb ht s = Ret ?ht t" "upper_same s t"
    by blast+
  have "avail_frames s2 = frame_addr s ` (free_set s - ?J)" unfolding av2 by (simp add: avail_frames_def K(3,4))
  moreover from C(9) obtain q where "avail_frames s2 - (if fl = [] then {q} else {}) \<subseteq> avail_frames t" by blast
  then have "avail_frames s2 - {q} \<subseteq> avail_frames t" by (auto split: if_splits)
  ultimately have "\<exists>p. frame_addr s ` (free_set s - ?J) - {p} \<subseteq> avail_frames t" by blast
  then show ?thesis
    using fin C(3,5,7,10,11) upm(1) av2 avs A_p A_s ps' out bmt(1) tail by (intro that [of c t ps' fl']) simp_all
qed

subsection \<open>The contract holds\<close>

lemma hash_total_update:
  assumes "b < unat (nbuckets ht)"
  shows "hash_total ht (N(b := xs)) + length (N b) = hash_total ht N + length xs"
proof -
  have "hash_total ht M = length (M b) + (\<Sum>c \<in> {..<unat (nbuckets ht)} - {b}. length (M c))" for M
    unfolding hash_total_def using assms by (intro sum.remove) simp_all
  moreover have "(\<Sum>c \<in> {..<unat (nbuckets ht)} - {b}. length ((N(b := xs)) c)) =
      (\<Sum>c \<in> {..<unat (nbuckets ht)} - {b}. length (N c))"
    by (rule sum.cong) auto
  ultimately show ?thesis by (simp add: fun_upd_same)
qed

lemma hash_total_count [simp]: "hash_total (ht\<lparr>count := k\<rparr>) = hash_total ht"
  by (simp add: hash_total_def fun_eq_iff)

lemma hash_repI:
  assumes "hash_inv d ht ps fl N s" and "hash_abs ht N (mem s) = M" and "k = of_nat (hash_total ht N)"
  shows "hash_rep (ht\<lparr>count := k\<rparr>, s) M"
  unfolding hash_rep_def using assms
  by (intro exI [of _ d] exI [of _ ps] exI [of _ fl] exI [of _ N]) simp

lemma hash_rep_insert:
  assumes "hash_rep (ht, s) M" and "hashtable_insert k v ht s = Ret ht' s'"
  shows "hash_rep (ht', s') (M(k := v # M k))"
proof -
  from assms(1) obtain d ps fl N where h: "hash_inv d ht ps fl N s" "M = hash_abs ht N (mem s)"
    "count ht = of_nat (hash_total ht N)" by (auto simp: hash_rep_def)
  from assms(2) obtain n s1 where "slab_alloc (node_cache ht) s = Ret n s1"
    unfolding hashtable_insert_def by (elim andThen_RetE)
  then obtain ps' fl' t where t: "hashtable_insert k v ht s = Ret (ht\<lparr>count := count ht + 1\<rparr>) t"
    "hash_inv d ht ps' fl' (N(bucket_of ht k := n # N (bucket_of ht k))) t"
    "hash_abs ht (N(bucket_of ht k := n # N (bucket_of ht k))) (mem t) = M(k := v # M k)"
    using hashtable_insert_ok [OF h(1)] h(2) by metis
  have "hash_total ht (N(bucket_of ht k := n # N (bucket_of ht k))) = Suc (hash_total ht N)"
    using hash_total_update [OF bucket_of_lt [OF hash_invD(4) [OF h(1)]], of N k "n # N (bucket_of ht k)"] by simp
  then have "count ht + 1 = of_nat (hash_total ht (N(bucket_of ht k := n # N (bucket_of ht k))))"
    using h(3) by simp
  with t(2,3) have "hash_rep (ht\<lparr>count := count ht + 1\<rparr>, t) (M(k := v # M k))" by (rule hash_repI)
  then show ?thesis using assms(2) t(1) by simp
qed

lemma hash_rep_remove:
  assumes "hash_rep (ht, s) M"
  shows "\<exists>ht' s'. hashtable_remove k ht s = Ret ht' s' \<and> hash_rep (ht', s') (M(k := tl (M k)))"
proof -
  from assms(1) obtain d ps fl N where h: "hash_inv d ht ps fl N s" "M = hash_abs ht N (mem s)"
    "count ht = of_nat (hash_total ht N)" by (auto simp: hash_rep_def)
  let ?P = "\<lambda>n. load64 s (node_key n) = k"
  show ?thesis
  proof (cases "\<exists>n \<in> set (N (bucket_of ht k)). ?P n")
    case False
    then have e: "hash_abs ht N (mem s) k = []" by (auto simp: hash_abs_def filter_empty_conv)
    then have "M(k := tl (M k)) = M" by (simp add: h(2) fun_upd_idem)
    with hashtable_remove_absent [OF h(1) e] assms show ?thesis by auto
  next
    case True
    then obtain us x vs where N: "N (bucket_of ht k) = us @ x # vs" "?P x" "\<forall>n \<in> set us. \<not> ?P n"
      by (rule split_list_first_propE)
    obtain t where t: "hashtable_remove k ht s = Ret (ht\<lparr>count := count ht - 1\<rparr>) t"
      "hash_inv d ht ps (x # fl) (N(bucket_of ht k := us @ vs)) t"
      "hash_abs ht (N(bucket_of ht k := us @ vs)) (mem t) = M(k := tl (M k))"
      using hashtable_remove_present [OF h(1) N(1,3,2)] h(2) by metis
    have "hash_total ht N = Suc (hash_total ht (N(bucket_of ht k := us @ vs)))"
      using hash_total_update [OF bucket_of_lt [OF hash_invD(4) [OF h(1)]], of N k "us @ vs"] N(1) by simp
    then have "count ht - 1 = of_nat (hash_total ht (N(bucket_of ht k := us @ vs)))" using h(3) by simp
    with t(2,3) have "hash_rep (ht\<lparr>count := count ht - 1\<rparr>, t) (M(k := tl (M k)))" by (rule hash_repI)
    with t(1) show ?thesis by blast
  qed
qed

lemma hash_rep_lookup: "hash_rep (ht, s) M \<Longrightarrow> hashtable_lookup k ht s = Ret (newest (M k)) s"
  by (auto simp: hash_rep_def newest_def hashtable_lookup_ok)

interpretation tab: key_table hash_rep table_insert table_lookup table_remove
proof
  fix t M k v t' assume "hash_rep t M" "table_insert k v t = Ret () t'"
  then show "hash_rep t' (M(k := v # M k))"
    by (cases t; cases "hashtable_insert k v (fst t) (snd t)")
      (auto simp: table_insert_def intro: hash_rep_insert)
next
  fix t M k assume "hash_rep t M"
  then show "table_lookup k t = Ret (newest (M k)) t" by (cases t) (simp add: hash_rep_lookup)
next
  fix t M k assume "hash_rep t M"
  then show "\<exists>t'. table_remove k t = Ret () t' \<and> hash_rep t' (M(k := tl (M k)))"
    using hash_rep_remove [of "fst t" "snd t" M k] by (auto simp: table_remove_def)
qed

subsection \<open>A machine with a hash table\<close>

definition hash_boot :: kstate where
  "hash_boot = heap_boot\<lparr>mem := cache_init 0x2000 32 (mem heap_boot), cache_meta_initialized := True,
     kheap_initialized := True\<rparr>"

lemma hash_boot_facts:
  "slab_inv 0 (cache_metadata_cache hash_boot) 32 [] [] hash_boot" "cache_meta_initialized hash_boot"
  "kheap_initialized hash_boot" "next_fit hash_boot = Some 5" "free_set hash_boot = {..<16}"
  "pmm_inv 0 hash_boot" "total_frames hash_boot = 16"
proof -
  let ?m = "cache_init 0x2000 32 (mem heap_boot)"
  have c: "cache_metadata_cache heap_boot = 0x2000" by (simp add: heap_boot_def)
  have bm: "?m y = mem heap_boot y" if "y \<in> bitmap_region heap_boot" for y
    using heap_boot_facts(3) that c by (intro cache_init_outside) (auto simp: slab_sep_def)
  have "slab_rep 0x2000 32 [] [] ?m" using cache_init_rep [of "0x2000" 32] by simp
  then have "slab_inv 0 0x2000 32 [] [] (heap_boot\<lparr>mem := ?m\<rparr>)"
    using heap_boot_facts(2,3) c mm_ok_mem_cong [OF bm] slab_sep_mem_cong [OF bm] by (simp add: slab_inv_def)
  then show inv: "slab_inv 0 (cache_metadata_cache hash_boot) 32 [] [] hash_boot"
    by (simp add: hash_boot_def c)
  then show "pmm_inv 0 hash_boot" by (simp add: slab_inv_def mm_ok_def)
  show "total_frames hash_boot = 16" using pmm_demo_facts(4) by (simp add: hash_boot_def heap_boot_def)
  show "cache_meta_initialized hash_boot" "kheap_initialized hash_boot" by (simp_all add: hash_boot_def)
  have "free_set (heap_boot\<lparr>mem := ?m\<rparr>) = free_set heap_boot" using bm by (rule free_set_mem_cong)
  then show fs: "free_set hash_boot = {..<16}"
    using pmm_demo_facts(1) by (simp add: hash_boot_def heap_boot_def free_set_def bitmap_test_def)
  show "next_fit hash_boot = Some 5"
    using fs pmm_demo_facts(1,5) by (simp add: next_fit_def hash_boot_def heap_boot_def)
qed

lemma hash_boot_run:
  "{5..<5 + large_pages (8 * 4096)} \<subseteq> free_set hash_boot"
  "free_set hash_boot - {5..<5 + large_pages (8 * 4096)} = {0, 1, 2, 3, 4, 14, 15}"
  "[] \<noteq> ([] :: u64 list) \<or> free_set hash_boot - {5..<5 + large_pages (8 * 4096)} \<noteq> {}"
  "256 < unat (4096 :: u64)" "8 * unat (4096 :: u64) + 4111 < 2 ^ 63"
proof -
  have lp: "large_pages (8 * 4096) = 9" by (simp add: large_pages_def)
  show "{5..<5 + large_pages (8 * 4096)} \<subseteq> free_set hash_boot" unfolding lp hash_boot_facts(5) by auto
  show "free_set hash_boot - {5..<5 + large_pages (8 * 4096)} = {0, 1, 2, 3, 4, 14, 15}"
    unfolding lp hash_boot_facts(5) by auto
  then show "[] \<noteq> ([] :: u64 list) \<or> free_set hash_boot - {5..<5 + large_pages (8 * 4096)} \<noteq> {}" by simp
qed simp_all

lemma hash_rep_new:
  assumes "hash_inv d ht ps fl (\<lambda>_. []) s" and "count ht = 0"
  shows "hash_rep (ht, s) (\<lambda>_. [])"
  unfolding hash_rep_def using assms
  by (intro exI [of _ d] exI [of _ ps] exI [of _ fl] exI [of _ "\<lambda>_. []"])
    (simp add: hash_total_def hash_abs_def fun_eq_iff)

lemma hash_rep_insert_returns:
  assumes "hash_rep (ht, s) M" and "avail_frames s \<noteq> {}"
  shows "\<exists>ht' s'. hashtable_insert k v ht s = Ret ht' s'"
proof -
  from assms(1) obtain d ps fl N where h: "hash_inv d ht ps fl N s" by (auto simp: hash_rep_def)
  obtain n s1 where "slab_alloc (node_cache ht) s = Ret n s1"
    using slab_alloc_returns [OF hash_invD(1) [OF h]] assms(2) by metis
  from hashtable_insert_ok [OF h this] show ?thesis by metis
qed

definition no_table :: hashtable where
  "no_table = \<lparr>buckets = NULL, nbuckets = 0, count = 0, node_cache = NULL\<rparr>"

lemma hash_demo:
  obtains ht t where "hashtable_init 4096 no_table hash_boot = Ret ht t" and "hash_rep (ht, t) (\<lambda>_. [])"
    and "avail_frames t \<noteq> {}"
proof -
  obtain c t where t: "hashtable_init 4096 no_table hash_boot =
      Ret (no_table\<lparr>buckets := frame_addr hash_boot 5 + 16, nbuckets := 4096, count := 0, node_cache := c\<rparr>) t" (is "_ = Ret ?ht _")
    "hash_inv 0 (no_table\<lparr>buckets := frame_addr hash_boot 5 + 16, nbuckets := 4096, count := 0, node_cache := c\<rparr>) [] [] (\<lambda>_. []) t"
    "\<exists>p. frame_addr hash_boot ` (free_set hash_boot - {5..<5 + large_pages (8 * 4096)}) - {p} \<subseteq> avail_frames t"
    using hashtable_init_ok [OF hash_boot_facts(1-3) hash_boot_run(4,5) hash_boot_facts(4) hash_boot_run(1,3), of no_table] by metis
  from t(2) have "hash_rep (?ht, t) (\<lambda>_. [])" by (rule hash_rep_new) simp
  moreover have "frame_addr hash_boot 0 \<noteq> frame_addr hash_boot 1"
    using inj_on_eq_iff [OF frame_addr_inj [OF hash_boot_facts(6)], of 0 1] hash_boot_facts(7) by simp
  then have "avail_frames t \<noteq> {}" using t(3) unfolding hash_boot_run(2) by auto
  ultimately show ?thesis using t(1) by (intro that)
qed

section \<open>Properties\<close>

text \<open>
  C5: the table is a map. Whatever sequence of insertions and removals runs on a table that
  represents the map \<open>M\<close>, the table then represents the map the sequence makes of \<open>M\<close>, and a
  lookup of any key returns, without changing anything, the newest value that was inserted for
  the key and not removed, or a null pointer if there is none.
\<close>

theorem hashtable_refines_map:
  assumes "hash_rep (ht, s) M" and "tab.run cs (ht, s) = Ret () (ht', s')"
  shows "hash_rep (ht', s') (fold table_spec cs M) \<and>
    hashtable_lookup k ht' s' = Ret (newest (fold table_spec cs M k)) s'"
  using tab.run_refines [OF assms] hash_rep_lookup by blast

theorem hashtable_refines_map_witness:
  "\<exists>ht s ht' s'. tab.run [Insert 7 70, Remove 9] (ht, s) = Ret () (ht', s') \<and>
     hashtable_lookup 7 ht' s' = Ret 70 s'"
proof -
  from hash_demo obtain ht t where r: "hash_rep (ht, t) (\<lambda>_. [])" "avail_frames t \<noteq> {}" by metis
  from hash_rep_insert_returns [OF r] obtain ht1 t1 where i: "hashtable_insert 7 70 ht t = Ret ht1 t1" by blast
  from hash_rep_remove [OF hash_rep_insert [OF r(1) i], of 9] obtain ht2 t2 where
    "hashtable_remove 9 ht1 t1 = Ret ht2 t2" by blast
  with i have e: "tab.run [Insert 7 70, Remove 9] (ht, t) = Ret () (ht2, t2)"
    by (simp add: table_insert_def table_remove_def)
  from hashtable_refines_map [OF r(1) e, of 7] e show ?thesis by (auto simp: newest_def)
qed

text \<open>
  insertion, lookup and removal go together. While the node cache can get memory, an
  insertion returns, the lookup of its key then finds the inserted value, and a removal of the
  key returns with the table representing what it did before the insertion: an older value
  of the same key is visible again, and every other key is untouched.
\<close>

theorem hashtable_insert_lookup_remove:
  assumes "hash_rep (ht, s) M" and "avail_frames s \<noteq> {}"
  shows "\<exists>ht1 s1 ht2 s2. hashtable_insert k v ht s = Ret ht1 s1 \<and> hashtable_lookup k ht1 s1 = Ret v s1 \<and>
    hashtable_remove k ht1 s1 = Ret ht2 s2 \<and> hash_rep (ht2, s2) M"
proof -
  from hash_rep_insert_returns [OF assms] obtain ht1 s1 where i: "hashtable_insert k v ht s = Ret ht1 s1" by blast
  note r = hash_rep_insert [OF assms(1) i]
  have "hashtable_lookup k ht1 s1 = Ret v s1" using hash_rep_lookup [OF r, of k] by (simp add: newest_def)
  moreover from hash_rep_remove [OF r, of k] obtain ht2 s2 where
    "hashtable_remove k ht1 s1 = Ret ht2 s2" "hash_rep (ht2, s2) M" by auto
  ultimately show ?thesis using i by blast
qed

theorem hashtable_insert_lookup_remove_witness:
  "\<exists>ht s ht1 s1. hash_rep (ht, s) (\<lambda>_. []) \<and> hashtable_insert 7 70 ht s = Ret ht1 s1 \<and>
     hashtable_lookup 7 ht1 s1 = Ret 70 s1"
proof -
  from hash_demo obtain ht t where r: "hash_rep (ht, t) (\<lambda>_. [])" "avail_frames t \<noteq> {}" by metis
  from hashtable_insert_lookup_remove [OF r, of 7 70] r(1) show ?thesis by blast
qed

text \<open>
  a new table is empty. With the metadata cache ready and a run of free frames for the
  bucket array at the position the frame allocator looks at next, \<^verbatim>\<open>hashtable_init\<close> returns a
  table of the requested number of buckets that represents the empty map, outside the memory
  of every allocator.
\<close>

theorem hashtable_init_empty:
  assumes "slab_inv d (cache_metadata_cache s) 32 ps fl s" and "cache_meta_initialized s"
    and "kheap_initialized s" and "256 < unat nb" and "8 * unat nb + 4111 < 2 ^ 63"
    and "next_fit s = Some i" and "{i..<i + large_pages (8 * nb)} \<subseteq> free_set s"
    and "fl \<noteq> [] \<or> free_set s - {i..<i + large_pages (8 * nb)} \<noteq> {}"
  shows "\<exists>ht' t. hashtable_init nb ht s = Ret ht' t \<and> nbuckets ht' = nb \<and>
    hash_rep (ht', t) (\<lambda>_. []) \<and> avail_frames t \<subseteq> avail_frames s"
proof -
  from hashtable_init_ok [OF assms] obtain c t where
    t: "hashtable_init nb ht s = Ret (ht\<lparr>buckets := frame_addr s i + 16, nbuckets := nb, count := 0, node_cache := c\<rparr>) t"
    "hash_inv d (ht\<lparr>buckets := frame_addr s i + 16, nbuckets := nb, count := 0, node_cache := c\<rparr>) [] [] (\<lambda>_. []) t"
    "avail_frames t \<subseteq> avail_frames s" by metis
  from hash_rep_new [OF t(2)] t(1,3) show ?thesis by auto
qed


theorem hashtable_init_empty_witness:
  "\<exists>ht t. hashtable_init 4096 no_table hash_boot = Ret ht t \<and> hash_rep (ht, t) (\<lambda>_. [])"
proof -
  from hashtable_init_empty [OF hash_boot_facts(1-3) hash_boot_run(4,5) hash_boot_facts(4) hash_boot_run(1,3), of no_table]
  show ?thesis by blast
qed

end
