(* ===== verification/Ob.thy ===== *)
theory Ob
  imports Hash
begin

text \<open>
  \<^verbatim>\<open>base/ob/ob.c\<close>: typed, reference-counted kernel objects. An object is a slab object of its
  type's cache: a header (\<^verbatim>\<open>object_header_t\<close>, 48 bytes) in front of the payload. A pointer to
  an \<^verbatim>\<open>object_type_t\<close> is its index in \<^verbatim>\<open>g_om.types\<close>. The \<^verbatim>\<open>create\<close> and \<^verbatim>\<open>destroy\<close> operations
  of a type are code of the type's owner: the record \<open>ob_calls\<close> says what a call through a
  function pointer does, and is an argument of the operations that make such calls.
\<close>

section \<open>Definitions\<close>

subsection \<open>Layout of an object header\<close>

definition obj_type_id :: "u64 \<Rightarrow> u64" where "obj_type_id x = x"
definition obj_refcount :: "u64 \<Rightarrow> u64" where "obj_refcount x = x + 4"
definition obj_handle_count :: "u64 \<Rightarrow> u64" where "obj_handle_count x = x + 8"
definition obj_generation :: "u64 \<Rightarrow> u64" where "obj_generation x = x + 12"
definition obj_object_id :: "u64 \<Rightarrow> u64" where "obj_object_id x = x + 16"
definition obj_lock :: "u64 \<Rightarrow> u64" where "obj_lock x = x + 24"
definition obj_destroyed :: "u64 \<Rightarrow> u64" where "obj_destroyed x = x + 28"

abbreviation load32 :: "kstate \<Rightarrow> u64 \<Rightarrow> u32" where "load32 s a \<equiv> read32 (mem s) a"

definition store32 :: "u64 \<Rightarrow> u32 \<Rightarrow> kstate \<Rightarrow> kstate" where
  "store32 a v s = s\<lparr>mem := write32 (mem s) a v\<rparr>"

subsection \<open>Operations\<close>

text \<open>Calls through function pointers: pointer, object, arguments.\<close>

record ob_calls =
  call_create :: "u64 \<Rightarrow> u64 \<Rightarrow> u64 \<Rightarrow> kstate \<Rightarrow> (u32, kstate) outcome"
  call_destroy :: "u64 \<Rightarrow> u64 \<Rightarrow> kstate \<Rightarrow> (unit, kstate) outcome"

definition ob_type_for :: "u32 \<Rightarrow> kstate \<Rightarrow> object_type" where
  "ob_type_for type_id s = om_types (g_om s) ! unat type_id"

definition set_om :: "(object_manager \<Rightarrow> object_manager) \<Rightarrow> kstate \<Rightarrow> kstate" where
  "set_om f s = s\<lparr>g_om := f (g_om s)\<rparr>"

definition set_type :: "u32 \<Rightarrow> (object_type \<Rightarrow> object_type) \<Rightarrow> kstate \<Rightarrow> kstate" where
  "set_type i f = set_om (\<lambda>om. om\<lparr>om_types := (om_types om)[unat i := f (om_types om ! unat i)]\<rparr>)"

definition ob_init :: "kstate \<Rightarrow> (unit, kstate) outcome" where
  "ob_init s =
     andThen (hashtable_init 4096 (id_table (g_om s)) s) (\<lambda>ht s.
       let s = set_om (\<lambda>om. om\<lparr>id_table := ht\<rparr>) s;
           s = spin_lock_init (table_lock (g_om s)) s;
           s = set_om (\<lambda>om. om\<lparr>next_object_id := 1\<rparr>) s
       in Ret () (set_om (\<lambda>om. om\<lparr>type_count := 0\<rparr>) s))"

definition object_type_register ::
  "string \<Rightarrow> u64 \<Rightarrow> object_type_ops \<Rightarrow> kstate \<Rightarrow> (u32, kstate) outcome" where
  "object_type_register name isize ops s =
     (let idx = type_count (g_om s);
          s = set_om (\<lambda>om. om\<lparr>type_count := idx + 1\<rparr>) s
      in if 64 \<le> idx then panic ''ob'' ''object type table full!'' [] s
         else
           let s = set_type idx (\<lambda>t. t\<lparr>ot_name := name\<rparr>) s;
               s = set_type idx (\<lambda>t. t\<lparr>instance_size := 48 + isize\<rparr>) s;
               s = set_type idx (\<lambda>t. t\<lparr>ot_ops := ops\<rparr>) s
           in andThen (slab_cache_create (instance_size (ob_type_for idx s)) s) (\<lambda>c s.
                Ret idx (set_type idx (\<lambda>t. t\<lparr>ot_slab := c\<rparr>) s)))"

text \<open>The end of \<^verbatim>\<open>object_create\<close>: the object goes into the table of ids.\<close>

definition object_publish :: "u64 \<Rightarrow> kstate \<Rightarrow> (u64, kstate) outcome" where
  "object_publish obj s =
     andThen (spin_lock (table_lock (g_om s)) s) (\<lambda>_ s.
     andThen (hashtable_insert (load64 s (obj_object_id obj)) obj (id_table (g_om s)) s) (\<lambda>ht s.
       let s = set_om (\<lambda>om. om\<lparr>id_table := ht\<rparr>) s
       in Ret obj (spin_unlock (table_lock (g_om s)) s)))"

definition object_header_init :: "u32 \<Rightarrow> u64 \<Rightarrow> kstate \<Rightarrow> kstate" where
  "object_header_init type obj s =
     (let s = store32 (obj_type_id obj) type s;
          s = store32 (obj_refcount obj) 1 s;
          s = store32 (obj_handle_count obj) 0 s;
          s = store32 (obj_generation obj) 0 s;
          oid = next_object_id (g_om s);
          s = set_om (\<lambda>om. om\<lparr>next_object_id := oid + 1\<rparr>) s;
          s = store64 (obj_object_id obj) (ucast oid) s
      in store32 (obj_lock obj) 0 s)"

definition object_create :: "ob_calls \<Rightarrow> u32 \<Rightarrow> u64 \<Rightarrow> kstate \<Rightarrow> (u64, kstate) outcome" where
  "object_create calls type args s =
     andThen (slab_alloc (ot_slab (ob_type_for type s)) s) (\<lambda>obj s.
       if obj = NULL then Ret NULL s
       else
         let s = object_header_init type obj s;
             create = op_create (ot_ops (ob_type_for type s))
         in andThen (if create \<noteq> 0 then call_create calls create obj args s else Ret 0 s) (\<lambda>err s.
              if err \<noteq> 0 then
                andThen (slab_free (ot_slab (ob_type_for type s)) obj s) (\<lambda>_ s. Ret NULL s)
              else object_publish obj s))"

definition object_ref :: "u64 \<Rightarrow> kstate \<Rightarrow> kstate" where
  "object_ref obj s = snd (atomic_fetch_add (obj_refcount obj) 1 s)"

text \<open>The part of \<^verbatim>\<open>object_maybe_destroy\<close> behind the decision.\<close>

definition object_destroy_now :: "ob_calls \<Rightarrow> u64 \<Rightarrow> kstate \<Rightarrow> (unit, kstate) outcome" where
  "object_destroy_now calls obj s =
     (let type = load32 s (obj_type_id obj);
          destroy = op_destroy (ot_ops (ob_type_for type s))
      in andThen (if destroy \<noteq> 0 then call_destroy calls destroy obj s else Ret () s) (\<lambda>_ s.
         andThen (spin_lock (table_lock (g_om s)) s) (\<lambda>_ s.
         andThen (hashtable_remove (load64 s (obj_object_id obj)) (id_table (g_om s)) s) (\<lambda>ht s.
           let s = set_om (\<lambda>om. om\<lparr>id_table := ht\<rparr>) s;
               s = spin_unlock (table_lock (g_om s)) s
           in slab_free (ot_slab (ob_type_for type s)) obj s))))"

definition object_maybe_destroy :: "ob_calls \<Rightarrow> u64 \<Rightarrow> kstate \<Rightarrow> (unit, kstate) outcome" where
  "object_maybe_destroy calls obj s =
     andThen (spin_lock (obj_lock obj) s) (\<lambda>_ s.
       let go = (atomic_load (obj_refcount obj) s = 0 \<and> atomic_load (obj_handle_count obj) s = 0 \<and>
                 mem s (obj_destroyed obj) = 0);
           s = (if go then store8 (obj_destroyed obj) 1 s else s);
           s = spin_unlock (obj_lock obj) s
       in if \<not> go then Ret () s else object_destroy_now calls obj s)"

definition object_deref :: "ob_calls \<Rightarrow> u64 \<Rightarrow> kstate \<Rightarrow> (unit, kstate) outcome" where
  "object_deref calls obj s =
     (case atomic_fetch_sub (obj_refcount obj) 1 s of
        (old_val, s) \<Rightarrow> if old_val = 1 then object_maybe_destroy calls obj s else Ret () s)"

text \<open>The operations of the test type.\<close>

definition test_object_create :: "u64 \<Rightarrow> u64 \<Rightarrow> kstate \<Rightarrow> (u32, kstate) outcome" where
  "test_object_create obj args s = Ret 0 (klog_info ''test'' ''object create callback'' [] s)"

definition test_object_destroy :: "u64 \<Rightarrow> kstate \<Rightarrow> (unit, kstate) outcome" where
  "test_object_destroy obj s =
     Ret () ((klog_info ''test'' ''object destroy callback'' [] s)\<lparr>g_test_destroyed := True\<rparr>)"

subsection \<open>The abstract view\<close>

text \<open>
  The object manager seen from one type: \<open>vps\<close> and \<open>vfl\<close> are the pages and the free objects of
  the type's cache, \<open>vhps\<close>, \<open>vhfl\<close> and \<open>vN\<close> the pages, free nodes and chains of the table of ids.
\<close>

record ob_view =
  vps :: "u64 list"
  vfl :: "u64 list"
  vhps :: "u64 list"
  vhfl :: "u64 list"
  vN :: "nat \<Rightarrow> u64 list"

definition cache_foot :: "u64 \<Rightarrow> u64 list \<Rightarrow> u64 set" where
  "cache_foot c ps = region c 32 \<union> (\<Union>p \<in> set ps. region p 4096)"

definition table_foot :: "hashtable \<Rightarrow> u64 list \<Rightarrow> u64 set" where
  "table_foot ht ps = bucket_array ht \<union> cache_foot (node_cache ht) ps"

text \<open>The memory below: the frame allocator's bitmap and the free frames.\<close>

definition pool_foot :: "kstate \<Rightarrow> u64 set" where
  "pool_foot s = bitmap_region s \<union> (\<Union>f \<in> avail_frames s. region f 4096)"

definition view_live :: "nat \<Rightarrow> ob_view \<Rightarrow> u64 set" where
  "view_live sz V = slab_objs sz (vps V) - set (vfl V)"

definition ob_core :: "nat \<Rightarrow> nat \<Rightarrow> u32 \<Rightarrow> ob_view \<Rightarrow> kstate \<Rightarrow> bool" where
  "ob_core d sz i V s \<longleftrightarrow>
     unat i < length (om_types (g_om s)) \<and> 48 \<le> sz \<and>
     slab_inv d (ot_slab (ob_type_for i s)) sz (vps V) (vfl V) s \<and>
     hash_inv d (id_table (g_om s)) (vhps V) (vhfl V) (vN V) s \<and>
     cache_foot (ot_slab (ob_type_for i s)) (vps V) \<inter> table_foot (id_table (g_om s)) (vhps V) = {} \<and>
     region (table_lock (g_om s)) 4 \<inter>
       (cache_foot (ot_slab (ob_type_for i s)) (vps V) \<union> table_foot (id_table (g_om s)) (vhps V) \<union> pool_foot s) = {}"

definition ob_inv :: "nat \<Rightarrow> nat \<Rightarrow> u32 \<Rightarrow> ob_view \<Rightarrow> kstate \<Rightarrow> bool" where
  "ob_inv d sz i V s \<longleftrightarrow> ob_core d sz i V s \<and> load32 s (table_lock (g_om s)) = 0"

text \<open>The map from object ids to objects.\<close>

definition ob_ids :: "ob_view \<Rightarrow> kstate \<Rightarrow> u64 \<Rightarrow> u64 list" where
  "ob_ids V s = hash_abs (id_table (g_om s)) (vN V) (mem s)"

text \<open>An object of the type that nobody is working on.\<close>

definition obj_ok :: "nat \<Rightarrow> u32 \<Rightarrow> ob_view \<Rightarrow> u64 \<Rightarrow> kstate \<Rightarrow> bool" where
  "obj_ok sz i V x s \<longleftrightarrow> x \<in> view_live sz V \<and> load32 s (obj_type_id x) = i \<and> load32 s (obj_lock x) = 0"

section \<open>Lemmas\<close>

subsection \<open>Memory elsewhere\<close>

lemma foot_cases:
  "y \<in> region c 32 \<Longrightarrow> y \<in> cache_foot c ps" "p \<in> set ps \<Longrightarrow> y \<in> region p 4096 \<Longrightarrow> y \<in> cache_foot c ps"
  "y \<in> bucket_array ht \<Longrightarrow> y \<in> table_foot ht ps" "y \<in> cache_foot (node_cache ht) ps \<Longrightarrow> y \<in> table_foot ht ps"
  "y \<in> bitmap_region s \<Longrightarrow> y \<in> pool_foot s" "f \<in> avail_frames s \<Longrightarrow> y \<in> region f 4096 \<Longrightarrow> y \<in> pool_foot s"
  by (auto simp: cache_foot_def table_foot_def pool_foot_def)

lemma hash_foot_eq: "hash_foot ht ps s = table_foot ht ps \<union> pool_foot s"
  by (auto simp: hash_foot_def table_foot_def cache_foot_def pool_foot_def)

lemma slab_foot_pool:
  assumes "slab_inv d c sz ps fl s"
  shows "cache_foot c ps \<inter> pool_foot s = {}"
proof -
  have ok: "mm_ok d s" and sep: "slab_sep c ps s" using assms by (simp_all add: slab_inv_def)
  have pf: "\<forall>p \<in> set ps. \<forall>f \<in> avail_frames s. region p 4096 \<inter> region f 4096 = {}"
    using slab_inv_pages(1) [OF assms] avail_frames_page [OF ok] sep
    by (intro ballI pages_disjoint) (auto simp: slab_sep_def)
  have "bitmap_region s \<inter> region c 32 = {}" "\<forall>f \<in> avail_frames s. region c 32 \<inter> region f 4096 = {}"
    "\<forall>p \<in> set ps. bitmap_region s \<inter> region p 4096 = {}" using sep by (simp_all add: slab_sep_def)
  with pf show ?thesis unfolding cache_foot_def pool_foot_def by blast
qed

lemma table_foot_pool:
  "hash_inv d ht ps fl N s \<Longrightarrow> table_foot ht ps \<inter> pool_foot s = {}"
  using slab_foot_pool [OF hash_invD(1)] hash_invD(2) [of d ht ps fl N s]
  unfolding table_foot_def pool_foot_def hash_sep_def by blast

lemma slab_live_foot:
  "x \<in> slab_objs sz ps \<Longrightarrow> region x sz \<subseteq> cache_foot c ps"
  using slab_obj_in_page unfolding cache_foot_def by blast

lemma slab_inv_elsewhere:
  assumes "slab_inv d c sz ps fl s" and "mm_ok d t" and "bitmap_region t = bitmap_region s"
    and "avail_frames t \<subseteq> avail_frames s" and "\<And>y. y \<in> cache_foot c ps \<Longrightarrow> mem t y = mem s y"
  shows "slab_inv d c sz ps fl t"
  using assms(1-4) by (rule slab_inv_other) (use assms(5) foot_cases in blast)+

lemma hash_inv_elsewhere:
  assumes h: "hash_inv d ht ps fl N s" and t: "mm_ok d t" "bitmap_region t = bitmap_region s"
    "avail_frames t \<subseteq> avail_frames s" and m: "\<And>y. y \<in> table_foot ht ps \<Longrightarrow> mem t y = mem s y"
  shows "hash_inv d ht ps fl N t" and "hash_abs ht N (mem t) = hash_abs ht N (mem s)"
proof -
  note hD = hash_invD [OF h]
  have node: "mem t y = mem s y" if "x \<in> slab_objs 24 ps - set fl" "y \<in> region x 24" for x y
    using slab_live_foot [of x 24 ps "node_cache ht"] that by (intro m) (auto simp: table_foot_def)
  have arr: "mem t y = mem s y" if "y \<in> bucket_array ht" for y
    using that by (intro m) (simp add: table_foot_def)
  have "slab_inv d (node_cache ht) 24 ps fl t"
    using hD(1) t by (rule slab_inv_elsewhere) (simp add: m table_foot_def)
  moreover have "hash_sep ht ps t" using hD(2) t(2,3) unfolding hash_sep_def by blast
  moreover have "hash_chains ht (slab_objs 24 ps - set fl) N (mem t)"
    using arr node by (rule hash_chains_cong [OF hD(3,5) subset_refl])
  ultimately show "hash_inv d ht ps fl N t" by (simp add: hash_inv_def)
  show "hash_abs ht N (mem t) = hash_abs ht N (mem s)" using node by (rule hash_abs_cong [OF hD(3,4)])
qed

lemma ob_coreD:
  assumes "ob_core d sz i V s"
  shows "slab_inv d (ot_slab (ob_type_for i s)) sz (vps V) (vfl V) s"
    and "hash_inv d (id_table (g_om s)) (vhps V) (vhfl V) (vN V) s"
    and "cache_foot (ot_slab (ob_type_for i s)) (vps V) \<inter> table_foot (id_table (g_om s)) (vhps V) = {}"
    and "region (table_lock (g_om s)) 4 \<inter> cache_foot (ot_slab (ob_type_for i s)) (vps V) = {}"
    and "region (table_lock (g_om s)) 4 \<inter> table_foot (id_table (g_om s)) (vhps V) = {}"
    and "region (table_lock (g_om s)) 4 \<inter> pool_foot s = {}"
    and "mm_ok d s" and "48 \<le> sz" and "unat i < length (om_types (g_om s))"
  using assms by (auto simp: ob_core_def slab_inv_def)

lemma ob_type_for_mem [simp]: "ob_type_for i (s\<lparr>mem := m\<rparr>) = ob_type_for i s"
  by (simp add: ob_type_for_def)

lemma pool_foot_mem_cong:
  "(\<And>y. y \<in> bitmap_region s \<Longrightarrow> m y = mem s y) \<Longrightarrow> pool_foot (s\<lparr>mem := m\<rparr>) = pool_foot s"
  by (simp add: pool_foot_def avail_frames_mem_cong)

text \<open>A write outside of the cache, the table and the pool changes none of them.\<close>

lemma ob_core_lock:
  assumes "ob_core d sz i V s" and m: "\<And>y. y \<notin> region (table_lock (g_om s)) 4 \<Longrightarrow> m y = mem s y"
  shows "ob_core d sz i V (s\<lparr>mem := m\<rparr>)" and "ob_ids V (s\<lparr>mem := m\<rparr>) = ob_ids V s"
    and "avail_frames (s\<lparr>mem := m\<rparr>) = avail_frames s"
proof -
  note D = ob_coreD [OF assms(1)]
  have bm: "m y = mem s y" if "y \<in> bitmap_region s" for y
    using D(6) that by (intro m) (auto simp: pool_foot_def)
  have t: "mm_ok d (s\<lparr>mem := m\<rparr>)" "bitmap_region (s\<lparr>mem := m\<rparr>) = bitmap_region s"
    and av: "avail_frames (s\<lparr>mem := m\<rparr>) = avail_frames s"
    using D(7) mm_ok_mem_cong [OF bm] avail_frames_mem_cong [OF bm] by simp_all
  show "avail_frames (s\<lparr>mem := m\<rparr>) = avail_frames s" by (fact av)
  have tab: "mem (s\<lparr>mem := m\<rparr>) y = mem s y" if "y \<in> table_foot (id_table (g_om s)) (vhps V)" for y
    using D(5) that m [of y] by auto
  have "slab_inv d (ot_slab (ob_type_for i s)) sz (vps V) (vfl V) (s\<lparr>mem := m\<rparr>)"
    using D(1) t equalityD1 [OF av] by (rule slab_inv_elsewhere) (use D(4) m in auto)
  moreover note hash_inv_elsewhere [OF D(2) t equalityD1 [OF av] tab]
  ultimately show "ob_core d sz i V (s\<lparr>mem := m\<rparr>)" "ob_ids V (s\<lparr>mem := m\<rparr>) = ob_ids V s"
    using assms(1) pool_foot_mem_cong [OF bm] by (simp_all add: ob_core_def ob_ids_def)
qed

lemma ob_core_client:
  assumes "ob_core d sz i V s" and x: "x \<in> view_live sz V"
    and m: "\<And>y. y \<notin> region x sz \<Longrightarrow> m y = mem s y"
  shows "ob_core d sz i V (s\<lparr>mem := m\<rparr>)" and "ob_ids V (s\<lparr>mem := m\<rparr>) = ob_ids V s"
    and "avail_frames (s\<lparr>mem := m\<rparr>) = avail_frames s"
    and "y \<in> region (table_lock (g_om s)) 4 \<Longrightarrow> m y = mem s y"
proof -
  note D = ob_coreD [OF assms(1)]
  have xs: "x \<in> slab_objs sz (vps V)" "x \<notin> set (vfl V)" using x by (auto simp: view_live_def)
  have xf: "region x sz \<subseteq> cache_foot (ot_slab (ob_type_for i s)) (vps V)" using xs(1) by (rule slab_live_foot)
  have bm: "m y = mem s y" if "y \<in> bitmap_region s" for y
    using slab_live_region(2) [OF D(1) xs] that by (intro m) blast
  have t: "mm_ok d (s\<lparr>mem := m\<rparr>)" "bitmap_region (s\<lparr>mem := m\<rparr>) = bitmap_region s"
    and av: "avail_frames (s\<lparr>mem := m\<rparr>) = avail_frames s"
    using D(7) mm_ok_mem_cong [OF bm] avail_frames_mem_cong [OF bm] by simp_all
  show "avail_frames (s\<lparr>mem := m\<rparr>) = avail_frames s" by (fact av)
  have tab: "mem (s\<lparr>mem := m\<rparr>) y = mem s y" if "y \<in> table_foot (id_table (g_om s)) (vhps V)" for y
    using D(3) xf that m [of y] by auto
  have "slab_inv d (ot_slab (ob_type_for i s)) sz (vps V) (vfl V) (s\<lparr>mem := m\<rparr>)"
    using m by (rule slab_inv_client [OF D(1) xs])
  moreover note hash_inv_elsewhere [OF D(2) t equalityD1 [OF av] tab]
  ultimately show "ob_core d sz i V (s\<lparr>mem := m\<rparr>)" "ob_ids V (s\<lparr>mem := m\<rparr>) = ob_ids V s"
    using assms(1) pool_foot_mem_cong [OF bm] by (simp_all add: ob_core_def ob_ids_def)
  show "m y = mem s y" if "y \<in> region (table_lock (g_om s)) 4" for y
    using D(4) xf that by (intro m) blast
qed

subsection \<open>The fields of an object\<close>

lemmas obj_layout = obj_type_id_def obj_refcount_def obj_handle_count_def obj_generation_def
  obj_object_id_def obj_lock_def obj_destroyed_def

lemma obj_parts:
  "region (obj_type_id x) 4 \<subseteq> region x 48" "region (obj_refcount x) 4 \<subseteq> region x 48"
  "region (obj_handle_count x) 4 \<subseteq> region x 48" "region (obj_generation x) 4 \<subseteq> region x 48"
  "region (obj_object_id x) 8 \<subseteq> region x 48" "region (obj_lock x) 4 \<subseteq> region x 48"
  "region (obj_destroyed x) 1 \<subseteq> region x 48"
  using region_off_subset [of 0 4 48 x] region_off_subset [of 4 4 48 x]
    region_off_subset [of 8 4 48 x] region_off_subset [of 12 4 48 x]
    region_off_subset [of 16 8 48 x] region_off_subset [of 24 4 48 x]
    region_off_subset [of 28 1 48 x]
  by (simp_all add: obj_layout)

lemma obj_fields_apart:
  "region (obj_refcount x) 4 \<inter> region (obj_type_id x) 4 = {}" "region (obj_handle_count x) 4 \<inter> region (obj_type_id x) 4 = {}"
  "region (obj_handle_count x) 4 \<inter> region (obj_refcount x) 4 = {}" "region (obj_generation x) 4 \<inter> region (obj_type_id x) 4 = {}"
  "region (obj_generation x) 4 \<inter> region (obj_refcount x) 4 = {}" "region (obj_generation x) 4 \<inter> region (obj_handle_count x) 4 = {}"
  "region (obj_object_id x) 8 \<inter> region (obj_type_id x) 4 = {}" "region (obj_object_id x) 8 \<inter> region (obj_refcount x) 4 = {}"
  "region (obj_object_id x) 8 \<inter> region (obj_handle_count x) 4 = {}" "region (obj_object_id x) 8 \<inter> region (obj_generation x) 4 = {}"
  "region (obj_lock x) 4 \<inter> region (obj_type_id x) 4 = {}" "region (obj_lock x) 4 \<inter> region (obj_refcount x) 4 = {}"
  "region (obj_lock x) 4 \<inter> region (obj_handle_count x) 4 = {}" "region (obj_lock x) 4 \<inter> region (obj_generation x) 4 = {}"
  "region (obj_lock x) 4 \<inter> region (obj_object_id x) 8 = {}"
  "region (obj_type_id x) 4 \<inter> region (obj_destroyed x) 1 = {}" "region (obj_refcount x) 4 \<inter> region (obj_destroyed x) 1 = {}"
  "region (obj_handle_count x) 4 \<inter> region (obj_destroyed x) 1 = {}" "region (obj_generation x) 4 \<inter> region (obj_destroyed x) 1 = {}"
  "region (obj_object_id x) 8 \<inter> region (obj_destroyed x) 1 = {}" "region (obj_lock x) 4 \<inter> region (obj_destroyed x) 1 = {}"
  using region_off_disjoint [of 4 4 0 4 x] region_off_disjoint [of 8 4 0 4 x]
    region_off_disjoint [of 8 4 4 4 x] region_off_disjoint [of 12 4 0 4 x]
    region_off_disjoint [of 12 4 4 4 x] region_off_disjoint [of 12 4 8 4 x]
    region_off_disjoint [of 16 8 0 4 x] region_off_disjoint [of 16 8 4 4 x]
    region_off_disjoint [of 16 8 8 4 x] region_off_disjoint [of 16 8 12 4 x]
    region_off_disjoint [of 24 4 0 4 x] region_off_disjoint [of 24 4 4 4 x]
    region_off_disjoint [of 24 4 8 4 x] region_off_disjoint [of 24 4 12 4 x]
    region_off_disjoint [of 24 4 16 8 x] region_off_disjoint [of 0 4 28 1 x]
    region_off_disjoint [of 4 4 28 1 x] region_off_disjoint [of 8 4 28 1 x]
    region_off_disjoint [of 12 4 28 1 x] region_off_disjoint [of 16 8 28 1 x]
    region_off_disjoint [of 24 4 28 1 x]
  by (simp_all add: obj_layout)

lemma region_1: "region a (Suc 0) = {a}"
  by (auto simp: region_def unat_eq_0)

lemma destroyed_apart: "region b n \<inter> region (obj_destroyed x) 1 = {} \<Longrightarrow> obj_destroyed x \<notin> region b n"
  by (simp add: region_1)

text \<open>The header \<^verbatim>\<open>object_create\<close> writes.\<close>

definition header_init :: "u32 \<Rightarrow> u64 \<Rightarrow> u64 \<Rightarrow> memory \<Rightarrow> memory" where
  "header_init ty oid x m =
     write32 (write64 (write32 (write32 (write32 (write32 m (obj_type_id x) ty) (obj_refcount x) 1)
       (obj_handle_count x) 0) (obj_generation x) 0) (obj_object_id x) oid) (obj_lock x) 0"

lemma header_init_fields:
  "read32 (header_init ty oid x m) (obj_type_id x) = ty"
  "read32 (header_init ty oid x m) (obj_refcount x) = 1"
  "read32 (header_init ty oid x m) (obj_handle_count x) = 0"
  "read32 (header_init ty oid x m) (obj_generation x) = 0"
  "read64 (header_init ty oid x m) (obj_object_id x) = oid"
  "read32 (header_init ty oid x m) (obj_lock x) = 0"
  using obj_fields_apart [of x] by (simp_all add: header_init_def mem_simps rw_disjoint)

lemma header_init_outside:
  assumes "y \<notin> region x 48"
  shows "header_init ty oid x m y = m y"
proof -
  have "y \<notin> region (obj_type_id x) 4" "y \<notin> region (obj_refcount x) 4" "y \<notin> region (obj_handle_count x) 4"
    "y \<notin> region (obj_generation x) 4" "y \<notin> region (obj_object_id x) 8" "y \<notin> region (obj_lock x) 4"
    using assms obj_parts [of x] by blast+
  then show ?thesis by (simp add: header_init_def write32_outside write64_outside)
qed

lemma object_header_init_eq:
  "object_header_init ty x s =
    s\<lparr>mem := header_init ty (ucast (next_object_id (g_om s))) x (mem s),
      g_om := (g_om s)\<lparr>next_object_id := next_object_id (g_om s) + 1\<rparr>\<rparr>"
  by (simp add: object_header_init_def header_init_def set_om_def store32_def store64_def Let_def)

subsection \<open>Changes outside memory\<close>

lemma upper_fields_ob [simp]:
  "bitmap_region (s\<lparr>g_om := g\<rparr>) = bitmap_region s" "bitmap_region (s\<lparr>uart_out := out\<rparr>) = bitmap_region s"
  "bitmap_region (s\<lparr>g_test_destroyed := b\<rparr>) = bitmap_region s"
  "hash_inv d ht ps fl N (s\<lparr>g_om := g\<rparr>) = hash_inv d ht ps fl N s"
  "hash_inv d ht ps fl N (s\<lparr>uart_out := out\<rparr>) = hash_inv d ht ps fl N s"
  "hash_inv d ht ps fl N (s\<lparr>g_test_destroyed := b\<rparr>) = hash_inv d ht ps fl N s"
  "pool_foot (s\<lparr>g_om := g\<rparr>) = pool_foot s" "pool_foot (s\<lparr>uart_out := out\<rparr>) = pool_foot s"
  "pool_foot (s\<lparr>g_test_destroyed := b\<rparr>) = pool_foot s"
  "ob_type_for i (s\<lparr>uart_out := out\<rparr>) = ob_type_for i s"
  "ob_type_for i (s\<lparr>g_test_destroyed := b\<rparr>) = ob_type_for i s"
  "ob_type_for i (s\<lparr>g_om := (g_om s)\<lparr>next_object_id := k\<rparr>\<rparr>) = ob_type_for i s"
  "ob_type_for i (s\<lparr>g_om := (g_om s)\<lparr>id_table := ht\<rparr>\<rparr>) = ob_type_for i s"
  by (simp_all add: bitmap_region_def hash_inv_def hash_sep_def pool_foot_def ob_type_for_def)

lemma ob_core_fields [simp]:
  "ob_core d sz i V (s\<lparr>uart_out := out\<rparr>) = ob_core d sz i V s"
  "ob_core d sz i V (s\<lparr>g_test_destroyed := b\<rparr>) = ob_core d sz i V s"
  "ob_core d sz i V (s\<lparr>g_om := (g_om s)\<lparr>next_object_id := k\<rparr>\<rparr>) = ob_core d sz i V s"
  "ob_ids V (s\<lparr>uart_out := out\<rparr>) = ob_ids V s" "ob_ids V (s\<lparr>g_test_destroyed := b\<rparr>) = ob_ids V s"
  "ob_ids V (s\<lparr>g_om := (g_om s)\<lparr>next_object_id := k\<rparr>\<rparr>) = ob_ids V s"
  by (simp_all add: ob_core_def ob_ids_def)

lemma table_foot_count [simp]: "table_foot (ht\<lparr>count := k\<rparr>) = table_foot ht"
  by (simp add: table_foot_def fun_eq_iff)

subsection \<open>Allocating an object\<close>

text \<open>The bytes of the live objects.\<close>

definition objs_same :: "nat \<Rightarrow> u64 set \<Rightarrow> kstate \<Rightarrow> kstate \<Rightarrow> bool" where
  "objs_same sz X s t \<longleftrightarrow> (\<forall>x \<in> X. \<forall>y \<in> region x sz. mem t y = mem s y)"

lemma objs_same_trans: "objs_same sz X s t \<Longrightarrow> objs_same sz X t u \<Longrightarrow> objs_same sz X s u"
  by (simp add: objs_same_def)

lemma objs_same_mono: "objs_same sz X s t \<Longrightarrow> Y \<subseteq> X \<Longrightarrow> objs_same sz Y s t"
  by (auto simp: objs_same_def)

lemma objs_same_fields:
  assumes "objs_same sz X s t" and "x \<in> X" and "48 \<le> sz"
  shows "load32 t (obj_type_id x) = load32 s (obj_type_id x)"
    and "load32 t (obj_refcount x) = load32 s (obj_refcount x)"
    and "load32 t (obj_handle_count x) = load32 s (obj_handle_count x)"
    and "load32 t (obj_generation x) = load32 s (obj_generation x)"
    and "load64 t (obj_object_id x) = load64 s (obj_object_id x)"
    and "load32 t (obj_lock x) = load32 s (obj_lock x)"
    and "mem t (obj_destroyed x) = mem s (obj_destroyed x)"
proof -
  have m: "mem t y = mem s y" if "y \<in> region x 48" for y
    using assms region_mono [of 48 sz x] that by (auto simp: objs_same_def)
  then show "load32 t (obj_type_id x) = load32 s (obj_type_id x)"
    "load32 t (obj_refcount x) = load32 s (obj_refcount x)"
    "load32 t (obj_handle_count x) = load32 s (obj_handle_count x)"
    "load32 t (obj_generation x) = load32 s (obj_generation x)"
    "load64 t (obj_object_id x) = load64 s (obj_object_id x)"
    "load32 t (obj_lock x) = load32 s (obj_lock x)"
    using obj_parts [of x] by (blast intro: read32_cong read64_cong)+
  show "mem t (obj_destroyed x) = mem s (obj_destroyed x)"
    using obj_parts(7) [of x] by (intro m) (simp add: region_1)
qed

text \<open>
  What the object manager leaves alone beside the objects: everything but memory, the allocator's
  counters, the console and its own variables; and it writes to no frame that stays free.
\<close>

definition ob_frame :: "kstate \<Rightarrow> kstate \<Rightarrow> bool" where
  "ob_frame s t \<longleftrightarrow> upper_same s (t\<lparr>g_om := g_om s\<rparr>) \<and> tail_kept s t \<and> bitmap_region t = bitmap_region s"

lemma tail_kept_fields [simp]:
  "tail_kept s (t\<lparr>g_om := g\<rparr>) = tail_kept s t" "tail_kept s (t\<lparr>uart_out := out\<rparr>) = tail_kept s t"
  "tail_kept s (t\<lparr>g_test_destroyed := b\<rparr>) = tail_kept s t" "tail_kept (s\<lparr>g_om := g\<rparr>) t = tail_kept s t"
  "tail_kept (s\<lparr>uart_out := out\<rparr>) t = tail_kept s t"
  by (simp_all add: tail_kept_def free_tail_def free_set_def bitmap_test_def)

lemma ob_frame_fields [simp]:
  "ob_frame s (t\<lparr>g_om := g\<rparr>) = ob_frame s t" "ob_frame s (t\<lparr>uart_out := out\<rparr>) = ob_frame s t"
  "ob_frame (s\<lparr>g_om := g\<rparr>) t = ob_frame s t" "ob_frame (s\<lparr>uart_out := out\<rparr>) t = ob_frame s t"
  by (simp_all add: ob_frame_def upper_same_def)

lemma ob_frame_refl [simp]: "ob_frame s s"
  by (simp add: ob_frame_def upper_same_def)

lemma ob_frame_trans: "ob_frame s t \<Longrightarrow> ob_frame t u \<Longrightarrow> ob_frame s u"
  using tail_kept_trans by (auto simp: ob_frame_def upper_same_def)

lemma ob_frameD:
  assumes "ob_frame s t"
  shows "g_test_destroyed t = g_test_destroyed s" and "kheap_initialized t = kheap_initialized s"
    and "arch t = arch s" and "tail_kept s t" and "sreg t = sreg s" and "global_ticks t = global_ticks s"
    and "cache_metadata_cache t = cache_metadata_cache s" and "kernel_page_table t = kernel_page_table s"
  using assms by (simp_all add: ob_frame_def upper_same_def)

lemma ob_frame_slab: "slab_frame c s t \<Longrightarrow> ob_frame s t"
  by (simp add: ob_frame_def slab_frame_def upper_same_def)

lemma ob_frame_hash: "hash_frame ht ps s t \<Longrightarrow> ob_frame s t"
  by (simp add: ob_frame_def hash_frame_def upper_same_def)

lemma ob_frame_mem:
  assumes "\<And>y. y \<in> pool_foot s \<Longrightarrow> m y = mem s y"
  shows "ob_frame s (s\<lparr>mem := m\<rparr>)"
proof -
  have "tail_kept s (s\<lparr>mem := m\<rparr>)" using assms foot_cases(5,6) by (intro tail_kept_mem) blast+
  then show ?thesis by (simp add: ob_frame_def upper_same_def)
qed

lemma ob_pages_grow:
  assumes D: "ob_core d sz i V s" and ps: "set ps' \<subseteq> set (vps V) \<union> avail_frames s" and av: "pool_foot t \<subseteq> pool_foot s"
  shows "cache_foot (ot_slab (ob_type_for i s)) ps' \<inter> table_foot (id_table (g_om s)) (vhps V) = {}"
    and "region (table_lock (g_om s)) 4 \<inter>
      (cache_foot (ot_slab (ob_type_for i s)) ps' \<union> table_foot (id_table (g_om s)) (vhps V) \<union> pool_foot t) = {}"
proof -
  note C = ob_coreD [OF D]
  have "cache_foot (ot_slab (ob_type_for i s)) ps' \<subseteq> cache_foot (ot_slab (ob_type_for i s)) (vps V) \<union> pool_foot s"
    using ps unfolding cache_foot_def pool_foot_def by blast
  then show "cache_foot (ot_slab (ob_type_for i s)) ps' \<inter> table_foot (id_table (g_om s)) (vhps V) = {}"
    "region (table_lock (g_om s)) 4 \<inter>
      (cache_foot (ot_slab (ob_type_for i s)) ps' \<union> table_foot (id_table (g_om s)) (vhps V) \<union> pool_foot t) = {}"
    using C(3-6) table_foot_pool [OF C(2)] av by blast+
qed

lemma slab_frame_pool: "slab_frame c s t \<Longrightarrow> pool_foot t \<subseteq> pool_foot s"
  unfolding slab_frame_def pool_foot_def by blast

lemma ob_alloc:
  assumes core: "ob_core d sz i V s" and al: "slab_alloc (ot_slab (ob_type_for i s)) s = Ret x t"
  obtains ps fl where "ob_core d sz i (V\<lparr>vps := ps, vfl := fl\<rparr>) t" and "x \<notin> view_live sz V"
    and "view_live sz (V\<lparr>vps := ps, vfl := fl\<rparr>) = insert x (view_live sz V)"
    and "ob_ids V t = ob_ids V s" and "objs_same sz (view_live sz V) s t" and "g_om t = g_om s"
    and "load32 t (table_lock (g_om s)) = load32 s (table_lock (g_om s))"
    and "x \<noteq> NULL" and "\<exists>p. avail_frames s - {p} \<subseteq> avail_frames t" and "ob_frame s t"
proof -
  note D = ob_coreD [OF core]
  obtain ps fl where A: "slab_inv d (ot_slab (ob_type_for i s)) sz ps fl t" "x \<in> slab_objs sz ps"
    "x \<notin> slab_objs sz (vps V) - set (vfl V)"
    "slab_objs sz ps - set fl = insert x (slab_objs sz (vps V) - set (vfl V))"
    "set ps \<subseteq> set (vps V) \<union> avail_frames s" "slab_frame (ot_slab (ob_type_for i s)) s t"
    "\<exists>p. avail_frames s - (if vfl V = [] then {p} else {}) \<subseteq> avail_frames t"
    using slab_alloc_Ret [OF D(1) al] by metis
  have g: "g_om t = g_om s" and av: "bitmap_region t = bitmap_region s" "avail_frames t \<subseteq> avail_frames s"
    and out: "\<And>y. y \<notin> region (ot_slab (ob_type_for i s)) 32 \<Longrightarrow> y \<notin> pool_foot s \<Longrightarrow> mem t y = mem s y"
    using A(6) by (simp_all add: slab_frame_def upper_same_def pool_foot_def)
  have ty: "ob_type_for i t = ob_type_for i s" by (simp add: ob_type_for_def g)
  have ok: "mm_ok d t" using A(1) by (simp add: slab_inv_def)
  have tab: "mem t y = mem s y" if "y \<in> table_foot (id_table (g_om s)) (vhps V)" for y
    using D(3) table_foot_pool [OF D(2)] that foot_cases(1) by (intro out) blast+
  note H = hash_inv_elsewhere [OF D(2) ok av tab]
  have "ob_core d sz i (V\<lparr>vps := ps, vfl := fl\<rparr>) t"
    unfolding ob_core_def ty g using D(8,9) A(1) H(1) ob_pages_grow [OF core A(5) slab_frame_pool [OF A(6)]]
    by simp
  moreover have "view_live sz (V\<lparr>vps := ps, vfl := fl\<rparr>) = insert x (view_live sz V)"
    using A(4) by (simp add: view_live_def)
  moreover have "objs_same sz (view_live sz V) s t"
    using slab_frame_live [OF D(1) A(6)] by (auto simp: objs_same_def view_live_def)
  moreover have "load32 t (table_lock (g_om s)) = load32 s (table_lock (g_om s))"
    using D(4,6) foot_cases(1) by (intro read32_cong out) blast+
  moreover have "x \<noteq> NULL"
    using slab_inv_live(3) [OF D(1)] al slab.alloc_fresh by blast
  moreover from A(7) have "\<exists>p. avail_frames s - {p} \<subseteq> avail_frames t" by (auto split: if_splits)
  ultimately show ?thesis using A(3) H(2) g ob_frame_slab [OF A(6)]
    by (intro that) (simp_all add: ob_ids_def view_live_def)
qed

subsection \<open>The table of ids\<close>

lemma hash_frame_pool: "hash_frame ht ps s t \<Longrightarrow> pool_foot t \<subseteq> pool_foot s"
  unfolding hash_frame_def pool_foot_def by blast

text \<open>An operation on the table spares the objects and the lock.\<close>

lemma ob_core_table:
  fixes k :: u32
  assumes core: "ob_core d sz i V s" and fr: "hash_frame (id_table (g_om s)) (vhps V) s t"
    and h: "hash_inv d (id_table (g_om s)) ps fl N t" and ps: "set ps \<subseteq> set (vhps V) \<union> avail_frames s"
  defines "u \<equiv> t\<lparr>g_om := (g_om t)\<lparr>id_table := (id_table (g_om s))\<lparr>count := k\<rparr>\<rparr>\<rparr>"
    and "V' \<equiv> V\<lparr>vhps := ps, vhfl := fl, vN := N\<rparr>"
  shows "ob_core d sz i V' u" and "objs_same sz (view_live sz V) s u"
    and "load32 u (table_lock (g_om s)) = load32 s (table_lock (g_om s))"
    and "g_om u = (g_om s)\<lparr>id_table := (id_table (g_om s))\<lparr>count := k\<rparr>\<rparr>"
    and "ob_ids V' u = hash_abs (id_table (g_om s)) N (mem t)"
    and "avail_frames u = avail_frames t" and "ob_frame s u"
proof -
  note D = ob_coreD [OF core]
  have g: "g_om t = g_om s" and av: "bitmap_region t = bitmap_region s" "avail_frames t \<subseteq> avail_frames s"
    and out: "\<And>y. y \<notin> table_foot (id_table (g_om s)) (vhps V) \<Longrightarrow> y \<notin> pool_foot s \<Longrightarrow> mem t y = mem s y"
    using fr by (simp_all add: hash_frame_def upper_same_def hash_foot_eq)
  show gu: "g_om u = (g_om s)\<lparr>id_table := (id_table (g_om s))\<lparr>count := k\<rparr>\<rparr>" by (simp add: u_def g)
  have ty: "ob_type_for i u = ob_type_for i s" by (simp add: ob_type_for_def gu)
  have ok: "mm_ok d t" using hash_invD(1) [OF h] by (simp add: slab_inv_def)
  have obj: "mem t y = mem s y" if "y \<in> cache_foot (ot_slab (ob_type_for i s)) (vps V)" for y
    using D(3) slab_foot_pool [OF D(1)] that by (intro out) blast+
  have S: "slab_inv d (ot_slab (ob_type_for i s)) sz (vps V) (vfl V) t"
    using D(1) ok av obj by (rule slab_inv_elsewhere)
  have "table_foot (id_table (g_om s)) ps \<subseteq> table_foot (id_table (g_om s)) (vhps V) \<union> pool_foot s"
    using ps unfolding table_foot_def cache_foot_def pool_foot_def by blast
  then have "cache_foot (ot_slab (ob_type_for i s)) (vps V) \<inter> table_foot (id_table (g_om s)) ps = {}"
    "region (table_lock (g_om s)) 4 \<inter> (cache_foot (ot_slab (ob_type_for i s)) (vps V) \<union>
       table_foot (id_table (g_om s)) ps \<union> pool_foot t) = {}"
    using D(3-6) slab_foot_pool [OF D(1)] hash_frame_pool [OF fr] by blast+
  then show "ob_core d sz i V' u"
    unfolding ob_core_def ty gu using D(8,9) S h by (simp add: u_def V'_def)
  show "objs_same sz (view_live sz V) s u"
    using obj slab_live_foot by (fastforce simp: objs_same_def view_live_def u_def)
  show "load32 u (table_lock (g_om s)) = load32 s (table_lock (g_om s))"
    using D(5,6) unfolding u_def by (simp, intro read32_cong out) blast+
  show "ob_ids V' u = hash_abs (id_table (g_om s)) N (mem t)" by (simp add: ob_ids_def V'_def u_def)
  show "avail_frames u = avail_frames t" by (simp add: u_def)
  show "ob_frame s u" using ob_frame_hash [OF fr] by (simp add: u_def)
qed

text \<open>Taking and releasing the table's lock.\<close>

lemma ob_inv_lock:
  assumes "ob_inv d sz i V s"
  defines "t \<equiv> s\<lparr>mem := write32 (mem s) (table_lock (g_om s)) 1\<rparr>"
  shows "spin_lock (table_lock (g_om s)) s = Ret () t" and "ob_core d sz i V t"
    and "ob_ids V t = ob_ids V s" and "avail_frames t = avail_frames s" and "objs_same sz (view_live sz V) s t"
    and "g_om t = g_om s" and "ob_frame s t"
proof -
  have core: "ob_core d sz i V s" and free: "load32 s (table_lock (g_om s)) = 0"
    using assms(1) by (simp_all add: ob_inv_def)
  have out: "write32 (mem s) (table_lock (g_om s)) 1 y = mem s y" if "y \<notin> region (table_lock (g_om s)) 4" for y
    using that by (rule write32_outside)
  show "ob_core d sz i V t" "ob_ids V t = ob_ids V s" "avail_frames t = avail_frames s"
    unfolding t_def using ob_core_lock [OF core out] by simp_all
  show "spin_lock (table_lock (g_om s)) s = Ret () t" unfolding t_def using free by (rule spin_lock_free)
  have "region x sz \<inter> region (table_lock (g_om s)) 4 = {}" if "x \<in> view_live sz V" for x
    using ob_coreD(4) [OF core] slab_live_foot [of x sz "vps V" "ot_slab (ob_type_for i s)"] that
    by (auto simp: view_live_def)
  then show "objs_same sz (view_live sz V) s t" unfolding objs_same_def t_def using out by auto
  show "g_om t = g_om s" by (simp add: t_def)
  show "ob_frame s t" unfolding t_def using ob_coreD(6) [OF core] by (intro ob_frame_mem out) blast
qed

lemma ob_core_unlock:
  assumes core: "ob_core d sz i V s"
  shows "ob_inv d sz i V (spin_unlock (table_lock (g_om s)) s)"
    and "ob_ids V (spin_unlock (table_lock (g_om s)) s) = ob_ids V s"
    and "avail_frames (spin_unlock (table_lock (g_om s)) s) = avail_frames s"
    and "objs_same sz (view_live sz V) s (spin_unlock (table_lock (g_om s)) s)"
    and "g_om (spin_unlock (table_lock (g_om s)) s) = g_om s"
    and "ob_frame s (spin_unlock (table_lock (g_om s)) s)"
proof -
  have out: "write32 (mem s) (table_lock (g_om s)) 0 y = mem s y" if "y \<notin> region (table_lock (g_om s)) 4" for y
    using that by (rule write32_outside)
  show "ob_inv d sz i V (spin_unlock (table_lock (g_om s)) s)"
    "ob_ids V (spin_unlock (table_lock (g_om s)) s) = ob_ids V s"
    "avail_frames (spin_unlock (table_lock (g_om s)) s) = avail_frames s"
    using ob_core_lock [OF core out] by (simp_all add: ob_inv_def spin_unlock_eq mem_simps)
  have "region x sz \<inter> region (table_lock (g_om s)) 4 = {}" if "x \<in> view_live sz V" for x
    using ob_coreD(4) [OF core] slab_live_foot [of x sz "vps V" "ot_slab (ob_type_for i s)"] that
    by (auto simp: view_live_def)
  then show "objs_same sz (view_live sz V) s (spin_unlock (table_lock (g_om s)) s)"
    unfolding objs_same_def spin_unlock_eq using out by auto
  show "g_om (spin_unlock (table_lock (g_om s)) s) = g_om s" by (simp add: spin_unlock_eq)
  show "ob_frame s (spin_unlock (table_lock (g_om s)) s)"
    unfolding spin_unlock_eq using ob_coreD(6) [OF core] by (intro ob_frame_mem out) blast
qed

text \<open>Entering an object into the table of ids.\<close>

lemma object_publish_ok:
  assumes inv: "ob_inv d sz i V s" and x: "x \<in> view_live sz V" and room: "vhfl V \<noteq> [] \<or> avail_frames s \<noteq> {}"
  obtains V' t where "object_publish x s = Ret x t" and "ob_inv d sz i V' t" and "view_live sz V' = view_live sz V"
    and "ob_ids V' t = (ob_ids V s)(load64 s (obj_object_id x) := x # ob_ids V s (load64 s (obj_object_id x)))"
    and "objs_same sz (view_live sz V) s t" and "next_object_id (g_om t) = next_object_id (g_om s)"
    and "om_types (g_om t) = om_types (g_om s)" and "ob_frame s t" and "\<exists>p. avail_frames s - {p} \<subseteq> avail_frames t"
proof -
  let ?ht = "id_table (g_om s)" and ?id = "load64 s (obj_object_id x)"
  note L = ob_inv_lock [OF inv]
  let ?l = "s\<lparr>mem := write32 (mem s) (table_lock (g_om s)) 1\<rparr>"
  note D = ob_coreD [OF L(2)]
  have id: "load64 ?l (obj_object_id x) = ?id" using objs_same_fields(5) [OF L(5) x D(8)] .
  have h: "hash_inv d ?ht (vhps V) (vhfl V) (vN V) ?l" using D(2) by simp
  have "vhfl V \<noteq> [] \<or> avail_frames ?l \<noteq> {}" using room L(4) by simp
  then obtain n s1 where al: "slab_alloc (node_cache ?ht) ?l = Ret n s1"
    using slab_alloc_returns [OF hash_invD(1) [OF h]] by metis
  obtain ps fl t where T: "hashtable_insert ?id x ?ht ?l = Ret (?ht\<lparr>count := count ?ht + 1\<rparr>) t"
    "hash_inv d ?ht ps fl ((vN V)(bucket_of ?ht ?id := n # vN V (bucket_of ?ht ?id))) t"
    "hash_abs ?ht ((vN V)(bucket_of ?ht ?id := n # vN V (bucket_of ?ht ?id))) (mem t) =
      (hash_abs ?ht (vN V) (mem ?l))(?id := x # hash_abs ?ht (vN V) (mem ?l) ?id)"
    "hash_frame ?ht (vhps V) ?l t" "set ps \<subseteq> set (vhps V) \<union> avail_frames ?l"
    "\<exists>p. avail_frames ?l - {p} \<subseteq> avail_frames t"
    using hashtable_insert_ok [OF h al, of ?id x] by metis
  define u where "u = t\<lparr>g_om := (g_om t)\<lparr>id_table := ?ht\<lparr>count := count ?ht + 1\<rparr>\<rparr>\<rparr>"
  define V' where "V' = V\<lparr>vhps := ps, vhfl := fl, vN := (vN V)(bucket_of ?ht ?id := n # vN V (bucket_of ?ht ?id))\<rparr>"
  have fr: "hash_frame (id_table (g_om ?l)) (vhps V) ?l t"
    and h': "hash_inv d (id_table (g_om ?l)) ps fl ((vN V)(bucket_of ?ht ?id := n # vN V (bucket_of ?ht ?id))) t"
    using T(2,4) by simp_all
  note C = ob_core_table [OF L(2) fr h' T(5), of "count ?ht + 1", simplified, folded u_def, folded V'_def]
  note U = ob_core_unlock [OF C(1)]
  have vl: "view_live sz V' = view_live sz V" by (simp add: V'_def view_live_def)
  have "object_publish x s = Ret x (spin_unlock (table_lock (g_om u)) u)"
    unfolding object_publish_def L(1) using T(1) id by (simp add: set_om_def u_def Let_def)
  moreover have "ob_ids V' (spin_unlock (table_lock (g_om u)) u) = (ob_ids V s)(?id := x # ob_ids V s ?id)"
    unfolding U(2) C(5) T(3) using L(3) by (simp add: ob_ids_def)
  moreover have "objs_same sz (view_live sz V) s (spin_unlock (table_lock (g_om u)) u)"
    using L(5) C(2) U(4) unfolding vl by (blast intro: objs_same_trans)
  moreover have "g_om t = g_om s" using T(4) by (simp add: hash_frame_def upper_same_def)
  then have "next_object_id (g_om u) = next_object_id (g_om s)" "om_types (g_om u) = om_types (g_om s)"
    by (simp_all add: u_def)
  moreover have "ob_frame s u" using ob_frame_trans [OF L(7) C(7)] by (simp add: u_def)
  then have "ob_frame s (spin_unlock (table_lock (g_om u)) u)" using U(6) by (rule ob_frame_trans)
  moreover have "\<exists>p. avail_frames s - {p} \<subseteq> avail_frames (spin_unlock (table_lock (g_om u)) u)"
    using T(6) U(3) C(6) L(4) by (simp add: u_def)
  ultimately show ?thesis
    using U(1,5) vl by (intro that [of "spin_unlock (table_lock (g_om u)) u" V']) simp_all
qed

subsection \<open>The operations of a type\<close>

text \<open>
  What the object manager expects of a \<^verbatim>\<open>create\<close> or \<^verbatim>\<open>destroy\<close> operation: it returns, and it
  writes only the payload of its object (and the console, and the flag of the test type).
\<close>

definition callback_step :: "nat \<Rightarrow> u64 \<Rightarrow> kstate \<Rightarrow> kstate \<Rightarrow> bool" where
  "callback_step n x s t \<longleftrightarrow>
     (\<exists>m out b. t = s\<lparr>mem := m, uart_out := out, g_test_destroyed := b\<rparr> \<and>
        (\<forall>y. y \<notin> region (x + 48) (n - 48) \<longrightarrow> m y = mem s y))"

definition create_contract :: "ob_calls \<Rightarrow> u64 \<Rightarrow> u64 \<Rightarrow> nat \<Rightarrow> u32 \<Rightarrow> bool" where
  "create_contract calls f args n err \<longleftrightarrow>
     (if f = 0 then err = 0
      else \<forall>x s. \<exists>t. call_create calls f x args s = Ret err t \<and> callback_step n x s t)"

definition destroy_contract :: "ob_calls \<Rightarrow> u64 \<Rightarrow> nat \<Rightarrow> bool" where
  "destroy_contract calls f n \<longleftrightarrow>
     (f \<noteq> 0 \<longrightarrow> (\<forall>x s. \<exists>t. call_destroy calls f x s = Ret () t \<and> callback_step n x s t))"

lemma callback_step_refl: "callback_step n x s s"
proof -
  have "s = s\<lparr>mem := mem s, uart_out := uart_out s, g_test_destroyed := g_test_destroyed s\<rparr>" by simp
  then show ?thesis unfolding callback_step_def by blast
qed

lemma ob_inv_client:
  assumes "ob_inv d sz i V s" and "x \<in> view_live sz V" and "\<And>y. y \<notin> region x sz \<Longrightarrow> m y = mem s y"
  shows "ob_inv d sz i V (s\<lparr>mem := m\<rparr>)" and "ob_ids V (s\<lparr>mem := m\<rparr>) = ob_ids V s"
    and "avail_frames (s\<lparr>mem := m\<rparr>) = avail_frames s"
    and "objs_same sz (view_live sz V - {x}) s (s\<lparr>mem := m\<rparr>)"
proof -
  have core: "ob_core d sz i V s" using assms(1) by (simp add: ob_inv_def)
  note C = ob_core_client [OF core assms(2,3)]
  have "load32 (s\<lparr>mem := m\<rparr>) (table_lock (g_om s)) = load32 s (table_lock (g_om s))"
    using C(4) by (intro read32_cong) simp
  then show "ob_inv d sz i V (s\<lparr>mem := m\<rparr>)" using assms(1) C(1) by (simp add: ob_inv_def)
  show "ob_ids V (s\<lparr>mem := m\<rparr>) = ob_ids V s" by (rule C(2))
  show "avail_frames (s\<lparr>mem := m\<rparr>) = avail_frames s" by (rule C(3))
  note pg = slab_inv_pages(1) [OF ob_coreD(1) [OF core]]
  have "region x sz \<inter> region z sz = {}" if "z \<in> view_live sz V - {x}" for z
    using assms(2) that slab_objs_disjoint [OF pg, of x sz z] by (auto simp: view_live_def)
  then show "objs_same sz (view_live sz V - {x}) s (s\<lparr>mem := m\<rparr>)"
    using assms(3) unfolding objs_same_def by fastforce
qed

lemma callback_ok:
  assumes inv: "ob_inv d sz i V s" and x: "x \<in> view_live sz V" and cb: "callback_step sz x s t"
  shows "ob_inv d sz i V t" and "ob_ids V t = ob_ids V s" and "avail_frames t = avail_frames s"
    and "objs_same sz (view_live sz V - {x}) s t" and "objs_same 48 {x} s t" and "g_om t = g_om s"
proof -
  from cb obtain m out b where t: "t = s\<lparr>mem := m, uart_out := out, g_test_destroyed := b\<rparr>"
    and m: "\<And>y. y \<notin> region (x + 48) (sz - 48) \<Longrightarrow> m y = mem s y" by (auto simp: callback_step_def)
  have core: "ob_core d sz i V s" using inv by (simp add: ob_inv_def)
  have sz: "48 \<le> sz" "sz \<le> 4080"
    using ob_coreD(8) [OF core] slab_listsD(2) [OF slab_repD] ob_coreD(1) [OF core] by (simp, metis slab_inv_def)
  have "region (x + of_nat 48) (sz - 48) \<subseteq> region x sz" using sz by (intro region_off_subset) simp_all
  then have pay: "region (x + 48) (sz - 48) \<subseteq> region x sz" by simp
  have "m y = mem s y" if "y \<notin> region x sz" for y using m pay that by blast
  note C = ob_inv_client [OF inv x this]
  show "ob_inv d sz i V t" "ob_ids V t = ob_ids V s" "avail_frames t = avail_frames s" "g_om t = g_om s"
    using C(1-3) unfolding t by (simp_all add: ob_inv_def)
  show "objs_same sz (view_live sz V - {x}) s t" using C(4) by (simp add: objs_same_def t)
  have "region (x + of_nat 48) (sz - 48) \<inter> region (x + of_nat 0) 48 = {}"
    using sz by (intro region_off_disjoint) simp_all
  then show "objs_same 48 {x} s t" using m unfolding objs_same_def t by auto
qed

subsection \<open>Creating an object\<close>

text \<open>The header of a new object.\<close>

definition fresh_object :: "u32 \<Rightarrow> u64 \<Rightarrow> u64 \<Rightarrow> kstate \<Rightarrow> bool" where
  "fresh_object i oid x s \<longleftrightarrow>
     load32 s (obj_type_id x) = i \<and> load32 s (obj_refcount x) = 1 \<and> load32 s (obj_handle_count x) = 0 \<and>
     load32 s (obj_generation x) = 0 \<and> load64 s (obj_object_id x) = oid \<and> load32 s (obj_lock x) = 0"

lemma fresh_object_same: "objs_same 48 {x} s t \<Longrightarrow> fresh_object i oid x t = fresh_object i oid x s"
  using objs_same_fields [of 48 "{x}" s t x] by (simp add: fresh_object_def)

lemma objs_same_header: "objs_same sz X s t \<Longrightarrow> x \<in> X \<Longrightarrow> 48 \<le> sz \<Longrightarrow> objs_same 48 {x} s t"
  using region_mono [of 48 sz x] by (auto simp: objs_same_def)

lemma header_init_destroyed: "header_init ty oid x m (obj_destroyed x) = m (obj_destroyed x)"
  using obj_fields_apart(16-21) [of x, THEN destroyed_apart]
  by (simp add: header_init_def write32_outside write64_outside)

abbreviation call_create_or_not :: "ob_calls \<Rightarrow> u64 \<Rightarrow> u64 \<Rightarrow> u64 \<Rightarrow> kstate \<Rightarrow> (u32, kstate) outcome" where
  "call_create_or_not calls f x args s \<equiv> (if f \<noteq> 0 then call_create calls f x args s else Ret 0 s)"

lemma object_create_front:
  assumes inv: "ob_inv d sz i V s" and con: "create_contract calls (op_create (ot_ops (ob_type_for i s))) args sz err"
    and room: "vfl V \<noteq> [] \<or> avail_frames s \<noteq> {}"
  obtains x ps fl t where "object_create calls i args s =
      (if err \<noteq> 0 then andThen (slab_free (ot_slab (ob_type_for i t)) x t) (\<lambda>_ s. Ret NULL s) else object_publish x t)"
    and "ob_inv d sz i (V\<lparr>vps := ps, vfl := fl\<rparr>) t" and "x \<notin> view_live sz V"
    and "view_live sz (V\<lparr>vps := ps, vfl := fl\<rparr>) = insert x (view_live sz V)" and "x \<noteq> NULL"
    and "fresh_object i (ucast (next_object_id (g_om s))) x t"
    and "ob_ids (V\<lparr>vps := ps, vfl := fl\<rparr>) t = ob_ids V s" and "objs_same sz (view_live sz V) s t"
    and "g_om t = (g_om s)\<lparr>next_object_id := next_object_id (g_om s) + 1\<rparr>"
    and "\<exists>p. avail_frames s - {p} \<subseteq> avail_frames t"
    and "\<And>z zs. vfl V = z # zs \<Longrightarrow> x = z \<and> mem t (obj_destroyed z) = mem s (obj_destroyed z)"
    and "mem t (obj_destroyed x) = mem s (obj_destroyed x)"
    and "vfl V = [] \<Longrightarrow> \<exists>f \<in> avail_frames s. region x sz \<subseteq> region f 4096"
    and "\<exists>u. ob_frame s u \<and> call_create_or_not calls (op_create (ot_ops (ob_type_for i s))) x args u = Ret err t"
proof -
  have core: "ob_core d sz i V s" and lk: "load32 s (table_lock (g_om s)) = 0" using inv by (simp_all add: ob_inv_def)
  obtain x s1 where al: "slab_alloc (ot_slab (ob_type_for i s)) s = Ret x s1"
    using slab_alloc_returns [OF ob_coreD(1) [OF core] room] by metis
  obtain ps fl where A: "ob_core d sz i (V\<lparr>vps := ps, vfl := fl\<rparr>) s1" "x \<notin> view_live sz V"
    "view_live sz (V\<lparr>vps := ps, vfl := fl\<rparr>) = insert x (view_live sz V)" "ob_ids V s1 = ob_ids V s"
    "objs_same sz (view_live sz V) s s1" "g_om s1 = g_om s"
    "load32 s1 (table_lock (g_om s)) = load32 s (table_lock (g_om s))" "x \<noteq> NULL"
    "\<exists>p. avail_frames s - {p} \<subseteq> avail_frames s1" "ob_frame s s1"
    using ob_alloc [OF core al] by metis
  let ?V = "V\<lparr>vps := ps, vfl := fl\<rparr>" and ?id = "ucast (next_object_id (g_om s)) :: u64"
  have inv1: "ob_inv d sz i ?V s1" using A(1,6,7) lk by (simp add: ob_inv_def)
  have x: "x \<in> view_live sz ?V" using A(3) by simp
  have others: "view_live sz ?V - {x} = view_live sz V" using A(2,3) by auto
  have sz: "48 \<le> sz" by (rule ob_coreD(8) [OF core])
  define s2 where "s2 = s1\<lparr>mem := header_init i ?id x (mem s1)\<rparr>"
  have "header_init i ?id x (mem s1) y = mem s1 y" if "y \<notin> region x sz" for y
    using that region_mono [OF sz, of x] by (intro header_init_outside) blast
  note I = ob_inv_client [OF inv1 x this, folded s2_def]
  define s3 where "s3 = s2\<lparr>g_om := (g_om s2)\<lparr>next_object_id := next_object_id (g_om s) + 1\<rparr>\<rparr>"
  have s3: "object_header_init i x s1 = s3"
    by (simp add: object_header_init_eq s3_def s2_def A(6))
  have g3: "g_om s3 = (g_om s)\<lparr>next_object_id := next_object_id (g_om s) + 1\<rparr>" by (simp add: s3_def s2_def A(6))
  have ty: "ob_type_for i s3 = ob_type_for i s" by (simp add: ob_type_for_def g3)
  have inv3: "ob_inv d sz i ?V s3" "ob_ids ?V s3 = ob_ids ?V s1" "avail_frames s3 = avail_frames s1"
    using I(1-3) unfolding s3_def by (simp_all add: ob_inv_def)
  have fresh3: "fresh_object i ?id x s3" by (simp add: fresh_object_def s3_def s2_def header_init_fields)
  have same3: "objs_same sz (view_live sz V) s s3"
    using A(5) I(4) unfolding others by (simp add: objs_same_def s3_def)
  let ?f = "op_create (ot_ops (ob_type_for i s))"
  have "\<exists>t. (if ?f \<noteq> 0 then call_create calls ?f x args s3 else Ret 0 s3) = Ret err t \<and> callback_step sz x s3 t"
  proof (cases "?f = 0")
    case True
    then have "err = 0" using con by (simp add: create_contract_def)
    then show ?thesis using True callback_step_refl by simp
  next
    case False
    with con show ?thesis by (simp add: create_contract_def)
  qed
  then obtain t where t: "(if ?f \<noteq> 0 then call_create calls ?f x args s3 else Ret 0 s3) = Ret err t"
    "callback_step sz x s3 t" by blast
  note C = callback_ok [OF inv3(1) x t(2)]
  have "object_create calls i args s =
      (if err \<noteq> 0 then andThen (slab_free (ot_slab (ob_type_for i t)) x t) (\<lambda>_ s. Ret NULL s) else object_publish x t)"
    unfolding object_create_def al andThen.simps Let_def s3 ty t(1) using A(8) by simp
  moreover have "fresh_object i ?id x t" using fresh3 fresh_object_same [OF C(5)] by simp
  moreover have "objs_same sz (view_live sz V) s t" using same3 C(4) unfolding others by (rule objs_same_trans)
  moreover have "ob_ids ?V t = ob_ids V s" using C(2) inv3(2) A(4) by (simp add: ob_ids_def)
  moreover have dx: "mem t (obj_destroyed x) = mem s (obj_destroyed x)"
  proof -
    have "mem t (obj_destroyed x) = mem s1 (obj_destroyed x)"
      using objs_same_fields(7) [OF C(5)] header_init_destroyed [of i ?id x "mem s1"] by (simp add: s3_def s2_def)
    also have "obj_destroyed x \<in> region x sz" using obj_parts(7) [of x] region_mono [OF sz, of x] by (auto simp: region_1)
    then have "mem s1 (obj_destroyed x) = mem s (obj_destroyed x)"
      by (rule slab_alloc_body(1) [OF ob_coreD(1) [OF core] al]) (simp add: region_def obj_destroyed_def)
    finally show ?thesis .
  qed
  moreover have "x = z \<and> mem t (obj_destroyed z) = mem s (obj_destroyed z)" if z: "vfl V = z # zs" for z zs
    using slab_alloc_pop [OF ob_coreD(1) [OF core, unfolded z]] al dx by (metis outcome.inject(1))
  moreover have "ob_frame s1 s2"
    unfolding s2_def
  proof (rule ob_frame_mem)
    fix y assume y: "y \<in> pool_foot s1"
    have "region x sz \<subseteq> cache_foot (ot_slab (ob_type_for i s1)) (vps ?V)"
      using x by (intro slab_live_foot) (simp add: view_live_def)
    then have "y \<notin> region x 48" using slab_foot_pool [OF ob_coreD(1) [OF A(1)]] y region_mono [OF sz, of x] by blast
    then show "header_init i ?id x (mem s1) y = mem s1 y" by (rule header_init_outside)
  qed
  then have "ob_frame s s3" using ob_frame_trans [OF A(10)] by (simp add: s3_def)
  moreover note slab_alloc_body(2) [OF ob_coreD(1) [OF core] al]
  ultimately show ?thesis using C(1,3,6) A(2,3,8,9) g3 inv3(3) t(1) by (intro that [of t x fl ps]) (blast | simp)+
qed

lemma ob_free:
  assumes inv: "ob_inv d sz i V s" and x: "x \<in> view_live sz V"
  obtains t where "slab_free (ot_slab (ob_type_for i s)) x s = Ret () t"
    and "ob_inv d sz i (V\<lparr>vfl := x # vfl V\<rparr>) t" and "view_live sz (V\<lparr>vfl := x # vfl V\<rparr>) = view_live sz V - {x}"
    and "ob_ids V t = ob_ids V s" and "objs_same sz (view_live sz V - {x}) s t" and "g_om t = g_om s"
    and "mem t (obj_destroyed x) = mem s (obj_destroyed x)" and "avail_frames t = avail_frames s"
    and "g_test_destroyed t = g_test_destroyed s"
proof -
  have core: "ob_core d sz i V s" and lk: "load32 s (table_lock (g_om s)) = 0" using inv by (simp_all add: ob_inv_def)
  note D = ob_coreD [OF core]
  let ?c = "ot_slab (ob_type_for i s)"
  have xs: "x \<in> slab_objs sz (vps V)" "x \<notin> set (vfl V)" using x by (auto simp: view_live_def)
  obtain m where F: "slab_free ?c x s = Ret () (s\<lparr>mem := m\<rparr>)"
    "slab_inv d ?c sz (vps V) (x # vfl V) (s\<lparr>mem := m\<rparr>)"
    "\<And>y. y \<notin> region ?c 32 \<Longrightarrow> y \<notin> region x 8 \<Longrightarrow> m y = mem s y"
    using slab_free_ok [OF D(1) xs] by metis
  let ?t = "s\<lparr>mem := m\<rparr>" and ?V = "V\<lparr>vfl := x # vfl V\<rparr>"
  have "region x 8 \<subseteq> region x sz" using D(8) by (intro region_mono) simp
  then have foot: "region ?c 32 \<union> region x 8 \<subseteq> cache_foot ?c (vps V)"
    using slab_live_foot [OF xs(1), of ?c] by (auto simp: cache_foot_def)
  have out: "m y = mem s y" if "y \<notin> cache_foot ?c (vps V)" for y
    using F(3) foot that by blast
  have bm: "m y = mem s y" if "y \<in> bitmap_region s" for y
    using slab_foot_pool [OF D(1)] that by (intro out) (auto simp: pool_foot_def)
  have ok: "mm_ok d ?t" and av: "avail_frames ?t = avail_frames s"
    using D(7) mm_ok_mem_cong [OF bm] avail_frames_mem_cong [OF bm] by simp_all
  have tab: "mem ?t y = mem s y" if "y \<in> table_foot (id_table (g_om s)) (vhps V)" for y
    using D(3) that out by auto
  note H = hash_inv_elsewhere [OF D(2) ok _ equalityD1 [OF av] tab, simplified]
  have "ob_core d sz i ?V ?t"
    using core F(2) H(1) pool_foot_mem_cong [OF bm] by (simp add: ob_core_def)
  moreover have "load32 ?t (table_lock (g_om s)) = load32 s (table_lock (g_om s))"
    using D(4) out by (intro read32_cong) auto
  ultimately have "ob_inv d sz i ?V ?t" using lk by (simp add: ob_inv_def)
  moreover have "view_live sz ?V = view_live sz V - {x}" by (auto simp: view_live_def)
  moreover have "objs_same sz (view_live sz V - {x}) s ?t"
  proof -
    have "m y = mem s y" if z: "z \<in> view_live sz V - {x}" "y \<in> region z sz" for z y
    proof (rule F(3))
      have zs: "z \<in> slab_objs sz (vps V)" "z \<notin> set (vfl V)" "x \<noteq> z" using z(1) by (auto simp: view_live_def)
      show "y \<notin> region ?c 32" using slab_live_region(1) [OF D(1) zs(1,2)] z(2) by blast
      show "y \<notin> region x 8"
        using slab_objs_disjoint [OF slab_inv_pages(1) [OF D(1)] xs(1) zs(1,3)] z(2) \<open>region x 8 \<subseteq> region x sz\<close> by blast
    qed
    then show ?thesis by (simp add: objs_same_def)
  qed
  moreover have "m (obj_destroyed x) = mem s (obj_destroyed x)"
  proof (rule F(3))
    have "obj_destroyed x \<in> region x sz" using obj_parts(7) [of x] region_mono [OF D(8), of x] by (auto simp: region_1)
    then show "obj_destroyed x \<notin> region ?c 32" using slab_live_region(1) [OF D(1) xs] by blast
    show "obj_destroyed x \<notin> region x 8" by (simp add: region_def obj_destroyed_def)
  qed
  ultimately show ?thesis using F(1) H(2) av by (intro that [of ?t]) (simp_all add: ob_ids_def)
qed

subsection \<open>Destroying an object\<close>

lemma hashtable_remove_any:
  assumes h: "hash_inv d ht ps fl N s"
  obtains k fl' N' t where "hashtable_remove key ht s = Ret (ht\<lparr>count := k\<rparr>) t"
    and "hash_inv d ht ps fl' N' t"
    and "hash_abs ht N' (mem t) = (hash_abs ht N (mem s))(key := tl (hash_abs ht N (mem s) key))"
    and "hash_frame ht ps s t" and "avail_frames t = avail_frames s"
proof (cases "\<exists>n \<in> set (N (bucket_of ht key)). load64 s (node_key n) = key")
  case False
  then have e: "hash_abs ht N (mem s) key = []" by (auto simp: hash_abs_def filter_empty_conv)
  have "hash_frame ht ps s s" by (simp add: hash_frame_def upper_same_def)
  with hashtable_remove_absent [OF h e] h e show ?thesis
    by (intro that [of "count ht" s fl N]) (simp_all add: fun_upd_idem)
next
  case True
  then obtain us x vs where N: "N (bucket_of ht key) = us @ x # vs" "load64 s (node_key x) = key"
    "\<forall>n \<in> set us. load64 s (node_key n) \<noteq> key" by (rule split_list_first_propE)
  from hashtable_remove_present [OF h N(1,3,2)] that show ?thesis by metis
qed

lemma ob_unpublish:
  assumes inv: "ob_inv d sz i V s"
  obtains V' u t where "spin_lock (table_lock (g_om s)) s = Ret () u"
    and "objs_same sz (view_live sz V) s u" and "g_om u = g_om s"
    and "\<exists>ht w. hashtable_remove key (id_table (g_om u)) u = Ret ht w \<and>
      t = spin_unlock (table_lock (g_om (set_om (\<lambda>om. om\<lparr>id_table := ht\<rparr>) w))) (set_om (\<lambda>om. om\<lparr>id_table := ht\<rparr>) w)"
    and "ob_inv d sz i V' t" and "view_live sz V' = view_live sz V"
    and "ob_ids V' t = (ob_ids V s)(key := tl (ob_ids V s key))" and "objs_same sz (view_live sz V) s t"
    and "om_types (g_om t) = om_types (g_om s)" and "next_object_id (g_om t) = next_object_id (g_om s)"
    and "avail_frames t = avail_frames s" and "vfl V' = vfl V" and "ob_frame s t"
proof -
  let ?ht = "id_table (g_om s)"
  note L = ob_inv_lock [OF inv]
  define l where "l = s\<lparr>mem := write32 (mem s) (table_lock (g_om s)) 1\<rparr>"
  note L = L [folded l_def]
  have h: "hash_inv d ?ht (vhps V) (vhfl V) (vN V) l" using ob_coreD(2) [OF L(2)] L(6) by simp
  obtain k fl N t where T: "hashtable_remove key ?ht l = Ret (?ht\<lparr>count := k\<rparr>) t"
    "hash_inv d ?ht (vhps V) fl N t"
    "hash_abs ?ht N (mem t) = (hash_abs ?ht (vN V) (mem l))(key := tl (hash_abs ?ht (vN V) (mem l) key))"
    "hash_frame ?ht (vhps V) l t" "avail_frames t = avail_frames l"
    using hashtable_remove_any [OF h, of key] by metis
  define u where "u = t\<lparr>g_om := (g_om t)\<lparr>id_table := ?ht\<lparr>count := k\<rparr>\<rparr>\<rparr>"
  define V' where "V' = V\<lparr>vhps := vhps V, vhfl := fl, vN := N\<rparr>"
  have fr: "hash_frame (id_table (g_om l)) (vhps V) l t" and h': "hash_inv d (id_table (g_om l)) (vhps V) fl N t"
    and sub: "set (vhps V) \<subseteq> set (vhps V) \<union> avail_frames l" using T(2,4) L(6) by simp_all
  note C = ob_core_table [OF L(2) fr h' sub, of k, unfolded L(6), folded u_def, folded V'_def]
  note U = ob_core_unlock [OF C(1)]
  have vl: "view_live sz V' = view_live sz V" by (simp add: V'_def view_live_def)
  let ?t = "spin_unlock (table_lock (g_om u)) u"
  have "ob_ids V' ?t = (ob_ids V s)(key := tl (ob_ids V s key))"
    unfolding U(2) C(5) T(3) using L(3,6) by (simp add: ob_ids_def)
  moreover have "objs_same sz (view_live sz V) s ?t"
    using L(5) C(2) U(4) unfolding vl by (blast intro: objs_same_trans)
  moreover have "hashtable_remove key (id_table (g_om l)) l = Ret (?ht\<lparr>count := k\<rparr>) t \<and>
      ?t = spin_unlock (table_lock (g_om (set_om (\<lambda>om. om\<lparr>id_table := ?ht\<lparr>count := k\<rparr>\<rparr>) t)))
        (set_om (\<lambda>om. om\<lparr>id_table := ?ht\<lparr>count := k\<rparr>\<rparr>) t)"
    using T(1) L(6) by (simp add: set_om_def u_def)
  moreover have "avail_frames ?t = avail_frames s" using U(3) C(6) T(5) L(4) by simp
  moreover have "vfl V' = vfl V" by (simp add: V'_def)
  moreover have "ob_frame s ?t" by (rule ob_frame_trans [OF ob_frame_trans [OF L(7) C(7)] U(6)])
  ultimately show ?thesis
    using L(1,5,6) U(1,5) C(4) vl by (intro that [of l ?t V']) (blast | simp)+
qed

lemma object_destroy_now_ok:
  assumes inv: "ob_inv d sz i V s" and x: "obj_ok sz i V x s"
    and con: "destroy_contract calls (op_destroy (ot_ops (ob_type_for i s))) sz"
  obtains V' t where "object_destroy_now calls x s = Ret () t" and "ob_inv d sz i V' t"
    and "view_live sz V' = view_live sz V - {x}"
    and "ob_ids V' t = (ob_ids V s)(load64 s (obj_object_id x) := tl (ob_ids V s (load64 s (obj_object_id x))))"
    and "objs_same sz (view_live sz V - {x}) s t" and "om_types (g_om t) = om_types (g_om s)"
    and "vfl V' = x # vfl V" and "mem t (obj_destroyed x) = mem s (obj_destroyed x)" and "avail_frames t = avail_frames s"
    and "\<exists>u. (if op_destroy (ot_ops (ob_type_for i s)) \<noteq> 0 then call_destroy calls (op_destroy (ot_ops (ob_type_for i s))) x s
      else Ret () s) = Ret () u \<and> g_test_destroyed t = g_test_destroyed u"
proof -
  let ?f = "op_destroy (ot_ops (ob_type_for i s))" and ?id = "load64 s (obj_object_id x)"
  have xl: "x \<in> view_live sz V" and ty: "load32 s (obj_type_id x) = i" using x by (simp_all add: obj_ok_def)
  have sz: "48 \<le> sz" using inv unfolding ob_inv_def by (blast dest: ob_coreD(8))
  have "\<exists>t. (if ?f \<noteq> 0 then call_destroy calls ?f x s else Ret () s) = Ret () t \<and> callback_step sz x s t"
  proof (cases "?f = 0")
    case True
    then show ?thesis using callback_step_refl by simp
  next
    case False
    with con show ?thesis by (simp add: destroy_contract_def)
  qed
  then obtain s1 where s1: "(if ?f \<noteq> 0 then call_destroy calls ?f x s else Ret () s) = Ret () s1"
    "callback_step sz x s s1" by blast
  note C = callback_ok [OF inv xl s1(2)]
  obtain V1 u t where U: "spin_lock (table_lock (g_om s1)) s1 = Ret () u" "objs_same sz (view_live sz V) s1 u"
    "g_om u = g_om s1"
    "\<exists>ht w. hashtable_remove ?id (id_table (g_om u)) u = Ret ht w \<and>
      t = spin_unlock (table_lock (g_om (set_om (\<lambda>om. om\<lparr>id_table := ht\<rparr>) w))) (set_om (\<lambda>om. om\<lparr>id_table := ht\<rparr>) w)"
    "ob_inv d sz i V1 t" "view_live sz V1 = view_live sz V"
    "ob_ids V1 t = (ob_ids V s1)(?id := tl (ob_ids V s1 ?id))" "objs_same sz (view_live sz V) s1 t"
    "om_types (g_om t) = om_types (g_om s1)" "avail_frames t = avail_frames s1" "vfl V1 = vfl V" "ob_frame s1 t"
    using ob_unpublish [OF C(1), of ?id] by metis
  have id: "load64 u (obj_object_id x) = ?id"
    using objs_same_fields(5) [OF U(2) xl sz] objs_same_fields(5) [OF C(5)] by simp
  have tyt: "ob_type_for i t = ob_type_for i s" by (simp add: ob_type_for_def U(9) C(6))
  obtain v where F: "slab_free (ot_slab (ob_type_for i t)) x t = Ret () v"
    "ob_inv d sz i (V1\<lparr>vfl := x # vfl V1\<rparr>) v" "view_live sz (V1\<lparr>vfl := x # vfl V1\<rparr>) = view_live sz V1 - {x}"
    "ob_ids V1 v = ob_ids V1 t" "objs_same sz (view_live sz V1 - {x}) t v" "g_om v = g_om t"
    "mem v (obj_destroyed x) = mem t (obj_destroyed x)" "avail_frames v = avail_frames t"
    "g_test_destroyed v = g_test_destroyed t"
    using ob_free [OF U(5), of x] xl U(6) by metis
  have "object_destroy_now calls x s = slab_free (ot_slab (ob_type_for i t)) x t"
    unfolding object_destroy_now_def Let_def ty s1(1) using U(1,4) id by (auto simp: Let_def)
  moreover have "objs_same sz (view_live sz V - {x}) s v"
    using C(4) objs_same_mono [OF U(8), of "view_live sz V - {x}"] F(5) unfolding U(6)
    by (blast intro: objs_same_trans)
  moreover have "ob_ids (V1\<lparr>vfl := x # vfl V1\<rparr>) v = (ob_ids V s)(?id := tl (ob_ids V s ?id))"
    using F(4) U(7) C(2) by (simp add: ob_ids_def)
  moreover have "mem v (obj_destroyed x) = mem s (obj_destroyed x)"
    using F(7) objs_same_fields(7) [OF U(8) xl sz] objs_same_fields(7) [OF C(5)] by simp
  moreover have "g_test_destroyed v = g_test_destroyed s1" using F(9) ob_frameD(1) [OF U(12)] by simp
  ultimately show ?thesis using F(1-3,6,8) U(6,9-11) C(3,6) s1(1) by (intro that [of v "V1\<lparr>vfl := x # vfl V1\<rparr>"]) simp_all
qed

text \<open>The decision: nothing happens unless both counts are zero and nobody decided before.\<close>

definition ready_to_die :: "u64 \<Rightarrow> kstate \<Rightarrow> bool" where
  "ready_to_die x s \<longleftrightarrow>
     load32 s (obj_refcount x) = 0 \<and> load32 s (obj_handle_count x) = 0 \<and> mem s (obj_destroyed x) = 0"

lemma write32_fun_upd: "a \<notin> region l 4 \<Longrightarrow> write32 (m(a := b)) l v = (write32 m l v)(a := b)"
  by (auto simp: write32_def store_def region_def fun_eq_iff)

lemma object_maybe_destroy_eq:
  assumes "load32 s (obj_lock x) = 0"
  shows "object_maybe_destroy calls x s =
    (if ready_to_die x s then object_destroy_now calls x (store8 (obj_destroyed x) 1 s) else Ret () s)"
proof -
  let ?s = "s\<lparr>mem := write32 (mem s) (obj_lock x) 1\<rparr>"
  have "obj_destroyed x \<notin> region (obj_lock x) 4" using obj_fields_apart(21) [of x] by (rule destroyed_apart)
  then have d: "mem ?s (obj_destroyed x) = mem s (obj_destroyed x)" by (simp add: write32_outside)
  have "load32 ?s (obj_refcount x) = load32 s (obj_refcount x)"
    "load32 ?s (obj_handle_count x) = load32 s (obj_handle_count x)"
    using obj_fields_apart [of x] by (simp_all add: read32_write32_disjoint)
  moreover have unl: "write32 (write32 (mem s) (obj_lock x) 1) (obj_lock x) 0 = mem s"
    using assms write32_read32 [of "mem s" "obj_lock x"] by (simp add: mem_simps)
  moreover have "write32 ((write32 (mem s) (obj_lock x) 1)(obj_destroyed x := 1)) (obj_lock x) 0 =
      (mem s)(obj_destroyed x := 1)"
    using unl \<open>obj_destroyed x \<notin> region (obj_lock x) 4\<close> by (simp add: write32_fun_upd)
  ultimately show ?thesis
    using spin_lock_free [OF assms] d
    by (simp add: object_maybe_destroy_def ready_to_die_def atomic_load_def spin_unlock_eq store8_def Let_def)
qed

text \<open>Counting references.\<close>

lemma object_ref_eq: "object_ref x s = store32 (obj_refcount x) (load32 s (obj_refcount x) + 1) s"
  by (simp add: object_ref_def atomic_fetch_add_def store32_def Let_def)

lemma object_deref_eq:
  "object_deref calls x s =
    (let r = load32 s (obj_refcount x); t = store32 (obj_refcount x) (r - 1) s
     in if r = 1 then object_maybe_destroy calls x t else Ret () t)"
  by (simp add: object_deref_def atomic_fetch_sub_def store32_def Let_def)

lemma store32_header:
  assumes "region a 4 \<subseteq> region x 48" and "ob_inv d sz i V s" and "x \<in> view_live sz V"
  shows "ob_inv d sz i V (store32 a v s)" and "ob_ids V (store32 a v s) = ob_ids V s"
    and "objs_same sz (view_live sz V - {x}) s (store32 a v s)"
    and "avail_frames (store32 a v s) = avail_frames s" and "g_om (store32 a v s) = g_om s"
proof -
  have "48 \<le> sz" using assms(2) unfolding ob_inv_def by (blast dest: ob_coreD(8))
  then have "region a 4 \<subseteq> region x sz" using assms(1) region_mono [of 48 sz x] by blast
  then have "write32 (mem s) a v y = mem s y" if "y \<notin> region x sz" for y
    using that by (intro write32_outside) blast
  from ob_inv_client [OF assms(2,3) this] show "ob_inv d sz i V (store32 a v s)"
    "ob_ids V (store32 a v s) = ob_ids V s" "objs_same sz (view_live sz V - {x}) s (store32 a v s)"
    "avail_frames (store32 a v s) = avail_frames s" by (simp_all add: store32_def)
  show "g_om (store32 a v s) = g_om s" by (simp add: store32_def)
qed

lemma store32_refcount:
  "load32 (store32 (obj_refcount x) v s) (obj_refcount x) = v"
  "load32 (store32 (obj_refcount x) v s) (obj_type_id x) = load32 s (obj_type_id x)"
  "load32 (store32 (obj_refcount x) v s) (obj_handle_count x) = load32 s (obj_handle_count x)"
  "load32 (store32 (obj_refcount x) v s) (obj_generation x) = load32 s (obj_generation x)"
  "load32 (store32 (obj_refcount x) v s) (obj_lock x) = load32 s (obj_lock x)"
  "load64 (store32 (obj_refcount x) v s) (obj_object_id x) = load64 s (obj_object_id x)"
  "mem (store32 (obj_refcount x) v s) (obj_destroyed x) = mem s (obj_destroyed x)"
  "ob_type_for i (store32 a v s) = ob_type_for i s"
  using obj_fields_apart [of x] destroyed_apart [of "obj_refcount x" 4 x]
  by (simp_all add: store32_def mem_simps rw_disjoint Int_commute write32_outside)

lemma object_maybe_destroy_ok:
  assumes inv: "ob_inv d sz i V s" and x: "obj_ok sz i V x s" and go: "ready_to_die x s"
    and con: "destroy_contract calls (op_destroy (ot_ops (ob_type_for i s))) sz"
  obtains V' t where "object_maybe_destroy calls x s = Ret () t" and "ob_inv d sz i V' t"
    and "view_live sz V' = view_live sz V - {x}"
    and "ob_ids V' t = (ob_ids V s)(load64 s (obj_object_id x) := tl (ob_ids V s (load64 s (obj_object_id x))))"
    and "objs_same sz (view_live sz V - {x}) s t" and "om_types (g_om t) = om_types (g_om s)"
    and "vfl V' = x # vfl V" and "mem t (obj_destroyed x) = 1" and "avail_frames t = avail_frames s"
proof -
  let ?s = "store8 (obj_destroyed x) 1 s"
  have xl: "x \<in> view_live sz V" and lk: "load32 s (obj_lock x) = 0" using x by (simp_all add: obj_ok_def)
  have sz: "48 \<le> sz" using inv unfolding ob_inv_def by (blast dest: ob_coreD(8))
  have "obj_destroyed x \<in> region x sz" using obj_parts(7) [of x] region_mono [OF sz, of x] by (auto simp: region_1)
  then have "((mem s)(obj_destroyed x := 1)) y = mem s y" if "y \<notin> region x sz" for y using that by auto
  note I = ob_inv_client [OF inv xl this, folded store8_def]
  have out: "obj_destroyed x \<notin> region (obj_type_id x) 4" "obj_destroyed x \<notin> region (obj_lock x) 4"
    "obj_destroyed x \<notin> region (obj_object_id x) 8"
    using obj_fields_apart [of x] by (auto intro: destroyed_apart)
  have f: "load32 ?s (obj_type_id x) = load32 s (obj_type_id x)" "load32 ?s (obj_lock x) = load32 s (obj_lock x)"
    "load64 ?s (obj_object_id x) = load64 s (obj_object_id x)"
    using out unfolding store8_def by (auto intro!: read32_cong read64_cong)
  have ok: "obj_ok sz i V x ?s" using x f by (simp add: obj_ok_def)
  have g: "g_om ?s = g_om s" "ob_type_for i ?s = ob_type_for i s" "mem ?s (obj_destroyed x) = 1"
    by (simp_all add: store8_def)
  have "destroy_contract calls (op_destroy (ot_ops (ob_type_for i ?s))) sz" using con g by simp
  then obtain V' t where T: "object_destroy_now calls x ?s = Ret () t" "ob_inv d sz i V' t"
    "view_live sz V' = view_live sz V - {x}"
    "ob_ids V' t = (ob_ids V ?s)(load64 ?s (obj_object_id x) := tl (ob_ids V ?s (load64 ?s (obj_object_id x))))"
    "objs_same sz (view_live sz V - {x}) ?s t" "om_types (g_om t) = om_types (g_om ?s)"
    "vfl V' = x # vfl V" "mem t (obj_destroyed x) = mem ?s (obj_destroyed x)" "avail_frames t = avail_frames ?s"
    using object_destroy_now_ok [OF I(1) ok] by metis
  have "objs_same sz (view_live sz V - {x}) s t" using I(4) T(5) by (rule objs_same_trans)
  with T show ?thesis
    using object_maybe_destroy_eq [OF lk, of calls] go by (intro that [of t V']) (simp_all add: f(3) g I(2,3))
qed

text \<open>A new object in a slot whose last owner left its flag.\<close>

lemma recycled_create:
  assumes "ob_inv d sz i V s" and "2 \<le> card (avail_frames s)" and "vfl V = x # fl"
    and "create_contract calls (op_create (ot_ops (ob_type_for i s))) args sz 0"
    and "mem s (obj_destroyed x) \<noteq> 0"
  shows "\<exists>V' t u. object_create calls i args s = Ret x t \<and> load32 t (obj_refcount x) = 1 \<and>
    load32 t (obj_handle_count x) = 0 \<and> object_deref calls x t = Ret () u \<and>
    load32 u (obj_refcount x) = 0 \<and> load32 u (obj_handle_count x) = 0 \<and> ob_inv d sz i V' u \<and> x \<in> view_live sz V'"
proof -
  let ?id = "ucast (next_object_id (g_om s)) :: u64"
  have "vfl V \<noteq> [] \<or> avail_frames s \<noteq> {}" using assms(3) by auto
  then obtain z ps fl' t where
    F: "object_create calls i args s = object_publish z t" "ob_inv d sz i (V\<lparr>vps := ps, vfl := fl'\<rparr>) t"
    "view_live sz (V\<lparr>vps := ps, vfl := fl'\<rparr>) = insert z (view_live sz V)" "fresh_object i ?id z t"
    "\<exists>p. avail_frames s - {p} \<subseteq> avail_frames t"
    and pop: "\<And>w ws. vfl V = w # ws \<Longrightarrow> z = w \<and> mem t (obj_destroyed w) = mem s (obj_destroyed w)"
    by (rule object_create_front [OF assms(1,4)]) (rule that; (assumption | simp))
  note F = F pop [OF assms(3)]
  let ?V = "V\<lparr>vps := ps, vfl := fl'\<rparr>"
  have x: "x \<in> view_live sz ?V" using F(3,6) by simp
  have "1 \<le> card (avail_frames t)" using card_avail_step [OF F(5)] assms(2) by simp
  then have "vhfl ?V \<noteq> [] \<or> avail_frames t \<noteq> {}" by auto
  then obtain V' u where U: "object_publish x t = Ret x u" "ob_inv d sz i V' u" "view_live sz V' = view_live sz ?V"
    "objs_same sz (view_live sz ?V) t u"
    using object_publish_ok [OF F(2) x] by metis
  have sz: "48 \<le> sz" using assms(1) unfolding ob_inv_def by (blast dest: ob_coreD(8))
  note H = objs_same_header [OF U(4) x sz]
  have fresh: "fresh_object i ?id x u" using F(4,6) fresh_object_same [OF H] by simp
  have dead: "mem u (obj_destroyed x) \<noteq> 0" using objs_same_fields(7) [OF H] F(6) assms(5) by simp
  let ?u = "store32 (obj_refcount x) 0 u"
  have xV: "x \<in> view_live sz V'" using x U(3) by simp
  have "\<not> ready_to_die x ?u" using dead by (simp add: ready_to_die_def store32_refcount)
  moreover have "load32 ?u (obj_lock x) = 0" using fresh by (simp add: fresh_object_def store32_refcount)
  ultimately have "object_deref calls x u = Ret () ?u"
    using fresh object_maybe_destroy_eq [of ?u x calls] by (simp add: object_deref_eq Let_def fresh_object_def)
  moreover note store32_header(1) [OF obj_parts(2) U(2) xV, of 0]
  ultimately show ?thesis
    using F(1,6) U(1) fresh xV by (intro exI [of _ V'] exI [of _ u] exI [of _ ?u]) (simp add: fresh_object_def store32_refcount)
qed

subsection \<open>Starting the manager and registering types\<close>

text \<open>The manager after \<^verbatim>\<open>ob_init\<close>, and between registrations: the metadata cache is usable and the table stands.\<close>

definition table_rest :: "hashtable \<Rightarrow> u64 list \<Rightarrow> u64 set" where
  "table_rest ht ps = bucket_array ht \<union> (\<Union>p \<in> set ps. region p 4096)"

definition ob_ready ::
  "nat \<Rightarrow> u64 list \<Rightarrow> u64 list \<Rightarrow> u64 list \<Rightarrow> u64 list \<Rightarrow> (nat \<Rightarrow> u64 list) \<Rightarrow> kstate \<Rightarrow> bool" where
  "ob_ready d ps fl hps hfl N s \<longleftrightarrow>
     slab_inv d (cache_metadata_cache s) 32 ps fl s \<and> cache_meta_initialized s \<and>
     hash_inv d (id_table (g_om s)) hps hfl N s \<and>
     node_cache (id_table (g_om s)) \<in> slab_objs 32 ps - set fl \<and>
     table_rest (id_table (g_om s)) hps \<inter> cache_foot (cache_metadata_cache s) ps = {} \<and>
     region (table_lock (g_om s)) 4 \<inter>
       (cache_foot (cache_metadata_cache s) ps \<union> table_rest (id_table (g_om s)) hps \<union> pool_foot s) = {} \<and>
     load32 s (table_lock (g_om s)) = 0 \<and> length (om_types (g_om s)) = 64"

lemma table_foot_rest: "table_foot ht ps = table_rest ht ps \<union> region (node_cache ht) 32"
  by (auto simp: table_foot_def table_rest_def cache_foot_def)

lemma ob_readyD:
  assumes "ob_ready d ps fl hps hfl N s"
  shows "slab_inv d (cache_metadata_cache s) 32 ps fl s" and "cache_meta_initialized s"
    and "hash_inv d (id_table (g_om s)) hps hfl N s"
    and "node_cache (id_table (g_om s)) \<in> slab_objs 32 ps" and "node_cache (id_table (g_om s)) \<notin> set fl"
    and "table_rest (id_table (g_om s)) hps \<inter> cache_foot (cache_metadata_cache s) ps = {}"
    and "region (table_lock (g_om s)) 4 \<inter> cache_foot (cache_metadata_cache s) ps = {}"
    and "region (table_lock (g_om s)) 4 \<inter> table_rest (id_table (g_om s)) hps = {}"
    and "region (table_lock (g_om s)) 4 \<inter> pool_foot s = {}"
    and "load32 s (table_lock (g_om s)) = 0" and "length (om_types (g_om s)) = 64"
    and "table_rest (id_table (g_om s)) hps \<inter> pool_foot s = {}"
  using assms table_foot_pool [of d "id_table (g_om s)" hps hfl N s]
  unfolding ob_ready_def table_foot_rest by blast+

lemma ob_ready_om:
  assumes "ob_ready d ps fl hps hfl N s" and "length (om_types g) = 64" and "id_table g = id_table (g_om s)"
    and "table_lock g = table_lock (g_om s)"
  shows "ob_ready d ps fl hps hfl N (s\<lparr>g_om := g\<rparr>)"
  using assms by (simp add: ob_ready_def)

text \<open>One more cache: the table, the lock and the metadata stay, and the new cache overlaps none of them.\<close>

lemma ob_ready_cache:
  assumes R: "ob_ready d ps fl hps hfl N s" and n: "unat n \<le> 4080" and room: "fl \<noteq> [] \<or> avail_frames s \<noteq> {}"
  obtains c ps' fl' t where "slab_cache_create n s = Ret c t" and "ob_ready d ps' fl' hps hfl N t"
    and "slab_inv d c (unat (slab_round n)) [] [] t"
    and "region c 32 \<inter> table_foot (id_table (g_om s)) hps = {}"
    and "region c 32 \<inter> region (table_lock (g_om s)) 4 = {}" and "g_om t = g_om s"
    and "hash_abs (id_table (g_om s)) N (mem t) = hash_abs (id_table (g_om s)) N (mem s)"
    and "\<exists>p. avail_frames s - {p} \<subseteq> avail_frames t" and "ob_frame s t" and "length fl' + 1 = (if fl = [] then 127 else length fl)"
proof -
  let ?meta = "cache_metadata_cache s" and ?ht = "id_table (g_om s)"
  note D = ob_readyD [OF R]
  let ?nc = "node_cache ?ht"
  obtain c s' where al: "slab_alloc ?meta s = Ret c s'" using slab_alloc_returns [OF D(1) room] by metis
  obtain ps' fl' t where C: "slab_cache_create n s = Ret c t" "t = s'\<lparr>mem := cache_init c (slab_round n) (mem s')\<rparr>"
    "slab_inv d ?meta 32 ps' fl' t" "slab_inv d c (unat (slab_round n)) [] [] t"
    "c \<in> slab_objs 32 ps'" "slab_objs 32 ps' - set fl' = insert c (slab_objs 32 ps - set fl)"
    "c \<notin> slab_objs 32 ps - set fl" "slab_frame ?meta s s'"
    "\<exists>p. avail_frames s - (if fl = [] then {p} else {}) \<subseteq> avail_frames t"
    "avail_frames t \<subseteq> avail_frames s" "set ps' \<subseteq> set ps \<union> avail_frames s" "tail_kept s t"
    "length fl' + 1 = (if fl = [] then 127 else length fl)"
    using slab_cache_create_ok [OF D(1,2) n al] by metis
  have fr: "ob_frame s t" using C(2,8,12) by (simp add: ob_frame_def slab_frame_def upper_same_def)
  have up: "g_om t = g_om s" "cache_metadata_cache t = ?meta" "cache_meta_initialized t" "bitmap_region t = bitmap_region s"
    using C(2,8) D(2) by (simp_all add: slab_frame_def upper_same_def)
  have pool: "pool_foot t \<subseteq> pool_foot s" using C(10) up(4) unfolding pool_foot_def by blast
  have foot: "cache_foot ?meta ps' \<subseteq> cache_foot ?meta ps \<union> pool_foot s"
    using C(11) unfolding cache_foot_def pool_foot_def by blast
  have c_in: "region c 32 \<subseteq> cache_foot ?meta ps'" using C(5) by (rule slab_live_foot)
  have nc: "?nc \<in> slab_objs 32 ps' - set fl'" "?nc \<noteq> c" using C(6,7) D(4,5) by auto
  have c_nc: "region c 32 \<inter> region ?nc 32 = {}"
    using slab_objs_disjoint [OF slab_inv_pages(1) [OF C(3)], of c 32 ?nc] C(5) nc by auto
  have c_rest: "region c 32 \<inter> table_rest ?ht hps = {}" "region c 32 \<inter> region (table_lock (g_om s)) 4 = {}"
    using c_in foot D(6,7,9,12) by blast+
  have keep: "mem t y = mem s y" if "y \<notin> region c 32" "y \<notin> region ?meta 32" "y \<notin> pool_foot s" for y
    using that C(8) unfolding C(2) by (simp add: cache_init_outside slab_frame_def pool_foot_def)
  have rest: "mem t y = mem s y" if "y \<in> table_rest ?ht hps \<or> y \<in> region (table_lock (g_om s)) 4" for y
    using that c_rest D(6-9,12) foot_cases(1) [of y ?meta ps] by (intro keep) blast+
  have node: "mem t y = mem s y" if "y \<in> region ?nc 32" for y
  proof -
    have "mem s' y = mem s y" using slab_frame_live [OF D(1) C(8) D(4,5) that] .
    moreover have "y \<notin> region c 32" using c_nc that by blast
    ultimately show ?thesis unfolding C(2) by (simp add: cache_init_outside)
  qed
  have "mm_ok d t" using C(3) by (simp add: slab_inv_def)
  moreover have "mem t y = mem s y" if "y \<in> table_foot ?ht hps" for y
    using that rest node unfolding table_foot_rest by blast
  ultimately have H: "hash_inv d ?ht hps hfl N t" "hash_abs ?ht N (mem t) = hash_abs ?ht N (mem s)"
    using hash_inv_elsewhere [OF D(3) _ up(4) C(10)] by blast+
  have "load32 t (table_lock (g_om s)) = 0" using rest D(10) read32_cong [of "table_lock (g_om s)" "mem t" "mem s"] by simp
  moreover have "table_rest ?ht hps \<inter> cache_foot ?meta ps' = {}"
    "region (table_lock (g_om s)) 4 \<inter> (cache_foot ?meta ps' \<union> table_rest ?ht hps \<union> pool_foot t) = {}"
    using foot pool D(6-9,12) by blast+
  ultimately have "ob_ready d ps' fl' hps hfl N t"
    using C(3) H(1) nc(1) D(11) by (simp add: ob_ready_def up)
  moreover from C(9) have "\<exists>p. avail_frames s - {p} \<subseteq> avail_frames t" by (auto split: if_splits)
  moreover have "region c 32 \<inter> table_foot ?ht hps = {}" using c_nc c_rest(1) unfolding table_foot_rest by blast
  ultimately show ?thesis using C(1,4,13) c_rest(2) up(1) H(2) fr by (intro that [of c t ps' fl']) simp_all
qed

definition new_view :: "u64 list \<Rightarrow> u64 list \<Rightarrow> (nat \<Rightarrow> u64 list) \<Rightarrow> ob_view" where
  "new_view hps hfl N = \<lparr>vps = [], vfl = [], vhps = hps, vhfl = hfl, vN = N\<rparr>"

lemma object_type_register_ok:
  assumes R: "ob_ready d ps fl hps hfl N s" and k: "type_count (g_om s) < 64" and n: "unat isz + 48 \<le> 4080"
    and room: "fl \<noteq> [] \<or> avail_frames s \<noteq> {}"
  defines "k \<equiv> type_count (g_om s)"
  obtains c ps' fl' t where "object_type_register name isz ops s = Ret k t"
    and "ob_ready d ps' fl' hps hfl N t"
    and "ob_inv d (unat (slab_round (48 + isz))) k (new_view hps hfl N) t"
    and "ob_ids (new_view hps hfl N) t = hash_abs (id_table (g_om s)) N (mem s)"
    and "g_om t = (g_om s)\<lparr>type_count := k + 1, om_types := (om_types (g_om s))[unat k :=
      (ob_type_for k s)\<lparr>ot_name := name, instance_size := 48 + isz, ot_ops := ops, ot_slab := c\<rparr>]\<rparr>"
    and "\<exists>p. avail_frames s - {p} \<subseteq> avail_frames t" and "ob_frame s t"
proof -
  note D = ob_readyD [OF R]
  have kl: "unat k < 64" using k by (simp add: k_def word_less_nat_alt)
  let ?ty = "(ob_type_for k s)\<lparr>ot_name := name, instance_size := 48 + isz, ot_ops := ops\<rparr>"
  define g where "g = (g_om s)\<lparr>type_count := k + 1, om_types := (om_types (g_om s))[unat k := ?ty]\<rparr>"
  define s1 where "s1 = s\<lparr>g_om := g\<rparr>"
  have R1: "ob_ready d ps fl hps hfl N s1" unfolding s1_def by (rule ob_ready_om [OF R]) (simp_all add: g_def D(11))
  have n': "unat (48 + isz) = 48 + unat isz" using n by (simp add: unat_word_ariths)
  have n48: "unat (48 + isz) \<le> 4080" using n n' by simp
  have "fl \<noteq> [] \<or> avail_frames s1 \<noteq> {}" using room by (simp add: s1_def)
  then obtain c ps' fl' t where C: "slab_cache_create (48 + isz) s1 = Ret c t" "ob_ready d ps' fl' hps hfl N t"
    "slab_inv d c (unat (slab_round (48 + isz))) [] [] t" "region c 32 \<inter> table_foot (id_table (g_om s1)) hps = {}"
    "region c 32 \<inter> region (table_lock (g_om s1)) 4 = {}" "g_om t = g_om s1"
    "hash_abs (id_table (g_om s1)) N (mem t) = hash_abs (id_table (g_om s1)) N (mem s1)"
    "\<exists>p. avail_frames s1 - {p} \<subseteq> avail_frames t" "ob_frame s1 t"
    using ob_ready_cache [OF R1 n48] by metis
  have gt: "g_om t = g" using C(6) by (simp add: s1_def)
  define u where "u = t\<lparr>g_om := g\<lparr>om_types := (om_types g)[unat k := ?ty\<lparr>ot_slab := c\<rparr>]\<rparr>\<rparr>"
  have gfields: "id_table g = id_table (g_om s)" "table_lock g = table_lock (g_om s)" "length (om_types g) = 64"
    by (simp_all add: g_def D(11))
  have Ru: "ob_ready d ps' fl' hps hfl N u"
    unfolding u_def by (rule ob_ready_om [OF C(2)]) (simp_all add: gt gfields)
  note U = ob_readyD [OF Ru]
  have tyu: "ob_type_for k u = ?ty\<lparr>ot_slab := c\<rparr>" using kl by (simp add: ob_type_for_def u_def gfields)
  have uf: "id_table (g_om u) = id_table (g_om s)" "table_lock (g_om u) = table_lock (g_om s)"
    by (simp_all add: u_def gfields)
  have nc: "region (node_cache (id_table (g_om u))) 32 \<subseteq> cache_foot (cache_metadata_cache u) ps'"
    using U(4) by (rule slab_live_foot)
  have lock: "region (table_lock (g_om u)) 4 \<inter> (cache_foot c [] \<union> table_foot (id_table (g_om u)) hps \<union> pool_foot u) = {}"
    using U(7-9) nc C(5) uf gfields unfolding table_foot_rest cache_foot_def [of c] s1_def by auto
  have "8 * ((max 8 (unat (48 + isz)) + 7) div 8) \<ge> 48" unfolding n' by linarith
  then have sz: "48 \<le> unat (slab_round (48 + isz))" using unat_slab_round(1) [OF n48] by simp
  have "slab_inv d c (unat (slab_round (48 + isz))) [] [] u" using C(3) by (simp add: u_def)
  then have "ob_core d (unat (slab_round (48 + isz))) k (new_view hps hfl N) u"
    using sz U(3,11) kl lock C(4) unfolding ob_core_def tyu uf
    by (simp add: new_view_def s1_def gfields cache_foot_def)
  then have inv: "ob_inv d (unat (slab_round (48 + isz))) k (new_view hps hfl N) u" using U(10) by (simp add: ob_inv_def)
  have ids: "ob_ids (new_view hps hfl N) u = hash_abs (id_table (g_om s)) N (mem s)"
    using C(7) by (simp add: ob_ids_def new_view_def u_def s1_def gfields)
  have upds: "set_type k (\<lambda>t. t\<lparr>ot_ops := ops\<rparr>) (set_type k (\<lambda>t. t\<lparr>instance_size := 48 + isz\<rparr>)
      (set_type k (\<lambda>t. t\<lparr>ot_name := name\<rparr>) (set_om (\<lambda>om. om\<lparr>type_count := k + 1\<rparr>) s))) = s1"
    using kl D(11) by (simp add: set_type_def set_om_def s1_def g_def ob_type_for_def)
  have "instance_size (ob_type_for k s1) = 48 + isz" using kl D(11) by (simp add: ob_type_for_def s1_def g_def)
  moreover have "set_type k (\<lambda>t. t\<lparr>ot_slab := c\<rparr>) t = u"
    using kl D(11) by (simp add: set_type_def set_om_def u_def gt g_def ob_type_for_def)
  ultimately have "object_type_register name isz ops s = Ret k u"
    using k C(1) upds unfolding object_type_register_def k_def [symmetric] Let_def by (simp add: linorder_not_less [symmetric])
  moreover have "g_om u = (g_om s)\<lparr>type_count := k + 1, om_types := (om_types (g_om s))[unat k :=
      (ob_type_for k s)\<lparr>ot_name := name, instance_size := 48 + isz, ot_ops := ops, ot_slab := c\<rparr>]\<rparr>"
    by (simp add: u_def g_def)
  moreover have "\<exists>p. avail_frames s - {p} \<subseteq> avail_frames u" using C(8) by (simp add: s1_def u_def)
  moreover have "ob_frame s u" using C(9) by (simp add: s1_def u_def)
  ultimately show ?thesis using Ru inv ids by (intro that [of u ps' fl' c]) simp_all
qed

lemma ob_init_ok:
  assumes meta: "slab_inv d (cache_metadata_cache s) 32 ps fl s" "cache_meta_initialized s"
    and heap: "kheap_initialized s" and run: "next_fit s = Some i" "{i..<i + 9} \<subseteq> free_set s"
    and room: "fl \<noteq> [] \<or> free_set s - {i..<i + 9} \<noteq> {}"
    and lock: "region (table_lock (g_om s)) 4 \<inter> (cache_foot (cache_metadata_cache s) ps \<union> pool_foot s) = {}"
    and types: "length (om_types (g_om s)) = 64"
  obtains ht ps' fl' t where "ob_init s = Ret () t" and "ob_ready d ps' fl' [] [] (\<lambda>_. []) t"
    and "g_om t = (g_om s)\<lparr>id_table := ht, next_object_id := 1, type_count := 0\<rparr>"
    and "length fl' + 1 = (if fl = [] then 127 else length fl)"
    and "\<exists>p. frame_addr s ` (free_set s - {i..<i + 9}) - {p} \<subseteq> avail_frames t" and "ob_frame s t"
proof -
  let ?meta = "cache_metadata_cache s" and ?lk = "table_lock (g_om s)"
  have lp: "large_pages (8 * 4096) = 9" by (simp add: large_pages_def)
  define ht where "ht c = (id_table (g_om s))\<lparr>buckets := frame_addr s i + 16, nbuckets := 4096, count := 0, node_cache := c\<rparr>" for c
  let ?A = "region (frame_addr s i + 16) (8 * unat (4096 :: u64))"
  obtain c ps' fl' t where H: "hashtable_init 4096 (id_table (g_om s)) s = Ret (ht c) t"
    "hash_inv d (ht c) [] [] (\<lambda>_. []) t" "slab_inv d ?meta 32 ps' fl' t"
    "avail_frames t \<subseteq> avail_frames s" "upper_same s t"
    "\<exists>p. frame_addr s ` (free_set s - {i..<i + 9}) - {p} \<subseteq> avail_frames t"
    "c \<in> slab_objs 32 ps' - set fl'" "set ps' \<subseteq> set ps \<union> avail_frames s"
    "\<forall>p \<in> set ps'. ?A \<inter> region p 4096 = {}" "?A \<inter> region ?meta 32 = {}"
    "?A \<subseteq> (\<Union>f \<in> avail_frames s. region f 4096)"
    "length fl' + 1 = (if fl = [] then 127 else length fl)" "bitmap_region t = bitmap_region s" "tail_kept s t"
    by (rule hashtable_init_ok [OF meta heap hash_boot_run(4,5) run(1), unfolded lp, OF run(2) room,
          of "id_table (g_om s)", folded ht_def]) (rule that; assumption)
  have g: "g_om t = g_om s" and up: "cache_metadata_cache t = ?meta" "cache_meta_initialized t"
    using H(5) meta(2) by (simp_all add: upper_same_def)
  have arr: "bucket_array (ht c) = ?A" "node_cache (ht c) = c" by (simp_all add: ht_def)
  have foot: "cache_foot ?meta ps' \<subseteq> cache_foot ?meta ps \<union> pool_foot s"
    using H(8) unfolding cache_foot_def pool_foot_def by blast
  have pool: "pool_foot t \<subseteq> pool_foot s" using H(4,13) unfolding pool_foot_def by blast
  have A: "?A \<subseteq> pool_foot s" using H(11) unfolding pool_foot_def by blast
  have cr: "region c 32 \<subseteq> cache_foot ?meta ps'" using H(7) by (intro slab_live_foot) simp
  let ?m = "write32 (mem t) ?lk 0"
  have out: "?m y = mem t y" if "y \<notin> region ?lk 4" for y using that by (rule write32_outside)
  have lk: "region ?lk 4 \<inter> cache_foot ?meta ps' = {}" "region ?lk 4 \<inter> ?A = {}" "region ?lk 4 \<inter> pool_foot t = {}"
    using lock foot A pool by blast+
  have bm: "?m y = mem t y" if "y \<in> bitmap_region t" for y
    using lk(3) that by (intro out) (auto simp: pool_foot_def)
  have ok: "mm_ok d (t\<lparr>mem := ?m\<rparr>)" and av: "avail_frames (t\<lparr>mem := ?m\<rparr>) = avail_frames t"
    using H(3) mm_ok_mem_cong [OF bm] avail_frames_mem_cong [OF bm] by (simp_all add: slab_inv_def)
  have S: "slab_inv d ?meta 32 ps' fl' (t\<lparr>mem := ?m\<rparr>)"
    using H(3) ok _ equalityD1 [OF av] by (rule slab_inv_elsewhere) (use lk(1) out in auto)
  have tf: "region ?lk 4 \<inter> table_foot (ht c) [] = {}"
    unfolding table_foot_rest table_rest_def arr using lk cr by auto
  have "hash_inv d (ht c) [] [] (\<lambda>_. []) (t\<lparr>mem := ?m\<rparr>)"
    using H(2) ok _ equalityD1 [OF av] by (rule hash_inv_elsewhere) (use tf out in auto)
  moreover define u where "u = t\<lparr>mem := ?m, g_om := (g_om s)\<lparr>id_table := ht c, next_object_id := 1, type_count := 0\<rparr>\<rparr>"
  ultimately have "ob_ready d ps' fl' [] [] (\<lambda>_. []) u"
    using S H(7,9,10) lk types up pool_foot_mem_cong [OF bm]
    by (auto simp: ob_ready_def table_rest_def cache_foot_def arr mem_simps)
  moreover have "ob_init s = Ret () u"
    unfolding ob_init_def H(1) by (simp add: set_om_def spin_lock_init_def u_def g Let_def)
  moreover have "ob_frame s u"
  proof -
    have "ob_frame s t" using H(5,13,14) by (simp add: ob_frame_def upper_same_def)
    moreover have "ob_frame t (t\<lparr>mem := ?m\<rparr>)" using lk(3) by (intro ob_frame_mem out) blast
    ultimately have "ob_frame s (t\<lparr>mem := ?m\<rparr>)" by (rule ob_frame_trans)
    then show ?thesis by (simp add: u_def)
  qed
  ultimately show ?thesis using H(6,12) av by (intro that [of u ps' fl' "ht c"]) (simp_all add: u_def)
qed

subsection \<open>A machine with an object type\<close>

lemma hash_boot_lock:
  "region (table_lock (g_om hash_boot)) 4 \<inter> (cache_foot (cache_metadata_cache hash_boot) [] \<union> pool_foot hash_boot) = {}"
  "length (om_types (g_om hash_boot)) = 64"
proof -
  have lk: "table_lock (g_om hash_boot) = 0" "cache_metadata_cache hash_boot = 0x2000"
    and "length (om_types (g_om hash_boot)) = 64"
    by (simp_all add: hash_boot_def heap_boot_def pmm_demo_def reset_state_def)
  then show "length (om_types (g_om hash_boot)) = 64" by simp
  have bm: "bitmap_region hash_boot = bitmap_region pmm_demo"
    by (simp add: hash_boot_def heap_boot_def bitmap_region_def)
  have av: "avail_frames hash_boot = avail_frames pmm_demo"
    using hash_boot_facts(5) pmm_demo_facts(1) by (simp add: avail_frames_def frame_addr_def hash_boot_def heap_boot_def)
  have "x \<notin> region 0 4" if "x \<in> bitmap_region pmm_demo" for x
    using pmm_demo_bitmap that by (auto simp: in_region_unat)
  moreover have "x \<notin> region 0 4" if "f \<in> avail_frames pmm_demo" "x \<in> region f 4096" for f x
    using pmm_demo_avail [OF that(1)] that(2) by (auto simp: in_region_unat)
  moreover have "x \<notin> region 0 4" if "x \<in> region 0x2000 32" for x using that by (auto simp: in_region_unat)
  ultimately show "region (table_lock (g_om hash_boot)) 4 \<inter>
      (cache_foot (cache_metadata_cache hash_boot) [] \<union> pool_foot hash_boot) = {}"
    unfolding lk cache_foot_def pool_foot_def bm av by auto
qed

lemma ob_demo:
  obtains s t where "ob_init hash_boot = Ret () s" and "object_type_register ''test'' 32 ops s = Ret 0 t"
    and "ob_inv 0 80 0 (new_view [] [] (\<lambda>_. [])) t" and "4 \<le> card (avail_frames t)"
    and "ot_ops (ob_type_for 0 t) = ops" and "default_rights (ob_type_for 0 t) = 0"
proof -
  have lp: "large_pages (8 * 4096) = 9" by (simp add: large_pages_def)
  note run = hash_boot_run [unfolded lp]
  obtain ht ps fl s where S: "ob_init hash_boot = Ret () s" "ob_ready 0 ps fl [] [] (\<lambda>_. []) s"
    "g_om s = (g_om hash_boot)\<lparr>id_table := ht, next_object_id := 1, type_count := 0\<rparr>"
    "length fl + 1 = (if ([] :: u64 list) = [] then 127 else 0)"
    "\<exists>p. frame_addr hash_boot ` (free_set hash_boot - {5..<5 + 9}) - {p} \<subseteq> avail_frames s"
    by (rule ob_init_ok [OF hash_boot_facts(1-4) run(1,3) hash_boot_lock]) (rule that; simp)
  have "inj_on (frame_addr hash_boot) {0, 1, 2, 3, 4, 14, 15}"
    using frame_addr_inj [OF hash_boot_facts(6)] hash_boot_facts(7) by (rule_tac inj_on_subset) auto
  then have "card (frame_addr hash_boot ` (free_set hash_boot - {5..<5 + 9})) = 7"
    unfolding run(2) by (subst card_image) simp_all
  moreover from S(5) obtain p where p: "frame_addr hash_boot ` (free_set hash_boot - {5..<5 + 9}) \<subseteq> insert p (avail_frames s)"
    by blast
  then have "card (frame_addr hash_boot ` (free_set hash_boot - {5..<5 + 9})) \<le> card (insert p (avail_frames s))"
    by (intro card_mono) simp_all
  moreover have "card (insert p (avail_frames s)) \<le> Suc (card (avail_frames s))" by (rule card_insert_le_m1) simp_all
  ultimately have six: "6 \<le> card (avail_frames s)" by simp
  have tc: "type_count (g_om s) = 0" and room: "fl \<noteq> [] \<or> avail_frames s \<noteq> {}" using S(3,4) by auto
  have lt: "type_count (g_om s) < 64" and n: "unat (32 :: u64) + 48 \<le> 4080" by (simp_all add: tc)
  obtain c ps' fl' t where T: "object_type_register ''test'' 32 ops s = Ret 0 t"
    "ob_inv 0 (unat (slab_round (48 + 32))) 0 (new_view [] [] (\<lambda>_. [])) t"
    "g_om t = (g_om s)\<lparr>type_count := 0 + 1, om_types := (om_types (g_om s))[unat (0 :: u32) :=
      (ob_type_for 0 s)\<lparr>ot_name := ''test'', instance_size := 48 + 32, ot_ops := ops, ot_slab := c\<rparr>]\<rparr>"
    "\<exists>p. avail_frames s - {p} \<subseteq> avail_frames t"
    by (rule object_type_register_ok [OF S(2) lt n room, of "''test''" ops, unfolded tc]) (rule that; assumption)
  have sz: "unat (slab_round (48 + 32)) = 80" using unat_slab_round(1) [of 80] by simp
  have len: "length (om_types (g_om s)) = 64" by (rule ob_readyD(11) [OF S(2)])
  then have "ot_ops (ob_type_for 0 t) = ops" "default_rights (ob_type_for 0 t) = default_rights (ob_type_for 0 s)"
    by (simp_all add: ob_type_for_def T(3))
  moreover have "default_rights (ob_type_for 0 s) = 0"
    by (simp add: ob_type_for_def S(3)) (simp add: hash_boot_def heap_boot_def pmm_demo_def reset_state_def)
  moreover have "4 \<le> card (avail_frames t)" using card_avail_step [OF T(4)] six by simp
  ultimately show ?thesis using S(1) T(1,2) unfolding sz by (intro that [of s t]) simp_all
qed

text \<open>Calls for demonstration: \<^verbatim>\<open>create\<close> answers with its pointer's low word, \<^verbatim>\<open>destroy\<close> does nothing.\<close>

definition demo_calls :: ob_calls where
  "demo_calls = \<lparr>call_create = (\<lambda>f x args. Ret (ucast f)), call_destroy = (\<lambda>f x. Ret ())\<rparr>"

definition demo_ops :: "u64 \<Rightarrow> object_type_ops" where
  "demo_ops f = \<lparr>op_create = f, op_destroy = 0x100, op_read = 0, op_write = 0, op_wait = 0, op_ioop = 0,
     op_on_revoke = 0\<rparr>"

lemma demo_contracts:
  "create_contract demo_calls (op_create (demo_ops f)) args n (ucast f)"
  "destroy_contract demo_calls (op_destroy (demo_ops f)) n"
  using callback_step_refl
  by (auto simp: create_contract_def destroy_contract_def demo_calls_def demo_ops_def)

lemma ob_demo_object:
  obtains V x s where "ob_inv 0 80 0 V s" and "obj_ok 80 0 V x s" and "2 \<le> card (avail_frames s)"
    and "load32 s (obj_refcount x) = 1" and "load32 s (obj_handle_count x) = 0"
    and "load32 s (obj_generation x) = 0" and "ot_ops (ob_type_for 0 s) = demo_ops 0"
proof -
  obtain s0 t0 where "object_type_register ''test'' 32 (demo_ops 0) s0 = Ret 0 t0" and
    T: "ob_inv 0 80 0 (new_view [] [] (\<lambda>_. [])) t0" "4 \<le> card (avail_frames t0)" "ot_ops (ob_type_for 0 t0) = demo_ops 0"
    by (rule ob_demo) blast
  let ?V = "new_view [] [] (\<lambda>_. [])" and ?id = "ucast (next_object_id (g_om t0)) :: u64"
  have con: "create_contract demo_calls (op_create (ot_ops (ob_type_for 0 t0))) 0 80 0"
    using demo_contracts(1) [of 0 0 80] T(3) by simp
  have "vfl ?V \<noteq> [] \<or> avail_frames t0 \<noteq> {}" using T(2) by auto
  then obtain x ps fl t where F: "ob_inv 0 80 0 (?V\<lparr>vps := ps, vfl := fl\<rparr>) t"
    "view_live 80 (?V\<lparr>vps := ps, vfl := fl\<rparr>) = insert x (view_live 80 ?V)" "fresh_object 0 ?id x t"
    "g_om t = (g_om t0)\<lparr>next_object_id := next_object_id (g_om t0) + 1\<rparr>" "\<exists>p. avail_frames t0 - {p} \<subseteq> avail_frames t"
    by (rule object_create_front [OF T(1) con]) (rule that; (assumption | simp))
  have "obj_ok 80 0 (?V\<lparr>vps := ps, vfl := fl\<rparr>) x t" using F(2,3) by (simp add: obj_ok_def fresh_object_def)
  moreover have "2 \<le> card (avail_frames t)" using card_avail_step [OF F(5)] T(2) by simp
  moreover have "ob_type_for 0 t = ob_type_for 0 t0" by (simp add: ob_type_for_def F(4))
  ultimately show ?thesis
    using F(1,3) T(3) by (intro that [of "?V\<lparr>vps := ps, vfl := fl\<rparr>" t x]) (simp_all add: fresh_object_def)
qed

section \<open>Properties\<close>



text \<open>
  a refused creation leaves nothing behind. If the type's \<^verbatim>\<open>create\<close> operation reports an
  error, \<^verbatim>\<open>object_create\<close> returns a null pointer, the same objects are in use as before with the
  same bytes, no id was entered, and the invariant holds; one object id is used up.
\<close>

theorem object_create_refused:
  assumes "ob_inv d sz i V s" and "avail_frames s \<noteq> {}" and "err \<noteq> 0"
    and "create_contract calls (op_create (ot_ops (ob_type_for i s))) args sz err"
  shows "\<exists>V' t. object_create calls i args s = Ret NULL t \<and> ob_inv d sz i V' t \<and>
    view_live sz V' = view_live sz V \<and> ob_ids V' t = ob_ids V s \<and>
    next_object_id (g_om t) = next_object_id (g_om s) + 1 \<and> objs_same sz (view_live sz V) s t"
proof -
  have "vfl V \<noteq> [] \<or> avail_frames s \<noteq> {}" using assms(2) by auto
  then obtain x ps fl t where
    F: "object_create calls i args s = andThen (slab_free (ot_slab (ob_type_for i t)) x t) (\<lambda>_ s. Ret NULL s)"
    "ob_inv d sz i (V\<lparr>vps := ps, vfl := fl\<rparr>) t" "x \<notin> view_live sz V"
    "view_live sz (V\<lparr>vps := ps, vfl := fl\<rparr>) = insert x (view_live sz V)"
    "ob_ids (V\<lparr>vps := ps, vfl := fl\<rparr>) t = ob_ids V s" "objs_same sz (view_live sz V) s t"
    "g_om t = (g_om s)\<lparr>next_object_id := next_object_id (g_om s) + 1\<rparr>"
    by (rule object_create_front [OF assms(1,4)]) (rule that; (assumption | simp add: assms(3)))
  let ?V = "V\<lparr>vps := ps, vfl := fl\<rparr>"
  have x: "x \<in> view_live sz ?V" and eq: "view_live sz ?V - {x} = view_live sz V" using F(3,4) by auto
  obtain u where U: "slab_free (ot_slab (ob_type_for i t)) x t = Ret () u"
    "ob_inv d sz i (?V\<lparr>vfl := x # vfl ?V\<rparr>) u" "view_live sz (?V\<lparr>vfl := x # vfl ?V\<rparr>) = view_live sz ?V - {x}"
    "ob_ids ?V u = ob_ids ?V t" "objs_same sz (view_live sz ?V - {x}) t u" "g_om u = g_om t"
    using ob_free [OF F(2) x] by metis
  have "ob_ids (?V\<lparr>vfl := x # vfl ?V\<rparr>) u = ob_ids V s" using U(4) F(5) by (simp add: ob_ids_def)
  moreover have "objs_same sz (view_live sz V) s u" using F(6) U(5) unfolding eq by (rule objs_same_trans)
  ultimately show ?thesis
    using F(1,7) U(1-3,6) eq by (intro exI [of _ "?V\<lparr>vfl := x # vfl ?V\<rparr>"] exI [of _ u]) simp
qed

theorem object_create_refused_witness:
  "\<exists>s V V' t. object_create demo_calls 0 0 s = Ret NULL t \<and> view_live 80 V' = view_live 80 V \<and>
     ob_inv 0 80 0 V' t"
proof -
  obtain t0 where T: "ob_inv 0 80 0 (new_view [] [] (\<lambda>_. [])) t0" "4 \<le> card (avail_frames t0)"
    "ot_ops (ob_type_for 0 t0) = demo_ops 7" by (rule ob_demo [of "demo_ops 7"]) blast
  have "create_contract demo_calls (op_create (ot_ops (ob_type_for 0 t0))) 0 80 7"
    using demo_contracts(1) [of 7 0 80] T(3) by simp
  moreover have "avail_frames t0 \<noteq> {}" "(7 :: u32) \<noteq> 0" using T(2) by auto
  ultimately show ?thesis using object_create_refused [OF T(1), of 7 demo_calls 0] by blast
qed

text \<open>
  C7: an object dies exactly when it may. \<^verbatim>\<open>object_maybe_destroy\<close> changes nothing at all
  while a reference or a handle is left or the object's end was decided before; otherwise it
  takes the object out of the objects in use and its newest entry out of the table of ids,
  leaves the bytes of all other objects alone and keeps the invariant.
\<close>

theorem object_maybe_destroy_decides:
  assumes "ob_inv d sz i V s" and "obj_ok sz i V x s"
    and "destroy_contract calls (op_destroy (ot_ops (ob_type_for i s))) sz"
  shows "if load32 s (obj_refcount x) = 0 \<and> load32 s (obj_handle_count x) = 0 \<and> mem s (obj_destroyed x) = 0
    then \<exists>V' t. object_maybe_destroy calls x s = Ret () t \<and> ob_inv d sz i V' t \<and>
      view_live sz V' = view_live sz V - {x} \<and>
      ob_ids V' t = (ob_ids V s)(load64 s (obj_object_id x) := tl (ob_ids V s (load64 s (obj_object_id x)))) \<and>
      objs_same sz (view_live sz V - {x}) s t
    else object_maybe_destroy calls x s = Ret () s"
proof (cases "ready_to_die x s")
  case True
  from object_maybe_destroy_ok [OF assms(1,2) True assms(3)] True show ?thesis
    unfolding ready_to_die_def [symmetric] by simp metis
next
  case False
  moreover have "load32 s (obj_lock x) = 0" using assms(2) by (simp add: obj_ok_def)
  ultimately show ?thesis
    unfolding ready_to_die_def [symmetric] using object_maybe_destroy_eq [of s x calls] by simp
qed

theorem object_maybe_destroy_decides_witness:
  "\<exists>s V x. obj_ok 80 0 V x s \<and> object_maybe_destroy demo_calls x s = Ret () s"
proof -
  obtain V x s where S: "ob_inv 0 80 0 V s" "obj_ok 80 0 V x s" "load32 s (obj_refcount x) = 1"
    "ot_ops (ob_type_for 0 s) = demo_ops 0" by (rule ob_demo_object) blast
  have "destroy_contract demo_calls (op_destroy (ot_ops (ob_type_for 0 s))) 80"
    using demo_contracts(2) S(4) by simp
  from object_maybe_destroy_decides [OF S(1,2) this] S(2,3) show ?thesis by auto
qed



text \<open>
  taking and dropping a reference to an object somebody holds changes nothing, whatever
  the type's operations are.
\<close>

theorem object_ref_deref:
  assumes "load32 s (obj_refcount x) \<noteq> 0"
  shows "object_deref calls x (object_ref x s) = Ret () s"
proof -
  have "load32 s (obj_refcount x) + 1 \<noteq> 1" using assms by simp
  then show ?thesis
    by (simp add: object_deref_eq object_ref_eq store32_def Let_def mem_simps)
qed

theorem object_ref_deref_witness:
  "object_deref \<lparr>call_create = (\<lambda>_ _ _. Ret 0), call_destroy = (\<lambda>_ _. Ret ())\<rparr> 0x9000
     (object_ref 0x9000 (store32 (obj_refcount 0x9000) 3 pmm_demo)) =
   Ret () (store32 (obj_refcount 0x9000) 3 pmm_demo)"
proof -
  have "load32 (store32 (obj_refcount 0x9000) 3 pmm_demo) (obj_refcount 0x9000) \<noteq> 0"
    by (simp add: store32_refcount(1))
  from object_ref_deref [OF this] show ?thesis .
qed

text \<open>
  an object in a recycled slot is never destroyed. \<^verbatim>\<open>object_create\<close> does not initialise
  \<^verbatim>\<open>destroyed\<close>: when an object has been destroyed, the next object of its type takes its slot and
  inherits the flag. The new object is complete, but dropping its only reference, with no handle
  left, leaves it in use for ever.
\<close>

theorem object_recycled_never_dies:
  assumes "ob_inv d sz i V s" and "obj_ok sz i V x s" and "2 \<le> card (avail_frames s)"
    and "load32 s (obj_refcount x) = 0 \<and> load32 s (obj_handle_count x) = 0 \<and> mem s (obj_destroyed x) = 0"
    and "create_contract calls (op_create (ot_ops (ob_type_for i s))) args sz 0"
    and "destroy_contract calls (op_destroy (ot_ops (ob_type_for i s))) sz"
  shows "\<exists>V' r t u. object_maybe_destroy calls x s = Ret () r \<and> object_create calls i args r = Ret x t \<and>
    load32 t (obj_refcount x) = 1 \<and> object_deref calls x t = Ret () u \<and> load32 u (obj_refcount x) = 0 \<and>
    load32 u (obj_handle_count x) = 0 \<and> ob_inv d sz i V' u \<and> x \<in> view_live sz V'"
proof -
  have go: "ready_to_die x s" using assms(4) by (simp add: ready_to_die_def)
  obtain W r where R: "object_maybe_destroy calls x s = Ret () r" "ob_inv d sz i W r"
    "om_types (g_om r) = om_types (g_om s)" "vfl W = x # vfl V" "mem r (obj_destroyed x) = 1"
    "avail_frames r = avail_frames s"
    using object_maybe_destroy_ok [OF assms(1,2) go assms(6)] by metis
  have "create_contract calls (op_create (ot_ops (ob_type_for i r))) args sz 0"
    using assms(5) R(3) by (simp add: ob_type_for_def)
  with R(2) _ R(4) have "\<exists>V' t u. object_create calls i args r = Ret x t \<and> load32 t (obj_refcount x) = 1 \<and>
    load32 t (obj_handle_count x) = 0 \<and> object_deref calls x t = Ret () u \<and>
    load32 u (obj_refcount x) = 0 \<and> load32 u (obj_handle_count x) = 0 \<and> ob_inv d sz i V' u \<and> x \<in> view_live sz V'"
    by (rule recycled_create) (simp_all add: R(5,6) assms(3))
  with R(1) show ?thesis by blast
qed

theorem object_recycled_never_dies_witness:
  "\<exists>V' s x r t u. object_maybe_destroy demo_calls x s = Ret () r \<and> object_create demo_calls 0 0 r = Ret x t \<and>
     object_deref demo_calls x t = Ret () u \<and> load32 u (obj_refcount x) = 0 \<and> x \<in> view_live 80 V'"
proof -
  obtain V x s where S: "ob_inv 0 80 0 V s" "obj_ok 80 0 V x s" "2 \<le> card (avail_frames s)"
    "load32 s (obj_handle_count x) = 0" "ot_ops (ob_type_for 0 s) = demo_ops 0" by (rule ob_demo_object) blast
  let ?s1 = "store32 (obj_refcount x) 0 s"
  let ?s = "store8 (obj_destroyed x) 0 ?s1"
  have x: "x \<in> view_live 80 V" using S(2) by (simp add: obj_ok_def)
  note A = store32_header [OF obj_parts(2) S(1) x, of 0]
  have d: "obj_destroyed x \<in> region x 80"
    using obj_parts(7) [of x] region_mono [of 48 80 x] by (auto simp: region_1)
  then have "((mem ?s1)(obj_destroyed x := 0)) y = mem ?s1 y" if "y \<notin> region x 80" for y using that by auto
  note B = ob_inv_client [OF A(1) x this, folded store8_def]
  have out: "obj_destroyed x \<notin> region (obj_type_id x) 4" "obj_destroyed x \<notin> region (obj_lock x) 4"
    "obj_destroyed x \<notin> region (obj_refcount x) 4" "obj_destroyed x \<notin> region (obj_handle_count x) 4"
    using obj_fields_apart(16-21) [of x, THEN destroyed_apart] by simp_all
  have keep: "load32 ?s a = load32 ?s1 a" if "obj_destroyed x \<notin> region a 4" for a
    using that unfolding store8_def by (intro read32_cong) auto
  have "obj_ok 80 0 V x ?s" using S(2) by (simp add: obj_ok_def keep out store32_refcount)
  moreover have "load32 ?s (obj_refcount x) = 0 \<and> load32 ?s (obj_handle_count x) = 0 \<and> mem ?s (obj_destroyed x) = 0"
    using S(4) keep [OF out(3)] keep [OF out(4)] by (simp add: store32_refcount) (simp add: store8_def)
  moreover have "ot_ops (ob_type_for 0 ?s) = demo_ops 0" using S(5) by (simp add: store8_def store32_refcount(8))
  then have "create_contract demo_calls (op_create (ot_ops (ob_type_for 0 ?s))) 0 80 0"
    "destroy_contract demo_calls (op_destroy (ot_ops (ob_type_for 0 ?s))) 80"
    using demo_contracts(1) [of 0 0 80] demo_contracts(2) [of 0 80] by simp_all
  moreover have "2 \<le> card (avail_frames ?s)" using S(3) A(4) B(3) by simp
  ultimately show ?thesis using object_recycled_never_dies [OF B(1)] by blast
qed

text \<open>
  registering types. On a manager that is started, with memory left and one of the 64
  places free, \<^verbatim>\<open>object_type_register\<close> returns the next place; its type has the given name and
  operations and an empty cache of objects large enough for header and payload, the manager's
  invariant holds for the new type and the manager stays ready; the other types are as before.
  With all places taken it stops the kernel.
\<close>

theorem object_type_register_sound:
  "(64 \<le> type_count (g_om s) \<longrightarrow> (\<exists>t. object_type_register name isz ops s = Halt t)) \<and>
   (ob_ready d ps fl hps hfl N s \<and> type_count (g_om s) < 64 \<and> unat isz + 48 \<le> 4080 \<and> avail_frames s \<noteq> {} \<longrightarrow>
    (\<exists>t sz ps' fl'. object_type_register name isz ops s = Ret (type_count (g_om s)) t \<and>
       48 + unat isz \<le> sz \<and> ob_inv d sz (type_count (g_om s)) (new_view hps hfl N) t \<and>
       ob_ready d ps' fl' hps hfl N t \<and> type_count (g_om t) = type_count (g_om s) + 1 \<and>
       ot_name (ob_type_for (type_count (g_om s)) t) = name \<and> ot_ops (ob_type_for (type_count (g_om s)) t) = ops \<and>
       (\<forall>j. j \<noteq> type_count (g_om s) \<longrightarrow> ob_type_for j t = ob_type_for j s)))"
proof (intro conjI impI)
  assume "64 \<le> type_count (g_om s)"
  then show "\<exists>t. object_type_register name isz ops s = Halt t"
    using panic_halts by (simp add: object_type_register_def Let_def)
next
  let ?k = "type_count (g_om s)"
  assume a: "ob_ready d ps fl hps hfl N s \<and> ?k < 64 \<and> unat isz + 48 \<le> 4080 \<and> avail_frames s \<noteq> {}"
  then have h: "ob_ready d ps fl hps hfl N s" "?k < 64" "unat isz + 48 \<le> 4080" "fl \<noteq> [] \<or> avail_frames s \<noteq> {}" by simp_all
  obtain c ps' fl' t where T: "object_type_register name isz ops s = Ret ?k t" "ob_ready d ps' fl' hps hfl N t"
    "ob_inv d (unat (slab_round (48 + isz))) ?k (new_view hps hfl N) t"
    "g_om t = (g_om s)\<lparr>type_count := ?k + 1, om_types := (om_types (g_om s))[unat ?k :=
      (ob_type_for ?k s)\<lparr>ot_name := name, instance_size := 48 + isz, ot_ops := ops, ot_slab := c\<rparr>]\<rparr>"
    by (rule object_type_register_ok [OF h, of name ops]) (rule that; assumption)
  have n: "unat (48 + isz) = 48 + unat isz" using h(3) by (simp add: unat_word_ariths)
  have "48 + unat isz \<le> (max 8 (48 + unat isz) + 7) div 8 * 8" by linarith
  then have "48 + unat isz \<le> unat (slab_round (48 + isz))" using unat_slab_round(1) [of "48 + isz"] h(3) n by simp
  moreover have "unat ?k < length (om_types (g_om s))" using ob_readyD(11) [OF h(1)] h(2) by (simp add: word_less_nat_alt)
  moreover have "ob_type_for j t = ob_type_for j s" if "j \<noteq> ?k" for j
    using that by (simp add: ob_type_for_def T(4)) (metis nth_list_update_neq word_unat_eq_iff)
  ultimately show "\<exists>t sz ps' fl'. object_type_register name isz ops s = Ret ?k t \<and>
       48 + unat isz \<le> sz \<and> ob_inv d sz ?k (new_view hps hfl N) t \<and>
       ob_ready d ps' fl' hps hfl N t \<and> type_count (g_om t) = ?k + 1 \<and>
       ot_name (ob_type_for ?k t) = name \<and> ot_ops (ob_type_for ?k t) = ops \<and>
       (\<forall>j. j \<noteq> ?k \<longrightarrow> ob_type_for j t = ob_type_for j s)"
    using T by (intro exI [of _ t] exI [of _ "unat (slab_round (48 + isz))"] exI [of _ ps'] exI [of _ fl'])
      (simp add: ob_type_for_def)
qed

theorem object_type_register_sound_witness:
  "\<exists>t. object_type_register ''x'' 0 (demo_ops 0) (hash_boot\<lparr>g_om := (g_om hash_boot)\<lparr>type_count := 64\<rparr>\<rparr>) = Halt t"
  using object_type_register_sound [of "hash_boot\<lparr>g_om := (g_om hash_boot)\<lparr>type_count := 64\<rparr>\<rparr>" "''x''" 0 "demo_ops 0"]
  by simp

text \<open>
  the manager starts. With the metadata cache ready and a run of nine free frames for the
  4096 buckets at the position the frame allocator looks at next, \<^verbatim>\<open>ob_init\<close> returns a manager
  that is ready for registrations, with an empty table of ids, the lock free, no type and the
  first object id 1.
\<close>

theorem ob_init_sound:
  assumes "slab_inv d (cache_metadata_cache s) 32 ps fl s" and "cache_meta_initialized s" and "kheap_initialized s"
    and "next_fit s = Some i" and "{i..<i + 9} \<subseteq> free_set s" and "fl \<noteq> [] \<or> free_set s - {i..<i + 9} \<noteq> {}"
    and "region (table_lock (g_om s)) 4 \<inter> (cache_foot (cache_metadata_cache s) ps \<union> pool_foot s) = {}"
    and "length (om_types (g_om s)) = 64"
  shows "\<exists>t ps' fl'. ob_init s = Ret () t \<and> ob_ready d ps' fl' [] [] (\<lambda>_. []) t \<and>
    next_object_id (g_om t) = 1 \<and> type_count (g_om t) = 0"
proof -
  obtain ht ps' fl' t where T: "ob_init s = Ret () t" "ob_ready d ps' fl' [] [] (\<lambda>_. []) t"
    "g_om t = (g_om s)\<lparr>id_table := ht, next_object_id := 1, type_count := 0\<rparr>"
    by (rule ob_init_ok [OF assms]) (rule that; assumption)
  then show ?thesis by auto
qed

theorem ob_init_sound_witness:
  "\<exists>t ps fl. ob_init hash_boot = Ret () t \<and> ob_ready 0 ps fl [] [] (\<lambda>_. []) t"
proof -
  have lp: "large_pages (8 * 4096) = 9" by (simp add: large_pages_def)
  from ob_init_sound [OF hash_boot_facts(1-4) hash_boot_run(1,3) [unfolded lp] hash_boot_lock] show ?thesis by blast
qed

end
