(* ===== verification/Cap.thy ===== *)
theory Cap
  imports Ob
begin

text \<open>
  \<^verbatim>\<open>base/ob/cap.c\<close>: capability tables. A table lies in memory: 4096 entries of an object pointer,
  the rights and a snapshot of the object's generation, a hint where to look for a free entry,
  and a lock. A handle is an index into the table. The self-test of the object manager
  (\<^verbatim>\<open>object_test\<close> of \<^verbatim>\<open>base/ob/ob.c\<close>) uses both components and stands here.
\<close>

section \<open>Definitions\<close>

definition CAP_INVALID :: u32 where "CAP_INVALID = 0xFFFFFFFF"
definition RIGHT_READ :: u32 where "RIGHT_READ = 1"
definition RIGHT_WRITE :: u32 where "RIGHT_WRITE = 2"

definition entry_object :: "u64 \<Rightarrow> u32 \<Rightarrow> u64" where "entry_object t i = t + 16 * ucast i"
definition entry_rights :: "u64 \<Rightarrow> u32 \<Rightarrow> u64" where "entry_rights t i = t + 16 * ucast i + 8"
definition entry_generation :: "u64 \<Rightarrow> u32 \<Rightarrow> u64" where "entry_generation t i = t + 16 * ucast i + 12"
definition cap_hint :: "u64 \<Rightarrow> u64" where "cap_hint t = t + 65536"
definition cap_lock :: "u64 \<Rightarrow> u64" where "cap_lock t = t + 65540"

subsection \<open>Operations\<close>

definition cap_table_create :: "kstate \<Rightarrow> (u64, kstate) outcome" where
  "cap_table_create s =
     andThen (kmalloc 65544 s) (\<lambda>t s.
       if t = NULL then Ret NULL s
       else
         let s = s\<lparr>mem := memset t 0 65544 (mem s)\<rparr>;
             s = store32 (cap_lock t) 0 s
         in Ret t s)"

text \<open>The search for a free entry, with what happens to the entry found.\<close>

function grant_scan :: "u32 \<Rightarrow> u64 \<Rightarrow> u64 \<Rightarrow> u32 \<Rightarrow> nat \<Rightarrow> kstate \<Rightarrow> u32 \<times> kstate" where
  "grant_scan hint table obj rights i s =
     (if i < 4096 then
        let idx = (hint + of_nat i) mod 4096
        in if load64 s (entry_object table idx) = NULL then
             let generation = load32 s (obj_generation obj);
                 s = store64 (entry_object table idx) obj s;
                 s = store32 (entry_rights table idx) rights s;
                 s = store32 (entry_generation table idx) generation s;
                 s = atomic_store_release (cap_hint table) (idx + 1) s
             in (idx, s)
           else grant_scan hint table obj rights (Suc i) s
      else (CAP_INVALID, s))"
  by pat_completeness auto
termination by (relation "measure (\<lambda>(_, _, _, _, i, _). 4096 - i)") auto

definition object_grant :: "u64 \<Rightarrow> u64 \<Rightarrow> u32 \<Rightarrow> kstate \<Rightarrow> (u32, kstate) outcome" where
  "object_grant table obj rights s =
     (let type = ob_type_for (load32 s (obj_type_id obj)) s
      in if rights AND default_rights type \<noteq> rights then
           Ret CAP_INVALID (klog_info ''cap'' ''grant rejected: rights exceed type default_rights'' [] s)
         else
           andThen (spin_lock (cap_lock table) s) (\<lambda>_ s.
             let hint = atomic_load (cap_hint table) s;
                 (slot, s) = grant_scan hint table obj rights 0 s;
                 s = spin_unlock (cap_lock table) s;
                 s = (if slot \<noteq> CAP_INVALID then snd (atomic_fetch_add (obj_handle_count obj) 1 s)
                      else klog_info ''cap'' ''grant failed: table full'' [] s)
             in Ret slot s))"

definition object_close :: "ob_calls \<Rightarrow> u64 \<Rightarrow> u32 \<Rightarrow> kstate \<Rightarrow> (int, kstate) outcome" where
  "object_close calls table handle s =
     (if 4096 \<le> handle then Ret (-1) s
      else
        andThen (spin_lock (cap_lock table) s) (\<lambda>_ s.
          let obj = load64 s (entry_object table handle)
          in if obj = NULL then Ret (-1) (spin_unlock (cap_lock table) s)
             else
               let s = store64 (entry_object table handle) NULL s;
                   s = spin_unlock (cap_lock table) s;
                   s = snd (atomic_fetch_sub (obj_handle_count obj) 1 s)
               in andThen (object_maybe_destroy calls obj s) (\<lambda>_ s. Ret 0 s)))"

definition cap_lookup :: "ob_calls \<Rightarrow> u64 \<Rightarrow> u32 \<Rightarrow> u32 \<Rightarrow> kstate \<Rightarrow> (u64, kstate) outcome" where
  "cap_lookup calls table handle required_rights s =
     (if 4096 \<le> handle then Ret NULL s
      else
        andThen (spin_lock (cap_lock table) s) (\<lambda>_ s.
          let obj = load64 s (entry_object table handle)
          in if obj = NULL then Ret NULL (spin_unlock (cap_lock table) s)
             else if load32 s (obj_generation obj) \<noteq> load32 s (entry_generation table handle) then
               let s = store64 (entry_object table handle) NULL s;
                   s = spin_unlock (cap_lock table) s;
                   s = snd (atomic_fetch_sub (obj_handle_count obj) 1 s)
               in andThen (object_maybe_destroy calls obj s) (\<lambda>_ s. Ret NULL s)
             else if load32 s (entry_rights table handle) AND required_rights \<noteq> required_rights then
               Ret NULL (spin_unlock (cap_lock table) s)
             else
               let s = object_ref obj s
               in Ret obj (spin_unlock (cap_lock table) s)))"

subsection \<open>The self-test of the object manager\<close>

definition test_log :: "string \<Rightarrow> kstate \<Rightarrow> kstate" where
  "test_log msg = klog_info ''test'' msg []"

definition object_test_end :: "ob_calls \<Rightarrow> u64 \<Rightarrow> u64 \<Rightarrow> u32 \<Rightarrow> kstate \<Rightarrow> (unit, kstate) outcome" where
  "object_test_end calls obj cap_table handle s =
     andThen (object_deref calls obj s) (\<lambda>_ s.
       if g_test_destroyed s then
         Ret () (test_log ''[ob] FAIL: object destroyed early while handle_count > 0'' s)
       else
         andThen (object_close calls cap_table handle s) (\<lambda>r s.
           if r \<noteq> 0 then Ret () (test_log ''[ob] FAIL: object_close failed'' s)
           else if \<not> g_test_destroyed s then
             Ret () (test_log ''[ob] FAIL: destroy callback did not fire after closing handle'' s)
           else
             Ret () (test_log ''[ob] PASS: handle_count dropped and destroy callback triggered'' s)))"

definition object_test_cap :: "ob_calls \<Rightarrow> u64 \<Rightarrow> u64 \<Rightarrow> u32 \<Rightarrow> kstate \<Rightarrow> (unit, kstate) outcome" where
  "object_test_cap calls obj cap_table handle s =
     (if handle = CAP_INVALID then
        Ret () (test_log ''[ob] FAIL: object_grant with RIGHT_READ'' s)
      else if atomic_load (obj_handle_count obj) s \<noteq> 1 then
        Ret () (test_log ''[ob] FAIL: handle_count after grant'' s)
      else
        let s = test_log ''[ob] PASS: object_grant with RIGHT_READ'' s
        in andThen (cap_lookup calls cap_table handle RIGHT_WRITE s) (\<lambda>write_lookup s.
             if write_lookup \<noteq> NULL then
               Ret () (test_log ''[ob] FAIL: cap_lookup allowed RIGHT_WRITE when only RIGHT_READ granted'' s)
             else
               let s = test_log ''[ob] PASS: cap_lookup RIGHT_WRITE rejected'' s
               in andThen (cap_lookup calls cap_table handle RIGHT_READ s) (\<lambda>read_lookup s.
                    if read_lookup \<noteq> obj then
                      Ret () (test_log ''[ob] FAIL: cap_lookup RIGHT_READ failed'' s)
                    else
                      andThen (object_deref calls read_lookup s) (\<lambda>_ s.
                        object_test_end calls obj cap_table handle
                          (test_log ''[ob] PASS: cap_lookup RIGHT_READ succeeded'' s)))))"

text \<open>
  The addresses of the two test callbacks are arguments. The pointer that
  \<^verbatim>\<open>object_type_register\<close> returns points into the array of types and is never null, so the
  branch of the test for a null pointer has no counterpart.
\<close>

definition object_test :: "ob_calls \<Rightarrow> u64 \<Rightarrow> u64 \<Rightarrow> kstate \<Rightarrow> (unit, kstate) outcome" where
  "object_test calls create destroy s =
     (let s = test_log ''[ob] starting'' s;
          ops = \<lparr>op_create = create, op_destroy = destroy, op_read = 0, op_write = 0, op_wait = 0,
                 op_ioop = 0, op_on_revoke = 0\<rparr>
      in andThen (object_type_register ''test'' 32 ops s) (\<lambda>type s.
           let s = set_type type (\<lambda>t. t\<lparr>default_rights := RIGHT_READ OR RIGHT_WRITE\<rparr>) s;
               s = test_log ''[ob] PASS: type registration'' s
           in andThen (object_create calls type NULL s) (\<lambda>obj s.
                if obj = NULL then Ret () (test_log ''[ob] FAIL: object creation'' s)
                else
                  let s = test_log ''[ob] PASS: object creation'' s
                  in if atomic_load (obj_refcount obj) s \<noteq> 1 then
                       Ret () (test_log ''[ob] FAIL: initial refcount'' s)
                     else
                       let s = test_log ''[ob] PASS: initial refcount'' s
                       in andThen (cap_table_create s) (\<lambda>cap_table s.
                            if cap_table = NULL then
                              Ret () (test_log ''[ob] FAIL: cap_table_create'' s)
                            else
                              andThen (object_grant cap_table obj RIGHT_READ s) (\<lambda>handle s.
                                object_test_cap calls obj cap_table handle s)))))"

subsection \<open>The abstract view\<close>

text \<open>A table as a partial map from handles to object, rights and generation.\<close>

definition cap_view :: "u64 \<Rightarrow> memory \<Rightarrow> u32 \<Rightarrow> (u64 \<times> u32 \<times> u32) option" where
  "cap_view t m i =
     (if read64 m (entry_object t i) = NULL then None
      else Some (read64 m (entry_object t i), read32 m (entry_rights t i), read32 m (entry_generation t i)))"

definition first_free :: "u32 \<Rightarrow> u64 \<Rightarrow> memory \<Rightarrow> u32 option" where
  "first_free hint t m =
     map_option (\<lambda>k. (hint + of_nat k) mod 4096)
       (find (\<lambda>k. cap_view t m ((hint + of_nat k) mod 4096) = None) [0..<4096])"

text \<open>How many handles of a table name an object.\<close>

definition cap_handles :: "u64 \<Rightarrow> memory \<Rightarrow> u64 \<Rightarrow> u32 set" where
  "cap_handles t m x = {i. i < 4096 \<and> (\<exists>r g. cap_view t m i = Some (x, r, g))}"

section \<open>Lemmas\<close>

declare grant_scan.simps [simp del]

subsection \<open>Addresses\<close>

lemma cap_offsets:
  "entry_object t i = t + of_nat (16 * unat i)" "entry_rights t i = t + of_nat (16 * unat i + 8)"
  "entry_generation t i = t + of_nat (16 * unat i + 12)"
  "cap_hint t = t + of_nat 65536" "cap_lock t = t + of_nat 65540"
  by (simp_all add: entry_object_def entry_rights_def entry_generation_def cap_hint_def cap_lock_def)

lemma cap_subset:
  assumes "i < 4096"
  shows "region (entry_object t i) 8 \<subseteq> region t 65536" and "region (entry_rights t i) 4 \<subseteq> region t 65536"
    and "region (entry_generation t i) 4 \<subseteq> region t 65536"
proof -
  have "unat i < 4096" using assms by (simp add: word_less_nat_alt)
  then show "region (entry_object t i) 8 \<subseteq> region t 65536" "region (entry_rights t i) 4 \<subseteq> region t 65536"
    "region (entry_generation t i) 4 \<subseteq> region t 65536"
    unfolding cap_offsets by (intro region_off_subset; simp)+
qed

lemma cap_tail:
  "region (cap_hint t) 4 \<subseteq> region t 65544" "region (cap_lock t) 4 \<subseteq> region t 65544" "region t 65536 \<subseteq> region t 65544"
  "region t 65536 \<inter> region (cap_hint t) 4 = {}" "region t 65536 \<inter> region (cap_lock t) 4 = {}"
  "region (cap_hint t) 4 \<inter> region (cap_lock t) 4 = {}"
proof -
  show "region (cap_hint t) 4 \<subseteq> region t 65544" "region (cap_lock t) 4 \<subseteq> region t 65544"
    unfolding cap_offsets by (intro region_off_subset; simp)+
  show "region t 65536 \<subseteq> region t 65544" by (rule region_mono) simp
  have "region (t + of_nat 0) 65536 \<inter> region (t + of_nat 65536) 4 = {}"
    "region (t + of_nat 0) 65536 \<inter> region (t + of_nat 65540) 4 = {}"
    "region (t + of_nat 65536) 4 \<inter> region (t + of_nat 65540) 4 = {}"
    by (intro region_off_disjoint; simp)+
  then show "region t 65536 \<inter> region (cap_hint t) 4 = {}" "region t 65536 \<inter> region (cap_lock t) 4 = {}"
    "region (cap_hint t) 4 \<inter> region (cap_lock t) 4 = {}"
    unfolding cap_offsets by simp_all
qed

lemma entries_apart:
  assumes "i < 4096" and "j < 4096" and "i \<noteq> j"
  shows "region (entry_object t i) 16 \<inter> region (entry_object t j) 16 = {}"
proof -
  have "unat i < 4096" "unat j < 4096" "unat i \<noteq> unat j"
    using assms by (simp_all add: word_less_nat_alt word_unat_eq_iff)
  then have "16 * unat i + 16 \<le> 16 * unat j \<or> 16 * unat j + 16 \<le> 16 * unat i" by linarith
  then show ?thesis
    unfolding cap_offsets using \<open>unat i < 4096\<close> \<open>unat j < 4096\<close> by (intro region_off_disjoint) simp_all
qed

lemma entry_parts:
  assumes "i < 4096"
  shows "region (entry_object t i) 8 \<subseteq> region (entry_object t i) 16"
    and "region (entry_rights t i) 4 \<subseteq> region (entry_object t i) 16"
    and "region (entry_generation t i) 4 \<subseteq> region (entry_object t i) 16"
    and "region (entry_object t i) 16 \<subseteq> region t 65536"
    and "region (entry_rights t i) 4 \<inter> region (entry_object t i) 8 = {}"
    and "region (entry_generation t i) 4 \<inter> region (entry_object t i) 8 = {}"
    and "region (entry_generation t i) 4 \<inter> region (entry_rights t i) 4 = {}"
proof -
  have i: "unat i < 4096" using assms by (simp add: word_less_nat_alt)
  let ?e = "entry_object t i"
  have f: "entry_rights t i = ?e + of_nat 8" "entry_generation t i = ?e + of_nat 12"
    by (simp_all add: cap_offsets)
  show "region ?e 8 \<subseteq> region ?e 16" by (rule region_mono) simp
  show "region (entry_rights t i) 4 \<subseteq> region ?e 16" "region (entry_generation t i) 4 \<subseteq> region ?e 16"
    unfolding f by (intro region_off_subset; simp)+
  show "region ?e 16 \<subseteq> region t 65536" unfolding cap_offsets using i by (intro region_off_subset) simp_all
  have "region (?e + of_nat 8) 4 \<inter> region (?e + of_nat 0) 8 = {}" "region (?e + of_nat 12) 4 \<inter> region (?e + of_nat 0) 8 = {}"
    "region (?e + of_nat 12) 4 \<inter> region (?e + of_nat 8) 4 = {}"
    by (intro region_off_disjoint; simp)+
  then show "region (entry_rights t i) 4 \<inter> region ?e 8 = {}" "region (entry_generation t i) 4 \<inter> region ?e 8 = {}"
    "region (entry_generation t i) 4 \<inter> region (entry_rights t i) 4 = {}" unfolding f by simp_all
qed

subsection \<open>The view under writes\<close>

lemma cap_view_cong:
  assumes "i < 4096" and "\<And>y. y \<in> region (entry_object t i) 16 \<Longrightarrow> m' y = m y"
  shows "cap_view t m' i = cap_view t m i"
proof -
  have "read64 m' (entry_object t i) = read64 m (entry_object t i)"
    "read32 m' (entry_rights t i) = read32 m (entry_rights t i)"
    "read32 m' (entry_generation t i) = read32 m (entry_generation t i)"
    using assms(2) entry_parts(1-3) [OF assms(1), of t] by (blast intro: read64_cong read32_cong)+
  then show ?thesis by (simp add: cap_view_def)
qed

lemma cap_view_cong_table:
  "i < 4096 \<Longrightarrow> (\<And>y. y \<in> region t 65536 \<Longrightarrow> m' y = m y) \<Longrightarrow> cap_view t m' i = cap_view t m i"
  using entry_parts(4) [of i t] by (intro cap_view_cong) blast+

definition cap_put :: "u64 \<Rightarrow> u32 \<Rightarrow> u64 \<Rightarrow> u32 \<Rightarrow> u32 \<Rightarrow> memory \<Rightarrow> memory" where
  "cap_put t i x r g m =
     write32 (write32 (write64 m (entry_object t i) x) (entry_rights t i) r) (entry_generation t i) g"

lemma cap_put_outside:
  assumes "i < 4096" and "y \<notin> region (entry_object t i) 16"
  shows "cap_put t i x r g m y = m y"
proof -
  have "y \<notin> region (entry_object t i) 8" "y \<notin> region (entry_rights t i) 4" "y \<notin> region (entry_generation t i) 4"
    using assms entry_parts(1-3) [OF assms(1), of t] by blast+
  then show ?thesis by (simp add: cap_put_def write32_outside write64_outside)
qed

lemma cap_view_put:
  assumes "i < 4096" and "j < 4096" and "x \<noteq> NULL"
  shows "cap_view t (cap_put t i x r g m) j = (if j = i then Some (x, r, g) else cap_view t m j)"
proof (cases "j = i")
  case True
  then show ?thesis using assms(3) entry_parts(5-7) [OF assms(1), of t]
    by (simp add: cap_view_def cap_put_def mem_simps rw_disjoint)
next
  case False
  have "cap_put t i x r g m y = m y" if "y \<in> region (entry_object t j) 16" for y
    using entries_apart [OF assms(1,2), of t] False that by (intro cap_put_outside assms(1)) auto
  then have "cap_view t (cap_put t i x r g m) j = cap_view t m j" by (rule cap_view_cong [OF assms(2)])
  with False show ?thesis by simp
qed

lemma cap_view_clear:
  assumes "i < 4096" and "j < 4096"
  shows "cap_view t (write64 m (entry_object t i) NULL) j = (if j = i then None else cap_view t m j)"
proof (cases "j = i")
  case False
  have "write64 m (entry_object t i) NULL y = m y" if "y \<in> region (entry_object t j) 16" for y
    using entries_apart [OF assms, of t] False that entry_parts(1) [OF assms(1), of t]
    by (intro write64_outside) auto
  then have "cap_view t (write64 m (entry_object t i) NULL) j = cap_view t m j" by (rule cap_view_cong [OF assms(2)])
  with False show ?thesis by simp
qed (simp add: cap_view_def mem_simps)

lemma cap_view_lock: "i < 4096 \<Longrightarrow> cap_view t (write32 m (cap_lock t) v) i = cap_view t m i"
  using cap_tail(5) [of t] by (intro cap_view_cong_table write32_outside) auto

lemma cap_view_hint: "i < 4096 \<Longrightarrow> cap_view t (write32 m (cap_hint t) v) i = cap_view t m i"
  using cap_tail(4) [of t] by (intro cap_view_cong_table write32_outside) auto

lemma mod4096_lt: "(h :: u32) mod 4096 < 4096"
  by (simp add: word_less_nat_alt unat_mod)

lemma first_free_lock: "first_free hint t (write32 m (cap_lock t) v) = first_free hint t m"
  by (simp add: first_free_def cap_view_lock mod4096_lt)

text \<open>The search goes round the whole table.\<close>

lemma scan_covers:
  assumes "i < (4096 :: u32)"
  obtains k where "k < 4096" and "(hint + of_nat k) mod 4096 = i"
proof -
  have i: "unat i < 4096" using assms by (simp add: word_less_nat_alt)
  define h where "h = unat hint mod 4096"
  define k where "k = (unat i + 4096 - h) mod 4096"
  have h: "h < 4096" and k: "k < 4096" by (simp_all add: h_def k_def)
  have "unat ((hint + of_nat k) mod 4096) = (unat hint + k) mod 2 ^ 32 mod 4096"
    using k by (simp add: unat_mod unat_word_ariths unat_of_nat)
  also have "\<dots> = (unat hint + k) mod 4096" by (rule mod_mod_cancel) simp
  also have "\<dots> = (unat hint mod 4096 + (unat i + 4096 - h)) mod 4096"
    unfolding k_def by (simp only: mod_add_left_eq mod_add_right_eq)
  also have "\<dots> = (h + (unat i + 4096 - h)) mod 4096" by (simp only: h_def)
  also have "\<dots> = unat i" using i h by simp
  finally have "(hint + of_nat k) mod 4096 = i" by (simp add: word_unat_eq_iff)
  with k show ?thesis by (rule that)
qed

lemma first_free_Some: "first_free hint t m = Some i \<Longrightarrow> i < 4096 \<and> cap_view t m i = None"
  by (auto simp: first_free_def find_Some_iff mod4096_lt)

lemma first_free_None:
  assumes "first_free hint t m = None" and "i < 4096"
  shows "cap_view t m i \<noteq> None"
proof -
  from scan_covers [OF assms(2), of hint] obtain k where k: "k < 4096" "(hint + of_nat k) mod 4096 = i" .
  have "\<not> (\<exists>x. x \<in> set [0..<4096] \<and> cap_view t m ((hint + of_nat x) mod 4096) = None)"
    using assms(1) unfolding first_free_def by (auto simp: find_None_iff)
  with k show ?thesis by fastforce
qed

subsection \<open>Granting\<close>

lemma cap_view_None: "cap_view t m i = None \<longleftrightarrow> read64 m (entry_object t i) = NULL"
  by (simp add: cap_view_def)

lemma grant_scan_eq:
  "grant_scan hint t x r i s =
    (case find (\<lambda>k. cap_view t (mem s) ((hint + of_nat k) mod 4096) = None) [i..<4096] of
       None \<Rightarrow> (CAP_INVALID, s)
     | Some k \<Rightarrow>
         let idx = (hint + of_nat k) mod 4096
         in (idx, atomic_store_release (cap_hint t) (idx + 1)
               (s\<lparr>mem := cap_put t idx x r (load32 s (obj_generation x)) (mem s)\<rparr>)))"
proof (induction hint t x r i s rule: grant_scan.induct)
  case (1 hint t x r i s)
  let ?idx = "(hint + of_nat i) mod 4096"
  show ?case
  proof (cases "i < 4096")
    case False
    then show ?thesis by (subst grant_scan.simps) simp
  next
    case lt: True
    then have upt: "[i..<4096] = i # [Suc i..<4096]" by (rule upt_conv_Cons)
    show ?thesis
    proof (cases "cap_view t (mem s) ?idx = None")
      case True
      then have "load64 s (entry_object t ?idx) = NULL" by (simp only: cap_view_None)
      with True lt show ?thesis
        by (subst grant_scan.simps) (simp add: upt Let_def cap_put_def store64_def store32_def)
    next
      case False
      then have "load64 s (entry_object t ?idx) \<noteq> NULL" using cap_view_None [of t "mem s" ?idx] by simp
      with False lt 1 show ?thesis
        by (subst grant_scan.simps) (simp del: not_None_eq add: upt Let_def)
    qed
  qed
qed

lemma grant_scan_first_free:
  "grant_scan hint t x r 0 s =
    (case first_free hint t (mem s) of
       None \<Rightarrow> (CAP_INVALID, s)
     | Some idx \<Rightarrow> (idx, atomic_store_release (cap_hint t) (idx + 1)
               (s\<lparr>mem := cap_put t idx x r (load32 s (obj_generation x)) (mem s)\<rparr>)))"
  by (simp add: grant_scan_eq first_free_def Let_def split: option.split)

lemma store_release_mem:
  obtains v where "atomic_store_release p n s = s\<lparr>mem := write32 (mem s) p v\<rparr>"
  by (simp add: atomic_store_release_def)

text \<open>The memory after a grant: a table that changed, and one more handle in the object's header.\<close>

lemma object_grant_ok:
  assumes free: "load32 s (cap_lock t) = 0" and ap: "region t 65544 \<inter> region x 48 = {}" and x: "x \<noteq> NULL"
    and rights: "r AND default_rights (ob_type_for (load32 s (obj_type_id x)) s) = r"
    and slot: "first_free (load32 s (cap_hint t)) t (mem s) = Some h"
  obtains m where "object_grant t x r s =
      Ret h (s\<lparr>mem := write32 m (obj_handle_count x) (load32 s (obj_handle_count x) + 1)\<rparr>)"
    and "\<And>y. y \<notin> region t 65544 \<Longrightarrow> m y = mem s y" and "read32 m (cap_lock t) = 0"
    and "\<And>j. j < 4096 \<Longrightarrow> cap_view t m j = (if j = h then Some (x, r, load32 s (obj_generation x)) else cap_view t (mem s) j)"
proof -
  have h: "h < 4096" "cap_view t (mem s) h = None" using first_free_Some [OF slot] by simp_all
  let ?l = "s\<lparr>mem := write32 (mem s) (cap_lock t) 1\<rparr>"
  have "load32 ?l (cap_hint t) = load32 s (cap_hint t)"
    using cap_tail(6) [of t] by (simp add: read32_write32_disjoint Int_commute)
  moreover have gen: "load32 ?l (obj_generation x) = load32 s (obj_generation x)"
    "load32 ?l (obj_handle_count x) = load32 s (obj_handle_count x)"
    using ap cap_tail(2) [of t] obj_parts [of x] by (simp, intro read32_write32_disjoint; blast)+
  ultimately have sl: "first_free (load32 ?l (cap_hint t)) t (mem ?l) = Some h"
    using slot first_free_lock by simp
  let ?g = "load32 s (obj_generation x)"
  obtain v where v: "atomic_store_release (cap_hint t) (h + 1) (?l\<lparr>mem := cap_put t h x r ?g (mem ?l)\<rparr>) =
      s\<lparr>mem := write32 (cap_put t h x r ?g (mem ?l)) (cap_hint t) v\<rparr>"
    using store_release_mem [of "cap_hint t" "h + 1" "?l\<lparr>mem := cap_put t h x r ?g (mem ?l)\<rparr>"] by auto
  define m where "m = write32 (write32 (cap_put t h x r ?g (mem ?l)) (cap_hint t) v) (cap_lock t) 0"
  have scan: "grant_scan (load32 ?l (cap_hint t)) t x r 0 ?l =
      (h, s\<lparr>mem := write32 (cap_put t h x r ?g (mem ?l)) (cap_hint t) v\<rparr>)"
    unfolding grant_scan_first_free sl option.case gen v by (rule refl)
  have out: "m y = mem s y" if "y \<notin> region t 65544" for y
  proof -
    have "y \<notin> region (entry_object t h) 16" "y \<notin> region (cap_hint t) 4" "y \<notin> region (cap_lock t) 4"
      using that entry_parts(4) [OF h(1), of t] cap_tail(1-3) [of t] by blast+
    then show ?thesis using h(1) by (simp add: m_def write32_outside cap_put_outside)
  qed
  have view: "cap_view t m j = (if j = h then Some (x, r, ?g) else cap_view t (mem s) j)" if "j < 4096" for j
    using that h(1) x by (simp add: m_def cap_view_lock cap_view_hint cap_view_put)
  have hc: "read32 m (obj_handle_count x) = load32 s (obj_handle_count x)"
    using ap obj_parts(3) [of x] by (intro read32_cong out) blast
  have "h \<noteq> CAP_INVALID" using h(1) by (auto simp: CAP_INVALID_def)
  then have "object_grant t x r s =
      Ret h (s\<lparr>mem := write32 m (obj_handle_count x) (load32 s (obj_handle_count x) + 1)\<rparr>)"
    unfolding object_grant_def Let_def spin_lock_free [OF free] andThen.simps atomic_load_def scan
    using rights hc by (simp add: spin_unlock_eq atomic_fetch_add_def Let_def m_def)
  moreover have "read32 m (cap_lock t) = 0" by (simp add: m_def mem_simps)
  ultimately show ?thesis using out view by (intro that)
qed

lemma object_grant_rejected:
  "r AND default_rights (ob_type_for (load32 s (obj_type_id x)) s) \<noteq> r \<Longrightarrow>
   object_grant t x r s = Ret CAP_INVALID (klog_info ''cap'' ''grant rejected: rights exceed type default_rights'' [] s)"
  by (simp add: object_grant_def)

lemma object_grant_full:
  assumes free: "load32 s (cap_lock t) = 0"
    and rights: "r AND default_rights (ob_type_for (load32 s (obj_type_id x)) s) = r"
    and full: "first_free (load32 s (cap_hint t)) t (mem s) = None"
  shows "object_grant t x r s = Ret CAP_INVALID (klog_info ''cap'' ''grant failed: table full'' [] s)"
proof -
  let ?l = "s\<lparr>mem := write32 (mem s) (cap_lock t) 1\<rparr>"
  have "load32 ?l (cap_hint t) = load32 s (cap_hint t)"
    using cap_tail(6) [of t] by (simp add: read32_write32_disjoint Int_commute)
  then have sl: "first_free (load32 ?l (cap_hint t)) t (mem ?l) = None" using full first_free_lock by simp
  have "spin_unlock (cap_lock t) ?l = s"
    using free write32_read32 [of "mem s" "cap_lock t"] by (simp add: spin_unlock_eq mem_simps)
  then show ?thesis
    unfolding object_grant_def Let_def spin_lock_free [OF free] andThen.simps atomic_load_def grant_scan_first_free sl
    using rights by simp
qed

subsection \<open>Looking up and closing\<close>

lemma lock_unlock:
  assumes "load32 s l = 0"
  shows "spin_unlock l (s\<lparr>mem := write32 (mem s) l 1\<rparr>) = s"
  using assms write32_read32 [of "mem s" l] by (simp add: spin_unlock_eq mem_simps)

lemma write_swap:
  assumes "region a 4 \<inter> region b 4 = {}"
  shows "write32 (write32 m a v) b w = write32 (write32 m b w) a v"
proof
  fix y show "write32 (write32 m a v) b w y = write32 (write32 m b w) a v y"
    using assms by (cases "y \<in> region a 4"; cases "y \<in> region b 4")
      (auto simp: write32_outside, simp_all add: write32_def store_def region_def)
qed

lemma cap_lookup_eq:
  assumes free: "load32 s (cap_lock t) = 0" and h: "h < 4096" and v: "cap_view t (mem s) h = Some (x, r, g)"
    and ap: "region t 65544 \<inter> region x 48 = {}" and gen: "load32 s (obj_generation x) = g"
  shows "cap_lookup calls t h req s = (if r AND req = req then Ret x (object_ref x s) else Ret NULL s)"
proof -
  let ?l = "s\<lparr>mem := write32 (mem s) (cap_lock t) 1\<rparr>"
  have "cap_view t (mem ?l) h = Some (x, r, g)" using v cap_view_lock [OF h] by simp
  then have e: "load64 ?l (entry_object t h) = x" "load32 ?l (entry_rights t h) = r"
    "load32 ?l (entry_generation t h) = g" and x: "x \<noteq> NULL"
    by (auto simp: cap_view_def split: if_splits)
  have lk: "region (cap_lock t) 4 \<inter> region (obj_generation x) 4 = {}" "region (cap_lock t) 4 \<inter> region (obj_refcount x) 4 = {}"
    using ap cap_tail(2) [of t] obj_parts(2,4) [of x] by blast+
  have g': "load32 ?l (obj_generation x) = g" using gen lk(1) by (simp add: read32_write32_disjoint)
  have "spin_unlock (cap_lock t) (object_ref x ?l) = object_ref x s"
    using lk(2) free write32_read32 [of "mem s" "cap_lock t"] write_swap [of "obj_refcount x" "cap_lock t"]
    by (simp add: object_ref_eq store32_def spin_unlock_eq read32_write32_disjoint Int_commute mem_simps)
  then show ?thesis
    unfolding cap_lookup_def spin_lock_free [OF free] andThen.simps Let_def e g'
    using h x lock_unlock [OF free] by (simp add: linorder_not_less [symmetric])
qed

lemma cap_lookup_none:
  assumes "load32 s (cap_lock t) = 0" and "\<not> h < 4096 \<or> cap_view t (mem s) h = None"
  shows "cap_lookup calls t h req s = Ret NULL s"
proof (cases "h < 4096")
  case True
  let ?l = "s\<lparr>mem := write32 (mem s) (cap_lock t) 1\<rparr>"
  have "cap_view t (mem ?l) h = None" using assms(2) True cap_view_lock [OF True] by simp
  then have "load64 ?l (entry_object t h) = NULL" by (rule iffD1 [OF cap_view_None])
  with True show ?thesis
    unfolding cap_lookup_def spin_lock_free [OF assms(1)] andThen.simps Let_def
    using lock_unlock [OF assms(1)] by (simp add: linorder_not_less [symmetric])
qed (simp add: cap_lookup_def linorder_not_less)

definition closed :: "u64 \<Rightarrow> u32 \<Rightarrow> u64 \<Rightarrow> kstate \<Rightarrow> kstate" where
  "closed t h x s =
     (let m = write64 (mem s) (entry_object t h) NULL
      in s\<lparr>mem := write32 m (obj_handle_count x) (load32 s (obj_handle_count x) - 1)\<rparr>)"

lemma write_swap64:
  assumes "region a 4 \<inter> region b 8 = {}"
  shows "write64 (write32 m a v) b w = write32 (write64 m b w) a v"
proof
  fix y show "write64 (write32 m a v) b w y = write32 (write64 m b w) a v y"
    using assms by (cases "y \<in> region a 4"; cases "y \<in> region b 8")
      (auto simp: write32_outside write64_outside, simp_all add: write32_def write64_def store_def region_def)
qed

lemma count_down:
  assumes h: "h < 4096" and ap: "region t 65544 \<inter> region x 48 = {}"
  shows "snd (atomic_fetch_sub (obj_handle_count x) 1 (s\<lparr>mem := write64 (mem s) (entry_object t h) NULL\<rparr>)) = closed t h x s"
proof -
  have "region (entry_object t h) 8 \<inter> region (obj_handle_count x) 4 = {}"
    using ap cap_tail(3) [of t] cap_subset(1) [OF h, of t] obj_parts(3) [of x] by blast
  then show ?thesis by (simp add: closed_def atomic_fetch_sub_def Let_def read32_write64_disjoint)
qed

lemma unlock_cleared:
  assumes free: "load32 s (cap_lock t) = 0" and h: "h < 4096"
  shows "spin_unlock (cap_lock t) (store64 (entry_object t h) NULL (s\<lparr>mem := write32 (mem s) (cap_lock t) 1\<rparr>)) =
    s\<lparr>mem := write64 (mem s) (entry_object t h) NULL\<rparr>"
proof -
  let ?m = "write64 (mem s) (entry_object t h) NULL"
  have le: "region (cap_lock t) 4 \<inter> region (entry_object t h) 8 = {}"
    using cap_tail(5) [of t] cap_subset(1) [OF h, of t] by blast
  have "read32 ?m (cap_lock t) = 0" using free le by (simp add: read32_write64_disjoint Int_commute)
  then have "write32 ?m (cap_lock t) 0 = ?m" using write32_read32 [of ?m "cap_lock t"] by simp
  then show ?thesis using le by (simp add: spin_unlock_eq store64_def write_swap64 mem_simps)
qed

lemma object_close_eq:
  assumes free: "load32 s (cap_lock t) = 0" and h: "h < 4096" and v: "cap_view t (mem s) h = Some (x, r, g)"
    and ap: "region t 65544 \<inter> region x 48 = {}"
  shows "object_close calls t h s = andThen (object_maybe_destroy calls x (closed t h x s)) (\<lambda>_ s. Ret 0 s)"
proof -
  let ?l = "s\<lparr>mem := write32 (mem s) (cap_lock t) 1\<rparr>"
  have "cap_view t (mem ?l) h = Some (x, r, g)" using v cap_view_lock [OF h] by simp
  then have e: "load64 ?l (entry_object t h) = x" and x: "x \<noteq> NULL"
    by (auto simp: cap_view_def split: if_splits)
  show ?thesis
    unfolding object_close_def spin_lock_free [OF free] andThen.simps Let_def e unlock_cleared [OF free h] count_down [OF h ap]
    using h x by (simp add: linorder_not_less [symmetric])
qed

lemma object_close_none:
  assumes "load32 s (cap_lock t) = 0" and "\<not> h < 4096 \<or> cap_view t (mem s) h = None"
  shows "object_close calls t h s = Ret (-1) s"
proof (cases "h < 4096")
  case True
  let ?l = "s\<lparr>mem := write32 (mem s) (cap_lock t) 1\<rparr>"
  have "cap_view t (mem ?l) h = None" using assms(2) True cap_view_lock [OF True] by simp
  then have "load64 ?l (entry_object t h) = NULL" by (rule iffD1 [OF cap_view_None])
  with True show ?thesis
    unfolding object_close_def spin_lock_free [OF assms(1)] andThen.simps Let_def
    using lock_unlock [OF assms(1)] by (simp add: linorder_not_less [symmetric])
qed (simp add: object_close_def linorder_not_less)

subsection \<open>The invariant of a table\<close>

text \<open>
  What a table and the objects its handles may name keep: the locks are free, every entry names
  one of the objects with rights its type allows and its current generation, and every object's
  \<^verbatim>\<open>handle_count\<close> is the number of entries that name it.
\<close>

definition cap_inv :: "u64 \<Rightarrow> u64 set \<Rightarrow> kstate \<Rightarrow> bool" where
  "cap_inv t X s \<longleftrightarrow>
     load32 s (cap_lock t) = 0 \<and>
     (\<forall>x \<in> X. x \<noteq> NULL \<and> region t 65544 \<inter> region x 48 = {} \<and> load32 s (obj_lock x) = 0 \<and>
        unat (load32 s (obj_handle_count x)) = card (cap_handles t (mem s) x)) \<and>
     (\<forall>x \<in> X. \<forall>y \<in> X. x \<noteq> y \<longrightarrow> region x 48 \<inter> region y 48 = {}) \<and>
     (\<forall>h x r g. h < 4096 \<and> cap_view t (mem s) h = Some (x, r, g) \<longrightarrow>
        x \<in> X \<and> r AND default_rights (ob_type_for (load32 s (obj_type_id x)) s) = r \<and>
        g = load32 s (obj_generation x))"

lemma cap_invD:
  assumes "cap_inv t X s"
  shows "load32 s (cap_lock t) = 0" and "x \<in> X \<Longrightarrow> x \<noteq> NULL" and "x \<in> X \<Longrightarrow> region t 65544 \<inter> region x 48 = {}"
    and "x \<in> X \<Longrightarrow> load32 s (obj_lock x) = 0"
    and "x \<in> X \<Longrightarrow> unat (load32 s (obj_handle_count x)) = card (cap_handles t (mem s) x)"
    and "x \<in> X \<Longrightarrow> y \<in> X \<Longrightarrow> x \<noteq> y \<Longrightarrow> region x 48 \<inter> region y 48 = {}"
    and "h < 4096 \<Longrightarrow> cap_view t (mem s) h = Some (z, r, g) \<Longrightarrow> z \<in> X"
    and "h < 4096 \<Longrightarrow> cap_view t (mem s) h = Some (z, r, g) \<Longrightarrow>
      r AND default_rights (ob_type_for (load32 s (obj_type_id z)) s) = r"
    and "h < 4096 \<Longrightarrow> cap_view t (mem s) h = Some (z, r, g) \<Longrightarrow> load32 s (obj_generation z) = g"
  using assms unfolding cap_inv_def by blast+

lemma finite_handles: "finite (cap_handles t m x)"
  by (rule finite_subset [of _ UNIV]) simp_all

lemma card_handles: "card (cap_handles t m x) \<le> 4096"
proof -
  have "cap_handles t m x \<subseteq> (of_nat :: nat \<Rightarrow> u32) ` {..<4096}"
  proof
    fix i assume "i \<in> cap_handles t m x"
    then have "unat i < 4096" by (simp add: cap_handles_def word_less_nat_alt)
    then show "i \<in> of_nat ` {..<4096}" by (intro image_eqI [of _ _ "unat i"]) simp_all
  qed
  then have "card (cap_handles t m x) \<le> card ((of_nat :: nat \<Rightarrow> u32) ` {..<4096})" by (intro card_mono) simp_all
  also have "\<dots> \<le> 4096" using card_image_le [of "{..<4096}" "of_nat :: nat \<Rightarrow> u32"] by simp
  finally show ?thesis .
qed

text \<open>Changes of the view and what they do to the handles of an object.\<close>

lemma handles_put:
  assumes "h < 4096" and "\<And>j. j < 4096 \<Longrightarrow> cap_view t m' j = (if j = h then Some (x, r, g) else cap_view t m j)"
    and "cap_view t m h = None"
  shows "cap_handles t m' y = (if y = x then insert h (cap_handles t m y) else cap_handles t m y)"
    and "h \<notin> cap_handles t m y"
  using assms unfolding cap_handles_def by (auto split: if_splits)

lemma handles_clear:
  assumes "h < 4096" and "\<And>j. j < 4096 \<Longrightarrow> cap_view t m' j = (if j = h then None else cap_view t m j)"
    and "cap_view t m h = Some (x, r, g)"
  shows "cap_handles t m' y = (if y = x then cap_handles t m y - {h} else cap_handles t m y)"
    and "h \<in> cap_handles t m x"
  using assms unfolding cap_handles_def by (auto split: if_splits)

text \<open>
  A change of the table and of one word of the header of one object. The other fields of all
  objects are what they were.
\<close>

lemma object_fields_kept:
  assumes inv: "cap_inv t X s" and x: "x \<in> X" and a: "region a 4 \<subseteq> region x 48"
    and m: "\<And>y. y \<notin> region t 65544 \<Longrightarrow> m y = mem s y" and y: "y \<in> X" and b: "region b 4 \<subseteq> region y 48"
    and ab: "y = x \<Longrightarrow> region b 4 \<inter> region a 4 = {}"
  shows "read32 (write32 m a v) b = load32 s b"
proof (intro read32_cong)
  fix z assume z: "z \<in> region b 4"
  have "z \<notin> region a 4" using z ab cap_invD(6) [OF inv x y] a b by (cases "x = y") blast+
  moreover have "z \<notin> region t 65544" using z b cap_invD(3) [OF inv y] by blast
  ultimately show "write32 m a v z = mem s z" by (simp add: write32_outside m)
qed

lemma cap_inv_change:
  assumes inv: "cap_inv t X s" and x: "x \<in> X" and a: "region a 4 \<subseteq> region x 48"
    and m: "\<And>y. y \<notin> region t 65544 \<Longrightarrow> m y = mem s y" and lock: "read32 m (cap_lock t) = 0"
    and ax: "region (obj_type_id x) 4 \<inter> region a 4 = {}" "region (obj_generation x) 4 \<inter> region a 4 = {}"
      "region (obj_lock x) 4 \<inter> region a 4 = {}"
    and entries: "\<And>h z r g. h < 4096 \<Longrightarrow> cap_view t m h = Some (z, r, g) \<Longrightarrow> z \<in> X \<and>
      r AND default_rights (ob_type_for (load32 s (obj_type_id z)) s) = r \<and> g = load32 s (obj_generation z)"
    and counts: "\<And>y. y \<in> X \<Longrightarrow> unat (read32 (write32 m a v) (obj_handle_count y)) = card (cap_handles t m y)"
  shows "cap_inv t X (s\<lparr>mem := write32 m a v\<rparr>)"
proof -
  note keep = object_fields_kept [OF inv x a m]
  have ta: "region t 65544 \<inter> region a 4 = {}" using cap_invD(3) [OF inv x] a by blast
  have view: "cap_view t (write32 m a v) j = cap_view t m j" if "j < 4096" for j
    using ta cap_tail(3) [of t] that by (intro cap_view_cong_table write32_outside) blast+
  then have "cap_handles t (write32 m a v) y = cap_handles t m y" for y unfolding cap_handles_def by auto
  moreover have "read32 (write32 m a v) (cap_lock t) = 0"
    using lock ta cap_tail(2) [of t] by (subst read32_write32_disjoint) blast+
  moreover have "read32 (write32 m a v) (obj_lock y) = 0" if "y \<in> X" for y
    using keep [OF _ that obj_parts(6), of v] cap_invD(4) [OF inv that] ax(3) by simp
  moreover have "read32 (write32 m a v) (obj_type_id y) = load32 s (obj_type_id y)" if "y \<in> X" for y
    using keep [OF _ that obj_parts(1), of v] ax(1) by simp
  moreover have "read32 (write32 m a v) (obj_generation y) = load32 s (obj_generation y)" if "y \<in> X" for y
    using keep [OF _ that obj_parts(4), of v] ax(2) by simp
  ultimately show ?thesis
    unfolding cap_inv_def using counts entries view cap_invD(2,3,6) [OF inv] by (simp add: counts) metis
qed

lemma cap_inv_grant:
  assumes inv: "cap_inv t X s" and x: "x \<in> X"
  obtains h s' where "object_grant t x r s = Ret h s'" and "cap_inv t X s'"
proof -
  note D = cap_invD [OF inv]
  let ?ok = "r AND default_rights (ob_type_for (load32 s (obj_type_id x)) s) = r"
  have log: "cap_inv t X (klog_info sub fmt args s)" for sub fmt args
    using inv by (simp add: cap_inv_def klog_info_eq ob_type_for_def)
  consider (rej) "\<not> ?ok" | (full) "?ok" "first_free (load32 s (cap_hint t)) t (mem s) = None"
    | (slot) h where "?ok" "first_free (load32 s (cap_hint t)) t (mem s) = Some h" by fastforce
  then show ?thesis
  proof cases
    case rej
    from object_grant_rejected [OF this] log show ?thesis by (rule that)
  next
    case full
    then show ?thesis using log object_grant_full [OF D(1) full] by (intro that)
  next
    case slot
    let ?c = "load32 s (obj_handle_count x)"
    obtain m where M: "object_grant t x r s = Ret h (s\<lparr>mem := write32 m (obj_handle_count x) (?c + 1)\<rparr>)"
      "\<And>y. y \<notin> region t 65544 \<Longrightarrow> m y = mem s y" "read32 m (cap_lock t) = 0"
      "\<And>j. j < 4096 \<Longrightarrow> cap_view t m j = (if j = h then Some (x, r, load32 s (obj_generation x)) else cap_view t (mem s) j)"
      using object_grant_ok [OF D(1) D(3) [OF x] D(2) [OF x] slot] by blast
    have h: "h < 4096" "cap_view t (mem s) h = None" using first_free_Some [OF slot(2)] by simp_all
    note H = handles_put [OF h(1) M(4) h(2)]
    have c: "unat (?c + 1) = Suc (unat ?c)"
      using D(5) [OF x] card_handles [of t "mem s" x] by (simp add: unat_word_ariths)
    have "cap_inv t X (s\<lparr>mem := write32 m (obj_handle_count x) (?c + 1)\<rparr>)"
    proof (rule cap_inv_change [OF inv x obj_parts(3) M(2,3)])
      fix y assume y: "y \<in> X"
      show "unat (read32 (write32 m (obj_handle_count x) (?c + 1)) (obj_handle_count y)) = card (cap_handles t m y)"
      proof (cases "y = x")
        case True
        then show ?thesis using c D(5) [OF x] H finite_handles by (simp add: mem_simps)
      next
        case False
        then show ?thesis
          using object_fields_kept [OF inv x obj_parts(3) M(2) y obj_parts(3)] D(5) [OF y] H by simp
      qed
    qed (use obj_fields_apart [of x] M(4) slot(1) x D(7-9) in \<open>auto simp: Int_commute split: if_splits\<close>)
    with M(1) show ?thesis by (rule that)
  qed
qed

lemma cap_inv_lookup:
  assumes inv: "cap_inv t X s"
  obtains y s' where "cap_lookup calls t h req s = Ret y s'" and "cap_inv t X s'"
proof (cases "h < 4096 \<and> cap_view t (mem s) h \<noteq> None")
  case False
  then have "cap_lookup calls t h req s = Ret NULL s" using cap_invD(1) [OF inv] by (intro cap_lookup_none) blast+
  then show ?thesis using inv by (rule that)
next
  case True
  then obtain x r g where h: "h < 4096" "cap_view t (mem s) h = Some (x, r, g)" by auto
  note D = cap_invD [OF inv]
  have x: "x \<in> X" by (rule D(7) [OF h])
  have eq: "cap_lookup calls t h req s = (if r AND req = req then Ret x (object_ref x s) else Ret NULL s)"
    using D(1) h D(3) [OF x] D(9) [OF h] by (rule cap_lookup_eq)
  have "cap_inv t X (s\<lparr>mem := write32 (mem s) (obj_refcount x) (load32 s (obj_refcount x) + 1)\<rparr>)"
  proof (rule cap_inv_change [OF inv x obj_parts(2) refl D(1)])
    fix y assume y: "y \<in> X"
    show "unat (read32 (write32 (mem s) (obj_refcount x) (load32 s (obj_refcount x) + 1)) (obj_handle_count y)) =
      card (cap_handles t (mem s) y)"
      using object_fields_kept [OF inv x obj_parts(2) refl y obj_parts(3)] obj_fields_apart(3) [of x] D(5) [OF y] by simp
  qed (use obj_fields_apart [of x] D(7-9) in \<open>auto simp: Int_commute\<close>)
  then have "cap_inv t X (object_ref x s)" by (simp add: object_ref_eq store32_def)
  with eq inv show ?thesis by (cases "r AND req = req") (auto intro: that)
qed

lemma closed_fields:
  assumes h: "h < 4096" and ap: "region t 65544 \<inter> region x 48 = {}"
  shows "load32 (closed t h x s) (obj_handle_count x) = load32 s (obj_handle_count x) - 1"
    and "load32 (closed t h x s) (obj_refcount x) = load32 s (obj_refcount x)"
    and "load32 (closed t h x s) (obj_lock x) = load32 s (obj_lock x)"
    and "mem (closed t h x s) (obj_destroyed x) = mem s (obj_destroyed x)"
proof -
  have "region (entry_object t h) 8 \<inter> region x 48 = {}" using cap_subset(1) [OF h, of t] cap_tail(3) [of t] ap by blast
  then have e: "region (entry_object t h) 8 \<inter> region (obj_refcount x) 4 = {}"
    "region (entry_object t h) 8 \<inter> region (obj_lock x) 4 = {}" "obj_destroyed x \<notin> region (entry_object t h) 8"
    using obj_parts [of x] by (auto simp: region_1)
  have d: "obj_destroyed x \<notin> region (obj_handle_count x) 4" using obj_fields_apart(18) [of x] by (rule destroyed_apart)
  show "load32 (closed t h x s) (obj_handle_count x) = load32 s (obj_handle_count x) - 1"
    "load32 (closed t h x s) (obj_refcount x) = load32 s (obj_refcount x)"
    "load32 (closed t h x s) (obj_lock x) = load32 s (obj_lock x)"
    "mem (closed t h x s) (obj_destroyed x) = mem s (obj_destroyed x)"
    using obj_fields_apart [of x] e d
    by (simp_all add: closed_def Let_def mem_simps rw_disjoint Int_commute write32_outside write64_outside)
qed

lemma object_close_decides_eq:
  assumes free: "load32 s (cap_lock t) = 0" and h: "h < 4096" and v: "cap_view t (mem s) h = Some (x, r, g)"
    and ap: "region t 65544 \<inter> region x 48 = {}" and lk: "load32 s (obj_lock x) = 0"
  shows "object_close calls t h s =
    (if load32 s (obj_refcount x) = 0 \<and> load32 s (obj_handle_count x) = 1 \<and> mem s (obj_destroyed x) = 0
     then andThen (object_destroy_now calls x (store8 (obj_destroyed x) 1 (closed t h x s))) (\<lambda>_ s. Ret 0 s)
     else Ret 0 (closed t h x s))"
proof -
  note F = closed_fields [OF h ap, of s]
  have "load32 (closed t h x s) (obj_lock x) = 0" using F(3) lk by simp
  note eq = object_maybe_destroy_eq [OF this, of calls]
  have "ready_to_die x (closed t h x s) \<longleftrightarrow>
    load32 s (obj_refcount x) = 0 \<and> load32 s (obj_handle_count x) = 1 \<and> mem s (obj_destroyed x) = 0"
    unfolding ready_to_die_def F by simp
  then show ?thesis unfolding object_close_eq [OF free h v ap] eq by simp
qed

lemma close_undoes:
  assumes h: "h < 4096" and m: "\<And>y. y \<notin> region t 65544 \<Longrightarrow> m y = mem s y" and y: "y \<notin> region t 65544"
  shows "mem (closed t h x (s\<lparr>mem := write32 m (obj_handle_count x) (load32 s (obj_handle_count x) + 1)\<rparr>)) y = mem s y"
proof -
  let ?a = "obj_handle_count x" and ?e = "entry_object t h" and ?c = "load32 s (obj_handle_count x)"
  have e: "y \<notin> region ?e 8" using y cap_subset(1) [OF h, of t] cap_tail(3) [of t] by blast
  have "write32 (write64 (write32 m ?a (?c + 1)) ?e NULL) ?a ?c y = write32 (mem s) ?a ?c y"
  proof (cases "y \<in> region ?a 4")
    case True
    then show ?thesis by (simp add: write32_def store_def region_def)
  next
    case False
    then show ?thesis using e m [OF y] by (simp add: write32_outside write64_outside)
  qed
  then show ?thesis by (simp add: closed_def Let_def mem_simps write32_read32)
qed

lemma cap_inv_close:
  assumes inv: "cap_inv t X s" and held: "\<And>x r g. cap_view t (mem s) h = Some (x, r, g) \<Longrightarrow> load32 s (obj_refcount x) \<noteq> 0"
  obtains k s' where "object_close calls t h s = Ret k s'" and "cap_inv t X s'"
proof (cases "h < 4096 \<and> cap_view t (mem s) h \<noteq> None")
  case False
  then have "object_close calls t h s = Ret (-1) s" using cap_invD(1) [OF inv] by (intro object_close_none) blast+
  then show ?thesis using inv by (rule that)
next
  case True
  then obtain x r g where h: "h < 4096" "cap_view t (mem s) h = Some (x, r, g)" by auto
  note D = cap_invD [OF inv]
  have x: "x \<in> X" by (rule D(7) [OF h])
  let ?c = "load32 s (obj_handle_count x)" and ?m = "write64 (mem s) (entry_object t h) NULL"
  have eq: "object_close calls t h s = Ret 0 (closed t h x s)"
    using object_close_decides_eq [OF D(1) h D(3) [OF x] D(4) [OF x]] held [OF h(2)] by simp
  have V: "cap_view t ?m j = (if j = h then None else cap_view t (mem s) j)" if "j < 4096" for j
    using h(1) that by (rule cap_view_clear)
  note H = handles_clear [OF h(1) V h(2)]
  have e: "region (entry_object t h) 8 \<subseteq> region t 65536" by (rule cap_subset(1) [OF h(1)])
  have out: "?m y = mem s y" if "y \<notin> region t 65544" for y
    using that e cap_tail(3) [of t] by (intro write64_outside) blast
  have lock: "read32 ?m (cap_lock t) = 0"
    using D(1) e cap_tail(5) [of t] by (subst read32_write64_disjoint) blast+
  have "card (cap_handles t (mem s) x) \<noteq> 0" using H(2) finite_handles [of t "mem s" x] by auto
  then have c: "unat (?c - 1) = unat ?c - 1" using D(5) [OF x] by (intro unat_minus_one) auto
  have "cap_inv t X (s\<lparr>mem := write32 ?m (obj_handle_count x) (?c - 1)\<rparr>)"
  proof (rule cap_inv_change [OF inv x obj_parts(3) out lock])
    fix y assume y: "y \<in> X"
    show "unat (read32 (write32 ?m (obj_handle_count x) (?c - 1)) (obj_handle_count y)) = card (cap_handles t ?m y)"
    proof (cases "y = x")
      case True
      then show ?thesis using c D(5) [OF x] H finite_handles by (simp add: mem_simps)
    next
      case False
      then show ?thesis using object_fields_kept [OF inv x obj_parts(3) out y obj_parts(3)] D(5) [OF y] H by simp
    qed
  qed (use obj_fields_apart [of x] V D(7-9) in \<open>auto simp: Int_commute split: if_splits\<close>)
  then have "cap_inv t X (closed t h x s)" by (simp add: closed_def Let_def)
  with eq show ?thesis by (rule that)
qed

lemma cap_lookup_stale:
  assumes free: "load32 s (cap_lock t) = 0" and h: "h < 4096" and v: "cap_view t (mem s) h = Some (x, r, g)"
    and ap: "region t 65544 \<inter> region x 48 = {}" and gen: "load32 s (obj_generation x) \<noteq> g"
  shows "cap_lookup calls t h req s = andThen (object_maybe_destroy calls x (closed t h x s)) (\<lambda>_ s. Ret NULL s)"
proof -
  let ?l = "s\<lparr>mem := write32 (mem s) (cap_lock t) 1\<rparr>"
  have "cap_view t (mem ?l) h = Some (x, r, g)" using v cap_view_lock [OF h] by simp
  then have e: "load64 ?l (entry_object t h) = x" "load32 ?l (entry_generation t h) = g" and x: "x \<noteq> NULL"
    by (auto simp: cap_view_def split: if_splits)
  have "region (cap_lock t) 4 \<inter> region (obj_generation x) 4 = {}"
    using ap cap_tail(2) [of t] obj_parts(4) [of x] by blast
  then have g': "load32 ?l (obj_generation x) \<noteq> g" using gen by (simp add: read32_write32_disjoint)
  have "cap_lookup calls t h req s = andThen (let u = spin_unlock (cap_lock t) (store64 (entry_object t h) NULL ?l)
      in object_maybe_destroy calls x (snd (atomic_fetch_sub (obj_handle_count x) 1 u))) (\<lambda>_ s. Ret NULL s)"
    unfolding cap_lookup_def spin_lock_free [OF free] andThen.simps Let_def e
    using h x g' by (simp add: linorder_not_less [symmetric])
  then show ?thesis unfolding unlock_cleared [OF free h] Let_def count_down [OF h ap] .
qed

text \<open>A table with no entry.\<close>

lemma cap_inv_empty:
  assumes "load32 s (cap_lock t) = 0" and none: "\<And>h. h < 4096 \<Longrightarrow> cap_view t (mem s) h = None"
    and "\<And>x. x \<in> X \<Longrightarrow> x \<noteq> NULL \<and> region t 65544 \<inter> region x 48 = {} \<and> load32 s (obj_lock x) = 0 \<and>
      load32 s (obj_handle_count x) = 0"
    and "\<And>x y. x \<in> X \<Longrightarrow> y \<in> X \<Longrightarrow> x \<noteq> y \<Longrightarrow> region x 48 \<inter> region y 48 = {}"
  shows "cap_inv t X s"
proof -
  have "cap_handles t (mem s) x = {}" for x using none by (auto simp: cap_handles_def)
  then show ?thesis unfolding cap_inv_def using assms by (intro conjI) auto
qed

text \<open>
  A new table. Frames that stay free are apart from the run that is taken.
\<close>

lemma run_apart:
  assumes "mm_ok d s" and J: "J \<subseteq> free_set s" and t: "free_set t = free_set s - J" "frame_addr t = frame_addr s"
    and j: "j \<in> J" and f: "f \<in> avail_frames t"
  shows "region (frame_addr s j) 4096 \<inter> region f 4096 = {}"
proof -
  from f t obtain k where k: "k \<in> free_set s" "k \<notin> J" "f = frame_addr s k" by (auto simp: avail_frames_def)
  have "inj_on (frame_addr s) (free_set s)"
    using frame_addr_inj free_set_subset assms(1) by (metis inj_on_subset mm_ok_def)
  then have "frame_addr s j \<noteq> f" using k j J by (metis inj_on_eq_iff subsetD)
  moreover have "page f" "page (frame_addr s j)"
    using k j J by (auto intro!: avail_frames_page [OF assms(1)] simp: avail_frames_def)
  ultimately show ?thesis by (intro pages_disjoint)
qed

lemma cap_table_create_ok:
  assumes "mm_ok d s" and "kheap_initialized s" and "next_fit s = Some i" and "{i..<i + 17} \<subseteq> free_set s"
  obtains u where "cap_table_create s = Ret (frame_addr s i + 16) u" and "mm_ok d u"
    and "free_set u = free_set s - {i..<i + 17}" and "cap_inv (frame_addr s i + 16) {} u"
    and "\<forall>h < 4096. cap_view (frame_addr s i + 16) (mem u) h = None"
    and "\<forall>y. y \<notin> bitmap_region s \<and> (\<forall>j \<in> {i..<i + 17}. y \<notin> region (frame_addr s j) 4096) \<longrightarrow> mem u y = mem s y"
    and "frame_addr s i + 16 \<noteq> NULL" and "ob_frame s u" and "g_om u = g_om s"
    and "region (frame_addr s i + 16) 65544 \<subseteq> (\<Union>f \<in> avail_frames s. region f 4096)"
    and "avail_frames u \<subseteq> avail_frames s"
proof -
  let ?t = "frame_addr s i + 16" and ?J = "{i..<i + 17}"
  have lp: "large_pages 65544 = 17" by (simp add: large_pages_def)
  have n: "(2048 :: u64) < 65544" "unat (65544 :: u64) + 4111 < 2 ^ 64" by simp_all
  obtain s1 where K: "kmalloc 65544 s = Ret ?t s1" "mm_ok d s1" "free_set s1 = free_set s - ?J"
    "frame_addr s1 = frame_addr s" "bitmap_region s1 = bitmap_region s"
    "\<And>y. y \<notin> bitmap_region s \<Longrightarrow> y \<notin> region (frame_addr s i) 4096 \<Longrightarrow> mem s1 y = mem s y"
    "upper_same s s1" "tail_kept s s1"
    by (rule kmalloc_large [OF assms(1,2) n assms(3), unfolded lp, OF assms(4)]) (rule that; assumption)
  have av: "frame_addr s j \<in> avail_frames s" if "j \<in> ?J" for j using that assms(4) by (auto simp: avail_frames_def)
  have in_run: "\<exists>j \<in> ?J. y \<in> region (frame_addr s j) 4096" if "y \<in> region ?t 65544" for y
    using large_block_region [OF n(2), of s i] that by (auto simp: lp)
  have bm: "y \<notin> region ?t 65544" if "y \<in> bitmap_region s1" for y
  proof -
    have "bitmap_region s \<inter> region (frame_addr s j) 4096 = {}" if "j \<in> ?J" for j
      using av [OF that] assms(1) by (simp add: mm_ok_def)
    then show ?thesis using in_run [of y] that K(5) by blast
  qed
  let ?m = "memset ?t 0 65544 (mem s1)"
  let ?u = "s1\<lparr>mem := write32 ?m (cap_lock ?t) 0\<rparr>"
  have m: "?m y = (if y \<in> region ?t 65544 then 0 else mem s1 y)" for y by (simp add: memset_eq)
  have "i \<in> free_set s" using assms(3) by (rule next_fit_Some)
  moreover have "page (frame_addr s i)" using av [of i] assms(1) by (intro avail_frames_page [of d s]) auto
  moreover have "frame_addr s i + of_nat 16 \<in> region (frame_addr s i) 4096" by (rule region_off_mem) simp_all
  ultimately have not_null: "?t \<noteq> NULL" using in_page_not_null by auto
  then have run: "cap_table_create s = Ret ?t ?u" by (simp add: cap_table_create_def K(1) store32_def Let_def)
  have out: "write32 ?m (cap_lock ?t) 0 y = mem s1 y" if "y \<notin> region ?t 65544" for y
  proof -
    have "y \<notin> region (cap_lock ?t) 4" using that cap_tail(2) [of ?t] by blast
    then show ?thesis using that m by (simp add: write32_outside)
  qed
  have bm': "write32 ?m (cap_lock ?t) 0 y = mem s1 y" if "y \<in> bitmap_region s1" for y
    using bm [OF that] by (rule out)
  have view: "cap_view ?t (mem ?u) h = None" if h: "h < 4096" for h
  proof -
    have "cap_view ?t (mem ?u) h = cap_view ?t ?m h" using h by (simp add: cap_view_lock)
    moreover have "read64 ?m (entry_object ?t h) = 0"
      using cap_subset(1) [OF h, of ?t] cap_tail(3) [of ?t] m by (intro read64_zero) auto
    ultimately show ?thesis by (simp add: cap_view_None)
  qed
  have inv: "cap_inv ?t {} ?u" by (rule cap_inv_empty) (simp_all add: mem_simps view [simplified])
  have "tail_kept s1 ?u"
    using bm'
  proof (rule tail_kept_mem)
    fix f y assume f: "f \<in> avail_frames s1" "y \<in> region f 4096"
    have "y \<notin> region ?t 65544"
      using in_run run_apart [OF assms(1,4) K(3,4) _ f(1)] f(2) by blast
    then show "write32 ?m (cap_lock ?t) 0 y = mem s1 y" by (rule out)
  qed
  then have "ob_frame s ?u"
    using K(5,7,8) tail_kept_trans by (auto simp: ob_frame_def upper_same_def)
  moreover have "avail_frames ?u \<subseteq> avail_frames s"
    using \<open>tail_kept s1 ?u\<close> K(8) by (auto simp: tail_kept_def)
  moreover have "g_om ?u = g_om s" using K(7) by (simp add: upper_same_def)
  moreover have "region ?t 65544 \<subseteq> (\<Union>f \<in> avail_frames s. region f 4096)" using in_run av by blast
  moreover have "free_set ?u = free_set s - ?J" using free_set_mem_cong [OF bm'] K(3) by simp
  moreover have "mm_ok d ?u" using mm_ok_mem_cong [OF bm'] K(2) by simp
  moreover have "mem ?u y = mem s y"
    if "y \<notin> bitmap_region s" "\<forall>j \<in> ?J. y \<notin> region (frame_addr s j) 4096" for y
  proof -
    have "y \<notin> region ?t 65544" using in_run that(2) by blast
    then show ?thesis using out K(6) that by simp
  qed
  ultimately show thesis using run inv view not_null by (intro that [of ?u]) (assumption | blast | simp)+
qed

subsection \<open>Sequences of calls\<close>

text \<open>
  The states a table reaches when its users call the three operations in any order, with objects
  of \<open>X\<close>, and close handles only of objects that are still referenced.
\<close>

inductive cap_run :: "ob_calls \<Rightarrow> u64 \<Rightarrow> u64 set \<Rightarrow> kstate \<Rightarrow> kstate \<Rightarrow> bool" for calls t X s where
  start: "cap_run calls t X s s"
| grant: "cap_run calls t X s u \<Longrightarrow> x \<in> X \<Longrightarrow> object_grant t x r u = Ret h v \<Longrightarrow> cap_run calls t X s v"
| lookup: "cap_run calls t X s u \<Longrightarrow> cap_lookup calls t h req u = Ret y v \<Longrightarrow> cap_run calls t X s v"
| close: "cap_run calls t X s u \<Longrightarrow> object_close calls t h u = Ret k v \<Longrightarrow>
    (\<And>x r g. cap_view t (mem u) h = Some (x, r, g) \<Longrightarrow> load32 u (obj_refcount x) \<noteq> 0) \<Longrightarrow> cap_run calls t X s v"

lemma cap_run_inv:
  assumes "cap_inv t X s" and "cap_run calls t X s u"
  shows "cap_inv t X u"
  using assms(2)
proof (induction rule: cap_run.induct)
  case start
  show ?case by (fact assms(1))
next
  case (grant u x r h v)
  obtain h' s' where "object_grant t x r u = Ret h' s'" "cap_inv t X s'"
    by (rule cap_inv_grant [OF grant.IH grant.hyps(2)])
  with grant.hyps(3) show ?case by simp
next
  case (lookup u h req y v)
  obtain y' s' where "cap_lookup calls t h req u = Ret y' s'" "cap_inv t X s'" by (rule cap_inv_lookup [OF lookup.IH])
  with lookup.hyps(2) show ?case by simp
next
  case (close u h k v)
  obtain k' s' where "object_close calls t h u = Ret k' s'" "cap_inv t X s'"
    by (rule cap_inv_close [OF close.IH close.hyps(3)])
  with close.hyps(2) show ?case by simp
qed

text \<open>A lookup in a state that keeps the invariant gives out no more than was granted.\<close>

lemma cap_lookup_confined:
  assumes inv: "cap_inv t X s" and run: "cap_lookup calls t h req s = Ret x v" and x: "x \<noteq> NULL"
  shows "h < 4096 \<and> x \<in> X \<and> req AND default_rights (ob_type_for (load32 s (obj_type_id x)) s) = req \<and>
    v = object_ref x s \<and> (\<exists>r g. cap_view t (mem s) h = Some (x, r, g) \<and> r AND req = req)"
proof (cases "h < 4096 \<and> cap_view t (mem s) h \<noteq> None")
  case False
  then have "cap_lookup calls t h req s = Ret NULL s" using cap_invD(1) [OF inv] by (intro cap_lookup_none) blast+
  then show ?thesis using run x by simp
next
  case True
  then obtain z r g where h: "h < 4096" "cap_view t (mem s) h = Some (z, r, g)" by auto
  note D = cap_invD [OF inv]
  have z: "z \<in> X" by (rule D(7) [OF h])
  have "cap_lookup calls t h req s = (if r AND req = req then Ret z (object_ref z s) else Ret NULL s)"
    using D(1) h D(3) [OF z] D(9) [OF h] by (rule cap_lookup_eq)
  then have e: "r AND req = req" "x = z" "v = object_ref z s" using run x by (auto split: if_splits)
  have "req AND d = req" if "r AND d = r" for d :: u32 using that e(1) by (metis and.assoc and.commute)
  then show ?thesis using h z e D(8) [OF h] by blast
qed

text \<open>A machine for demonstration: an empty table and one object with one reference.\<close>

definition cap_demo :: kstate where
  "cap_demo = pmm_demo\<lparr>mem := write32 (\<lambda>_. 0) (obj_refcount 0x9000) 1,
     g_om := (g_om pmm_demo)\<lparr>om_types := [(ob_type_for 0 pmm_demo)\<lparr>default_rights := 3\<rparr>]\<rparr>\<rparr>"

lemma cap_demo_apart: "region 0x100000 65544 \<inter> region (0x9000 :: u64) 48 = {}"
  by (auto simp: in_region_unat)

lemma cap_demo_zero:
  assumes "region b n \<inter> region (obj_refcount 0x9000) 4 = {}" and "y \<in> region b n"
  shows "mem cap_demo y = 0"
proof -
  have "y \<notin> region (obj_refcount 0x9000) 4" using assms by blast
  then show ?thesis by (simp add: cap_demo_def write32_outside)
qed

lemma cap_demo_facts:
  "cap_inv 0x100000 {0x9000} cap_demo" "load32 cap_demo (obj_refcount 0x9000) = 1" "load32 cap_demo (obj_type_id 0x9000) = 0"
  "default_rights (ob_type_for 0 cap_demo) = 3" "load32 cap_demo (cap_lock 0x100000) = 0"
  "\<And>h. h < 4096 \<Longrightarrow> cap_view 0x100000 (mem cap_demo) h = None" "mem cap_demo (obj_destroyed 0x9000) = 0"
proof -
  have z32: "read32 (\<lambda>_. 0) a = 0" and z64: "read64 (\<lambda>_. 0) a = 0" for a
    by (simp_all add: read32_def read64_def load_def)
  have r32: "load32 cap_demo b = 0" if "region (obj_refcount 0x9000) 4 \<inter> region b 4 = {}" for b
    using that by (simp add: cap_demo_def read32_write32_disjoint z32)
  have tab: "region (obj_refcount 0x9000) 4 \<inter> region 0x100000 65544 = {}"
    using cap_demo_apart obj_parts(2) [of "0x9000"] by blast
  show lock: "load32 cap_demo (cap_lock 0x100000) = 0"
    using tab cap_tail(2) [of "0x100000"] by (intro r32) blast
  show "load32 cap_demo (obj_refcount 0x9000) = 1" by (simp add: cap_demo_def mem_simps)
  show "load32 cap_demo (obj_type_id 0x9000) = 0" by (intro r32) (rule obj_fields_apart(1))
  show "default_rights (ob_type_for 0 cap_demo) = 3" by (simp add: cap_demo_def ob_type_for_def)
  have none: "cap_view 0x100000 (mem cap_demo) h = None" if "h < 4096" for h
  proof -
    have "region (obj_refcount 0x9000) 4 \<inter> region (entry_object 0x100000 h) 8 = {}"
      using tab cap_tail(3) [of "0x100000"] cap_subset(1) [OF that, of "0x100000"] by blast
    then have "read64 (mem cap_demo) (entry_object 0x100000 h) = 0"
      by (simp add: cap_demo_def read64_write32_disjoint z64)
    then show ?thesis by (simp add: cap_view_None)
  qed
  then show "h < 4096 \<Longrightarrow> cap_view 0x100000 (mem cap_demo) h = None" for h .
  show "mem cap_demo (obj_destroyed 0x9000) = 0"
    using destroyed_apart [OF obj_fields_apart(17) [of "0x9000"]] by (simp add: cap_demo_def write32_outside)
  have "load32 cap_demo (obj_lock 0x9000) = 0" "load32 cap_demo (obj_handle_count 0x9000) = 0"
    using obj_fields_apart(3,12) [of "0x9000"] by (auto intro!: r32 simp: Int_commute)
  then show "cap_inv 0x100000 {0x9000} cap_demo" using lock none cap_demo_apart by (intro cap_inv_empty) auto
qed

text \<open>The same machine after a grant.\<close>

lemma cap_demo_granted:
  obtains h s where "object_grant 0x100000 0x9000 1 cap_demo = Ret h s" and "cap_inv 0x100000 {0x9000} s" and "h < 4096"
    and "cap_view 0x100000 (mem s) h = Some (0x9000, 1, 0)" and "load32 s (obj_refcount 0x9000) = 1"
    and "load32 s (obj_generation 0x9000) = 0" and "load32 s (obj_handle_count 0x9000) = 1"
proof -
  note inv = cap_demo_facts(1)
  obtain h0 where ff: "first_free (load32 cap_demo (cap_hint 0x100000)) 0x100000 (mem cap_demo) = Some h0"
    using first_free_None [of _ "0x100000" "mem cap_demo" 0] cap_demo_facts(6) [of 0] by fastforce
  have r: "(1 :: u32) AND default_rights (ob_type_for (load32 cap_demo (obj_type_id 0x9000)) cap_demo) = 1"
    by (simp add: cap_demo_facts(3,4))
  have x: "(0x9000 :: u64) \<noteq> NULL" by simp
  have z: "load32 cap_demo (obj_generation 0x9000) = 0" "load32 cap_demo (obj_handle_count 0x9000) = 0"
    using obj_fields_apart(3,5) [of "0x9000"]
    by (simp_all add: cap_demo_def read32_write32_disjoint Int_commute) (simp_all add: read32_def load_def)
  obtain m where M: "object_grant 0x100000 0x9000 1 cap_demo = Ret h0 (cap_demo\<lparr>mem := write32 m (obj_handle_count 0x9000) 1\<rparr>)"
    "\<And>y. y \<notin> region 0x100000 65544 \<Longrightarrow> m y = mem cap_demo y"
    "\<And>j. j < 4096 \<Longrightarrow> cap_view 0x100000 m j = (if j = h0 then Some (0x9000, 1, 0) else cap_view 0x100000 (mem cap_demo) j)"
    by (rule object_grant_ok [OF cap_demo_facts(5) cap_demo_apart x r ff, unfolded z add_0]) (rule that; assumption)
  let ?s = "cap_demo\<lparr>mem := write32 m (obj_handle_count 0x9000) 1\<rparr>"
  have h: "h0 < 4096" using first_free_Some [OF ff] by simp
  obtain h1 s1 where "object_grant 0x100000 0x9000 1 cap_demo = Ret h1 s1" "cap_inv 0x100000 {0x9000} s1"
    using cap_inv_grant [OF inv] by blast
  then have "cap_inv 0x100000 {0x9000} ?s" using M(1) by simp
  moreover have "cap_view 0x100000 (mem ?s) h0 = cap_view 0x100000 m h0"
    using cap_demo_apart obj_parts(3) [of "0x9000"] cap_tail(3) [of "0x100000"]
    by (simp, intro cap_view_cong_table h write32_outside) blast
  moreover have "load32 ?s (obj_refcount 0x9000) = 1" "load32 ?s (obj_generation 0x9000) = 0"
    using object_fields_kept [OF inv _ obj_parts(3) M(2) _ obj_parts(2), of "0x9000" "0x9000" 1]
      object_fields_kept [OF inv _ obj_parts(3) M(2) _ obj_parts(4), of "0x9000" "0x9000" 1]
      obj_fields_apart(3,6) [of "0x9000"] cap_demo_facts(2) z by (simp_all add: Int_commute)
  ultimately show ?thesis using M(1,3) h by (intro that [of h0 ?s]) (simp_all add: mem_simps)
qed

section \<open>Properties\<close>

text \<open>
  C10: granting a capability. A request for rights the object's type does not allow, and a
  request on a full table, give \<^verbatim>\<open>CAP_INVALID\<close> and only a log line. Otherwise
  \<^verbatim>\<open>object_grant\<close> returns a handle that was free; it now names the object with exactly the
  rights asked for and the object's generation, every other handle is what it was, the object
  has one handle more, no memory outside the table and this count changes, and the table's lock
  is free again.
\<close>

theorem object_grant_sound:
  assumes "load32 s (cap_lock t) = 0" and "region t 65544 \<inter> region x 48 = {}" and "x \<noteq> NULL"
  shows "let ok = (r AND default_rights (ob_type_for (load32 s (obj_type_id x)) s) = r);
      full = (\<forall>h < 4096. cap_view t (mem s) h \<noteq> None)
    in (\<not> ok \<longrightarrow> object_grant t x r s =
          Ret CAP_INVALID (klog_info ''cap'' ''grant rejected: rights exceed type default_rights'' [] s)) \<and>
       (ok \<and> full \<longrightarrow> object_grant t x r s = Ret CAP_INVALID (klog_info ''cap'' ''grant failed: table full'' [] s)) \<and>
       (ok \<and> \<not> full \<longrightarrow> (\<exists>h m. h < 4096 \<and> cap_view t (mem s) h = None \<and>
          object_grant t x r s =
            Ret h (s\<lparr>mem := write32 m (obj_handle_count x) (load32 s (obj_handle_count x) + 1)\<rparr>) \<and>
          (\<forall>j < 4096. cap_view t m j =
            (if j = h then Some (x, r, load32 s (obj_generation x)) else cap_view t (mem s) j)) \<and>
          (\<forall>y. y \<notin> region t 65544 \<longrightarrow> m y = mem s y) \<and> read32 m (cap_lock t) = 0))"
proof (cases "r AND default_rights (ob_type_for (load32 s (obj_type_id x)) s) = r")
  case False
  from object_grant_rejected [OF this] False show ?thesis unfolding Let_def by blast
next
  case ok: True
  show ?thesis
  proof (cases "first_free (load32 s (cap_hint t)) t (mem s)")
    case None
    have "\<forall>h < 4096. cap_view t (mem s) h \<noteq> None" using first_free_None [OF None] by blast
    then show ?thesis unfolding Let_def using ok object_grant_full [OF assms(1) ok None] by blast
  next
    case (Some h)
    have h: "h < 4096" "cap_view t (mem s) h = None" using first_free_Some [OF Some] by simp_all
    then have "\<not> (\<forall>h < 4096. cap_view t (mem s) h \<noteq> None)" by blast
    moreover obtain m where "object_grant t x r s =
        Ret h (s\<lparr>mem := write32 m (obj_handle_count x) (load32 s (obj_handle_count x) + 1)\<rparr>)"
      "\<And>y. y \<notin> region t 65544 \<Longrightarrow> m y = mem s y" "read32 m (cap_lock t) = 0"
      "\<And>j. j < 4096 \<Longrightarrow> cap_view t m j = (if j = h then Some (x, r, load32 s (obj_generation x)) else cap_view t (mem s) j)"
      using object_grant_ok [OF assms ok Some] by blast
    ultimately show ?thesis unfolding Let_def using ok h by blast
  qed
qed

theorem object_grant_sound_witness:
  "(\<exists>h m. object_grant 0x100000 0x9000 1 cap_demo = Ret h (cap_demo\<lparr>mem := m\<rparr>) \<and> h < 4096) \<and>
   (\<exists>u. object_grant 0x100000 0x9000 4 cap_demo = Ret CAP_INVALID u)"
proof -
  have x: "(0x9000 :: u64) \<noteq> NULL" by simp
  note G = object_grant_sound [OF cap_demo_facts(5) cap_demo_apart x, unfolded cap_demo_facts(3,4) Let_def]
  have "\<not> (\<forall>h < 4096. cap_view 0x100000 (mem cap_demo) h \<noteq> None)" using cap_demo_facts(6) [of 0] by force
  moreover have "(1 :: u32) AND 3 = 1" "(4 :: u32) AND 3 \<noteq> 4" by simp_all
  ultimately show ?thesis using G [of 1] G [of 4] by blast
qed

text \<open>
  C11: looking a handle up. A handle out of range or not in use gives a null pointer and no
  change. A handle whose object has another generation by now is closed on the spot. A handle
  whose rights do not include all required ones gives a null pointer and no change; otherwise
  the object is returned and has one reference more.
\<close>

theorem cap_lookup_decides:
  assumes "load32 s (cap_lock t) = 0"
    and "\<And>x r g. h < 4096 \<Longrightarrow> cap_view t (mem s) h = Some (x, r, g) \<Longrightarrow> region t 65544 \<inter> region x 48 = {}"
  shows "cap_lookup calls t h req s =
    (case if h < 4096 then cap_view t (mem s) h else None of
       None \<Rightarrow> Ret NULL s
     | Some (x, r, g) \<Rightarrow>
         if load32 s (obj_generation x) \<noteq> g then
           andThen (object_maybe_destroy calls x (closed t h x s)) (\<lambda>_ s. Ret NULL s)
         else if r AND req \<noteq> req then Ret NULL s
         else Ret x (object_ref x s))"
proof (cases "if h < 4096 then cap_view t (mem s) h else None")
  case None
  then have "\<not> h < 4096 \<or> cap_view t (mem s) h = None" by presburger
  from cap_lookup_none [OF assms(1) this] None show ?thesis by simp
next
  case (Some e)
  obtain x r g where e: "e = (x, r, g)" by (cases e)
  have h: "h < 4096" "cap_view t (mem s) h = Some (x, r, g)" using Some unfolding e by (presburger | metis option.distinct(1))+
  note ap = assms(2) [OF h]
  show ?thesis
    using cap_lookup_stale [OF assms(1) h ap] cap_lookup_eq [OF assms(1) h ap] Some unfolding e by simp
qed

theorem cap_lookup_decides_witness:
  "\<exists>h s. cap_lookup demo_calls 0x100000 h 1 s = Ret 0x9000 (object_ref 0x9000 s) \<and>
     cap_lookup demo_calls 0x100000 h 2 s = Ret NULL s"
proof -
  obtain h s where S: "cap_inv 0x100000 {0x9000} s" "h < 4096" "cap_view 0x100000 (mem s) h = Some (0x9000, 1, 0)"
    "load32 s (obj_generation 0x9000) = 0" by (rule cap_demo_granted) blast
  have L: "cap_lookup demo_calls 0x100000 h req s =
    (if 1 AND req \<noteq> req then Ret NULL s else Ret 0x9000 (object_ref 0x9000 s))" for req
    using S cap_demo_apart by (subst cap_lookup_decides) (auto simp: cap_invD(1))
  have "(1 :: u32) AND 2 \<noteq> 2" by simp
  then show ?thesis using L [of 1] L [of 2] by (intro exI [of _ h] exI [of _ s]) simp
qed







text \<open>A larger machine: 64 frames from 2 GiB on, all free, the heap started.\<close>

definition wide_demo :: kstate where
  "wide_demo = pmm_demo\<lparr>total_frames := 64, free_frames := 64, kheap_initialized := True\<rparr>"

lemma wide_demo_facts:
  "free_set wide_demo = {..<64}" "mm_ok 0 wide_demo" "frame_addr wide_demo 5 = 0x80005000"
  "kheap_initialized wide_demo" "next_fit wide_demo = Some 5"
proof -
  show fs: "free_set wide_demo = {..<64}"
    by (auto simp: free_set_def wide_demo_def pmm_demo_def bitmap_test_def reset_state_def)
  have f: "mem_phys_base wide_demo = 0x80000000" "total_frames wide_demo = 64" "frame_bitmap wide_demo = 0x1000"
    "free_frames wide_demo = 64" "last_free_index wide_demo = 5"
    by (simp_all add: wide_demo_def pmm_demo_def)
  then have inv: "pmm_inv 0 wide_demo" by (simp add: pmm_inv_def fs)
  have bm: "unat y < 0x2000" if y: "y \<in> bitmap_region wide_demo" for y
  proof -
    from y obtain i where "i < 64" "y = 0x1000 + of_nat i div 8"
      by (auto simp: bitmap_region_def f)
    then show ?thesis by (simp add: unat_word_ariths unat_div unat_of_nat_u64)
  qed
  have av: "0x80000000 \<le> unat fr \<and> unat fr + 4096 \<le> 0x80040000" if fr: "fr \<in> avail_frames wide_demo" for fr
  proof -
    from fr obtain i where i: "i < 64" "fr = frame_addr wide_demo i" by (auto simp: avail_frames_def fs)
    then have "unat fr = unat (mem_phys_base wide_demo) + i * 4096"
      using pmm_inv_pos(1) [OF inv, of i] by (simp add: f)
    then show ?thesis using i(1) by (simp add: f)
  qed
  have "bitmap_region wide_demo \<inter> region fr 4096 = {}" if fr: "fr \<in> avail_frames wide_demo" for fr
    using av [OF fr] bm by (fastforce simp: in_region_unat)
  then show "mm_ok 0 wide_demo" using inv by (simp add: mm_ok_def f)
  show "frame_addr wide_demo 5 = 0x80005000" by (simp add: frame_addr_def f PAGE_SIZE_def)
  show "kheap_initialized wide_demo" by (simp add: wide_demo_def)
  have "[5..<64] = 5 # [6..<64 :: nat]" by (simp add: upt_conv_Cons)
  then show "next_fit wide_demo = Some 5" by (simp add: next_fit_def fs f)
qed

text \<open>
  a new table. When the frame allocator looks next at a run of seventeen free frames,
  \<^verbatim>\<open>cap_table_create\<close> returns a table in these frames; every handle is unused, the lock is free,
  the table keeps the invariant, exactly the seventeen frames are taken, and no other memory
  changes but the frame bitmap.
\<close>

theorem cap_table_create_sound:
  assumes "mm_ok d s" and "kheap_initialized s" and "next_fit s = Some i" and "{i..<i + 17} \<subseteq> free_set s"
  shows "\<exists>u. cap_table_create s = Ret (frame_addr s i + 16) u \<and> mm_ok d u \<and>
    free_set u = free_set s - {i..<i + 17} \<and> cap_inv (frame_addr s i + 16) {} u \<and>
    (\<forall>h < 4096. cap_view (frame_addr s i + 16) (mem u) h = None) \<and>
    (\<forall>y. y \<notin> bitmap_region s \<and> (\<forall>j \<in> {i..<i + 17}. y \<notin> region (frame_addr s j) 4096) \<longrightarrow> mem u y = mem s y)"
  by (rule cap_table_create_ok [OF assms]) blast

theorem cap_table_create_sound_witness:
  "\<exists>u. cap_table_create wide_demo = Ret 0x80005010 u \<and> free_set u = {..<64} - {5..<22} \<and> cap_inv 0x80005010 {} u"
proof -
  have "{5..<5 + 17} \<subseteq> free_set wide_demo" unfolding wide_demo_facts(1) by auto
  note C = cap_table_create_sound [OF wide_demo_facts(2,4,5) this]
  have "frame_addr wide_demo 5 + 16 = 0x80005010" "(5 :: nat) + 17 = 22" by (simp_all add: wide_demo_facts(3))
  with C show ?thesis unfolding wide_demo_facts(1) by metis
qed

end
