(* ===== verification/PageTree.thy ===== *)
theory PageTree
  imports KHeap
begin

text \<open>
  The memory view that both page-table modules share: a tree of table pages of 512 entries. A
  tree maps the path of indices that leads to a table to the table's address; entries of the
  inner tables hold links to tables below, entries of the tables at full depth are leaves. The
  format of entries is a parameter: its laws are the locale \<open>page_format\<close>, which
  arch/riscv/paging.c and arch/arm64/paging.c each satisfy.
\<close>

section \<open>Definitions\<close>

text \<open>
  A format: when an entry is valid, which table a valid inner entry leads to, how many levels of
  links there are, and below which address a table must lie.
\<close>

record pt_format =
  pt_valid :: "u64 \<Rightarrow> bool"
  pt_target :: "u64 \<Rightarrow> u64"
  pt_depth :: nat
  pt_limit :: nat

type_synonym pt_tree = "nat list \<Rightarrow> u64 option"

definition pt_entry :: "u64 \<Rightarrow> nat \<Rightarrow> u64" where "pt_entry a i = a + 8 * of_nat i"

definition pt_page :: "pt_format \<Rightarrow> u64 \<Rightarrow> bool" where
  "pt_page F a \<longleftrightarrow> page a \<and> unat a < pt_limit F"

text \<open>An inner entry agrees with the tree.\<close>

definition pt_link :: "pt_format \<Rightarrow> pt_tree \<Rightarrow> memory \<Rightarrow> nat list \<Rightarrow> u64 \<Rightarrow> nat \<Rightarrow> bool" where
  "pt_link F T m p a i \<longleftrightarrow>
     (case T (p @ [i]) of
        None \<Rightarrow> \<not> pt_valid F (read64 m (pt_entry a i))
      | Some b \<Rightarrow> pt_valid F (read64 m (pt_entry a i)) \<and> pt_target F (read64 m (pt_entry a i)) = b)"

definition pt_rep :: "pt_format \<Rightarrow> u64 \<Rightarrow> pt_tree \<Rightarrow> memory \<Rightarrow> bool" where
  "pt_rep F root T m \<longleftrightarrow>
     T [] = Some root \<and> inj_on T (dom T) \<and>
     (\<forall>p a. T p = Some a \<longrightarrow> length p \<le> pt_depth F \<and> set p \<subseteq> {..<512} \<and> pt_page F a) \<and>
     (\<forall>p i. T (p @ [i]) \<noteq> None \<longrightarrow> T p \<noteq> None) \<and>
     (\<forall>p a i. T p = Some a \<and> length p < pt_depth F \<and> i < 512 \<longrightarrow> pt_link F T m p a i)"

text \<open>The leaf a path of indices leads to.\<close>

definition pt_lookup :: "pt_format \<Rightarrow> pt_tree \<Rightarrow> memory \<Rightarrow> nat list \<Rightarrow> u64 option" where
  "pt_lookup F T m ix =
     (case T (butlast ix) of
        None \<Rightarrow> None
      | Some a \<Rightarrow>
          let e = read64 m (pt_entry a (last ix)) in if pt_valid F e then Some e else None)"

definition pt_path :: "pt_format \<Rightarrow> nat list \<Rightarrow> bool" where
  "pt_path F ix \<longleftrightarrow> length ix = Suc (pt_depth F) \<and> set ix \<subseteq> {..<512}"

text \<open>The tables are in use, lie apart from the frame bitmap, and free frames can become tables.\<close>

definition pt_inv :: "pt_format \<Rightarrow> nat \<Rightarrow> u64 \<Rightarrow> pt_tree \<Rightarrow> kstate \<Rightarrow> bool" where
  "pt_inv F d root T s \<longleftrightarrow>
     mm_ok d s \<and> pt_rep F root T (mem s) \<and>
     (\<forall>a \<in> ran T. a \<notin> avail_frames s \<and> bitmap_region s \<inter> region a 4096 = {}) \<and>
     (\<forall>f \<in> avail_frames s. unat f < pt_limit F)"

text \<open>What the table operations may change: memory and the frame allocator's variables.\<close>

definition pmm_same :: "kstate \<Rightarrow> kstate \<Rightarrow> bool" where
  "pmm_same s t \<longleftrightarrow>
     t\<lparr>mem := mem s, free_frames := free_frames s, last_free_index := last_free_index s\<rparr> = s"

text \<open>
  A run of the table operations that adds tables, at paths in \<open>K\<close>, and changes no leaf: every
  new table is a frame that was free.
\<close>

definition pt_grown ::
    "pt_format \<Rightarrow> nat \<Rightarrow> u64 \<Rightarrow> nat list set \<Rightarrow> pt_tree \<Rightarrow> kstate \<Rightarrow> pt_tree \<Rightarrow> kstate \<Rightarrow> bool" where
  "pt_grown F d root K T s T' t \<longleftrightarrow>
     pt_inv F d root T' t \<and> pmm_same s t \<and> avail_frames t \<subseteq> avail_frames s \<and> tail_kept s t \<and>
     T \<subseteq>\<^sub>m T' \<and> dom T' \<subseteq> dom T \<union> K \<and> ran T' \<subseteq> ran T \<union> avail_frames s \<and>
     card (avail_frames t) + card (dom T') = card (avail_frames s) + card (dom T) \<and>
     (\<forall>ix. pt_path F ix \<longrightarrow> pt_lookup F T' (mem t) ix = pt_lookup F T (mem s) ix) \<and>
     (\<forall>y. y \<notin> bitmap_region s \<and> (\<forall>a \<in> ran T. y \<notin> region a 4096) \<and> (\<forall>f \<in> avail_frames s. y \<notin> region f 4096)
       \<longrightarrow> mem t y = mem s y)"

text \<open>What mapping pages does: the leaves become \<open>L\<close>, tables at paths in \<open>K\<close> may be new.\<close>

definition pt_mapped ::
    "pt_format \<Rightarrow> nat \<Rightarrow> u64 \<Rightarrow> nat list set \<Rightarrow> (nat list \<Rightarrow> u64 option) \<Rightarrow> pt_tree \<Rightarrow> kstate \<Rightarrow> pt_tree \<Rightarrow> kstate \<Rightarrow> bool" where
  "pt_mapped F d root K L T s T' t \<longleftrightarrow>
     pt_inv F d root T' t \<and> pmm_same s t \<and> avail_frames t \<subseteq> avail_frames s \<and> tail_kept s t \<and>
     dom T \<subseteq> dom T' \<and> dom T' \<subseteq> dom T \<union> K \<and> ran T' \<subseteq> ran T \<union> avail_frames s \<and>
     card (avail_frames t) + card (dom T') = card (avail_frames s) + card (dom T) \<and>
     (\<forall>ix. pt_path F ix \<longrightarrow> pt_lookup F T' (mem t) ix = L ix) \<and>
     (\<forall>y. y \<notin> bitmap_region s \<and> (\<forall>a \<in> ran T. y \<notin> region a 4096) \<and> (\<forall>f \<in> avail_frames s. y \<notin> region f 4096)
       \<longrightarrow> mem t y = mem s y)"

subsection \<open>The contract of a format\<close>

text \<open>A zero entry is not valid, and a link to a page below the limit is a valid entry that leads there.\<close>

locale page_format =
  fixes F :: pt_format and mk :: "u64 \<Rightarrow> u64"
  assumes zero_invalid: "\<not> pt_valid F 0"
    and mk_valid: "pt_page F a \<Longrightarrow> pt_valid F (mk a)"
    and mk_target: "pt_page F a \<Longrightarrow> pt_target F (mk a) = a"

section \<open>Lemmas\<close>

subsection \<open>Entries\<close>

lemma pt_entry_off: "pt_entry a i = a + of_nat (8 * i)"
  by (simp add: pt_entry_def)

lemma pt_entry_subset: "i < 512 \<Longrightarrow> region (pt_entry a i) 8 \<subseteq> region a 4096"
  unfolding pt_entry_off by (intro region_off_subset) simp_all

lemma pt_entry_disjoint:
  "i < 512 \<Longrightarrow> j < 512 \<Longrightarrow> i \<noteq> j \<Longrightarrow> region (pt_entry a i) 8 \<inter> region (pt_entry a j) 8 = {}"
  unfolding pt_entry_off by (intro region_off_disjoint) auto

lemma pt_entry_not_null: "page a \<Longrightarrow> i < 512 \<Longrightarrow> pt_entry a i \<noteq> 0"
proof -
  assume "page a" and "i < 512"
  moreover have "pt_entry a i \<in> region (pt_entry a i) 8" by (rule region_self) simp
  ultimately show ?thesis using in_page_not_null [of a "pt_entry a i"] pt_entry_subset [of i a] by blast
qed

lemma pt_repD:
  assumes "pt_rep F root T m"
  shows "T [] = Some root" and "inj_on T (dom T)"
    and "T p = Some a \<Longrightarrow> length p \<le> pt_depth F" and "T p = Some a \<Longrightarrow> set p \<subseteq> {..<512}"
    and "T p = Some a \<Longrightarrow> pt_page F a" and "T p = Some a \<Longrightarrow> page a"
    and "T (p @ [i]) \<noteq> None \<Longrightarrow> T p \<noteq> None"
    and "T p = Some a \<Longrightarrow> length p < pt_depth F \<Longrightarrow> i < 512 \<Longrightarrow> pt_link F T m p a i"
  using assms unfolding pt_rep_def pt_page_def by blast+

lemma pt_link_cong:
  "read64 m' (pt_entry a i) = read64 m (pt_entry a i) \<Longrightarrow> T' (p @ [i]) = T (p @ [i]) \<Longrightarrow>
   pt_link F T' m' p a i = pt_link F T m p a i"
  unfolding pt_link_def by (cases "T (p @ [i])") simp_all

lemma pt_same_table:
  assumes "pt_rep F root T m" and "T p = Some a" and "T q = Some a"
  shows "p = q"
  using inj_onD [OF pt_repD(2) [OF assms(1)], of p q] assms(2,3) by auto

text \<open>Two different entries of the tables do not overlap.\<close>

lemma pt_entries_apart:
  assumes rep: "pt_rep F root T m" and p: "T p = Some a" "i < 512" and q: "T q = Some b" "j < 512" and ne: "p @ [i] \<noteq> q @ [j]"
  shows "region (pt_entry b j) 8 \<inter> region (pt_entry a i) 8 = {}"
proof (cases "p = q")
  case True
  then have "a = b" "i \<noteq> j" using p(1) q(1) ne by auto
  then show ?thesis using pt_entry_disjoint [OF q(2) p(2), of b] by auto
next
  case False
  then have "a \<noteq> b" using pt_same_table [OF rep p(1)] q(1) by blast
  then have "region b 4096 \<inter> region a 4096 = {}" using pt_repD(6) [OF rep] p(1) q(1) by (intro pages_disjoint) auto
  then show ?thesis using pt_entry_subset [OF p(2), of a] pt_entry_subset [OF q(2), of b] by blast
qed

lemma pt_lookup_snoc:
  "pt_lookup F T m (p @ [i]) = (case T p of None \<Rightarrow> None
     | Some a \<Rightarrow> let e = read64 m (pt_entry a i) in if pt_valid F e then Some e else None)"
  unfolding pt_lookup_def butlast_snoc last_snoc ..

lemma pt_lookup_cong:
  "T' q = T q \<Longrightarrow> (\<And>b. T q = Some b \<Longrightarrow> read64 m' (pt_entry b j) = read64 m (pt_entry b j)) \<Longrightarrow>
   pt_lookup F T' m' (q @ [j]) = pt_lookup F T m (q @ [j])"
  unfolding pt_lookup_snoc by (cases "T q") simp_all

lemma pt_pathE:
  assumes "pt_path F ix"
  obtains p i where "ix = p @ [i]" and "length p = pt_depth F" and "set p \<subseteq> {..<512}" and "i < 512"
  using assms by (cases ix rule: rev_cases) (auto simp: pt_path_def)

subsection \<open>Changing a leaf\<close>

lemma pt_set_leaf:
  assumes rep: "pt_rep F root T m" and p: "T p = Some a" "length p = pt_depth F" "i < 512"
    and m: "\<And>y b. b \<in> ran T \<Longrightarrow> y \<in> region b 4096 \<Longrightarrow> y \<notin> region (pt_entry a i) 8 \<Longrightarrow> m' y = m y"
    and e: "read64 m' (pt_entry a i) = e"
  shows "pt_rep F root T m'"
    and "pt_path F ix \<Longrightarrow> pt_lookup F T m' ix =
      (if ix = p @ [i] then if pt_valid F e then Some e else None else pt_lookup F T m ix)"
proof -
  have keep: "read64 m' (pt_entry b j) = read64 m (pt_entry b j)"
    if "T q = Some b" "j < 512" "q @ [j] \<noteq> p @ [i]" for q b j
  proof (rule read64_cong)
    fix y assume y: "y \<in> region (pt_entry b j) 8"
    have "b \<in> ran T" using that(1) by (rule ranI)
    moreover have "y \<in> region b 4096" using y pt_entry_subset [OF that(2), of b] by blast
    moreover have "y \<notin> region (pt_entry a i) 8" using pt_entries_apart [OF rep p(1,3) that(1,2)] that(3) y by auto
    ultimately show "m' y = m y" by (rule m)
  qed
  have "pt_link F T m' q b j" if "T q = Some b" "length q < pt_depth F" "j < 512" for q b j
  proof -
    have "q @ [j] \<noteq> p @ [i]" using that(2) p(2) by auto
    then show ?thesis using pt_repD(8) [OF rep that] pt_link_cong [OF keep [OF that(1,3)]] by blast
  qed
  then show "pt_rep F root T m'" using rep unfolding pt_rep_def by blast
  assume ix: "pt_path F ix"
  then obtain q j where q: "ix = q @ [j]" "j < 512" by (rule pt_pathE)
  show "pt_lookup F T m' ix = (if ix = p @ [i] then if pt_valid F e then Some e else None else pt_lookup F T m ix)"
  proof (cases "q @ [j] = p @ [i]")
    case True
    then show ?thesis using q p(1) e by (simp add: pt_lookup_snoc)
  next
    case False
    have "pt_lookup F T m' (q @ [j]) = pt_lookup F T m (q @ [j])"
      using refl keep [OF _ q(2) False] by (rule pt_lookup_cong)
    then show ?thesis unfolding q(1) if_not_P [OF False] .
  qed
qed

subsection \<open>A new table\<close>

lemma zero_entries:
  assumes "\<forall>y \<in> region f 4096. m y = 0" and "j < 512"
  shows "read64 m (pt_entry f j) = 0"
proof -
  have "read64 m (pt_entry f j) = read64 (\<lambda>_. 0) (pt_entry f j)"
    using assms(1) pt_entry_subset [OF assms(2), of f] by (intro read64_cong) blast
  also have "\<dots> = 0" by (rule bit_word_eqI) (simp add: read64_def bit_load)
  finally show ?thesis .
qed

context page_format
begin

text \<open>A table of zeros is the empty tree.\<close>

lemma empty_tree:
  assumes "pt_page F root" and z: "\<forall>y \<in> region root 4096. m y = 0"
  shows "pt_rep F root [[] \<mapsto> root] m" and "pt_path F ix \<Longrightarrow> pt_lookup F [[] \<mapsto> root] m ix = None"
proof -
  have "pt_link F [[] \<mapsto> root] m p a i" if "[[] \<mapsto> root] p = Some a" "i < 512" for p a i
    using that zero_entries [OF z that(2)] zero_invalid by (simp add: pt_link_def split: if_splits)
  then show "pt_rep F root [[] \<mapsto> root] m" using assms(1) by (auto simp: pt_rep_def split: if_splits)
  assume "pt_path F ix"
  then obtain p i where "ix = p @ [i]" "i < 512" by (rule pt_pathE)
  then show "pt_lookup F [[] \<mapsto> root] m ix = None" using zero_entries [OF z] zero_invalid by (simp add: pt_lookup_snoc)
qed

lemma grow_tree:
  assumes rep: "pt_rep F root T m" and p: "T p = Some a" "length p < pt_depth F" "i < 512" "T (p @ [i]) = None"
    and f: "pt_page F f" "f \<notin> ran T"
    and m: "\<And>y b. b \<in> ran T \<Longrightarrow> y \<in> region b 4096 \<Longrightarrow> y \<notin> region (pt_entry a i) 8 \<Longrightarrow> m' y = m y"
    and e: "read64 m' (pt_entry a i) = mk f" and z: "\<forall>y \<in> region f 4096. m' y = 0"
  shows "pt_rep F root (T(p @ [i] \<mapsto> f)) m'"
    and "pt_path F ix \<Longrightarrow> pt_lookup F (T(p @ [i] \<mapsto> f)) m' ix = pt_lookup F T m ix"
proof -
  let ?T = "T(p @ [i] \<mapsto> f)"
  note D = pt_repD [OF rep]
  have keep: "read64 m' (pt_entry b j) = read64 m (pt_entry b j)"
    if "T q = Some b" "j < 512" "q @ [j] \<noteq> p @ [i]" for q b j
  proof (rule read64_cong)
    fix y assume y: "y \<in> region (pt_entry b j) 8"
    have "b \<in> ran T" using that(1) by (rule ranI)
    moreover have "y \<in> region b 4096" using y pt_entry_subset [OF that(2), of b] by blast
    moreover have "y \<notin> region (pt_entry a i) 8" using pt_entries_apart [OF rep p(1,3) that(1,2)] that(3) y by auto
    ultimately show "m' y = m y" by (rule m)
  qed
  note zero = zero_entries [OF z]
  have none: "T ((p @ [i]) @ [j]) = None" for j using D(7) [of "p @ [i]" j] p(4) by blast
  have inj: "inj_on ?T (dom ?T)"
    using D(2) f(2) p(4) by (auto simp: inj_on_def ran_def dom_def split: if_splits)
  have pages: "length q \<le> pt_depth F \<and> set q \<subseteq> {..<512} \<and> pt_page F b" if "?T q = Some b" for q b
    using that D(3-5) [of q b] D(4) [OF p(1)] p(2,3) f(1) by (auto split: if_splits)
  have closed: "?T q \<noteq> None" if "?T (q @ [j]) \<noteq> None" for q j
    using that D(7) [of q j] p(1) by (cases "q = p"; cases "q = p @ [i]") (auto split: if_splits)
  have link: "pt_link F ?T m' q b j" if q: "?T q = Some b" "length q < pt_depth F" "j < 512" for q b j
  proof (cases "q = p @ [i]")
    case True
    then show ?thesis using q zero [OF q(3)] none [of j] zero_invalid by (simp add: pt_link_def)
  next
    case False
    then have Tq: "T q = Some b" using q(1) by simp
    show ?thesis
    proof (cases "q @ [j] = p @ [i]")
      case True
      then show ?thesis using Tq p(1) e f(1) mk_valid mk_target by (simp add: pt_link_def)
    next
      case other: False
      then have "?T (q @ [j]) = T (q @ [j])" by auto
      then show ?thesis using D(8) [OF Tq q(2,3)] pt_link_cong [OF keep [OF Tq q(3) other]] by blast
    qed
  qed
  have "?T [] = Some root" using D(1) by simp
  with inj pages closed link show "pt_rep F root ?T m'" unfolding pt_rep_def by blast
  assume "pt_path F ix"
  then obtain q j where q: "ix = q @ [j]" "length q = pt_depth F" "j < 512" by (rule pt_pathE)
  show "pt_lookup F ?T m' ix = pt_lookup F T m ix"
  proof (cases "q = p @ [i]")
    case True
    then show ?thesis unfolding q(1) pt_lookup_snoc using zero [OF q(3)] p(4) zero_invalid by simp
  next
    case False
    then have "?T q = T q" by simp
    moreover have "q @ [j] \<noteq> p @ [i]" using q(2) p(2) by auto
    ultimately show ?thesis unfolding q(1) using keep q(3) by (intro pt_lookup_cong)
  qed
qed

end

subsection \<open>Tables and the frame allocator\<close>

lemma pmm_same_refl [simp]: "pmm_same s s"
  by (simp add: pmm_same_def)

lemma pmm_same_mem: "pmm_same s t \<Longrightarrow> pmm_same s (t\<lparr>mem := m\<rparr>)"
  by (simp add: pmm_same_def)

lemma pmm_same_trans:
  assumes "pmm_same s t" and "pmm_same t u"
  shows "pmm_same s u"
proof -
  have "u\<lparr>mem := mem s, free_frames := free_frames s, last_free_index := last_free_index s\<rparr> =
      (u\<lparr>mem := mem t, free_frames := free_frames t, last_free_index := last_free_index t\<rparr>)
        \<lparr>mem := mem s, free_frames := free_frames s, last_free_index := last_free_index s\<rparr>" by simp
  also have "\<dots> = s" using assms by (simp add: pmm_same_def)
  finally show ?thesis by (simp add: pmm_same_def)
qed

lemma pmm_same_fields:
  assumes "pmm_same s t"
  shows "arch t = arch s" and "uart_out t = uart_out s" and "sreg t = sreg s" and "io_hist t = io_hist s"
    and "kernel_page_table t = kernel_page_table s" and "g_asid_used t = g_asid_used s" and "g_asid_lock t = g_asid_lock s"
    and "bitmap_region t = bitmap_region s" and "kheap_initialized t = kheap_initialized s"
    and "kmalloc_caches t = kmalloc_caches s" and "frame_addr t = frame_addr s" and "total_frames t = total_frames s"
  by (subst assms [unfolded pmm_same_def, symmetric], simp add: bitmap_region_def frame_addr_def)+

lemma pmm_same_taken: "pmm_same s (taken i s)"
  by (simp add: pmm_same_def taken_def bitmap_set_def)

lemma pt_invD:
  assumes "pt_inv F d root T s"
  shows "mm_ok d s" and "pt_rep F root T (mem s)" and "T p = Some a \<Longrightarrow> a \<notin> avail_frames s"
    and "T p = Some a \<Longrightarrow> bitmap_region s \<inter> region a 4096 = {}"
    and "f \<in> avail_frames s \<Longrightarrow> pt_page F f"
    and "T p = Some a \<Longrightarrow> f \<in> avail_frames s \<Longrightarrow> region a 4096 \<inter> region f 4096 = {}"
proof -
  show ok: "mm_ok d s" and rep: "pt_rep F root T (mem s)" using assms by (simp_all add: pt_inv_def)
  show na: "T p = Some a \<Longrightarrow> a \<notin> avail_frames s" and "T p = Some a \<Longrightarrow> bitmap_region s \<inter> region a 4096 = {}"
    using assms ranI [of T p a] by (auto simp: pt_inv_def)
  show pg: "f \<in> avail_frames s \<Longrightarrow> pt_page F f"
    using assms avail_frames_page [OF ok] by (simp add: pt_inv_def pt_page_def)
  assume a: "T p = Some a" "f \<in> avail_frames s"
  then have "a \<noteq> f" using na by blast
  then show "region a 4096 \<inter> region f 4096 = {}"
    using pt_repD(6) [OF rep a(1)] pg [OF a(2)] by (intro pages_disjoint) (simp_all add: pt_page_def)
qed

text \<open>The variables of other components play no part.\<close>

lemma pt_other_fields [simp]:
  "pt_inv F d root T (s\<lparr>sreg := v\<rparr>) = pt_inv F d root T s" "avail_frames (s\<lparr>sreg := v\<rparr>) = avail_frames s"
  "pt_inv F d root T (s\<lparr>uart_out := out\<rparr>) = pt_inv F d root T s"
  "pt_inv F d root T (s\<lparr>g_asid_used := u\<rparr>) = pt_inv F d root T s" "avail_frames (s\<lparr>g_asid_used := u\<rparr>) = avail_frames s"
  "mm_ok d (s\<lparr>g_asid_used := u\<rparr>) = mm_ok d s" "mm_ok d (s\<lparr>sreg := v\<rparr>) = mm_ok d s"
  "pt_inv F d root T (s\<lparr>io_hist := h\<rparr>) = pt_inv F d root T s" "avail_frames (s\<lparr>io_hist := h\<rparr>) = avail_frames s"
  "mm_ok d (s\<lparr>io_hist := h\<rparr>) = mm_ok d s"
  by (simp_all add: pt_inv_def mm_ok_def pmm_inv_def avail_frames_def free_set_def
      frame_addr_def bitmap_region_def bitmap_test_def)

text \<open>A write to memory that is neither bitmap nor table leaves the tables as they are.\<close>

lemma pt_inv_mem:
  assumes inv: "pt_inv F d root T s" and rep: "pt_rep F root T m"
    and bm: "\<And>y. y \<in> bitmap_region s \<Longrightarrow> m y = mem s y"
  shows "pt_inv F d root T (s\<lparr>mem := m\<rparr>)" and "avail_frames (s\<lparr>mem := m\<rparr>) = avail_frames s"
proof -
  show av: "avail_frames (s\<lparr>mem := m\<rparr>) = avail_frames s" using bm by (rule avail_frames_mem_cong)
  have "mm_ok d (s\<lparr>mem := m\<rparr>)" using mm_ok_mem_cong [OF bm] pt_invD(1) [OF inv] by blast
  then show "pt_inv F d root T (s\<lparr>mem := m\<rparr>)" using inv rep av by (simp add: pt_inv_def)
qed

lemma finite_avail: "finite (avail_frames s)"
  by (simp add: avail_frames_def)

lemma pt_finite:
  assumes "pt_rep F root T m"
  shows "finite (dom T)"
proof (rule finite_subset)
  show "dom T \<subseteq> {p. set p \<subseteq> {..<512} \<and> length p \<le> pt_depth F}" using pt_repD(3,4) [OF assms] by blast
  show "finite {p. set p \<subseteq> {..<512 :: nat} \<and> length p \<le> pt_depth F}" by (rule finite_lists_length_le) simp
qed

lemma pt_grownD:
  assumes "pt_grown F d root K T s T' t"
  shows "pt_inv F d root T' t" and "pmm_same s t" and "avail_frames t \<subseteq> avail_frames s"
    and "T p = Some a \<Longrightarrow> T' p = Some a" and "dom T' \<subseteq> dom T \<union> K" and "ran T' \<subseteq> ran T \<union> avail_frames s"
    and "card (avail_frames t) + card (dom T') = card (avail_frames s) + card (dom T)"
    and "pt_path F ix \<Longrightarrow> pt_lookup F T' (mem t) ix = pt_lookup F T (mem s) ix"
    and "y \<notin> bitmap_region s \<Longrightarrow> \<forall>a \<in> ran T. y \<notin> region a 4096 \<Longrightarrow> \<forall>f \<in> avail_frames s. y \<notin> region f 4096 \<Longrightarrow>
      mem t y = mem s y"
    and "tail_kept s t"
proof -
  show "T p = Some a \<Longrightarrow> T' p = Some a"
    using assms by (auto simp: pt_grown_def map_le_def dom_def)
qed (use assms in \<open>simp_all add: pt_grown_def\<close>)

lemma pt_grown_refl: "pt_inv F d root T s \<Longrightarrow> pt_grown F d root K T s T s"
  by (auto simp: pt_grown_def)

lemma pt_grown_trans:
  assumes "pt_grown F d root K T s T1 t" and "pt_grown F d root L T1 t T2 u"
  shows "pt_grown F d root (K \<union> L) T s T2 u"
proof -
  note A = pt_grownD [OF assms(1)] and B = pt_grownD [OF assms(2)]
  have le: "T \<subseteq>\<^sub>m T2" using A(4) B(4) by (auto simp: map_le_def dom_def)
  have "mem u y = mem s y"
    if y: "y \<notin> bitmap_region s" "\<forall>a \<in> ran T. y \<notin> region a 4096" "\<forall>f \<in> avail_frames s. y \<notin> region f 4096" for y
  proof -
    have "mem u y = mem t y" using y A(3,6) pmm_same_fields(8) [OF A(2)] by (intro B(9)) auto
    then show ?thesis using A(9) [OF y] by simp
  qed
  moreover have "dom T2 \<subseteq> dom T \<union> (K \<union> L)" "ran T2 \<subseteq> ran T \<union> avail_frames s" "avail_frames u \<subseteq> avail_frames s"
    using A(3,5,6) B(3,5,6) by blast+
  moreover have "card (avail_frames u) + card (dom T2) = card (avail_frames s) + card (dom T)" using A(7) B(7) by simp
  ultimately show ?thesis
    unfolding pt_grown_def using B(1) pmm_same_trans [OF A(2) B(2)] tail_kept_trans [OF A(10) B(10)] le A(8) B(8) by simp
qed

context page_format
begin

text \<open>A free frame becomes a table.\<close>

lemma alloc_child:
  assumes inv: "pt_inv F d root T s" and p: "T p = Some a" "length p < pt_depth F" "i < 512" "T (p @ [i]) = None"
    and av: "avail_frames s \<noteq> {}"
  obtains f t where "pmm_alloc_frame s = Ret f t" and "f \<noteq> 0"
    and "pt_grown F d root {p @ [i]} T s (T(p @ [i] \<mapsto> f))
      (t\<lparr>mem := write64 (memset f 0 4096 (mem t)) (pt_entry a i) (mk f)\<rparr>)"
proof -
  note D = pt_invD [OF inv]
  obtain k where k: "frame_addr s k \<in> avail_frames s" "pmm_alloc_frame s = Ret (frame_addr s k) (taken k s)"
    "mm_ok d (taken k s)" "avail_frames (taken k s) = avail_frames s - {frame_addr s k}"
    "\<And>x. x \<notin> bitmap_region s \<Longrightarrow> mem (taken k s) x = mem s x" "next_fit s = Some k"
    by (rule mm_alloc_frame [OF D(1) av]) (rule that; assumption)
  define f where "f = frame_addr s k"
  define t where "t = taken k s"
  let ?e = "pt_entry a i"
  let ?m = "write64 (memset f 0 4096 (mem t)) ?e (mk f)"
  have f: "f \<in> avail_frames s" "pt_page F f" using k(1) D(5) by (simp_all add: f_def)
  have fr: "f \<notin> ran T" using D(3) f(1) by (auto simp: ran_def)
  have e: "region ?e 8 \<subseteq> region a 4096" using p(3) by (rule pt_entry_subset)
  have bmf: "bitmap_region s \<inter> region f 4096 = {}" using D(1) f(1) by (simp add: mm_ok_def)
  have m: "?m y = (if y \<in> region ?e 8 then ?m y else if y \<in> region f 4096 then 0 else mem t y)" for y
    by (simp add: write64_outside memset_eq)
  have tabs: "?m y = mem s y" if b: "b \<in> ran T" and that: "y \<in> region b 4096" "y \<notin> region ?e 8" for y b
  proof -
    obtain q where q: "T q = Some b" using b by (auto simp: ran_def)
    have "y \<notin> region f 4096" using D(6) [OF q f(1)] that(1) by blast
    moreover have "y \<notin> bitmap_region s" using D(4) [OF q] that(1) by blast
    ultimately show ?thesis using m [of y] that(2) k(5) by (simp add: t_def)
  qed
  have z: "\<forall>y \<in> region f 4096. ?m y = 0"
  proof
    fix y assume y: "y \<in> region f 4096"
    then have "y \<notin> region ?e 8" using D(6) [OF p(1) f(1)] e by blast
    then show "?m y = 0" using m [of y] y by simp
  qed
  have re: "read64 ?m ?e = mk f" by (simp add: mem_simps)
  note G = grow_tree [OF D(2) p f(2) fr tabs re z]
  have bm: "?m y = mem t y" if "y \<in> bitmap_region t" for y
  proof -
    have yb: "y \<in> bitmap_region s" using that by (simp add: t_def)
    then have "y \<notin> region ?e 8" using D(4) [OF p(1)] e by blast
    moreover have "y \<notin> region f 4096" using yb bmf by blast
    ultimately show ?thesis using m [of y] by simp
  qed
  have av': "avail_frames (t\<lparr>mem := ?m\<rparr>) = avail_frames s - {f}"
    using avail_frames_mem_cong [OF bm] k(4) by (simp add: t_def f_def)
  have "mm_ok d (t\<lparr>mem := ?m\<rparr>)" using mm_ok_mem_cong [OF bm] k(3) by (simp add: t_def)
  moreover have "b \<notin> avail_frames s - {f} \<and> bitmap_region s \<inter> region b 4096 = {}"
    if b: "b \<in> ran (T(p @ [i] \<mapsto> f))" for b
  proof -
    from b have "b = f \<or> b \<in> ran T" by (auto simp: ran_def split: if_splits)
    then show ?thesis
    proof
      assume "b = f"
      then show ?thesis using bmf by simp
    next
      assume "b \<in> ran T"
      then obtain q where "T q = Some b" by (auto simp: ran_def)
      then show ?thesis using D(3,4) by blast
    qed
  qed
  ultimately have inv': "pt_inv F d root (T(p @ [i] \<mapsto> f)) (t\<lparr>mem := ?m\<rparr>)"
    using G(1) inv by (simp add: pt_inv_def av') (simp add: t_def)
  have out: "?m y = mem s y"
    if "y \<notin> bitmap_region s" "\<forall>b \<in> ran T. y \<notin> region b 4096" "\<forall>g \<in> avail_frames s. y \<notin> region g 4096" for y
  proof -
    have "a \<in> ran T" using p(1) by (rule ranI)
    then have "y \<notin> region ?e 8" "y \<notin> region f 4096" using e that(2,3) f(1) by blast+
    then show ?thesis using m [of y] that k(5) by (simp add: t_def)
  qed
  have cards: "card (avail_frames s - {f}) + card (dom (T(p @ [i] \<mapsto> f))) = card (avail_frames s) + card (dom T)"
  proof -
    have "p @ [i] \<notin> dom T" unfolding domIff using p(4) by simp
    then have "card (dom (T(p @ [i] \<mapsto> f))) = Suc (card (dom T))" using pt_finite [OF D(2)] by simp
    moreover have "Suc (card (avail_frames s - {f})) = card (avail_frames s)"
      using f(1) finite_avail by (intro card_Suc_Diff1)
    ultimately show ?thesis by simp
  qed
  have "ran (T(p @ [i] \<mapsto> f)) \<subseteq> ran T \<union> avail_frames s" using f(1) by (auto simp: ran_def split: if_splits)
  moreover have "T \<subseteq>\<^sub>m T(p @ [i] \<mapsto> f)" using p(4) by (auto simp: map_le_def)
  moreover have "pmm_same s (t\<lparr>mem := ?m\<rparr>)" unfolding t_def by (intro pmm_same_mem pmm_same_taken)
  moreover have "tail_kept s (t\<lparr>mem := ?m\<rparr>)"
  proof -
    have "tail_kept s t" using k(6) D(1) unfolding t_def by (intro tail_kept_taken) (simp_all add: mm_ok_def)
    moreover have "tail_kept t (t\<lparr>mem := ?m\<rparr>)"
      using bm
    proof (rule tail_kept_mem)
      fix g y assume "g \<in> avail_frames t" and y: "y \<in> region g 4096"
      then have g: "g \<in> avail_frames s" "g \<noteq> f" using k(4) by (simp_all add: t_def f_def)
      have "y \<notin> region ?e 8" using D(6) [OF p(1) g(1)] e y by blast
      moreover have "y \<notin> region f 4096"
        using y pages_disjoint [OF avail_frames_page [OF D(1) g(1)] avail_frames_page [OF D(1) f(1)] g(2)] by blast
      ultimately show "?m y = mem t y" using m [of y] by simp
    qed
    ultimately show ?thesis by (rule tail_kept_trans)
  qed
  ultimately have "pt_grown F d root {p @ [i]} T s (T(p @ [i] \<mapsto> f)) (t\<lparr>mem := ?m\<rparr>)"
    unfolding pt_grown_def using inv' av' cards G(2) out by auto
  moreover have "pmm_alloc_frame s = Ret f t" "f \<noteq> 0" using k(2) f(2) by (simp_all add: f_def t_def pt_page_def page_def)
  ultimately show thesis by (intro that)
qed

end

subsection \<open>Leaves and tables together\<close>

lemma pt_grown_leaf:
  assumes g: "pt_grown F d root K T s T' t" and p: "T' p = Some a" "length p = pt_depth F" and i: "i < 512"
  shows "pt_mapped F d root K
    ((pt_lookup F T (mem s))(p @ [i] := if pt_valid F e then Some e else None)) T s T'
    (t\<lparr>mem := write64 (mem t) (pt_entry a i) e\<rparr>)"
proof -
  note G = pt_grownD [OF g]
  note R = pt_invD [OF G(1)]
  let ?m = "write64 (mem t) (pt_entry a i) e"
  have keep: "\<And>y b. b \<in> ran T' \<Longrightarrow> y \<in> region b 4096 \<Longrightarrow> y \<notin> region (pt_entry a i) 8 \<Longrightarrow> ?m y = mem t y"
    by (rule write64_outside)
  have L1: "pt_rep F root T' ?m"
    using R(2) p i keep read64_write64 by (rule pt_set_leaf(1))
  have L2: "pt_lookup F T' ?m ix = (if ix = p @ [i] then if pt_valid F e then Some e else None else pt_lookup F T' (mem t) ix)"
    if "pt_path F ix" for ix
    using R(2) p i keep read64_write64 that by (rule pt_set_leaf(2))
  have sub: "region (pt_entry a i) 8 \<subseteq> region a 4096" using i by (rule pt_entry_subset)
  have bm: "?m y = mem t y" if "y \<in> bitmap_region t" for y
    using R(4) [OF p(1)] sub that by (intro write64_outside) blast
  note M = pt_inv_mem [OF G(1) L1 bm]
  have look: "pt_lookup F T' ?m ix =
      ((pt_lookup F T (mem s))(p @ [i] := if pt_valid F e then Some e else None)) ix" if "pt_path F ix" for ix
    using L2 [OF that] G(8) [OF that] by simp
  have out: "?m y = mem s y"
    if "y \<notin> bitmap_region s" "\<forall>b \<in> ran T. y \<notin> region b 4096" "\<forall>f \<in> avail_frames s. y \<notin> region f 4096" for y
  proof -
    have "a \<in> ran T \<union> avail_frames s" using G(6) ranI [of T' p] p(1) by blast
    then have "y \<notin> region (pt_entry a i) 8" using that(2,3) sub by blast
    then show ?thesis using G(9) [OF that] by (simp add: write64_outside)
  qed
  have "?m y = mem t y" if "f \<in> avail_frames t" "y \<in> region f 4096" for f y
    using R(6) [OF p(1) that(1)] sub that(2) by (intro write64_outside) blast
  with bm have "tail_kept t (t\<lparr>mem := ?m\<rparr>)" by (rule tail_kept_mem)
  with G(10) have "tail_kept s (t\<lparr>mem := ?m\<rparr>)" by (rule tail_kept_trans)
  moreover have "dom T \<subseteq> dom T'" using G(4) by blast
  ultimately show ?thesis
    unfolding pt_mapped_def using M pmm_same_mem [OF G(2)] G(3,5-7) look out by simp
qed

lemma pt_mappedD:
  assumes "pt_mapped F d root K L T s T' t"
  shows "pt_inv F d root T' t" and "pmm_same s t" and "avail_frames t \<subseteq> avail_frames s"
    and "dom T \<subseteq> dom T'" and "dom T' \<subseteq> dom T \<union> K" and "ran T' \<subseteq> ran T \<union> avail_frames s"
    and "card (avail_frames t) + card (dom T') = card (avail_frames s) + card (dom T)"
    and "pt_path F ix \<Longrightarrow> pt_lookup F T' (mem t) ix = L ix"
    and "y \<notin> bitmap_region s \<Longrightarrow> \<forall>a \<in> ran T. y \<notin> region a 4096 \<Longrightarrow> \<forall>f \<in> avail_frames s. y \<notin> region f 4096 \<Longrightarrow>
      mem t y = mem s y"
    and "tail_kept s t"
  using assms by (simp_all add: pt_mapped_def)

lemma pt_mapped_refl:
  "pt_inv F d root T s \<Longrightarrow> pt_mapped F d root K (pt_lookup F T (mem s)) T s T s"
  by (auto simp: pt_mapped_def)

text \<open>What any run of the table operations leaves alone, whatever it maps.\<close>

definition pt_confined :: "nat list set \<Rightarrow> pt_tree \<Rightarrow> kstate \<Rightarrow> pt_tree \<Rightarrow> kstate \<Rightarrow> bool" where
  "pt_confined K T s T' t \<longleftrightarrow>
     pmm_same s t \<and> avail_frames t \<subseteq> avail_frames s \<and> tail_kept s t \<and> ran T' \<subseteq> ran T \<union> avail_frames s \<and>
     dom T' \<subseteq> dom T \<union> K \<and> card (avail_frames t) + card (dom T') = card (avail_frames s) + card (dom T) \<and>
     (\<forall>y. y \<notin> bitmap_region s \<and> (\<forall>a \<in> ran T. y \<notin> region a 4096) \<and> (\<forall>f \<in> avail_frames s. y \<notin> region f 4096)
       \<longrightarrow> mem t y = mem s y)"

lemma pt_mapped_confined: "pt_mapped F d root K L T s T' t \<Longrightarrow> K \<subseteq> K' \<Longrightarrow> pt_confined K' T s T' t"
  by (auto simp: pt_mapped_def pt_confined_def)

lemma pt_confinedD:
  assumes "pt_confined K T s T' t"
  shows "pmm_same s t" and "avail_frames t \<subseteq> avail_frames s" and "ran T' \<subseteq> ran T \<union> avail_frames s"
    and "y \<notin> bitmap_region s \<Longrightarrow> \<forall>a \<in> ran T. y \<notin> region a 4096 \<Longrightarrow> \<forall>f \<in> avail_frames s. y \<notin> region f 4096 \<Longrightarrow>
      mem t y = mem s y"
    and "tail_kept s t" and "dom T' \<subseteq> dom T \<union> K"
    and "card (avail_frames t) + card (dom T') = card (avail_frames s) + card (dom T)"
  using assms by (simp_all add: pt_confined_def)

lemma pt_confined_trans:
  assumes "pt_confined K T s T1 t" and "pt_confined K T1 t T2 u"
  shows "pt_confined K T s T2 u"
proof -
  note A = pt_confinedD [OF assms(1)] and B = pt_confinedD [OF assms(2)]
  have "mem u y = mem s y"
    if y: "y \<notin> bitmap_region s" "\<forall>a \<in> ran T. y \<notin> region a 4096" "\<forall>f \<in> avail_frames s. y \<notin> region f 4096" for y
  proof -
    have "mem u y = mem t y" using y A(2,3) pmm_same_fields(8) [OF A(1)] by (intro B(4)) auto
    then show ?thesis using A(4) [OF y] by simp
  qed
  moreover have "ran T2 \<subseteq> ran T \<union> avail_frames s" "dom T2 \<subseteq> dom T \<union> K" "avail_frames u \<subseteq> avail_frames s"
    using A(2,3,6) B(2,3,6) by blast+
  ultimately show ?thesis
    using pmm_same_trans [OF A(1) B(1)] tail_kept_trans [OF A(5) B(5)] A(7) B(7) by (simp add: pt_confined_def)
qed

lemma pt_mapped_trans:
  assumes "pt_mapped F d root K L T s T1 t" and "pt_mapped F d root K' L' T1 t T2 u"
  shows "pt_mapped F d root (K \<union> K') L' T s T2 u"
proof -
  note A = pt_mappedD [OF assms(1)] and B = pt_mappedD [OF assms(2)]
  have "mem u y = mem s y"
    if y: "y \<notin> bitmap_region s" "\<forall>a \<in> ran T. y \<notin> region a 4096" "\<forall>f \<in> avail_frames s. y \<notin> region f 4096" for y
  proof -
    have "mem u y = mem t y" using y A(3,6) pmm_same_fields(8) [OF A(2)] by (intro B(9)) auto
    then show ?thesis using A(9) [OF y] by simp
  qed
  moreover have "dom T2 \<subseteq> dom T \<union> (K \<union> K')" "ran T2 \<subseteq> ran T \<union> avail_frames s" "avail_frames u \<subseteq> avail_frames s"
    "dom T \<subseteq> dom T2"
    using A(3-6) B(3-6) by blast+
  moreover have "card (avail_frames u) + card (dom T2) = card (avail_frames s) + card (dom T)" using A(7) B(7) by simp
  ultimately show ?thesis
    unfolding pt_mapped_def using B(1) pmm_same_trans [OF A(2) B(2)] tail_kept_trans [OF A(10) B(10)] B(8) by simp
qed

text \<open>There is room for what is missing as long as the free frames cover it.\<close>

lemma pt_room_step:
  assumes m: "pt_mapped F d root K L T s T' t" and room: "card (K \<union> K' - dom T) \<le> card (avail_frames s)"
    and fin: "finite K" "finite K'" and old: "pt_inv F d root T s"
  shows "card (K' - dom T') \<le> card (avail_frames t)"
proof -
  note D = pt_mappedD [OF m]
  have fT: "finite (dom T)" "finite (dom T')"
    using pt_finite [OF pt_invD(2) [OF old]] pt_finite [OF pt_invD(2) [OF D(1)]] by auto
  have new: "dom T' - dom T \<subseteq> K \<union> K' - dom T" using D(5) by blast
  have "card (dom T' - dom T) = card (dom T') - card (dom T)" using fT(1) D(4) by (rule card_Diff_subset)
  moreover have "card (dom T) \<le> card (dom T')" using fT(2) D(4) by (rule card_mono)
  ultimately have c: "card (avail_frames t) + card (dom T' - dom T) = card (avail_frames s)" using D(7) by simp
  have "K' - dom T' \<subseteq> (K \<union> K' - dom T) - (dom T' - dom T)" using D(4) by blast
  then have "card (K' - dom T') \<le> card ((K \<union> K' - dom T) - (dom T' - dom T))" using fin by (intro card_mono) auto
  also have "\<dots> = card (K \<union> K' - dom T) - card (dom T' - dom T)" using fT(2) new by (intro card_Diff_subset) auto
  finally show ?thesis using c room by simp
qed

end
