(* ===== verification/RvPaging.thy ===== *)
theory RvPaging
  imports PageTree
begin

text \<open>
  \<^verbatim>\<open>arch/riscv/paging.c\<close> and \<^verbatim>\<open>include/mm/rvpaging.hpp\<close>: Sv39 page tables. Physical memory is
  mapped at its own address (\<^verbatim>\<open>PHYS_TO_VIRT\<close> is the identity), so the tables are read and
  written through their physical addresses.
\<close>

section \<open>Definitions\<close>

subsection \<open>Entries\<close>

definition PTE_V :: u64 where "PTE_V = 1"
definition PTE_R :: u64 where "PTE_R = 2"
definition PTE_W :: u64 where "PTE_W = 4"
definition PTE_X :: u64 where "PTE_X = 8"
definition PTE_U :: u64 where "PTE_U = 16"
definition PTE_A :: u64 where "PTE_A = 64"
definition PTE_D :: u64 where "PTE_D = 128"

definition PAGE_KERNEL_EXEC :: u64 where
  "PAGE_KERNEL_EXEC = PTE_V OR PTE_R OR PTE_X OR PTE_A OR PTE_D"

definition PAGE_KERNEL_DATA :: u64 where
  "PAGE_KERNEL_DATA = PTE_V OR PTE_R OR PTE_W OR PTE_A OR PTE_D"

definition PAGE_TABLE_NODE :: u64 where "PAGE_TABLE_NODE = PTE_V"

definition pa_to_pte_ppn :: "u64 \<Rightarrow> u64" where
  "pa_to_pte_ppn pa = push_bit 10 (drop_bit 12 pa)"

definition pte_to_pa :: "u64 \<Rightarrow> u64" where
  "pte_to_pa pte = push_bit 12 (drop_bit 10 pte)"

definition MAKE_SATP_VAL :: "u64 \<Rightarrow> u64" where
  "MAKE_SATP_VAL pagetable_phys = push_bit 60 8 OR drop_bit 12 pagetable_phys"

definition vmm_install_page_table :: "u64 \<Rightarrow> kstate \<Rightarrow> kstate" where
  "vmm_install_page_table page_table s =
     s\<lparr>sreg := (sreg s)(SATP := MAKE_SATP_VAL page_table)\<rparr>"

subsection \<open>Walking\<close>

definition vpn :: "nat \<Rightarrow> u64 \<Rightarrow> u32" where
  "vpn shift va = ucast (drop_bit shift va AND 0x1FF)"

text \<open>The step that \<^verbatim>\<open>vmm_walk\<close> makes twice: the table an entry leads to, made if need be.\<close>

definition vmm_next :: "u64 \<Rightarrow> bool \<Rightarrow> kstate \<Rightarrow> (u64 option, kstate) outcome" where
  "vmm_next pte alloc s =
     (if load64 s pte AND PTE_V = 0 then
        if alloc then
          andThen (pmm_alloc_frame s) (\<lambda>frame_pa s.
            if frame_pa = 0 then Ret None s
            else
              let s = s\<lparr>mem := memset frame_pa 0 PAGE_SIZE (mem s)\<rparr>;
                  s = store64 pte (pa_to_pte_ppn frame_pa OR PAGE_TABLE_NODE) s
              in Ret (Some frame_pa) s)
        else Ret None s
      else Ret (Some (pte_to_pa (load64 s pte))) s)"

definition vmm_walk :: "u64 \<Rightarrow> u64 \<Rightarrow> bool \<Rightarrow> kstate \<Rightarrow> (u64, kstate) outcome" where
  "vmm_walk page_table va alloc s =
     (let vpn2 = vpn 30 va; vpn1 = vpn 21 va; vpn0 = vpn 12 va
      in andThen (vmm_next (page_table + 8 * ucast vpn2) alloc s) (\<lambda>l1_table s.
           case l1_table of
             None \<Rightarrow> Ret NULL s
           | Some l1_table \<Rightarrow>
               andThen (vmm_next (l1_table + 8 * ucast vpn1) alloc s) (\<lambda>l0_table s.
                 case l0_table of
                   None \<Rightarrow> Ret NULL s
                 | Some l0_table \<Rightarrow> Ret (l0_table + 8 * ucast vpn0) s)))"

definition vmm_virt_to_phys :: "u64 \<Rightarrow> u64 \<Rightarrow> kstate \<Rightarrow> (u64, kstate) outcome" where
  "vmm_virt_to_phys page_table va s =
     andThen (vmm_walk page_table va False s) (\<lambda>pte s.
       if pte = NULL \<or> load64 s pte AND PTE_V = 0 then Ret 0 s
       else Ret (pte_to_pa (load64 s pte) OR (va AND 0xFFF)) s)"

definition vmm_map_page :: "u64 \<Rightarrow> u64 \<Rightarrow> u64 \<Rightarrow> u64 \<Rightarrow> kstate \<Rightarrow> (bool, kstate) outcome" where
  "vmm_map_page page_table va pa flags s =
     (if va mod PAGE_SIZE \<noteq> 0 \<or> pa mod PAGE_SIZE \<noteq> 0 then Ret False s
      else
        andThen (vmm_walk page_table va True s) (\<lambda>pte s.
          if pte = NULL then Ret False s
          else Ret True (store64 pte (pa_to_pte_ppn pa OR PTE_V OR flags) s)))"

definition vmmk_virt_to_phys :: "u64 \<Rightarrow> kstate \<Rightarrow> (u64, kstate) outcome" where
  "vmmk_virt_to_phys va s = vmm_virt_to_phys (kernel_page_table s) va s"

definition vmmk_map_page :: "u64 \<Rightarrow> u64 \<Rightarrow> u64 \<Rightarrow> kstate \<Rightarrow> (bool, kstate) outcome" where
  "vmmk_map_page va pa flags s = vmm_map_page (kernel_page_table s) va pa flags s"

subsection \<open>The kernel's address space\<close>

text \<open>
  The three loops of \<^verbatim>\<open>vmm_init\<close>; \<open>fmt\<close> is the panic's format. The address may wrap round at
  the end of the address space, then the loop goes on for ever: no value.
\<close>

partial_function (option) vmm_map_range ::
    "u64 \<Rightarrow> u64 \<Rightarrow> u64 \<Rightarrow> string \<Rightarrow> kstate \<Rightarrow> (unit, kstate) outcome option" where
  "vmm_map_range addr hi flags fmt s =
     (if addr < hi then
        case vmmk_map_page addr addr flags s of
          Ret ok s \<Rightarrow>
            if \<not> ok then Some (panic ''vmm'' fmt [VNum addr] s)
            else vmm_map_range (addr + PAGE_SIZE) hi flags fmt s
        | Halt s \<Rightarrow> Some (Halt s)
        | Spin s \<Rightarrow> Some (Spin s)
      else Some (Ret () s))"

definition or_spin :: "('a, kstate) outcome option \<Rightarrow> kstate \<Rightarrow> ('a, kstate) outcome" where
  "or_spin r s = (case r of Some out \<Rightarrow> out | None \<Rightarrow> Spin s)"

definition vmm_init :: "boot_info \<Rightarrow> kstate \<Rightarrow> (unit, kstate) outcome" where
  "vmm_init bi s =
     (let s = s\<lparr>mem := memset (kernel_page_table s) 0 PAGE_SIZE (mem s)\<rparr>
      in andThen (or_spin (vmm_map_range (kernel_image_start bi) (kernel_readonly_end bi)
             PAGE_KERNEL_EXEC ''unable to map ro kernel page at 0x%llx'' s) s) (\<lambda>_ s.
         andThen (or_spin (vmm_map_range (ALIGN_UP (kernel_readonly_end bi) PAGE_SIZE)
             (machine_ram_base bi + machine_ram_total bi)
             PAGE_KERNEL_DATA ''unable to map rw kernel page at 0x%llx'' s) s) (\<lambda>_ s.
         andThen (or_spin (vmm_map_range 0x10000000 0x10002000
             (PTE_R OR PTE_W) ''unable to map mmio page at 0x%llx'' s) s) (\<lambda>_ s.
         let s = klog_info ''vmm'' ''installing page table'' [] s;
             s = vmm_install_page_table (kernel_page_table s) s;
             s = klog_info ''vmm'' ''paging initialized, page table at 0x%llx'' [VNum (kernel_page_table s)] s
         in Ret () s))))"

subsection \<open>The format\<close>

text \<open>Sv39 in the shared view: two levels of links, physical addresses of 56 bits.\<close>

definition rv_format :: pt_format where
  "rv_format = \<lparr>pt_valid = (\<lambda>e. e AND PTE_V \<noteq> 0), pt_target = pte_to_pa, pt_depth = 2, pt_limit = 2 ^ 56\<rparr>"

definition rv_path :: "u64 \<Rightarrow> nat list" where
  "rv_path va = [unat (vpn 30 va), unat (vpn 21 va), unat (vpn 12 va)]"

section \<open>Lemmas\<close>

subsection \<open>Entries\<close>

lemma pte_roundtrip:
  assumes "flags AND NOT (mask 10) = 0"
  shows "pte_to_pa (pa_to_pte_ppn pa OR flags) = pa AND NOT (mask 12)"
proof (rule bit_word_eqI)
  fix n assume n: "n < LENGTH(64)"
  have "\<not> bit flags k" if "10 \<le> k" for k
  proof -
    have "bit (flags AND NOT (mask 10)) k = False" unfolding assms by simp
    then show ?thesis using that bit_imp_le_length [of flags k] by (auto simp: bit_simps)
  qed
  then show "bit (pte_to_pa (pa_to_pte_ppn pa OR flags)) n = bit (pa AND NOT (mask 12)) n"
    using n by (auto simp: pte_to_pa_def pa_to_pte_ppn_def bit_simps)
qed

lemma page_aligned_mask:
  assumes "unat (a :: u64) mod 4096 = 0"
  shows "a AND NOT (mask 12) = a"
proof -
  have "a AND NOT (mask 12) = push_bit 12 (drop_bit 12 a)" by (rule and_not_mask_eq)
  also have "\<dots> = a div 4096 * 4096" by (simp add: push_bit_eq_mult drop_bit_eq_div)
  also have "\<dots> = a"
  proof -
    have "a mod 4096 = 0" using assms by (simp add: word_unat_eq_iff unat_mod)
    then show ?thesis by (metis add.right_neutral div_mult_mod_eq)
  qed
  finally show ?thesis .
qed

interpretation rv: page_format rv_format "\<lambda>pa. pa_to_pte_ppn pa OR PAGE_TABLE_NODE"
proof
  show "\<not> pt_valid rv_format 0" by (simp add: rv_format_def)
next
  fix a assume a: "pt_page rv_format a"
  have "bit (pa_to_pte_ppn a OR PAGE_TABLE_NODE) 0" by (simp add: PAGE_TABLE_NODE_def PTE_V_def bit_simps)
  then have "bit ((pa_to_pte_ppn a OR PAGE_TABLE_NODE) AND PTE_V) 0" by (simp add: PTE_V_def bit_simps)
  then show "pt_valid rv_format (pa_to_pte_ppn a OR PAGE_TABLE_NODE)" by (auto simp: rv_format_def)
  have "PAGE_TABLE_NODE AND NOT (mask 10) = 0"
    by (rule bit_word_eqI) (auto simp: PAGE_TABLE_NODE_def PTE_V_def bit_simps)
  from pte_roundtrip [OF this] show "pt_target rv_format (pa_to_pte_ppn a OR PAGE_TABLE_NODE) = a"
    using a page_aligned_mask [of a] by (simp add: rv_format_def pt_page_def page_def)
qed

subsection \<open>One step of a walk\<close>

lemma unat_vpn: "unat (vpn k va) < 512"
proof -
  have "drop_bit k va AND 0x1FF \<le> 0x1FF" by (rule word_and_le1)
  then have "unat (drop_bit k va AND 0x1FF) \<le> 511" by (simp add: word_le_nat_alt)
  moreover have "unat (vpn k va) \<le> unat (drop_bit k va AND 0x1FF)"
    by (simp add: vpn_def unsigned_ucast_eq take_bit_nat_less_eq_self)
  ultimately show ?thesis by simp
qed

lemma vpn_entry: "a + 8 * ucast (vpn k va) = pt_entry a (unat (vpn k va))"
  by (simp add: pt_entry_def)

lemma rv_fields [simp]:
  "pt_valid rv_format e \<longleftrightarrow> e AND PTE_V \<noteq> 0" "pt_target rv_format = pte_to_pa" "pt_depth rv_format = 2"
  "pt_limit rv_format = 2 ^ 56"
  by (simp_all add: rv_format_def)

lemma rv_path_ok: "pt_path rv_format (rv_path va)"
  using unat_vpn by (simp add: pt_path_def rv_path_def)

lemma vmm_next_some:
  assumes "pt_inv rv_format d root T s" and "T p = Some a" and "length p < 2" and "i < 512" and "T (p @ [i]) = Some b"
  shows "vmm_next (pt_entry a i) alloc s = Ret (Some b) s"
  using pt_repD(8) [OF pt_invD(2) [OF assms(1)] assms(2) _ assms(4)] assms(3,5)
  by (simp add: pt_link_def vmm_next_def)

lemma vmm_next_none:
  assumes "pt_inv rv_format d root T s" and "T p = Some a" and "length p < 2" and "i < 512" and "T (p @ [i]) = None"
  shows "vmm_next (pt_entry a i) False s = Ret None s"
    and "avail_frames s = {} \<Longrightarrow> vmm_next (pt_entry a i) True s =
      (if free_frames s = 0 then panic ''mm'' ''out of physical memory frames'' [] s else Ret None s)"
proof -
  have e: "load64 s (pt_entry a i) AND PTE_V = 0"
    using pt_repD(8) [OF pt_invD(2) [OF assms(1)] assms(2) _ assms(4)] assms(3,5) by (simp add: pt_link_def)
  then show "vmm_next (pt_entry a i) False s = Ret None s" by (simp add: vmm_next_def)
  assume av: "avail_frames s = {}"
  have "pmm_inv d s" using pt_invD(1) [OF assms(1)] by (simp add: mm_ok_def)
  then have "last_free_index s \<le> total_frames s" "free_set s = {}"
    using av by (simp_all add: pmm_inv_def avail_frames_def)
  from pmm_alloc_frame_full [OF this] e show "vmm_next (pt_entry a i) True s =
      (if free_frames s = 0 then panic ''mm'' ''out of physical memory frames'' [] s else Ret None s)"
    by (simp add: vmm_next_def)
qed

lemma vmm_next_alloc:
  assumes inv: "pt_inv rv_format d root T s" and p: "T p = Some a" "length p < 2" "i < 512"
    and room: "T (p @ [i]) \<noteq> None \<or> avail_frames s \<noteq> {}"
  obtains b T' t where "vmm_next (pt_entry a i) True s = Ret (Some b) t" and "T' (p @ [i]) = Some b"
    and "pt_grown rv_format d root {p @ [i]} T s T' t"
proof (cases "T (p @ [i])")
  case (Some b)
  then show ?thesis using vmm_next_some [OF inv p] pt_grown_refl [OF inv] by (intro that)
next
  case None
  have d: "length p < pt_depth rv_format" using p(2) by simp
  have av: "avail_frames s \<noteq> {}" using room None by simp
  obtain f t where f: "pmm_alloc_frame s = Ret f t" "f \<noteq> 0"
    "pt_grown rv_format d root {p @ [i]} T s (T(p @ [i] \<mapsto> f))
      (t\<lparr>mem := write64 (memset f 0 4096 (mem t)) (pt_entry a i) (pa_to_pte_ppn f OR PAGE_TABLE_NODE)\<rparr>)"
    by (rule rv.alloc_child [OF inv p(1) d p(3) None av])
  have "load64 s (pt_entry a i) AND PTE_V = 0"
    using pt_repD(8) [OF pt_invD(2) [OF inv] p(1) d p(3)] None by (simp add: pt_link_def)
  then have "vmm_next (pt_entry a i) True s = Ret (Some f)
      (t\<lparr>mem := write64 (memset f 0 4096 (mem t)) (pt_entry a i) (pa_to_pte_ppn f OR PAGE_TABLE_NODE)\<rparr>)"
    using f(1,2) by (simp add: vmm_next_def store64_def PAGE_SIZE_def Let_def)
  then show ?thesis using f(3) by (intro that) simp_all
qed

subsection \<open>The walk\<close>

definition rv_missing :: "pt_tree \<Rightarrow> u64 \<Rightarrow> nat list set" where
  "rv_missing T va = {[unat (vpn 30 va)], [unat (vpn 30 va), unat (vpn 21 va)]} - dom T"

lemma vmm_walk_alloc:
  assumes inv: "pt_inv rv_format d root T s" and room: "card (rv_missing T va) \<le> card (avail_frames s)"
  obtains a T' t where "vmm_walk root va True s = Ret (pt_entry a (unat (vpn 12 va))) t"
    and "T' [unat (vpn 30 va), unat (vpn 21 va)] = Some a"
    and "pt_grown rv_format d root {[unat (vpn 30 va)], [unat (vpn 30 va), unat (vpn 21 va)]} T s T' t"
proof -
  let ?p = "unat (vpn 30 va)" and ?q = "unat (vpn 21 va)"
  note D = pt_repD [OF pt_invD(2) [OF inv]]
  have b: "?p < 512" "?q < 512" by (rule unat_vpn)+
  have cl: "T [?p, ?q] \<noteq> None \<Longrightarrow> T [?p] \<noteq> None" using D(7) [of "[?p]" ?q] by simp
  have fin: "finite (dom T)" "finite (avail_frames s)" using pt_finite [OF pt_invD(2) [OF inv]] finite_avail by auto
  have r1: "T ([] @ [?p]) \<noteq> None \<or> avail_frames s \<noteq> {}"
  proof (rule ccontr)
    assume "\<not> ?thesis"
    then have "T [?p] = None" "avail_frames s = {}" by simp_all
    then have "[?p] \<in> rv_missing T va" "card (rv_missing T va) = 0" using room by (auto simp: rv_missing_def)
    moreover have "finite (rv_missing T va)" by (simp add: rv_missing_def)
    ultimately show False by auto
  qed
  obtain b1 T1 t1 where S1: "vmm_next (pt_entry root ?p) True s = Ret (Some b1) t1" "T1 ([] @ [?p]) = Some b1"
    "pt_grown rv_format d root {[] @ [?p]} T s T1 t1"
    by (rule vmm_next_alloc [OF inv D(1) _ b(1) r1]) (simp, rule that)
  note G1 = pt_grownD [OF S1(3)]
  have r2: "T1 ([?p] @ [?q]) \<noteq> None \<or> avail_frames t1 \<noteq> {}"
  proof (rule ccontr)
    assume "\<not> ?thesis"
    then have n: "T1 [?p, ?q] = None" "card (avail_frames t1) = 0" by simp_all
    have n': "T [?p, ?q] = None" using G1(4) [of "[?p, ?q]"] n(1) by (cases "T [?p, ?q]") auto
    have "card (dom T1) \<le> card (dom T \<union> {[?p]})" using G1(5) fin(1) by (intro card_mono) auto
    then have c: "card (avail_frames s) + card (dom T) \<le> card (dom T \<union> {[?p]})" using G1(7) n(2) by simp
    show False
    proof (cases "T [?p] = None")
      case True
      then have "rv_missing T va = {[?p], [?p, ?q]}" using n' by (auto simp: rv_missing_def)
      moreover have "card (dom T \<union> {[?p]}) \<le> Suc (card (dom T))" using card_insert_le_m1 [of "Suc (card (dom T))" "dom T" "[?p]"] by simp
      ultimately show False using c room by simp
    next
      case False
      then have "rv_missing T va = {[?p, ?q]}" "dom T \<union> {[?p]} = dom T" using n' by (auto simp: rv_missing_def)
      then show False using c room by simp
    qed
  qed
  have l: "T1 [?p] = Some b1" using S1(2) by simp
  obtain b2 T2 t2 where S2: "vmm_next (pt_entry b1 ?q) True t1 = Ret (Some b2) t2" "T2 ([?p] @ [?q]) = Some b2"
    "pt_grown rv_format d root {[?p] @ [?q]} T1 t1 T2 t2"
    by (rule vmm_next_alloc [OF G1(1) l _ b(2) r2]) (simp, rule that)
  have "vmm_walk root va True s = Ret (pt_entry b2 (unat (vpn 12 va))) t2"
    using S1(1) S2(1) by (simp add: vmm_walk_def vpn_entry Let_def)
  moreover have "pt_grown rv_format d root {[?p], [?p, ?q]} T s T2 t2"
    using pt_grown_trans [OF S1(3) S2(3)] by (simp add: insert_commute)
  ultimately show ?thesis using S2(2) by (intro that) simp_all
qed

text \<open>A walk that makes nothing finds what the tree says.\<close>

lemma vmm_walk_find:
  assumes inv: "pt_inv rv_format d root T s"
  shows "vmm_walk root va False s =
    Ret (case T [unat (vpn 30 va), unat (vpn 21 va)] of None \<Rightarrow> NULL | Some a \<Rightarrow> pt_entry a (unat (vpn 12 va))) s"
proof -
  let ?p = "unat (vpn 30 va)" and ?q = "unat (vpn 21 va)"
  note D = pt_repD [OF pt_invD(2) [OF inv]]
  have b: "?p < 512" "?q < 512" by (rule unat_vpn)+
  show ?thesis
  proof (cases "T [?p]")
    case None
    then have "T [?p, ?q] = None" using D(7) [of "[?p]" ?q] by (cases "T [?p, ?q]") auto
    moreover have "vmm_next (pt_entry root ?p) False s = Ret None s"
      using vmm_next_none(1) [OF inv D(1) _ b(1)] None by simp
    ultimately show ?thesis by (simp add: vmm_walk_def vpn_entry Let_def)
  next
    case (Some b1)
    have s1: "vmm_next (pt_entry root ?p) False s = Ret (Some b1) s"
      using vmm_next_some [OF inv D(1) _ b(1)] Some by simp
    show ?thesis
    proof (cases "T [?p, ?q]")
      case None
      then have "vmm_next (pt_entry b1 ?q) False s = Ret None s"
        using vmm_next_none(1) [OF inv Some _ b(2)] by simp
      then show ?thesis using s1 None by (simp add: vmm_walk_def vpn_entry Let_def)
    next
      case s2: (Some b2)
      then have "vmm_next (pt_entry b1 ?q) False s = Ret (Some b2) s"
        using vmm_next_some [OF inv Some _ b(2)] by simp
      then show ?thesis using s1 s2 by (simp add: vmm_walk_def vpn_entry Let_def)
    qed
  qed
qed

lemma rv_lookup:
  "pt_lookup rv_format T m (rv_path va) =
    (case T [unat (vpn 30 va), unat (vpn 21 va)] of None \<Rightarrow> None
     | Some a \<Rightarrow> let e = read64 m (pt_entry a (unat (vpn 12 va))) in if e AND PTE_V \<noteq> 0 then Some e else None)"
  using pt_lookup_snoc [of rv_format T m "[unat (vpn 30 va), unat (vpn 21 va)]" "unat (vpn 12 va)"]
  by (cases "T [unat (vpn 30 va), unat (vpn 21 va)]") (simp_all add: rv_path_def)

lemma vmm_virt_to_phys_eq:
  assumes inv: "pt_inv rv_format d root T s"
  shows "vmm_virt_to_phys root va s =
    Ret (case pt_lookup rv_format T (mem s) (rv_path va) of None \<Rightarrow> 0 | Some e \<Rightarrow> pte_to_pa e OR (va AND 0xFFF)) s"
proof (cases "T [unat (vpn 30 va), unat (vpn 21 va)]")
  case None
  then show ?thesis by (simp add: vmm_virt_to_phys_def vmm_walk_find [OF inv] rv_lookup)
next
  case (Some a)
  have "pt_entry a (unat (vpn 12 va)) \<noteq> 0"
    using pt_repD(6) [OF pt_invD(2) [OF inv] Some] unat_vpn by (rule pt_entry_not_null)
  with Some show ?thesis by (simp add: vmm_virt_to_phys_def vmm_walk_find [OF inv] rv_lookup Let_def)
qed

subsection \<open>Mapping a page\<close>

definition rv_leaf :: "u64 \<Rightarrow> u64 \<Rightarrow> u64" where
  "rv_leaf pa flags = pa_to_pte_ppn pa OR PTE_V OR flags"

lemma rv_leaf_valid: "rv_leaf pa flags AND PTE_V \<noteq> 0"
proof -
  have "bit (rv_leaf pa flags AND PTE_V) 0" by (simp add: rv_leaf_def PTE_V_def bit_simps)
  then show ?thesis by auto
qed

definition rv_keys :: "u64 \<Rightarrow> nat list set" where
  "rv_keys va = {[unat (vpn 30 va)], [unat (vpn 30 va), unat (vpn 21 va)]}"

lemma rv_missing_eq: "rv_missing T va = rv_keys va - dom T"
  by (simp add: rv_missing_def rv_keys_def)

lemma vmm_map_page_ok:
  assumes inv: "pt_inv rv_format d root T s" and room: "card (rv_keys va - dom T) \<le> card (avail_frames s)"
    and al: "va mod PAGE_SIZE = 0" "pa mod PAGE_SIZE = 0"
  obtains T' t where "vmm_map_page root va pa flags s = Ret True t"
    and "pt_mapped rv_format d root (rv_keys va) ((pt_lookup rv_format T (mem s))(rv_path va \<mapsto> rv_leaf pa flags)) T s T' t"
proof -
  let ?p = "[unat (vpn 30 va), unat (vpn 21 va)]" and ?i = "unat (vpn 12 va)"
  have "card (rv_missing T va) \<le> card (avail_frames s)" using room by (simp add: rv_missing_eq)
  then obtain a T' t where W: "vmm_walk root va True s = Ret (pt_entry a ?i) t" "T' ?p = Some a"
    "pt_grown rv_format d root (rv_keys va) T s T' t"
    unfolding rv_keys_def by (rule vmm_walk_alloc [OF inv])
  have i: "?i < 512" by (rule unat_vpn)
  have "page a" using pt_repD(6) [OF pt_invD(2) [OF pt_grownD(1) [OF W(3)]] W(2)] .
  then have nz: "pt_entry a ?i \<noteq> 0" using i by (rule pt_entry_not_null)
  let ?t = "t\<lparr>mem := write64 (mem t) (pt_entry a ?i) (rv_leaf pa flags)\<rparr>"
  have "vmm_map_page root va pa flags s = Ret True ?t"
    using al W(1) nz by (simp add: vmm_map_page_def store64_def rv_leaf_def)
  moreover have "pt_mapped rv_format d root (rv_keys va)
      ((pt_lookup rv_format T (mem s))(rv_path va \<mapsto> rv_leaf pa flags)) T s T' ?t"
    using pt_grown_leaf [OF W(3,2) _ i, of "rv_leaf pa flags"] rv_leaf_valid by (simp add: rv_path_def)
  ultimately show thesis by (rule that)
qed

subsection \<open>Low addresses\<close>

lemma unat_vpn_eq: "unat (vpn k va) = unat va div 2 ^ k mod 512"
proof -
  have m: "(0x1FF :: u64) = mask 9" by (simp add: mask_eq_decr_exp)
  have "unat (drop_bit k va AND 0x1FF) = take_bit 9 (drop_bit k (unat va))"
    unfolding m take_bit_eq_mask [symmetric] 
    by (simp add: unsigned_take_bit_eq unsigned_drop_bit_eq take_bit_nat_eq_self)
  then have "unat (drop_bit k va AND 0x1FF) = unat va div 2 ^ k mod 512" by (simp add: take_bit_eq_mod drop_bit_eq_div)
  moreover have "take_bit 32 (unat va div 2 ^ k mod 512) = unat va div 2 ^ k mod 512"
    by (rule take_bit_nat_eq_self) (rule less_trans [of _ 512], simp_all)
  ultimately show ?thesis by (simp add: vpn_def unsigned_ucast_eq)
qed

lemma three_digits:
  fixes q :: nat
  assumes "q < 2 ^ 27"
  shows "q = (q div 262144 mod 512) * 262144 + (q div 512 mod 512) * 512 + q mod 512"
proof -
  have "q div 512 = q div 512 div 512 * 512 + q div 512 mod 512" by (rule div_mult_mod_eq [symmetric])
  moreover have "q div 512 div 512 = q div 262144" by (simp add: div_mult2_eq [symmetric])
  moreover have "q div 262144 < 512" using assms by (simp add: less_mult_imp_div_less)
  moreover have "q div 512 * 512 + q mod 512 = q" by (rule div_mult_mod_eq)
  ultimately have "(q div 262144 mod 512) * 512 + q div 512 mod 512 = q div 512" "q div 512 * 512 + q mod 512 = q" by simp_all
  then show ?thesis by linarith
qed

lemma rv_path_eq:
  "rv_path va = [unat va div 4096 div 262144 mod 512, unat va div 4096 div 512 mod 512, unat va div 4096 mod 512]"
  by (simp add: rv_path_def unat_vpn_eq div_mult2_eq [symmetric])

lemma rv_path_inj:
  assumes "unat a < 2 ^ 39" and "unat b < 2 ^ 39"
  shows "rv_path a = rv_path b \<longleftrightarrow> unat a div 4096 = unat b div 4096"
proof
  assume e: "rv_path a = rv_path b"
  have "unat a div 4096 < 2 ^ 27" "unat b div 4096 < 2 ^ 27" using assms by (simp_all add: less_mult_imp_div_less)
  note three_digits [OF this(1)] three_digits [OF this(2)]
  then show "unat a div 4096 = unat b div 4096" using e unfolding rv_path_eq list.inject by metis
qed (simp add: rv_path_eq)

definition pg :: "nat \<Rightarrow> u64" where "pg j = of_nat (4096 * j)"

lemma unat_pg: "j < 2 ^ 52 \<Longrightarrow> unat (pg j) = 4096 * j"
  unfolding pg_def by (intro unat_of_nat_u64) simp

lemma pg_aligned: "j < 2 ^ 52 \<Longrightarrow> pg j mod PAGE_SIZE = 0"
  by (simp add: word_unat_eq_iff unat_mod unat_pg PAGE_SIZE_def)

lemma pg_Suc: "pg j + PAGE_SIZE = pg (Suc j)"
  by (simp add: pg_def PAGE_SIZE_def)

definition range_keys :: "nat \<Rightarrow> nat \<Rightarrow> nat list set" where
  "range_keys q n = (\<Union>j \<in> {q..<q + n}. rv_keys (pg j))"

lemma finite_range_keys: "finite (range_keys q n)"
  by (simp add: range_keys_def rv_keys_def)

lemma range_keys_Suc: "range_keys q (Suc n) = rv_keys (pg q) \<union> range_keys (Suc q) n"
proof -
  have "{q..<q + Suc n} = insert q {Suc q..<Suc q + n}" by auto
  then show ?thesis by (simp add: range_keys_def)
qed

subsection \<open>Mapping a range\<close>

lemma vmm_map_range_ok:
  assumes "pt_inv rv_format d (kernel_page_table s) T s" and "unat hi \<le> 2 ^ 39"
    and "(unat hi + 4095) div 4096 = q + n" and "card (range_keys q n - dom T) \<le> card (avail_frames s)"
  shows "\<exists>T' t L. vmm_map_range (pg q) hi flags fmt s = Some (Ret () t) \<and>
    pt_mapped rv_format d (kernel_page_table s) (range_keys q n) L T s T' t \<and>
    (\<forall>va. unat va < 2 ^ 39 \<longrightarrow> L (rv_path va) =
      (if unat va div 4096 \<in> {q..<q + n} then Some (rv_leaf (pg (unat va div 4096)) flags)
       else pt_lookup rv_format T (mem s) (rv_path va)))"
  using assms
proof (induction n arbitrary: q s T)
  case 0
  have "unat hi + 4095 < 4096 * q + 4096" using 0(3) by linarith
  then have "unat hi \<le> 4096 * q" by simp
  moreover have "q \<le> 2 ^ 27" using 0(2,3) by (simp add: Suc_leI div_le_mono [THEN le_trans])
  ultimately have "\<not> pg q < hi" by (simp add: word_less_nat_alt unat_pg)
  then show ?case
    using pt_mapped_refl [OF 0(1)] by (subst vmm_map_range.simps) (auto simp: range_keys_def)
next
  case (Suc n)
  let ?k = "kernel_page_table s"
  have le: "4096 * (q + Suc n) \<le> unat hi + 4095" using Suc.prems(3) by (metis times_div_less_eq_dividend)
  then have q: "4096 * q < unat hi" "q < 2 ^ 27" using Suc.prems(2) by simp_all
  have q52: "q < 2 ^ 52" using q(2) by simp
  have lt: "pg q < hi" using q(1) by (simp add: word_less_nat_alt unat_pg [OF q52])
  have "card (rv_keys (pg q) - dom T) \<le> card (range_keys q (Suc n) - dom T)"
    unfolding range_keys_Suc by (intro card_mono) (auto simp: finite_range_keys rv_keys_def)
  then have r1: "card (rv_keys (pg q) - dom T) \<le> card (avail_frames s)" using Suc.prems(4) by simp
  obtain T1 t1 where M: "vmm_map_page ?k (pg q) (pg q) flags s = Ret True t1"
    "pt_mapped rv_format d ?k (rv_keys (pg q)) ((pt_lookup rv_format T (mem s))(rv_path (pg q) \<mapsto> rv_leaf (pg q) flags)) T s T1 t1"
    by (rule vmm_map_page_ok [OF Suc.prems(1) r1 pg_aligned [OF q52] pg_aligned [OF q52]])
  note D = pt_mappedD [OF M(2)]
  have k: "kernel_page_table t1 = ?k" using pmm_same_fields(5) [OF D(2)] .
  have r2: "card (range_keys (Suc q) n - dom T1) \<le> card (avail_frames t1)"
    using pt_room_step [OF M(2) _ _ finite_range_keys Suc.prems(1), of "Suc q" n] Suc.prems(4)
    by (simp add: range_keys_Suc rv_keys_def)
  have "pt_inv rv_format d (kernel_page_table t1) T1 t1" using D(1) k by simp
  moreover have "(unat hi + 4095) div 4096 = Suc q + n" using Suc.prems(3) by simp
  ultimately obtain T2 t2 L where N: "vmm_map_range (pg (Suc q)) hi flags fmt t1 = Some (Ret () t2)"
    "pt_mapped rv_format d ?k (range_keys (Suc q) n) L T1 t1 T2 t2"
    "\<And>va. unat va < 2 ^ 39 \<Longrightarrow> L (rv_path va) =
      (if unat va div 4096 \<in> {Suc q..<Suc q + n} then Some (rv_leaf (pg (unat va div 4096)) flags)
       else pt_lookup rv_format T1 (mem t1) (rv_path va))"
    using Suc.IH [OF _ Suc.prems(2) _ r2] unfolding k by blast
  have "vmm_map_range (pg q) hi flags fmt s = Some (Ret () t2)"
    using lt M(1) N(1) by (subst vmm_map_range.simps) (simp add: vmmk_map_page_def pg_Suc)
  moreover have "pt_mapped rv_format d ?k (range_keys q (Suc n)) L T s T2 t2"
    unfolding range_keys_Suc by (rule pt_mapped_trans [OF M(2) N(2)])
  moreover have "L (rv_path va) =
      (if unat va div 4096 \<in> {q..<q + Suc n} then Some (rv_leaf (pg (unat va div 4096)) flags)
       else pt_lookup rv_format T (mem s) (rv_path va))" if va: "unat va < 2 ^ 39" for va
  proof -
    have "unat (pg q) < 2 ^ 39" "unat (pg q) div 4096 = q" using q by (simp_all add: unat_pg [OF q52])
    then have "rv_path va = rv_path (pg q) \<longleftrightarrow> unat va div 4096 = q" using rv_path_inj [OF va, of "pg q"] by simp
    then have "pt_lookup rv_format T1 (mem t1) (rv_path va) =
        (if unat va div 4096 = q then Some (rv_leaf (pg q) flags) else pt_lookup rv_format T (mem s) (rv_path va))"
      using D(8) [OF rv_path_ok] by simp
    then show ?thesis using N(3) [OF va] by auto
  qed
  ultimately show ?case by blast
qed

subsection \<open>The kernel's address space\<close>

text \<open>Which flags \<^verbatim>\<open>vmm_init\<close> gives a page, by its number; later loops override earlier ones.\<close>

definition pages_up :: "u64 \<Rightarrow> nat" where "pages_up a = (unat a + 4095) div 4096"

definition kernel_mapping :: "boot_info \<Rightarrow> nat \<Rightarrow> u64 option" where
  "kernel_mapping bi j =
     (if j \<in> {0x10000, 0x10001} then Some (PTE_R OR PTE_W)
      else if pages_up (kernel_readonly_end bi) \<le> j \<and> j < pages_up (machine_ram_base bi + machine_ram_total bi)
        then Some PAGE_KERNEL_DATA
      else if unat (kernel_image_start bi) div 4096 \<le> j \<and> j < pages_up (kernel_readonly_end bi)
        then Some PAGE_KERNEL_EXEC
      else None)"

text \<open>The tables it needs.\<close>

definition kernel_tables :: "boot_info \<Rightarrow> nat list set" where
  "kernel_tables bi =
     (\<Union>j \<in> {j. j < 2 ^ 27 \<and> kernel_mapping bi j \<noteq> None}. rv_keys (pg j))"

text \<open>What the description of the machine must satisfy: nothing wraps, and all lies below 512 GiB.\<close>

definition vmm_boot_ok :: "boot_info \<Rightarrow> bool" where
  "vmm_boot_ok bi \<longleftrightarrow>
     unat (kernel_image_start bi) mod 4096 = 0 \<and> kernel_image_start bi \<le> kernel_readonly_end bi \<and>
     pages_up (kernel_readonly_end bi) \<le> pages_up (machine_ram_base bi + machine_ram_total bi) \<and>
     unat (machine_ram_base bi) + unat (machine_ram_total bi) \<le> 2 ^ 39 \<and> unat (kernel_readonly_end bi) \<le> 2 ^ 39"

lemma ALIGN_UP_pg:
  assumes "unat a \<le> 2 ^ 39"
  shows "ALIGN_UP a PAGE_SIZE = pg (pages_up a)"
proof -
  have "unat (ALIGN_UP a (2 ^ 12)) = (unat a + 2 ^ 12 - 1) div 2 ^ 12 * 2 ^ 12"
    using assms by (intro unat_ALIGN_UP) simp_all
  then have "unat (ALIGN_UP a PAGE_SIZE) = 4096 * pages_up a" by (simp add: PAGE_SIZE_def pages_up_def)
  then show ?thesis unfolding pg_def by (rule unat_eq_of_nat_u64)
qed

lemma pte_to_leaf:
  assumes "flags AND NOT (mask 10) = 0"
  shows "pte_to_pa (rv_leaf pa flags) = pa AND NOT (mask 12)"
proof -
  have "(PTE_V OR flags) AND NOT (mask 10) = 0"
  proof (rule bit_word_eqI)
    fix n assume n: "n < LENGTH(64)"
    have "bit (flags AND NOT (mask 10)) n = False" unfolding assms by simp
    then show "bit ((PTE_V OR flags) AND NOT (mask 10)) n = bit 0 n" by (auto simp: PTE_V_def bit_simps)
  qed
  from pte_roundtrip [OF this] show ?thesis by (simp add: rv_leaf_def or.assoc)
qed

lemma leaf_translate:
  assumes "flags AND NOT (mask 10) = 0" and "unat va div 4096 < 2 ^ 52"
  shows "pte_to_pa (rv_leaf (pg (unat va div 4096)) flags) OR (va AND 0xFFF) = va"
proof -
  have "va div 4096 = of_nat (unat va div 4096)" by (rule unat_eq_of_nat_u64) (simp add: unat_div)
  then have "pg (unat va div 4096) = push_bit 12 (drop_bit 12 va)"
    by (simp add: pg_def push_bit_eq_mult drop_bit_eq_div mult.commute)
  then have p: "pg (unat va div 4096) = va AND NOT (mask 12)" by (simp add: and_not_mask_eq)
  have "pte_to_pa (rv_leaf (pg (unat va div 4096)) flags) = va AND NOT (mask 12)"
    using pte_to_leaf [OF assms(1)] p by (simp add: and.assoc)
  moreover have "va AND 0xFFF = va AND mask 12" by (simp add: mask_eq_decr_exp)
  ultimately show ?thesis by (simp, intro bit_word_eqI) (auto simp: bit_simps)
qed

lemma kernel_mapping_flags: "kernel_mapping bi j = Some fl \<Longrightarrow> fl AND NOT (mask 10) = 0"
  by (auto simp: kernel_mapping_def PAGE_KERNEL_DATA_def PAGE_KERNEL_EXEC_def PTE_V_def PTE_R_def PTE_W_def
      PTE_X_def PTE_A_def PTE_D_def mask_eq_decr_exp split: if_splits)

lemma map_range_room:
  assumes inv: "pt_inv rv_format d k T s" and k: "k = kernel_page_table s" and hi: "unat hi \<le> 2 ^ 39" "q \<le> pages_up hi"
    and K: "finite K" "\<forall>j. q \<le> j \<and> j < pages_up hi \<longrightarrow> rv_keys (pg j) \<subseteq> K" and room: "card (K - dom T) \<le> card (avail_frames s)"
  obtains T' t where "vmm_map_range (pg q) hi flags fmt s = Some (Ret () t)" and "pt_inv rv_format d k T' t"
    and "k = kernel_page_table t" and "card (K - dom T') \<le> card (avail_frames t)" and "pt_confined K T s T' t"
    and "\<And>va. unat va < 2 ^ 39 \<Longrightarrow> pt_lookup rv_format T' (mem t) (rv_path va) =
      (if q \<le> unat va div 4096 \<and> unat va div 4096 < pages_up hi then Some (rv_leaf (pg (unat va div 4096)) flags)
       else pt_lookup rv_format T (mem s) (rv_path va))"
proof -
  let ?n = "pages_up hi - q"
  have n: "(unat hi + 4095) div 4096 = q + ?n" using hi(2) by (simp add: pages_up_def)
  have sub: "range_keys q ?n \<subseteq> K" using K(2) hi(2) by (fastforce simp: range_keys_def)
  have "card (range_keys q ?n - dom T) \<le> card (K - dom T)" using K(1) sub by (intro card_mono) auto
  then have r: "card (range_keys q ?n - dom T) \<le> card (avail_frames s)" using room by simp
  have inv': "pt_inv rv_format d (kernel_page_table s) T s" using inv k by simp
  obtain T' t L where R: "vmm_map_range (pg q) hi flags fmt s = Some (Ret () t)"
    "pt_mapped rv_format d (kernel_page_table s) (range_keys q ?n) L T s T' t"
    "\<And>va. unat va < 2 ^ 39 \<Longrightarrow> L (rv_path va) =
      (if unat va div 4096 \<in> {q..<q + ?n} then Some (rv_leaf (pg (unat va div 4096)) flags)
       else pt_lookup rv_format T (mem s) (rv_path va))"
    using vmm_map_range_ok [OF inv' hi(1) n r] by blast
  note D = pt_mappedD [OF R(2)]
  have e: "range_keys q ?n \<union> K = K" using sub by blast
  have "card (K - dom T') \<le> card (avail_frames t)"
    using pt_room_step [OF R(2) _ finite_range_keys K(1) inv'] room unfolding e by blast
  moreover have "pt_lookup rv_format T' (mem t) (rv_path va) =
      (if q \<le> unat va div 4096 \<and> unat va div 4096 < pages_up hi then Some (rv_leaf (pg (unat va div 4096)) flags)
       else pt_lookup rv_format T (mem s) (rv_path va))" if "unat va < 2 ^ 39" for va
    using D(8) [OF rv_path_ok] R(3) [OF that] hi(2) by auto
  moreover have "k = kernel_page_table t" "pt_inv rv_format d k T' t" using D(1) pmm_same_fields(5) [OF D(2)] k by simp_all
  ultimately show thesis using R(1) pt_mapped_confined [OF R(2) sub] by (intro that)
qed

lemma rv_keys_paths: "rv_keys va \<subseteq> {p. set p \<subseteq> {..<512} \<and> length p \<le> 2}"
  using unat_vpn by (auto simp: rv_keys_def)

lemma finite_kernel_tables: "finite (kernel_tables bi)"
proof (rule finite_subset)
  show "kernel_tables bi \<subseteq> {p. set p \<subseteq> {..<512} \<and> length p \<le> 2}"
    using rv_keys_paths unfolding kernel_tables_def by blast
  show "finite {p. set p \<subseteq> {..<512 :: nat} \<and> length p \<le> 2}" by (rule finite_lists_length_le) simp
qed

lemma kernel_tables_keys:
  assumes "kernel_mapping bi j \<noteq> None" and "j < pages_up hi" and "unat hi \<le> 2 ^ 39"
  shows "rv_keys (pg j) \<subseteq> kernel_tables bi"
proof -
  have "pages_up hi \<le> 2 ^ 27" using assms(3) by (simp add: pages_up_def div_le_mono [of _ "2 ^ 39 + 4095" 4096, simplified])
  then have "j < 2 ^ 27" using assms(2) by simp
  then show ?thesis using assms(1) unfolding kernel_tables_def by blast
qed

text \<open>What \<^verbatim>\<open>vmm_init\<close> may change beside memory: the frame allocator's variables, \<^verbatim>\<open>satp\<close>, output.\<close>

definition paging_same :: "kstate \<Rightarrow> kstate \<Rightarrow> bool" where
  "paging_same s t \<longleftrightarrow>
     t\<lparr>mem := mem s, free_frames := free_frames s, last_free_index := last_free_index s, sreg := sreg s, uart_out := uart_out s\<rparr> = s"

lemma vmm_init_ok:
  assumes ok: "mm_ok d s" and root: "pt_page rv_format (kernel_page_table s)" "kernel_page_table s \<notin> avail_frames s"
      "bitmap_region s \<inter> region (kernel_page_table s) 4096 = {}"
    and low: "\<forall>f \<in> avail_frames s. unat f < 2 ^ 56" and bi: "vmm_boot_ok bi"
    and room: "card (kernel_tables bi) \<le> card (avail_frames s)"
  obtains T t where "vmm_init bi s = Ret () t" and "pt_inv rv_format d (kernel_page_table s) T t"
    and "sreg t = (sreg s)(SATP := MAKE_SATP_VAL (kernel_page_table s))" and "kernel_page_table t = kernel_page_table s"
    and "\<And>va. unat va < 2 ^ 39 \<Longrightarrow> pt_lookup rv_format T (mem t) (rv_path va) =
      map_option (rv_leaf (pg (unat va div 4096))) (kernel_mapping bi (unat va div 4096))"
    and "paging_same s t" and "avail_frames t \<subseteq> avail_frames s" and "tail_kept s t"
    and "card (avail_frames s) \<le> card (avail_frames t) + card (kernel_tables bi)"
    and "\<And>y. y \<notin> bitmap_region s \<Longrightarrow> y \<notin> region (kernel_page_table s) 4096 \<Longrightarrow> \<forall>f \<in> avail_frames s. y \<notin> region f 4096 \<Longrightarrow>
      mem t y = mem s y"
proof -
  define k where "k = kernel_page_table s"
  define K where "K = kernel_tables bi"
  define ram where "ram = machine_ram_base bi + machine_ram_total bi"
  let ?ro = "kernel_readonly_end bi" and ?st = "unat (kernel_image_start bi) div 4096"
  have ramu: "unat ram \<le> 2 ^ 39" "unat ?ro \<le> 2 ^ 39" "pages_up ?ro \<le> pages_up ram" "kernel_image_start bi \<le> ?ro"
    "unat (kernel_image_start bi) mod 4096 = 0"
    using bi by (simp_all add: vmm_boot_ok_def ram_def unat_word_ariths)
  have st: "kernel_image_start bi = pg ?st" using ramu(5) unfolding pg_def
    by (intro unat_eq_of_nat_u64) (metis add.right_neutral mult_div_mod_eq)
  have stle: "?st \<le> pages_up ?ro" using ramu(4) by (simp add: pages_up_def word_le_nat_alt div_le_mono)
  have rw: "ALIGN_UP ?ro PAGE_SIZE = pg (pages_up ?ro)" using ramu(2) by (rule ALIGN_UP_pg)
  have io: "(0x10000000 :: u64) = pg 0x10000" "pages_up 0x10002000 = 0x10002" by (simp_all add: pg_def pages_up_def)
  let ?s = "s\<lparr>mem := memset k 0 4096 (mem s)\<rparr>" and ?T = "[[] \<mapsto> k] :: pt_tree"
  have z: "\<forall>y \<in> region k 4096. memset k 0 4096 (mem s) y = 0" by (simp add: memset_eq)
  have rk: "pt_page rv_format k" using root(1) by (simp add: k_def)
  have bm: "memset k 0 4096 (mem s) y = mem s y" if "y \<in> bitmap_region s" for y
    using root(3) that by (auto simp: memset_eq k_def)
  have av: "avail_frames ?s = avail_frames s" and ok': "mm_ok d ?s"
    using avail_frames_mem_cong [OF bm] mm_ok_mem_cong [OF bm] ok by simp_all
  have inv0: "pt_inv rv_format d k ?T ?s"
    unfolding pt_inv_def using ok' rv.empty_tree(1) [OF rk z] root(2,3) low av by (simp add: k_def)
  have L0: "pt_lookup rv_format ?T (mem ?s) (rv_path va) = None" for va
    using rv.empty_tree(2) [OF rk z rv_path_ok] by simp
  have K: "finite K" "card (K - dom ?T) \<le> card (avail_frames ?s)"
    using finite_kernel_tables card_mono [of K "K - dom ?T"] room av by (simp_all add: K_def)
  have "kernel_mapping bi j \<noteq> None" if "?st \<le> j \<and> j < pages_up ?ro" for j using that by (simp add: kernel_mapping_def)
  then have k1: "\<forall>j. ?st \<le> j \<and> j < pages_up ?ro \<longrightarrow> rv_keys (pg j) \<subseteq> K"
    unfolding K_def using kernel_tables_keys [OF _ _ ramu(2)] by blast
  have "kernel_mapping bi j \<noteq> None" if "pages_up ?ro \<le> j \<and> j < pages_up ram" for j
    using that by (simp add: kernel_mapping_def ram_def)
  then have k2: "\<forall>j. pages_up ?ro \<le> j \<and> j < pages_up ram \<longrightarrow> rv_keys (pg j) \<subseteq> K"
    unfolding K_def using kernel_tables_keys [OF _ _ ramu(1)] by blast
  have "kernel_mapping bi j \<noteq> None" if "0x10000 \<le> j \<and> j < pages_up 0x10002000" for j
    using that by (auto simp: kernel_mapping_def io(2))
  moreover have iou: "unat (0x10002000 :: u64) \<le> 2 ^ 39" "0x10000 \<le> pages_up 0x10002000" by (simp_all add: io(2))
  ultimately have k3: "\<forall>j. 0x10000 \<le> j \<and> j < pages_up 0x10002000 \<longrightarrow> rv_keys (pg j) \<subseteq> K"
    unfolding K_def using kernel_tables_keys [OF _ _ iou(1)] by blast
  have kk: "k = kernel_page_table ?s" by (simp add: k_def)
  obtain T1 t1 where S1: "vmm_map_range (pg ?st) ?ro PAGE_KERNEL_EXEC ''unable to map ro kernel page at 0x%llx'' ?s = Some (Ret () t1)"
    "pt_inv rv_format d k T1 t1" "k = kernel_page_table t1" "card (K - dom T1) \<le> card (avail_frames t1)" "pt_confined K ?T ?s T1 t1"
    "\<And>va. unat va < 2 ^ 39 \<Longrightarrow> pt_lookup rv_format T1 (mem t1) (rv_path va) =
      (if ?st \<le> unat va div 4096 \<and> unat va div 4096 < pages_up ?ro then Some (rv_leaf (pg (unat va div 4096)) PAGE_KERNEL_EXEC)
       else pt_lookup rv_format ?T (mem ?s) (rv_path va))"
    by (rule map_range_room [OF inv0 kk ramu(2) stle K(1) k1 K(2)]) (rule that; assumption)
  obtain T2 t2 where S2: "vmm_map_range (pg (pages_up ?ro)) ram PAGE_KERNEL_DATA ''unable to map rw kernel page at 0x%llx'' t1 = Some (Ret () t2)"
    "pt_inv rv_format d k T2 t2" "k = kernel_page_table t2" "card (K - dom T2) \<le> card (avail_frames t2)" "pt_confined K T1 t1 T2 t2"
    "\<And>va. unat va < 2 ^ 39 \<Longrightarrow> pt_lookup rv_format T2 (mem t2) (rv_path va) =
      (if pages_up ?ro \<le> unat va div 4096 \<and> unat va div 4096 < pages_up ram then Some (rv_leaf (pg (unat va div 4096)) PAGE_KERNEL_DATA)
       else pt_lookup rv_format T1 (mem t1) (rv_path va))"
    by (rule map_range_room [OF S1(2,3) ramu(1,3) K(1) k2 S1(4)]) (rule that; assumption)
  obtain T3 t3 where S3: "vmm_map_range (pg 0x10000) 0x10002000 (PTE_R OR PTE_W) ''unable to map mmio page at 0x%llx'' t2 = Some (Ret () t3)"
    "pt_inv rv_format d k T3 t3" "k = kernel_page_table t3" "pt_confined K T2 t2 T3 t3"
    "\<And>va. unat va < 2 ^ 39 \<Longrightarrow> pt_lookup rv_format T3 (mem t3) (rv_path va) =
      (if 0x10000 \<le> unat va div 4096 \<and> unat va div 4096 < pages_up 0x10002000 then Some (rv_leaf (pg (unat va div 4096)) (PTE_R OR PTE_W))
       else pt_lookup rv_format T2 (mem t2) (rv_path va))"
    by (rule map_range_room [OF S2(2,3) iou K(1) k3 S2(4)]) (rule that; assumption)
  have C: "pt_confined K ?T ?s T3 t3" by (rule pt_confined_trans [OF pt_confined_trans [OF S1(5) S2(5)] S3(4)])
  let ?u = "klog_info ''vmm'' ''paging initialized, page table at 0x%llx'' [VNum k]
    (vmm_install_page_table k (klog_info ''vmm'' ''installing page table'' [] t3))"
  have "vmm_init bi s = Ret () ?u"
    using S1(1,3) S2(1,3) S3(1,3)
    by (simp add: vmm_init_def PAGE_SIZE_def [symmetric] Let_def k_def [symmetric] ram_def [symmetric] st [symmetric] rw [symmetric]
        io(1) [symmetric] or_spin_def vmm_install_page_table_def klog_info_eq)
  moreover have "pt_inv rv_format d k T3 ?u" using S3(2) by (simp add: klog_info_eq vmm_install_page_table_def)
  moreover have "paging_same s ?u"
  proof -
    have "?u\<lparr>mem := mem s, free_frames := free_frames s, last_free_index := last_free_index s, sreg := sreg s, uart_out := uart_out s\<rparr> =
        (t3\<lparr>mem := mem ?s, free_frames := free_frames ?s, last_free_index := last_free_index ?s\<rparr>)
          \<lparr>mem := mem s, sreg := sreg s, uart_out := uart_out s\<rparr>"
      by (simp add: vmm_install_page_table_def klog_info_eq)
    also have "\<dots> = s" unfolding pt_confinedD(1) [OF C, unfolded pmm_same_def] by simp
    finally show ?thesis by (simp only: paging_same_def)
  qed
  moreover have "sreg t3 = sreg s" using pmm_same_fields(3) [OF pt_confinedD(1) [OF C]] by simp
  moreover have "avail_frames ?u \<subseteq> avail_frames s"
    using pt_confinedD(2) [OF C] av by (simp add: klog_info_eq vmm_install_page_table_def)
  moreover have tail: "tail_kept s ?u"
  proof -
    have "region f 4096 \<inter> region k 4096 = {}" if "f \<in> avail_frames s" for f
      using that root(1,2) avail_frames_page [OF ok that] unfolding k_def by (intro pages_disjoint) (auto simp: pt_page_def)
    then have "memset k 0 4096 (mem s) y = mem s y" if "f \<in> avail_frames s" "y \<in> region f 4096" for f y
      using that by (auto simp: memset_eq)
    with bm have "tail_kept s ?s" by (rule tail_kept_mem)
    then have "tail_kept s t3" using pt_confinedD(5) [OF C] by (rule tail_kept_trans)
    moreover have "tail_kept t3 ?u"
      by (rule tail_kept_same) (simp_all add: free_set_def bitmap_test_def klog_info_eq vmm_install_page_table_def)
    ultimately show ?thesis by (rule tail_kept_trans)
  qed
  moreover have "card (avail_frames s) \<le> card (avail_frames ?u) + card K"
  proof -
    have "card (dom T3) \<le> card (insert [] K)" using pt_confinedD(6) [OF C] K(1) by (intro card_mono) auto
    also have "\<dots> \<le> Suc (card K)" by (rule card_insert_le_m1) simp_all
    finally show ?thesis using pt_confinedD(7) [OF C] av by (simp add: klog_info_eq vmm_install_page_table_def)
  qed
  moreover have "mem ?u y = mem s y"
    if "y \<notin> bitmap_region s" "y \<notin> region k 4096" "\<forall>f \<in> avail_frames s. y \<notin> region f 4096" for y
    using pt_confinedD(4) [OF C, of y] that av by (auto simp: klog_info_eq vmm_install_page_table_def memset_eq)
  moreover have "pt_lookup rv_format T3 (mem ?u) (rv_path va) =
      map_option (rv_leaf (pg (unat va div 4096))) (kernel_mapping bi (unat va div 4096))" if "unat va < 2 ^ 39" for va
    using S3(5) [OF that] S2(6) [OF that] S1(6) [OF that] L0 [of va]
    by (auto simp: kernel_mapping_def io(2) ram_def klog_info_eq vmm_install_page_table_def)
  ultimately show thesis using S3(3) unfolding K_def
    by (intro that [of ?u T3]) (simp_all add: k_def klog_info_eq vmm_install_page_table_def)
qed

text \<open>Translation through tables that hold the kernel's mapping.\<close>

lemma kernel_translate:
  assumes inv: "pt_inv rv_format d (kernel_page_table t) T t"
    and look: "unat va < 2 ^ 39 \<Longrightarrow> pt_lookup rv_format T (mem t) (rv_path va) =
      map_option (rv_leaf (pg (unat va div 4096))) (kernel_mapping bi (unat va div 4096))"
    and va: "unat va < 2 ^ 39"
  shows "vmmk_virt_to_phys va t = Ret (if kernel_mapping bi (unat va div 4096) = None then 0 else va) t"
proof (cases "kernel_mapping bi (unat va div 4096)")
  case None
  then show ?thesis using vmm_virt_to_phys_eq [OF inv] look [OF va] by (simp add: vmmk_virt_to_phys_def)
next
  case (Some fl)
  then have "fl AND NOT (mask 10) = 0" by (rule kernel_mapping_flags)
  moreover have "unat va div 4096 < 2 ^ 52" using va by (simp add: less_mult_imp_div_less)
  ultimately have "pte_to_pa (rv_leaf (pg (unat va div 4096)) fl) OR (va AND 0xFFF) = va" by (rule leaf_translate)
  then show ?thesis using Some vmm_virt_to_phys_eq [OF inv] look [OF va] by (simp add: vmmk_virt_to_phys_def)
qed

text \<open>All that a walk can do: find or make the entry, run out of frames, or panic.\<close>

lemma vmm_walk_total:
  assumes inv: "pt_inv rv_format d root T s"
  shows "(\<exists>a T' t. vmm_walk root va True s = Ret (pt_entry a (unat (vpn 12 va))) t \<and>
      T' [unat (vpn 30 va), unat (vpn 21 va)] = Some a \<and> pt_grown rv_format d root (rv_keys va) T s T' t) \<or>
    (\<exists>T' t. vmm_walk root va True s = Ret NULL t \<and> pt_grown rv_format d root (rv_keys va) T s T' t) \<or>
    (\<exists>t. vmm_walk root va True s = Halt t)"
proof -
  let ?p = "unat (vpn 30 va)" and ?q = "unat (vpn 21 va)"
  note D = pt_repD [OF pt_invD(2) [OF inv]]
  have b: "?p < 512" "?q < 512" by (rule unat_vpn)+
  have full: "vmm_next (pt_entry a i) True u = Ret None u \<or> (\<exists>t. vmm_next (pt_entry a i) True u = Halt t)"
    if "pt_inv rv_format d root T1 u" "T1 p = Some a" "length p < 2" "i < 512" "T1 (p @ [i]) = None" "avail_frames u = {}"
    for T1 u p a i
    using vmm_next_none(2) [OF that] panic_halts [of "''mm''" "''out of physical memory frames''" "[]" u] by auto
  show ?thesis
  proof (cases "T ([] @ [?p]) \<noteq> None \<or> avail_frames s \<noteq> {}")
    case False
    then have "vmm_next (pt_entry root ?p) True s = Ret None s \<or> (\<exists>t. vmm_next (pt_entry root ?p) True s = Halt t)"
      using full [OF inv D(1) _ b(1)] by simp
    then have "vmm_walk root va True s = Ret NULL s \<or> (\<exists>t. vmm_walk root va True s = Halt t)"
      by (auto simp: vmm_walk_def vpn_entry Let_def)
    then show ?thesis using pt_grown_refl [OF inv, of "rv_keys va"] by blast
  next
    case True
    obtain b1 T1 t1 where S1: "vmm_next (pt_entry root ?p) True s = Ret (Some b1) t1" "T1 ([] @ [?p]) = Some b1"
      "pt_grown rv_format d root {[] @ [?p]} T s T1 t1"
      by (rule vmm_next_alloc [OF inv D(1) _ b(1) True]) (simp, rule that)
    note G1 = pt_grownD [OF S1(3)]
    have l: "T1 [?p] = Some b1" using S1(2) by simp
    show ?thesis
    proof (cases "T1 ([?p] @ [?q]) \<noteq> None \<or> avail_frames t1 \<noteq> {}")
      case False
      then have "vmm_next (pt_entry b1 ?q) True t1 = Ret None t1 \<or> (\<exists>t. vmm_next (pt_entry b1 ?q) True t1 = Halt t)"
        using full [OF G1(1) l _ b(2)] by simp
      moreover have "pt_grown rv_format d root (rv_keys va) T s T1 t1"
        using pt_grown_trans [OF S1(3) pt_grown_refl [OF G1(1), of "rv_keys va"]] by (simp add: rv_keys_def insert_commute)
      moreover have "vmm_walk root va True s = Ret NULL t1 \<or> (\<exists>t. vmm_walk root va True s = Halt t)"
        using calculation(1) S1(1) by (auto simp: vmm_walk_def vpn_entry Let_def)
      ultimately show ?thesis by blast
    next
      case more: True
      obtain b2 T2 t2 where S2: "vmm_next (pt_entry b1 ?q) True t1 = Ret (Some b2) t2" "T2 ([?p] @ [?q]) = Some b2"
        "pt_grown rv_format d root {[?p] @ [?q]} T1 t1 T2 t2"
        by (rule vmm_next_alloc [OF G1(1) l _ b(2) more]) (simp, rule that)
      have "vmm_walk root va True s = Ret (pt_entry b2 (unat (vpn 12 va))) t2"
        using S1(1) S2(1) by (simp add: vmm_walk_def vpn_entry Let_def)
      moreover have "pt_grown rv_format d root (rv_keys va) T s T2 t2"
        using pt_grown_trans [OF S1(3) S2(3)] by (simp add: rv_keys_def insert_commute)
      ultimately show ?thesis using S2(2) by auto
    qed
  qed
qed

text \<open>A machine for demonstration: 64 free frames and an empty table.\<close>

definition rv_demo :: kstate where
  "rv_demo = pmm_demo\<lparr>total_frames := 64, free_frames := 64, kernel_page_table := 0x9000\<rparr>"

lemma rv_demo_facts:
  "mm_ok 0 rv_demo" "card (avail_frames rv_demo) = 64" "\<forall>f \<in> avail_frames rv_demo. unat f < 2 ^ 56"
  "0x9000 \<notin> avail_frames rv_demo" "bitmap_region rv_demo \<inter> region 0x9000 4096 = {}" "pt_page rv_format 0x9000"
  "kernel_page_table rv_demo = 0x9000" "pt_inv rv_format 0 0x9000 [[] \<mapsto> 0x9000] rv_demo"
proof -
  have fs: "free_set rv_demo = {..<64}"
    by (auto simp: free_set_def rv_demo_def pmm_demo_def bitmap_test_def reset_state_def)
  have f: "mem_phys_base rv_demo = 0x80000000" "total_frames rv_demo = 64" "frame_bitmap rv_demo = 0x1000"
    "free_frames rv_demo = 64" "last_free_index rv_demo = 5" "mem rv_demo = (\<lambda>_. 0)"
    by (simp_all add: rv_demo_def pmm_demo_def reset_state_def)
  then have inv: "pmm_inv 0 rv_demo" by (simp add: pmm_inv_def fs)
  have bm: "unat y < 0x2000" if y: "y \<in> bitmap_region rv_demo" for y
  proof -
    from y obtain i where "i < 64" "y = 0x1000 + of_nat i div 8" by (auto simp: bitmap_region_def f)
    then show ?thesis by (simp add: unat_word_ariths unat_div unat_of_nat_u64)
  qed
  have av: "0x80000000 \<le> unat fr \<and> unat fr + 4096 \<le> 0x80040000" if fr: "fr \<in> avail_frames rv_demo" for fr
  proof -
    from fr obtain i where i: "i < 64" "fr = frame_addr rv_demo i" by (auto simp: avail_frames_def fs)
    then have "unat fr = unat (mem_phys_base rv_demo) + i * 4096" using pmm_inv_pos(1) [OF inv, of i] by (simp add: f)
    then show ?thesis using i(1) by (simp add: f)
  qed
  have "bitmap_region rv_demo \<inter> region fr 4096 = {}" if fr: "fr \<in> avail_frames rv_demo" for fr
    using av [OF fr] bm by (fastforce simp: in_region_unat)
  then show ok: "mm_ok 0 rv_demo" using inv by (simp add: mm_ok_def f)
  show "card (avail_frames rv_demo) = 64"
    using card_image [OF frame_addr_inj [OF inv]] by (simp add: avail_frames_def fs f)
  show low: "\<forall>f \<in> avail_frames rv_demo. unat f < 2 ^ 56" using av by fastforce
  show na: "0x9000 \<notin> avail_frames rv_demo" using av by fastforce
  show bma: "bitmap_region rv_demo \<inter> region 0x9000 4096 = {}" using bm by (fastforce simp: in_region_unat)
  show pg: "pt_page rv_format 0x9000" by (simp add: pt_page_def page_def)
  show "kernel_page_table rv_demo = 0x9000" by (simp add: rv_demo_def)
  have "\<forall>y \<in> region 0x9000 4096. mem rv_demo y = 0" by (simp add: f)
  from rv.empty_tree(1) [OF pg this] show "pt_inv rv_format 0 0x9000 [[] \<mapsto> 0x9000] rv_demo"
    using ok low na bma by (simp add: pt_inv_def)
qed

lemma rv_demo_room: "card (rv_keys va - dom [[] \<mapsto> 0x9000]) \<le> card (avail_frames rv_demo)"
proof -
  have "card (rv_keys va - dom [[] \<mapsto> (0x9000 :: u64)]) \<le> card (rv_keys va)" by (intro card_mono) (simp_all add: rv_keys_def)
  also have "\<dots> \<le> 2" by (simp add: rv_keys_def)
  finally show ?thesis using rv_demo_facts(2) by simp
qed

section \<open>Properties\<close>

text \<open>
  C15: mapping a page. On well-formed tables, with a free frame for each table the address
  still needs, \<^verbatim>\<open>vmm_map_page\<close> of aligned addresses returns true; the tables are well formed, the
  entry of the address holds the frame and the flags, the entries of all other addresses are
  what they were, and no memory outside the tables, the free frames and the frame bitmap changes.
\<close>

theorem vmm_map_page_sound:
  assumes "pt_inv rv_format d root T s" and "card (rv_keys va - dom T) \<le> card (avail_frames s)"
    and "va mod PAGE_SIZE = 0" and "pa mod PAGE_SIZE = 0"
  shows "\<exists>T' t. vmm_map_page root va pa flags s = Ret True t \<and> pt_inv rv_format d root T' t \<and>
    (\<forall>ix. pt_path rv_format ix \<longrightarrow> pt_lookup rv_format T' (mem t) ix =
      (if ix = rv_path va then Some (rv_leaf pa flags) else pt_lookup rv_format T (mem s) ix)) \<and>
    (\<forall>y. y \<notin> bitmap_region s \<and> (\<forall>a \<in> ran T. y \<notin> region a 4096) \<and> (\<forall>f \<in> avail_frames s. y \<notin> region f 4096)
      \<longrightarrow> mem t y = mem s y)"
proof -
  obtain T' t where M: "vmm_map_page root va pa flags s = Ret True t"
    "pt_mapped rv_format d root (rv_keys va) ((pt_lookup rv_format T (mem s))(rv_path va \<mapsto> rv_leaf pa flags)) T s T' t"
    by (rule vmm_map_page_ok [OF assms])
  note D = pt_mappedD [OF M(2)]
  show ?thesis using M(1) D(1,8,9) by (intro exI [of _ T'] exI [of _ t]) simp
qed

theorem vmm_map_page_sound_witness:
  "\<exists>T t. vmm_map_page 0x9000 0x40000000 0x80010000 7 rv_demo = Ret True t \<and>
     pt_lookup rv_format T (mem t) (rv_path 0x40000000) = Some (rv_leaf 0x80010000 7)"
proof -
  have "(0x40000000 :: u64) mod PAGE_SIZE = 0" "(0x80010000 :: u64) mod PAGE_SIZE = 0" by (simp_all add: PAGE_SIZE_def)
  from vmm_map_page_sound [OF rv_demo_facts(8) rv_demo_room this, of 7] obtain T t where
    "vmm_map_page 0x9000 0x40000000 0x80010000 7 rv_demo = Ret True t"
    "\<forall>ix. pt_path rv_format ix \<longrightarrow> pt_lookup rv_format T (mem t) ix =
      (if ix = rv_path 0x40000000 then Some (rv_leaf 0x80010000 7)
       else pt_lookup rv_format [[] \<mapsto> 0x9000] (mem rv_demo) ix)" by blast
  then show ?thesis using rv_path_ok [of "0x40000000"] by (intro exI [of _ T] exI [of _ t]) simp
qed



text \<open>
  a failed mapping changes no translation. \<^verbatim>\<open>vmm_map_page\<close> never spins; when it returns
  false, for an unaligned address or for want of a frame, the tables are well formed and
  every address translates to what it did before.
\<close>

theorem vmm_map_page_fails_safe:
  assumes "pt_inv rv_format d root T s"
  shows "(\<exists>t. vmm_map_page root va pa flags s = Halt t) \<or> (\<exists>t. vmm_map_page root va pa flags s = Ret True t) \<or>
    (\<exists>T' t. vmm_map_page root va pa flags s = Ret False t \<and> pt_inv rv_format d root T' t \<and>
      (\<forall>v. \<exists>p. vmm_virt_to_phys root v s = Ret p s \<and> vmm_virt_to_phys root v t = Ret p t))"
proof (cases "va mod PAGE_SIZE = 0 \<and> pa mod PAGE_SIZE = 0")
  case False
  then have "vmm_map_page root va pa flags s = Ret False s" by (auto simp: vmm_map_page_def)
  then show ?thesis using assms vmm_virt_to_phys_eq [OF assms] by blast
next
  case True
  from vmm_walk_total [OF assms, of va] consider (found) a t where "vmm_walk root va True s = Ret a t" "a \<noteq> NULL"
    | (oom) T' t where "vmm_walk root va True s = Ret NULL t" "pt_grown rv_format d root (rv_keys va) T s T' t"
    | (halt) t where "vmm_walk root va True s = Halt t" by metis
  then show ?thesis
  proof cases
    case oom
    note G = pt_grownD [OF oom(2)]
    have "vmm_map_page root va pa flags s = Ret False t" using True oom(1) by (simp add: vmm_map_page_def)
    moreover have "\<exists>p. vmm_virt_to_phys root v s = Ret p s \<and> vmm_virt_to_phys root v t = Ret p t" for v
      using vmm_virt_to_phys_eq [OF assms] vmm_virt_to_phys_eq [OF G(1)] G(8) [OF rv_path_ok] by simp
    ultimately show ?thesis using G(1) by blast
  qed (use True in \<open>simp_all add: vmm_map_page_def\<close>)
qed

theorem vmm_map_page_fails_safe_witness:
  "vmm_map_page 0x9000 0x40000001 0x80010000 7 rv_demo = Ret False rv_demo \<and>
   (\<exists>p. vmm_virt_to_phys 0x9000 0x40000000 rv_demo = Ret p rv_demo)"
proof -
  have "vmm_map_page 0x9000 0x40000001 0x80010000 7 rv_demo = Ret False rv_demo" by (simp add: vmm_map_page_def PAGE_SIZE_def)
  with vmm_map_page_fails_safe [OF rv_demo_facts(8), of "0x40000001" "0x80010000" 7] show ?thesis by auto
qed

text \<open>
  C14: the kernel's address space. Started on a machine whose description does not wrap and lies
  below 512 GiB, with a page for the root table and a free frame for every other table,
  \<^verbatim>\<open>vmm_init\<close> returns with the root table installed in \<^verbatim>\<open>satp\<close>. Exactly the pages of the kernel
  image, of the RAM behind its read-only part and of the UART are mapped, each to itself, the
  first for execution, the others for writing.
\<close>

theorem vmm_init_identity:
  assumes "mm_ok d s" and "pt_page rv_format (kernel_page_table s)" and "kernel_page_table s \<notin> avail_frames s"
    and "bitmap_region s \<inter> region (kernel_page_table s) 4096 = {}" and "\<forall>f \<in> avail_frames s. unat f < 2 ^ 56"
    and "vmm_boot_ok bi" and "card (kernel_tables bi) \<le> card (avail_frames s)"
  shows "\<exists>T t. vmm_init bi s = Ret () t \<and> pt_inv rv_format d (kernel_page_table s) T t \<and>
    sreg t SATP = MAKE_SATP_VAL (kernel_page_table s) \<and>
    (\<forall>va. unat va < 2 ^ 39 \<longrightarrow>
      pt_lookup rv_format T (mem t) (rv_path va) =
        map_option (rv_leaf (pg (unat va div 4096))) (kernel_mapping bi (unat va div 4096)) \<and>
      vmmk_virt_to_phys va t = Ret (if kernel_mapping bi (unat va div 4096) = None then 0 else va) t)"
proof -
  obtain T t where I: "vmm_init bi s = Ret () t" "pt_inv rv_format d (kernel_page_table s) T t"
    "sreg t = (sreg s)(SATP := MAKE_SATP_VAL (kernel_page_table s))" "kernel_page_table t = kernel_page_table s"
    "\<And>va. unat va < 2 ^ 39 \<Longrightarrow> pt_lookup rv_format T (mem t) (rv_path va) =
      map_option (rv_leaf (pg (unat va div 4096))) (kernel_mapping bi (unat va div 4096))"
    by (rule vmm_init_ok [OF assms]) (rule that; assumption)
  have "pt_inv rv_format d (kernel_page_table t) T t" using I(2,4) by simp
  note tr = kernel_translate [OF this I(5)]
  show ?thesis using I tr by (intro exI [of _ T] exI [of _ t]) simp
qed

text \<open>A megabyte of RAM that starts with a kernel of two read-only pages.\<close>

definition rv_small_boot :: boot_info where
  "rv_small_boot = \<lparr>early_heap_start = 0, early_heap_end = 0, kernel_image_start = 0x80000000,
     kernel_image_end = 0x80001000, kernel_readonly_end = 0x80001800,
     machine_ram_base = 0x80000000, machine_ram_total = 0x100000\<rparr>"

lemma small_boot_tables: "kernel_tables rv_small_boot \<subseteq> {[2], [2, 0], [0], [0, 128]}"
proof -
  have "rv_keys (pg j) \<subseteq> {[2], [2, 0], [0], [0, 128]}" if j: "kernel_mapping rv_small_boot j \<noteq> None" for j
  proof -
    have r: "j \<in> {0x10000, 0x10001} \<or> 0x80000 \<le> j \<and> j < 0x80100"
      using j by (auto simp: kernel_mapping_def rv_small_boot_def pages_up_def split: if_splits)
    then have u: "unat (pg j) div 4096 = j" by (auto simp: unat_pg)
    have K: "rv_keys (pg j) = {[j div 262144 mod 512], [j div 262144 mod 512, j div 512 mod 512]}"
      using rv_path_eq [of "pg j"] u by (simp add: rv_keys_def rv_path_def)
    from r show ?thesis
    proof
      assume "j \<in> {0x10000, 0x10001}"
      then consider "j = 0x10000" | "j = 0x10001" by blast
      then show ?thesis unfolding K by cases simp_all
    next
      assume b: "0x80000 \<le> j \<and> j < 0x80100"
      have "j div 262144 = 2" using b by (intro div_nat_eqI) (linarith, simp)
      moreover have "j div 512 = 1024" using b by (intro div_nat_eqI) (linarith, simp)
      ultimately show ?thesis unfolding K by simp
    qed
  qed
  then show ?thesis unfolding kernel_tables_def by blast
qed

theorem vmm_init_identity_witness:
  "\<exists>t. vmm_init rv_small_boot rv_demo = Ret () t \<and> sreg t SATP = MAKE_SATP_VAL 0x9000 \<and>
     vmmk_virt_to_phys 0x80004567 t = Ret 0x80004567 t \<and> vmmk_virt_to_phys 0x70000000 t = Ret 0 t"
proof -
  have "card (kernel_tables rv_small_boot) \<le> card {[2 :: nat], [2, 0], [0], [0, 128]}"
    using small_boot_tables by (intro card_mono) simp_all
  then have room: "card (kernel_tables rv_small_boot) \<le> card (avail_frames rv_demo)" using rv_demo_facts(2) by simp
  have boot: "vmm_boot_ok rv_small_boot" by (simp add: vmm_boot_ok_def rv_small_boot_def pages_up_def)
  note I = vmm_init_identity [of 0 rv_demo rv_small_boot, unfolded rv_demo_facts(7),
      OF rv_demo_facts(1,6,4,5,3) boot room]
  obtain T t where T: "vmm_init rv_small_boot rv_demo = Ret () t" "sreg t SATP = MAKE_SATP_VAL 0x9000"
    "\<forall>va. unat va < 2 ^ 39 \<longrightarrow>
      pt_lookup rv_format T (mem t) (rv_path va) =
        map_option (rv_leaf (pg (unat va div 4096))) (kernel_mapping rv_small_boot (unat va div 4096)) \<and>
      vmmk_virt_to_phys va t = Ret (if kernel_mapping rv_small_boot (unat va div 4096) = None then 0 else va) t"
    using I by (elim exE conjE) (rule that)
  have "vmmk_virt_to_phys 0x80004567 t = Ret 0x80004567 t" "vmmk_virt_to_phys 0x70000000 t = Ret 0 t"
    using T(3) [rule_format, of "0x80004567"] T(3) [rule_format, of "0x70000000"]
    by (simp_all add: kernel_mapping_def rv_small_boot_def pages_up_def)
  with T show ?thesis by blast
qed



end
