(* ===== verification/A64Paging.thy ===== *)
theory A64Paging
  imports PageTree
begin

text \<open>
  \<^verbatim>\<open>arch/arm64/paging.c\<close>: the address spaces of ARM64, four levels of tables under a root
  structure \<^verbatim>\<open>pagetable_root_t\<close> (include/boot/cpu.hpp) from the kernel heap, and the pool of
  address-space identifiers. The barriers have no meaning in the model; the invalidation of a
  translation is an event.
\<close>

section \<open>Definitions\<close>

subsection \<open>Entries\<close>

definition PTE_VALID :: u64 where "PTE_VALID = 1"
definition PTE_TABLE :: u64 where "PTE_TABLE = 2"

definition PTE_ATTR_IDX :: "u64 \<Rightarrow> u64" where "PTE_ATTR_IDX i = push_bit 2 (i AND 7)"
definition PTE_AP_RW_ALL :: u64 where "PTE_AP_RW_ALL = push_bit 6 1"
definition PTE_AP_RO_ALL :: u64 where "PTE_AP_RO_ALL = push_bit 6 3"
definition PTE_SH_INNER :: u64 where "PTE_SH_INNER = push_bit 8 3"
definition PTE_AF :: u64 where "PTE_AF = push_bit 10 1"
definition PTE_NG :: u64 where "PTE_NG = push_bit 11 1"
definition PTE_PXN :: u64 where "PTE_PXN = push_bit 53 1"
definition PTE_UXN :: u64 where "PTE_UXN = push_bit 54 1"

definition PTE_ADDR_MASK :: u64 where "PTE_ADDR_MASK = 0x0000FFFFFFFFF000"
definition PTE_ADDR :: "u64 \<Rightarrow> u64" where "PTE_ADDR phys = phys AND PTE_ADDR_MASK"

definition MAIR_IDX_NORMAL :: u64 where "MAIR_IDX_NORMAL = 0"

definition PROT_WRITE :: u32 where "PROT_WRITE = 2"
definition PROT_EXEC :: u32 where "PROT_EXEC = 4"

text \<open>The fields of \<^verbatim>\<open>pagetable_root_t\<close>.\<close>

definition root_ttbr0 :: "u64 \<Rightarrow> u64" where "root_ttbr0 root = root"
definition root_asid :: "u64 \<Rightarrow> u64" where "root_asid root = root + 8"

definition load16 :: "kstate \<Rightarrow> u64 \<Rightarrow> u16" where "load16 s a = load (mem s) a 2"

definition store16 :: "u64 \<Rightarrow> u16 \<Rightarrow> kstate \<Rightarrow> kstate" where
  "store16 a v s = s\<lparr>mem := store (mem s) a 2 v\<rparr>"

subsection \<open>Address-space identifiers\<close>

text \<open>
  \<^verbatim>\<open>g_asid_used\<close> has 256 elements. \<^verbatim>\<open>asid_alloc\<close> gives identifiers below 256; the model leaves
  out that \<^verbatim>\<open>asid_free\<close> of another one writes behind the array.
\<close>

definition ASID_POOL_SIZE :: nat where "ASID_POOL_SIZE = 256"

definition asid_alloc :: "kstate \<Rightarrow> (int, kstate) outcome" where
  "asid_alloc s =
     andThen (spin_lock (g_asid_lock s) s) (\<lambda>_ s.
       case find (\<lambda>i. \<not> g_asid_used s ! i) [1..<ASID_POOL_SIZE] of
         Some i \<Rightarrow>
           let s = s\<lparr>g_asid_used := (g_asid_used s)[i := True]\<rparr>;
               s = spin_unlock (g_asid_lock s) s
           in Ret (int i) s
       | None \<Rightarrow> Ret (-1) (spin_unlock (g_asid_lock s) s))"

definition asid_free :: "u16 \<Rightarrow> kstate \<Rightarrow> (unit, kstate) outcome" where
  "asid_free asid s =
     andThen (spin_lock (g_asid_lock s) s) (\<lambda>_ s.
       let s = s\<lparr>g_asid_used := (g_asid_used s)[unat asid := False]\<rparr>
       in Ret () (spin_unlock (g_asid_lock s) s))"

subsection \<open>Tables\<close>

definition alloc_table_page :: "kstate \<Rightarrow> (u64, kstate) outcome" where
  "alloc_table_page s =
     andThen (pmm_alloc_frame s) (\<lambda>phys s.
       if phys = 0 then Ret 0 s else Ret phys (s\<lparr>mem := memset phys 0 PAGE_SIZE (mem s)\<rparr>))"

definition free_table_page :: "u64 \<Rightarrow> kstate \<Rightarrow> kstate" where
  "free_table_page phys s = pmm_free_frame phys s"

definition level_index :: "u64 \<Rightarrow> nat \<Rightarrow> u64" where
  "level_index va level = drop_bit (12 + 9 * (3 - level)) va AND 511"

definition tlb_invalidate_va_asid :: "u64 \<Rightarrow> u16 \<Rightarrow> kstate \<Rightarrow> kstate" where
  "tlb_invalidate_va_asid va asid s =
     s\<lparr>io_hist := Tlbi (push_bit 48 (ucast asid) OR (drop_bit 12 va AND 0xFFFFFFFFFFF)) # io_hist s\<rparr>"

definition arch_pagetable_create :: "kstate \<Rightarrow> (u64, kstate) outcome" where
  "arch_pagetable_create s =
     andThen (kmalloc 16 s) (\<lambda>root s.
       if root = NULL then Ret NULL s
       else
         andThen (alloc_table_page s) (\<lambda>l0_phys s.
           if l0_phys = 0 then andThen (kfree_sized root 16 s) (\<lambda>_ s. Ret NULL s)
           else
             andThen (asid_alloc s) (\<lambda>asid s.
               if asid < 0 then
                 let s = free_table_page l0_phys s
                 in andThen (kfree_sized root 16 s) (\<lambda>_ s. Ret NULL s)
               else
                 let s = store64 (root_ttbr0 root) l0_phys s;
                     s = store16 (root_asid root) (of_int asid) s
                 in Ret root s)))"

text \<open>
  In the two functions that descend, the first argument is the number of levels below the table:
  \<^verbatim>\<open>PT_LEVELS - 1 - level\<close>.
\<close>

primrec free_table_recursive :: "nat \<Rightarrow> u64 \<Rightarrow> kstate \<Rightarrow> kstate" where
  "free_table_recursive 0 table_phys s = free_table_page table_phys s"
| "free_table_recursive (Suc below) table_phys s =
     (let s = for_loop 0 512 (\<lambda>i s.
            let entry = load64 s (table_phys + 8 * i)
            in if entry AND PTE_VALID \<noteq> 0 \<and> entry AND PTE_TABLE \<noteq> 0
               then free_table_recursive below (entry AND PTE_ADDR_MASK) s else s) s
      in free_table_page table_phys s)"

definition arch_pagetable_destroy :: "u64 \<Rightarrow> kstate \<Rightarrow> (unit, kstate) outcome" where
  "arch_pagetable_destroy root s =
     (let s = free_table_recursive 3 (load64 s (root_ttbr0 root)) s
      in andThen (asid_free (load16 s (root_asid root)) s) (\<lambda>_ s. kfree_sized root 16 s))"

text \<open>The part of \<^verbatim>\<open>walk_create\<close> that makes a missing table; \<open>False\<close> when there is no frame.\<close>

definition make_child :: "u64 \<Rightarrow> kstate \<Rightarrow> (bool, kstate) outcome" where
  "make_child pte s =
     (if load64 s pte AND PTE_VALID = 0 then
        andThen (alloc_table_page s) (\<lambda>child_phys s.
          if child_phys = 0 then Ret False s
          else Ret True (store64 pte (PTE_ADDR child_phys OR PTE_TABLE OR PTE_VALID) s))
      else Ret True s)"

primrec walk_create :: "nat \<Rightarrow> u64 \<Rightarrow> u64 \<Rightarrow> kstate \<Rightarrow> (u64, kstate) outcome" where
  "walk_create 0 table_phys va s = Ret (table_phys + 8 * level_index va 3) s"
| "walk_create (Suc below) table_phys va s =
     (let pte = table_phys + 8 * level_index va (3 - Suc below)
      in andThen (make_child pte s) (\<lambda>ok s.
           if \<not> ok then Ret NULL s
           else walk_create below (load64 s pte AND PTE_ADDR_MASK) va s))"

definition arch_map_page :: "u64 \<Rightarrow> u64 \<Rightarrow> u64 \<Rightarrow> u32 \<Rightarrow> kstate \<Rightarrow> (int, kstate) outcome" where
  "arch_map_page root va phys prot s =
     andThen (walk_create 3 (load64 s (root_ttbr0 root)) va s) (\<lambda>pte s.
       if pte = NULL then Ret (-1) s
       else
         let attrs = PTE_ATTR_IDX MAIR_IDX_NORMAL OR PTE_SH_INNER OR PTE_AF OR PTE_NG;
             attrs = attrs OR (if prot AND PROT_WRITE \<noteq> 0 then PTE_AP_RW_ALL else PTE_AP_RO_ALL);
             attrs = (if prot AND PROT_EXEC = 0 then attrs OR (PTE_UXN OR PTE_PXN) else attrs OR PTE_PXN);
             s = store64 pte (PTE_ADDR phys OR PTE_TABLE OR PTE_VALID OR attrs) s;
             s = tlb_invalidate_va_asid va (load16 s (root_asid root)) s
         in Ret 0 s)"

definition arch_unmap_page :: "u64 \<Rightarrow> u64 \<Rightarrow> kstate \<Rightarrow> (int, kstate) outcome" where
  "arch_unmap_page root va s =
     andThen (walk_create 3 (load64 s (root_ttbr0 root)) va s) (\<lambda>pte s.
       if pte = NULL \<or> load64 s pte AND PTE_VALID = 0 then Ret (-1) s
       else
         let s = store64 pte 0 s;
             s = tlb_invalidate_va_asid va (load16 s (root_asid root)) s
         in Ret 0 s)"

subsection \<open>The format\<close>

text \<open>
  Four levels, three of links. A valid inner entry without the table bit is a block, not a
  link: it leads to no table.
\<close>

definition a64_format :: pt_format where
  "a64_format = \<lparr>pt_valid = (\<lambda>e. e AND PTE_VALID \<noteq> 0),
     pt_target = (\<lambda>e. if e AND PTE_TABLE = 0 then 0 else e AND PTE_ADDR_MASK), pt_depth = 3, pt_limit = 2 ^ 48\<rparr>"

definition a64_path :: "u64 \<Rightarrow> nat list" where
  "a64_path va = map (\<lambda>l. unat (level_index va l)) [0, 1, 2, 3]"

text \<open>The paths of the tables that an address needs below a table with \<open>n\<close> levels of tables under it.\<close>

definition a64_keys :: "nat \<Rightarrow> u64 \<Rightarrow> nat list set" where
  "a64_keys n va = (\<lambda>k. take k (a64_path va)) ` {3 - n<..3}"

section \<open>Lemmas\<close>


subsection \<open>Entries\<close>

lemma a64_fields [simp]:
  "pt_valid a64_format e \<longleftrightarrow> e AND PTE_VALID \<noteq> 0"
  "pt_target a64_format e = (if e AND PTE_TABLE = 0 then 0 else e AND PTE_ADDR_MASK)"
  "pt_depth a64_format = 3" "pt_limit a64_format = 2 ^ 48"
  by (simp_all add: a64_format_def)

lemma addr_mask: "PTE_ADDR_MASK = push_bit 12 (mask 36)"
  by (simp add: PTE_ADDR_MASK_def mask_eq_decr_exp push_bit_eq_mult)

lemma bit_addr_mask: "bit PTE_ADDR_MASK n \<longleftrightarrow> 12 \<le> n \<and> n < 48"
  by (auto simp: addr_mask bit_simps)

text \<open>A page below \<open>2 ^ 48\<close> fits the address field of an entry.\<close>

lemma addr_fits:
  assumes "unat a mod 4096 = 0" and "unat a < 2 ^ 48"
  shows "a AND PTE_ADDR_MASK = a"
proof (rule bit_word_eqI)
  fix n assume n: "n < LENGTH(64)"
  have b: "bit a n \<longleftrightarrow> bit (unat a) n" by (simp add: bit_unsigned_iff)
  have "\<not> bit (unat a) n" if "n < 12"
  proof -
    have "take_bit 12 (unat a) = 0" using assms(1) by (simp add: take_bit_eq_mod)
    then have "\<not> bit (take_bit 12 (unat a)) n" by simp
    then show ?thesis using that by (simp add: bit_take_bit_iff)
  qed
  moreover have "\<not> bit (unat a) n" if "48 \<le> n"
  proof -
    have "take_bit 48 (unat a) = unat a" using assms(2) by (rule take_bit_nat_eq_self)
    then have "bit (unat a) n = bit (take_bit 48 (unat a)) n" by simp
    then show ?thesis using that by (simp add: bit_take_bit_iff)
  qed
  ultimately have "12 \<le> n \<and> n < 48" if "bit (unat a) n" using that linorder_not_less by blast
  then show "bit (a AND PTE_ADDR_MASK) n = bit a n" using b by (auto simp: bit_and_iff bit_addr_mask)
qed

lemma link_bits:
  "(PTE_ADDR a OR PTE_TABLE OR PTE_VALID) AND PTE_VALID \<noteq> 0"
  "(PTE_ADDR a OR PTE_TABLE OR PTE_VALID) AND PTE_TABLE \<noteq> 0"
  "(PTE_ADDR a OR PTE_TABLE OR PTE_VALID) AND PTE_ADDR_MASK = PTE_ADDR a"
proof -
  have v: "bit PTE_VALID n \<longleftrightarrow> n = 0" "bit PTE_TABLE n \<longleftrightarrow> n = 1" for n
    using bit_push_bit_iff [of 1 "1 :: u64" n] by (auto simp: PTE_VALID_def PTE_TABLE_def push_bit_eq_mult bit_simps)
  have "bit ((PTE_ADDR a OR PTE_TABLE OR PTE_VALID) AND PTE_VALID) 0" by (simp add: bit_or_iff bit_and_iff v)
  then show "(PTE_ADDR a OR PTE_TABLE OR PTE_VALID) AND PTE_VALID \<noteq> 0" by auto
  have "bit ((PTE_ADDR a OR PTE_TABLE OR PTE_VALID) AND PTE_TABLE) 1" by (simp add: bit_or_iff bit_and_iff v)
  then show "(PTE_ADDR a OR PTE_TABLE OR PTE_VALID) AND PTE_TABLE \<noteq> 0" by auto
  show "(PTE_ADDR a OR PTE_TABLE OR PTE_VALID) AND PTE_ADDR_MASK = PTE_ADDR a"
    by (rule bit_word_eqI) (auto simp: bit_or_iff bit_and_iff v bit_addr_mask PTE_ADDR_def)
qed

interpretation a64: page_format a64_format "\<lambda>pa. PTE_ADDR pa OR PTE_TABLE OR PTE_VALID"
proof
  show "\<not> pt_valid a64_format 0" by simp
  fix a assume "pt_page a64_format a"
  then have "PTE_ADDR a = a" using addr_fits [of a] by (simp add: PTE_ADDR_def pt_page_def page_def)
  then show "pt_valid a64_format (PTE_ADDR a OR PTE_TABLE OR PTE_VALID)"
    and "pt_target a64_format (PTE_ADDR a OR PTE_TABLE OR PTE_VALID) = a"
    using link_bits [of a] by simp_all
qed

lemma unat_level: "unat (level_index va l) < 512"
proof -
  have "level_index va l \<le> 511" unfolding level_index_def by (rule word_and_le1)
  then show ?thesis by (simp add: word_le_nat_alt)
qed

lemma level_entry: "a + 8 * level_index va l = pt_entry a (unat (level_index va l))"
  by (simp add: pt_entry_def)

lemma length_a64_path [simp]: "length (a64_path va) = 4"
  by (simp add: a64_path_def)

lemma a64_path_nth: "l < 4 \<Longrightarrow> a64_path va ! l = unat (level_index va l)"
  by (auto simp: a64_path_def less_Suc_eq numeral_eq_Suc)

lemma a64_path_ok: "pt_path a64_format (a64_path va)"
  using unat_level by (simp add: pt_path_def a64_path_def)

lemma a64_path_last: "take 3 (a64_path va) @ [unat (level_index va 3)] = a64_path va"
  by (simp add: a64_path_def)

lemma take_a64_path: "k < 4 \<Longrightarrow> take k (a64_path va) @ [unat (level_index va k)] = take (Suc k) (a64_path va)"
  using take_Suc_conv_app_nth [of k "a64_path va"] by (simp add: a64_path_nth)

lemma a64_keys_Suc: "n < 3 \<Longrightarrow> a64_keys (Suc n) va = insert (take (3 - n) (a64_path va)) (a64_keys n va)"
proof -
  assume "n < 3"
  then have "{3 - Suc n<..3} = insert (3 - n) {3 - n<..3}" by auto
  then show ?thesis by (simp add: a64_keys_def)
qed

lemma a64_keys_0 [simp]: "a64_keys 0 va = {}"
  by (simp add: a64_keys_def)

lemma finite_a64_keys [simp]: "finite (a64_keys n va)"
  by (simp add: a64_keys_def)

lemma a64_keys_not: "take (3 - n) (a64_path va) \<notin> a64_keys n va"
proof
  assume "take (3 - n) (a64_path va) \<in> a64_keys n va"
  then obtain k where "3 - n < k" "k \<le> 3" "take (3 - n) (a64_path va) = take k (a64_path va)" by (auto simp: a64_keys_def)
  then have "length (take (3 - n) (a64_path va)) = length (take k (a64_path va))" by simp
  then show False using \<open>3 - n < k\<close> \<open>k \<le> 3\<close> by simp
qed

subsection \<open>Walking\<close>

lemma a64_link:
  assumes "pt_inv a64_format d root T s" and "T p = Some a" and "length p < 3" and "i < 512"
  shows "T (p @ [i]) = Some b \<Longrightarrow> load64 s (pt_entry a i) AND PTE_VALID \<noteq> 0 \<and>
      load64 s (pt_entry a i) AND PTE_TABLE \<noteq> 0 \<and> load64 s (pt_entry a i) AND PTE_ADDR_MASK = b"
    and "T (p @ [i]) = None \<Longrightarrow> load64 s (pt_entry a i) AND PTE_VALID = 0"
proof -
  note D = pt_repD [OF pt_invD(2) [OF assms(1)]]
  have l: "pt_link a64_format T (mem s) p a i" using D(8) [OF assms(2) _ assms(4)] assms(3) by simp
  then show "T (p @ [i]) = None \<Longrightarrow> load64 s (pt_entry a i) AND PTE_VALID = 0" by (simp add: pt_link_def)
  assume b: "T (p @ [i]) = Some b"
  then have "b \<noteq> 0" using D(6) [OF b] by (simp add: page_def)
  then show "load64 s (pt_entry a i) AND PTE_VALID \<noteq> 0 \<and>
      load64 s (pt_entry a i) AND PTE_TABLE \<noteq> 0 \<and> load64 s (pt_entry a i) AND PTE_ADDR_MASK = b"
    using l b by (simp add: pt_link_def split: if_splits)
qed

lemma alloc_table_page_eq:
  "pmm_alloc_frame s = Ret f t \<Longrightarrow> f \<noteq> 0 \<Longrightarrow> alloc_table_page s = Ret f (t\<lparr>mem := memset f 0 4096 (mem t)\<rparr>)"
  by (simp add: alloc_table_page_def PAGE_SIZE_def)

lemma make_child_cases:
  assumes inv: "pt_inv a64_format d root T s" and p: "T p = Some a" "length p < 3" "i < 512"
  obtains (found) b where "make_child (pt_entry a i) s = Ret True s" and "T (p @ [i]) = Some b"
  | (made) f t where "make_child (pt_entry a i) s = Ret True t" and "T (p @ [i]) = None" and "f \<in> avail_frames s"
      and "pt_grown a64_format d root {p @ [i]} T s (T(p @ [i] \<mapsto> f)) t"
  | (full) "make_child (pt_entry a i) s = Ret False s \<or> (\<exists>t. make_child (pt_entry a i) s = Halt t)"
      and "T (p @ [i]) = None" and "avail_frames s = {}"
proof (cases "T (p @ [i])")
  case (Some b)
  from a64_link(1) [OF inv p Some] have "make_child (pt_entry a i) s = Ret True s" by (simp add: make_child_def)
  then show ?thesis using Some by (rule found)
next
  case None
  note e = a64_link(2) [OF inv p None]
  show ?thesis
  proof (cases "avail_frames s = {}")
    case True
    have "pmm_inv d s" using pt_invD(1) [OF inv] by (simp add: mm_ok_def)
    then have "last_free_index s \<le> total_frames s" "free_set s = {}"
      using True by (simp_all add: pmm_inv_def avail_frames_def)
    from pmm_alloc_frame_full [OF this] have "alloc_table_page s = Ret 0 s \<or> (\<exists>t. alloc_table_page s = Halt t)"
      using panic_halts [of "''mm''" "''out of physical memory frames''" "[]" s] by (auto simp: alloc_table_page_def)
    then have "make_child (pt_entry a i) s = Ret False s \<or> (\<exists>t. make_child (pt_entry a i) s = Halt t)"
      using e by (auto simp: make_child_def)
    then show ?thesis using None True by (rule full)
  next
    case False
    have d: "length p < pt_depth a64_format" using p(2) by simp
    obtain f t where f: "pmm_alloc_frame s = Ret f t" "f \<noteq> 0"
      "pt_grown a64_format d root {p @ [i]} T s (T(p @ [i] \<mapsto> f))
        (t\<lparr>mem := write64 (memset f 0 4096 (mem t)) (pt_entry a i) (PTE_ADDR f OR PTE_TABLE OR PTE_VALID)\<rparr>)"
      by (rule a64.alloc_child [OF inv p(1) d p(3) None False])
    have "make_child (pt_entry a i) s = Ret True
        (t\<lparr>mem := write64 (memset f 0 4096 (mem t)) (pt_entry a i) (PTE_ADDR f OR PTE_TABLE OR PTE_VALID)\<rparr>)"
      using e f(2) alloc_table_page_eq [OF f(1,2)] by (simp add: make_child_def store64_def)
    moreover have "f \<in> avail_frames s"
    proof -
      note G = pt_grownD [OF f(3)]
      have "f \<in> ran (T(p @ [i] \<mapsto> f))" by (rule ranI [of _ "p @ [i]"]) simp
      then have "f \<in> ran T \<union> avail_frames s" using G(6) by blast
      moreover have "f \<notin> ran T"
      proof
        assume "f \<in> ran T"
        then obtain q where q: "T q = Some f" by (auto simp: ran_def)
        then have "(T(p @ [i] \<mapsto> f)) q = Some f" by (rule G(4))
        then have "q = p @ [i]" by (rule pt_same_table [OF pt_invD(2) [OF G(1)]]) simp
        then show False using q None by simp
      qed
      ultimately show ?thesis by blast
    qed
    ultimately show ?thesis using None f(3) by (intro made)
  qed
qed

text \<open>What a descent does: it finds or makes the tables, or lacks a frame.\<close>

lemma walk_create_cases:
  assumes "pt_inv a64_format d root T s" and "n \<le> 3" and "T (take (3 - n) (a64_path va)) = Some tbl"
  shows "(\<exists>a T' t. walk_create n tbl va s = Ret (pt_entry a (unat (level_index va 3))) t \<and>
      T' (take 3 (a64_path va)) = Some a \<and> pt_grown a64_format d root (a64_keys n va) T s T' t) \<or>
    ((\<exists>T' t. walk_create n tbl va s = Ret NULL t \<and> pt_grown a64_format d root (a64_keys n va) T s T' t) \<or>
      (\<exists>t. walk_create n tbl va s = Halt t)) \<and> card (avail_frames s) < card (a64_keys n va - dom T)"
  using assms
proof (induction n arbitrary: tbl T s)
  case 0
  then have "pt_grown a64_format d root (a64_keys 0 va) T s T s" by (intro pt_grown_refl)
  moreover have "walk_create 0 tbl va s = Ret (pt_entry tbl (unat (level_index va 3))) s" by (simp add: level_entry)
  ultimately show ?case using "0.prems"(3) by auto
next
  case (Suc n)
  let ?p = "take (3 - Suc n) (a64_path va)" and ?i = "unat (level_index va (3 - Suc n))"
  have sk: "Suc (3 - Suc n) = 3 - n" "3 - Suc n < 4" using Suc.prems(2) by simp_all
  have p: "length ?p < 3" "?p @ [?i] = take (3 - n) (a64_path va)"
    using take_a64_path [OF sk(2), of va] unfolding sk(1) by simp_all
  have i: "?i < 512" by (rule unat_level)
  note K = a64_keys_Suc [of n va]
  have n: "n \<le> 3" "n < 3" using Suc.prems(2) by simp_all
  have run: "walk_create (Suc n) tbl va s = andThen (make_child (pt_entry tbl ?i) s) (\<lambda>ok s.
      if \<not> ok then Ret NULL s else walk_create n (load64 s (pt_entry tbl ?i) AND PTE_ADDR_MASK) va s)"
    by (simp only: walk_create.simps level_entry Let_def)
  from Suc.prems(1,3) p(1) i show ?case
  proof (cases rule: make_child_cases)
    case (found b)
    then have e: "load64 s (pt_entry tbl ?i) AND PTE_ADDR_MASK = b" using a64_link(1) [OF Suc.prems(1,3) p(1) i] by simp
    have b: "T (take (3 - n) (a64_path va)) = Some b" using found(2) p(2) by simp
    then have "a64_keys (Suc n) va - dom T = a64_keys n va - dom T" using K n by auto
    moreover have "walk_create (Suc n) tbl va s = walk_create n b va s" using run found(1) e by simp
    moreover have "pt_grown a64_format d root (a64_keys (Suc n) va) T s T' t"
      if "pt_grown a64_format d root (a64_keys n va) T s T' t" for T' t
      using that K n by (auto simp: pt_grown_def)
    ultimately show ?thesis using Suc.IH [OF Suc.prems(1) n(1) b] by metis
  next
    case (made f t)
    note G = pt_grownD [OF made(4)]
    let ?T = "T(?p @ [?i] \<mapsto> f)"
    have b: "?T (take (3 - n) (a64_path va)) = Some f" using p(2) by simp
    have "load64 t (pt_entry tbl ?i) AND PTE_ADDR_MASK = f"
      using a64_link(1) [OF G(1) G(4) [OF Suc.prems(3)] p(1) i, of f] by simp
    then have r: "walk_create (Suc n) tbl va s = walk_create n f va t" using run made(1) by simp
    have c: "card (avail_frames s) < card (a64_keys (Suc n) va - dom T)" if "card (avail_frames t) < card (a64_keys n va - dom ?T)"
    proof -
      have nk: "take (3 - n) (a64_path va) \<notin> dom T" using made(2) p(2) by (simp add: domIff)
      then have "card (dom ?T) = Suc (card (dom T))"
        using pt_finite [OF pt_invD(2) [OF Suc.prems(1)]] p(2) by simp
      then have "card (avail_frames s) = Suc (card (avail_frames t))" using G(7) by simp
      moreover have "a64_keys (Suc n) va - dom T = insert (take (3 - n) (a64_path va)) (a64_keys n va - dom ?T)"
        using K n nk a64_keys_not [of n va] p(2) by auto
      then have "card (a64_keys (Suc n) va - dom T) = Suc (card (a64_keys n va - dom ?T))"
        using a64_keys_not [of n va] by (simp add: card_insert_disjoint)
      ultimately show ?thesis using that by simp
    qed
    have g: "pt_grown a64_format d root (a64_keys (Suc n) va) T s T' t'"
      if "pt_grown a64_format d root (a64_keys n va) ?T t T' t'" for T' t'
      using pt_grown_trans [OF made(4) that] K n p(2) by simp
    show ?thesis using Suc.IH [OF G(1) n(1) b] unfolding r using g c by blast
  next
    case full
    have "?p @ [?i] \<in> a64_keys (Suc n) va - dom T" using K n p(2) full(2) by (auto simp: domIff)
    then have "0 < card (a64_keys (Suc n) va - dom T)" by (auto simp: card_gt_0_iff)
    moreover have "pt_grown a64_format d root (a64_keys (Suc n) va) T s T s" using Suc.prems(1) by (rule pt_grown_refl)
    moreover have "walk_create (Suc n) tbl va s = Ret NULL s \<or> (\<exists>t. walk_create (Suc n) tbl va s = Halt t)"
      using full(1) run by auto
    moreover have "card (avail_frames s) = 0" using full(3) by simp
    ultimately show ?thesis by metis
  qed
qed

subsection \<open>Mapping and unmapping\<close>

text \<open>
  An address space: well-formed tables under the root structure at \<open>r\<close>, which lies apart from
  the tables, the free frames and the frame bitmap.
\<close>

definition a64_space :: "nat \<Rightarrow> u64 \<Rightarrow> pt_tree \<Rightarrow> kstate \<Rightarrow> bool" where
  "a64_space d r T s \<longleftrightarrow>
     pt_inv a64_format d (load64 s (root_ttbr0 r)) T s \<and> bitmap_region s \<inter> region r 16 = {} \<and>
     (\<forall>a \<in> ran T \<union> avail_frames s. region r 16 \<inter> region a 4096 = {})"

lemma a64_spaceD:
  assumes "a64_space d r T s"
  shows "pt_inv a64_format d (load64 s (root_ttbr0 r)) T s" and "T [] = Some (load64 s (root_ttbr0 r))"
  using assms pt_repD(1) [OF pt_invD(2)] by (auto simp: a64_space_def)

lemma root_regions: "region (root_ttbr0 r) 8 \<subseteq> region r 16" "region (root_asid r) 2 \<subseteq> region r 16"
  using region_off_subset [of 0 8 16 r] region_off_subset [of 8 2 16 r] by (simp_all add: root_ttbr0_def root_asid_def)

lemma a64_space_step:
  assumes "a64_space d r T s" and m: "pt_mapped a64_format d (load64 s (root_ttbr0 r)) K L T s T' t"
  shows "a64_space d r T' t" and "load64 t (root_ttbr0 r) = load64 s (root_ttbr0 r)"
    and "load16 t (root_asid r) = load16 s (root_asid r)" and "y \<in> region r 16 \<Longrightarrow> mem t y = mem s y"
proof -
  note D = pt_mappedD [OF m]
  have keep: "mem t y = mem s y" if "y \<in> region r 16" for y
    using assms(1) that by (intro D(9)) (auto simp: a64_space_def)
  then show "y \<in> region r 16 \<Longrightarrow> mem t y = mem s y" .
  show b: "load64 t (root_ttbr0 r) = load64 s (root_ttbr0 r)" using keep root_regions(1) by (intro read64_cong) blast
  show "load16 t (root_asid r) = load16 s (root_asid r)"
    unfolding load16_def using keep root_regions(2) by (intro load_cong) auto
  have "bitmap_region t = bitmap_region s" using pmm_same_fields(8) [OF D(2)] .
  then show "a64_space d r T' t" using assms(1) D(1,3,6) unfolding a64_space_def b by auto
qed

lemma pt_grown_mapped:
  assumes "pt_grown F d root K T s T' t"
  shows "pt_mapped F d root K (pt_lookup F T (mem s)) T s T' t"
  unfolding pt_mapped_def using pt_grownD [OF assms] by blast

definition a64_attrs :: "u32 \<Rightarrow> u64" where
  "a64_attrs prot =
     (let attrs = PTE_ATTR_IDX MAIR_IDX_NORMAL OR PTE_SH_INNER OR PTE_AF OR PTE_NG;
          attrs = attrs OR (if prot AND PROT_WRITE \<noteq> 0 then PTE_AP_RW_ALL else PTE_AP_RO_ALL)
      in if prot AND PROT_EXEC = 0 then attrs OR (PTE_UXN OR PTE_PXN) else attrs OR PTE_PXN)"

definition a64_leaf :: "u64 \<Rightarrow> u32 \<Rightarrow> u64" where
  "a64_leaf phys prot = PTE_ADDR phys OR PTE_TABLE OR PTE_VALID OR a64_attrs prot"

text \<open>The bits of an entry, by position.\<close>

lemma bit_one_at: "k < 64 \<Longrightarrow> bit (push_bit k (1 :: u64)) n \<longleftrightarrow> n = k"
  by (auto simp: bit_exp_iff)

lemma bit_flags:
  "bit PTE_VALID n \<longleftrightarrow> n = 0" "bit PTE_TABLE n \<longleftrightarrow> n = 1"
  "bit PTE_AP_RW_ALL n \<longleftrightarrow> n = 6" "bit PTE_AP_RO_ALL n \<longleftrightarrow> n = 6 \<or> n = 7" "bit PTE_SH_INNER n \<longleftrightarrow> n = 8 \<or> n = 9"
  "bit PTE_AF n \<longleftrightarrow> n = 10" "bit PTE_NG n \<longleftrightarrow> n = 11" "bit PTE_PXN n \<longleftrightarrow> n = 53" "bit PTE_UXN n \<longleftrightarrow> n = 54"
  "\<not> bit (PTE_ATTR_IDX MAIR_IDX_NORMAL) n"
proof -
  have three: "(3 :: u64) = mask 2" by (simp add: mask_eq_decr_exp)
  have two: "(2 :: u64) = push_bit 1 1" by simp
  show "bit PTE_VALID n \<longleftrightarrow> n = 0" by (simp add: PTE_VALID_def bit_1_iff)
  show "bit PTE_TABLE n \<longleftrightarrow> n = 1" unfolding PTE_TABLE_def two by (auto simp: bit_simps)
  show "bit PTE_AP_RW_ALL n \<longleftrightarrow> n = 6" "bit PTE_AF n \<longleftrightarrow> n = 10" "bit PTE_NG n \<longleftrightarrow> n = 11" "bit PTE_PXN n \<longleftrightarrow> n = 53"
    "bit PTE_UXN n \<longleftrightarrow> n = 54"
    unfolding PTE_AP_RW_ALL_def PTE_AF_def PTE_NG_def PTE_PXN_def PTE_UXN_def by (rule bit_one_at, simp)+
  show "bit PTE_AP_RO_ALL n \<longleftrightarrow> n = 6 \<or> n = 7" "bit PTE_SH_INNER n \<longleftrightarrow> n = 8 \<or> n = 9"
    unfolding PTE_AP_RO_ALL_def PTE_SH_INNER_def three by (auto simp: bit_push_bit_iff bit_mask_iff)
  show "\<not> bit (PTE_ATTR_IDX MAIR_IDX_NORMAL) n" by (simp add: PTE_ATTR_IDX_def MAIR_IDX_NORMAL_def)
qed

lemma a64_leaf_bits:
  "bit (a64_leaf phys prot) 0" "bit (a64_leaf phys prot) 1" "bit (a64_leaf phys prot) 6"
  "bit (a64_leaf phys prot) 7 \<longleftrightarrow> prot AND PROT_WRITE = 0" "bit (a64_leaf phys prot) 10"
  "bit (a64_leaf phys prot) 53" "bit (a64_leaf phys prot) 54 \<longleftrightarrow> prot AND PROT_EXEC = 0"
  by (simp_all add: a64_leaf_def a64_attrs_def Let_def bit_or_iff bit_and_iff bit_flags bit_addr_mask PTE_ADDR_def)

lemma a64_leaf_addr: "a64_leaf phys prot AND PTE_ADDR_MASK = PTE_ADDR phys"
  by (rule bit_word_eqI)
    (auto simp: a64_leaf_def a64_attrs_def Let_def bit_or_iff bit_and_iff bit_flags bit_addr_mask PTE_ADDR_def)

lemma a64_leaf_valid: "a64_leaf phys prot AND PTE_VALID \<noteq> 0"
proof -
  have "bit (a64_leaf phys prot AND PTE_VALID) 0" using a64_leaf_bits(1) by (simp add: bit_and_iff bit_flags)
  then show ?thesis by auto
qed

lemma a64_space_hist [simp]: "a64_space d r T (s\<lparr>io_hist := h\<rparr>) = a64_space d r T s"
  by (simp add: a64_space_def bitmap_region_def)

lemma a64_walk:
  assumes sp: "a64_space d r T s"
  shows "(\<exists>a T' t. walk_create 3 (load64 s (root_ttbr0 r)) va s = Ret (pt_entry a (unat (level_index va 3))) t \<and>
      pt_entry a (unat (level_index va 3)) \<noteq> NULL \<and>
      T' (take 3 (a64_path va)) = Some a \<and> pt_grown a64_format d (load64 s (root_ttbr0 r)) (a64_keys 3 va) T s T' t) \<or>
    ((\<exists>T' t. walk_create 3 (load64 s (root_ttbr0 r)) va s = Ret NULL t \<and>
        pt_grown a64_format d (load64 s (root_ttbr0 r)) (a64_keys 3 va) T s T' t) \<or>
      (\<exists>t. walk_create 3 (load64 s (root_ttbr0 r)) va s = Halt t)) \<and> card (avail_frames s) < card (a64_keys 3 va - dom T)"
proof -
  have nz: "pt_entry a (unat (level_index va 3)) \<noteq> NULL"
    if "T' p = Some a" "pt_grown a64_format d root K T s T' t" for a T' t p root K
    using pt_repD(6) [OF pt_invD(2) [OF pt_grownD(1) [OF that(2)]] that(1)] unat_level by (rule pt_entry_not_null)
  have r: "T (take (3 - 3) (a64_path va)) = Some (load64 s (root_ttbr0 r))" using a64_spaceD(2) [OF sp] by simp
  show ?thesis using walk_create_cases [OF a64_spaceD(1) [OF sp] order_refl r] nz by metis
qed

text \<open>The state after the entry of an address was set and its translation invalidated.\<close>

lemma a64_set_entry:
  assumes sp: "a64_space d r T s" and g: "pt_grown a64_format d (load64 s (root_ttbr0 r)) K T s T' t"
    and p: "T' (take 3 (a64_path va)) = Some a"
  obtains u where "u = tlb_invalidate_va_asid va (load16 s (root_asid r))
      (store64 (pt_entry a (unat (level_index va 3))) e t)"
    and "load16 (store64 (pt_entry a (unat (level_index va 3))) e t) (root_asid r) = load16 s (root_asid r)"
    and "a64_space d r T' u" and "\<And>ix. pt_path a64_format ix \<Longrightarrow> pt_lookup a64_format T' (mem u) ix =
      (if ix = a64_path va then if e AND PTE_VALID \<noteq> 0 then Some e else None else pt_lookup a64_format T (mem s) ix)"
    and "io_hist u = Tlbi (push_bit 48 (ucast (load16 s (root_asid r))) OR (drop_bit 12 va AND 0xFFFFFFFFFFF)) # io_hist s"
    and "\<And>y. y \<notin> bitmap_region s \<Longrightarrow> \<forall>a \<in> ran T. y \<notin> region a 4096 \<Longrightarrow> \<forall>f \<in> avail_frames s. y \<notin> region f 4096 \<Longrightarrow>
      mem u y = mem s y"
    and "\<exists>L. pt_mapped a64_format d (load64 s (root_ttbr0 r)) K L T s T' (u\<lparr>io_hist := io_hist s\<rparr>)"
proof -
  let ?i = "unat (level_index va 3)"
  let ?v = "store64 (pt_entry a ?i) e t"
  have "length (take 3 (a64_path va)) = pt_depth a64_format" by simp
  from pt_grown_leaf [OF g p this unat_level [of va 3], of e]
  have m: "pt_mapped a64_format d (load64 s (root_ttbr0 r)) K
      ((pt_lookup a64_format T (mem s))(a64_path va := if e AND PTE_VALID \<noteq> 0 then Some e else None)) T s T' ?v"
    by (simp add: a64_path_last store64_def)
  note S = a64_space_step [OF sp m] and D = pt_mappedD [OF m]
  have "?v\<lparr>io_hist := io_hist s\<rparr> = ?v" using pmm_same_fields(4) [OF D(2)] by (simp add: store64_def)
  then have undo: "tlb_invalidate_va_asid va asid ?v\<lparr>io_hist := io_hist s\<rparr> = ?v" for asid
    by (simp add: tlb_invalidate_va_asid_def)
  show thesis
  proof (rule that [OF refl])
    show "load16 ?v (root_asid r) = load16 s (root_asid r)" by (rule S(3))
    show "\<exists>L. pt_mapped a64_format d (load64 s (root_ttbr0 r)) K L T s T'
        (tlb_invalidate_va_asid va (load16 s (root_asid r)) ?v\<lparr>io_hist := io_hist s\<rparr>)"
      unfolding undo using m by blast
  qed (use S(1) D(8,9) pmm_same_fields(4) [OF D(2)] in \<open>simp_all add: tlb_invalidate_va_asid_def\<close>)
qed

lemma arch_map_page_eq:
  "walk_create 3 (load64 s (root_ttbr0 r)) va s = Ret pte t \<Longrightarrow> pte \<noteq> NULL \<Longrightarrow>
   arch_map_page r va phys prot s =
     (let u = store64 pte (a64_leaf phys prot) t in Ret 0 (tlb_invalidate_va_asid va (load16 u (root_asid r)) u))"
  by (simp add: arch_map_page_def a64_leaf_def a64_attrs_def Let_def)

lemma a64_invalidated:
  "u = tlb_invalidate_va_asid va asid v \<Longrightarrow> load16 v x = asid \<Longrightarrow> tlb_invalidate_va_asid va (load16 v x) v = u"
  by simp

lemma arch_map_page_ok:
  assumes sp: "a64_space d r T s" and room: "card (a64_keys 3 va - dom T) \<le> card (avail_frames s)"
  obtains T' t where "arch_map_page r va phys prot s = Ret 0 t" and "a64_space d r T' t"
    and "\<And>ix. pt_path a64_format ix \<Longrightarrow> pt_lookup a64_format T' (mem t) ix =
      (if ix = a64_path va then Some (a64_leaf phys prot) else pt_lookup a64_format T (mem s) ix)"
    and "io_hist t = Tlbi (push_bit 48 (ucast (load16 s (root_asid r))) OR (drop_bit 12 va AND 0xFFFFFFFFFFF)) # io_hist s"
    and "\<And>y. y \<notin> bitmap_region s \<Longrightarrow> \<forall>a \<in> ran T. y \<notin> region a 4096 \<Longrightarrow> \<forall>f \<in> avail_frames s. y \<notin> region f 4096 \<Longrightarrow>
      mem t y = mem s y"
proof -
  obtain a T' t where W: "walk_create 3 (load64 s (root_ttbr0 r)) va s = Ret (pt_entry a (unat (level_index va 3))) t"
    "pt_entry a (unat (level_index va 3)) \<noteq> NULL" "T' (take 3 (a64_path va)) = Some a"
    "pt_grown a64_format d (load64 s (root_ttbr0 r)) (a64_keys 3 va) T s T' t"
    using a64_walk [OF sp, of va] room by auto
  obtain u where u: "u = tlb_invalidate_va_asid va (load16 s (root_asid r))
      (store64 (pt_entry a (unat (level_index va 3))) (a64_leaf phys prot) t)"
    "load16 (store64 (pt_entry a (unat (level_index va 3))) (a64_leaf phys prot) t) (root_asid r) = load16 s (root_asid r)"
    "a64_space d r T' u" "\<And>ix. pt_path a64_format ix \<Longrightarrow> pt_lookup a64_format T' (mem u) ix =
      (if ix = a64_path va then if a64_leaf phys prot AND PTE_VALID \<noteq> 0 then Some (a64_leaf phys prot) else None
       else pt_lookup a64_format T (mem s) ix)"
    "io_hist u = Tlbi (push_bit 48 (ucast (load16 s (root_asid r))) OR (drop_bit 12 va AND 0xFFFFFFFFFFF)) # io_hist s"
    "\<And>y. y \<notin> bitmap_region s \<Longrightarrow> \<forall>a \<in> ran T. y \<notin> region a 4096 \<Longrightarrow> \<forall>f \<in> avail_frames s. y \<notin> region f 4096 \<Longrightarrow>
      mem u y = mem s y"
    by (rule a64_set_entry [OF sp W(4,3)]) (rule that; assumption)
  have "arch_map_page r va phys prot s = Ret 0 u"
    using arch_map_page_eq [OF W(1,2)] a64_invalidated [OF u(1,2)] by (simp add: Let_def)
  moreover have "pt_lookup a64_format T' (mem u) ix =
      (if ix = a64_path va then Some (a64_leaf phys prot) else pt_lookup a64_format T (mem s) ix)"
    if "pt_path a64_format ix" for ix
    using u(4) [OF that] a64_leaf_valid by simp
  ultimately show thesis using u(3,5,6) by (intro that [of u T'])
qed

text \<open>The entry a descent leads to is the leaf of the address.\<close>

lemma a64_entry_lookup:
  assumes "T (take 3 (a64_path va)) = Some a"
  shows "pt_lookup a64_format T m (a64_path va) =
    (let e = read64 m (pt_entry a (unat (level_index va 3))) in if e AND PTE_VALID \<noteq> 0 then Some e else None)"
  using pt_lookup_snoc [of a64_format T m "take 3 (a64_path va)" "unat (level_index va 3)"] assms
  by (simp add: a64_path_last)

text \<open>An address that is mapped lacks no table.\<close>

lemma a64_mapped_keys:
  assumes inv: "pt_inv a64_format d root T s" and "pt_lookup a64_format T m (a64_path va) \<noteq> None"
  shows "a64_keys 3 va - dom T = {}"
proof -
  note D = pt_repD [OF pt_invD(2) [OF inv]]
  have "butlast (a64_path va) = take 3 (a64_path va)" by (simp add: butlast_conv_take)
  then have 3: "T (take 3 (a64_path va)) \<noteq> None"
    using assms(2) by (cases "T (take 3 (a64_path va))") (auto simp: pt_lookup_def)
  have 2: "T (take 2 (a64_path va)) \<noteq> None" using D(7) [of "take 2 (a64_path va)" "unat (level_index va 2)"] 3
      take_a64_path [of 2 va] by simp
  have "T (take 1 (a64_path va)) \<noteq> None" using D(7) [of "take 1 (a64_path va)" "unat (level_index va 1)"] 2
      take_a64_path [of 1 va] by (simp add: numeral_2_eq_2)
  moreover have "{3 - 3<..3 :: nat} = {1, 2, 3}" by auto
  ultimately show ?thesis using 2 3 by (auto simp: a64_keys_def domIff)
qed

lemma arch_unmap_page_mapped:
  assumes sp: "a64_space d r T s" and m: "pt_lookup a64_format T (mem s) (a64_path va) \<noteq> None"
  obtains T' t where "arch_unmap_page r va s = Ret 0 t" and "a64_space d r T' t"
    and "\<And>ix. pt_path a64_format ix \<Longrightarrow> pt_lookup a64_format T' (mem t) ix =
      (if ix = a64_path va then None else pt_lookup a64_format T (mem s) ix)"
    and "io_hist t = Tlbi (push_bit 48 (ucast (load16 s (root_asid r))) OR (drop_bit 12 va AND 0xFFFFFFFFFFF)) # io_hist s"
proof -
  have "card (a64_keys 3 va - dom T) \<le> card (avail_frames s)" unfolding a64_mapped_keys [OF a64_spaceD(1) [OF sp] m] by simp
  then obtain a T' t where W: "walk_create 3 (load64 s (root_ttbr0 r)) va s = Ret (pt_entry a (unat (level_index va 3))) t"
    "pt_entry a (unat (level_index va 3)) \<noteq> NULL" "T' (take 3 (a64_path va)) = Some a"
    "pt_grown a64_format d (load64 s (root_ttbr0 r)) (a64_keys 3 va) T s T' t"
    using a64_walk [OF sp, of va] by auto
  obtain u where u: "u = tlb_invalidate_va_asid va (load16 s (root_asid r))
      (store64 (pt_entry a (unat (level_index va 3))) 0 t)"
    "load16 (store64 (pt_entry a (unat (level_index va 3))) 0 t) (root_asid r) = load16 s (root_asid r)"
    "a64_space d r T' u" "\<And>ix. pt_path a64_format ix \<Longrightarrow> pt_lookup a64_format T' (mem u) ix =
      (if ix = a64_path va then if 0 AND PTE_VALID \<noteq> 0 then Some 0 else None else pt_lookup a64_format T (mem s) ix)"
    "io_hist u = Tlbi (push_bit 48 (ucast (load16 s (root_asid r))) OR (drop_bit 12 va AND 0xFFFFFFFFFFF)) # io_hist s"
    by (rule a64_set_entry [OF sp W(4,3)]) (rule that; assumption)
  have "load64 t (pt_entry a (unat (level_index va 3))) AND PTE_VALID \<noteq> 0"
    using a64_entry_lookup [where T = T' and va = va and m = "mem t", OF W(3)] m pt_grownD(8) [OF W(4) a64_path_ok, of va] by (auto simp: Let_def split: if_splits)
  then have "arch_unmap_page r va s = Ret 0 u"
    using W(1,2) a64_invalidated [OF u(1,2)] by (simp add: arch_unmap_page_def Let_def)
  moreover have "pt_lookup a64_format T' (mem u) ix =
      (if ix = a64_path va then None else pt_lookup a64_format T (mem s) ix)" if "pt_path a64_format ix" for ix
    using u(4) [OF that] by simp
  ultimately show thesis using u(3,5) by (intro that [of u T'])
qed

lemma arch_unmap_page_unmapped:
  assumes sp: "a64_space d r T s" and m: "pt_lookup a64_format T (mem s) (a64_path va) = None"
  shows "(\<exists>t. arch_unmap_page r va s = Halt t) \<or>
    (\<exists>T' t. arch_unmap_page r va s = Ret (-1) t \<and> a64_space d r T' t \<and> io_hist t = io_hist s \<and>
      (\<forall>ix. pt_path a64_format ix \<longrightarrow> pt_lookup a64_format T' (mem t) ix = pt_lookup a64_format T (mem s) ix))"
proof -
  let ?root = "load64 s (root_ttbr0 r)" and ?i = "unat (level_index va 3)"
  have keeps: "a64_space d r T' t \<and> io_hist t = io_hist s \<and>
      (\<forall>ix. pt_path a64_format ix \<longrightarrow> pt_lookup a64_format T' (mem t) ix = pt_lookup a64_format T (mem s) ix)"
    if g: "pt_grown a64_format d ?root (a64_keys 3 va) T s T' t" for T' t
    using a64_space_step(1) [OF sp pt_grown_mapped [OF g]] pt_mappedD(8) [OF pt_grown_mapped [OF g]]
      pmm_same_fields(4) [OF pt_grownD(2) [OF g]] by blast
  from a64_walk [OF sp, of va] consider
    (found) a T' t where "walk_create 3 ?root va s = Ret (pt_entry a ?i) t" "pt_entry a ?i \<noteq> NULL"
      "T' (take 3 (a64_path va)) = Some a" "pt_grown a64_format d ?root (a64_keys 3 va) T s T' t"
    | (oom) T' t where "walk_create 3 ?root va s = Ret NULL t" "pt_grown a64_format d ?root (a64_keys 3 va) T s T' t"
    | (halt) t where "walk_create 3 ?root va s = Halt t" by metis
  then show ?thesis
  proof cases
    case found
    have "load64 t (pt_entry a ?i) AND PTE_VALID = 0"
      using a64_entry_lookup [where T = T' and va = va and m = "mem t", OF found(3)] m pt_grownD(8) [OF found(4) a64_path_ok, of va]
      by (auto simp: Let_def split: if_splits)
    then have "arch_unmap_page r va s = Ret (-1) t" using found(1) by (simp add: arch_unmap_page_def)
    then show ?thesis using keeps [OF found(4)] by blast
  next
    case oom
    then have "arch_unmap_page r va s = Ret (-1) t" by (simp add: arch_unmap_page_def)
    then show ?thesis using keeps [OF oom(2)] by blast
  next
    case halt
    then show ?thesis by (simp add: arch_unmap_page_def)
  qed
qed

subsection \<open>Releasing tables\<close>

text \<open>The frames \<open>X\<close> are free again, and nothing but the frame allocator's data changed.\<close>

definition pt_released :: "nat \<Rightarrow> u64 set \<Rightarrow> kstate \<Rightarrow> kstate \<Rightarrow> bool" where
  "pt_released d X s t \<longleftrightarrow>
     pmm_inv d t \<and> pmm_same s t \<and> avail_frames t = avail_frames s \<union> X \<and>
     (\<forall>y. y \<notin> bitmap_region s \<longrightarrow> mem t y = mem s y)"

lemma managed_same: "pmm_same s t \<Longrightarrow> managed_frames t = managed_frames s"
  by (simp add: managed_frames_def pmm_same_fields)

lemma pt_released_frame:
  assumes r: "pt_released d X s t" and f: "f \<in> managed_frames s"
  shows "pt_released d (insert f X) s (pmm_free_frame f t)"
proof -
  have inv: "pmm_inv d t" and sm: "pmm_same s t" and av: "avail_frames t = avail_frames s \<union> X"
    and out: "\<And>y. y \<notin> bitmap_region s \<Longrightarrow> mem t y = mem s y"
    using r by (simp_all add: pt_released_def)
  obtain i where i: "f = frame_addr t i" "i < unat (total_frames t)"
    using f managed_same [OF sm] by (auto simp: managed_frames_def)
  note F = pmm_free_frame_ok [OF inv i(2)]
  have same: "pmm_same t (pmm_free_frame (frame_addr t i) t)"
    using pmm_free_frame_eq [OF inv i(2)] by (auto simp: pmm_same_def bitmap_clear_def)
  have fa: "frame_addr (pmm_free_frame (frame_addr t i) t) = frame_addr t" using pmm_same_fields(11) [OF same] .
  have "avail_frames (pmm_free_frame (frame_addr t i) t) = insert f (avail_frames t)"
    by (simp add: avail_frames_def F(1) fa i(1))
  moreover have "mem (pmm_free_frame (frame_addr t i) t) y = mem s y" if "y \<notin> bitmap_region s" for y
    using mem_pmm_free_frame [OF inv i(2)] out that pmm_same_fields(8) [OF sm] by simp
  ultimately show ?thesis
    unfolding pt_released_def i(1) using F(2) pmm_same_trans [OF sm same] av by auto
qed

text \<open>The tables at and under a path.\<close>

definition pt_below :: "pt_tree \<Rightarrow> nat list \<Rightarrow> u64 set" where
  "pt_below T p = {a. \<exists>q. T (p @ q) = Some a}"

lemma pt_below_root: "pt_below T [] = ran T"
  by (auto simp: pt_below_def ran_def)

lemma pt_below_children:
  assumes inv: "pt_inv F d root T s" and p: "T p = Some a"
  shows "pt_below T p = insert a (\<Union>i < 512. pt_below T (p @ [i]))"
proof -
  note D = pt_repD [OF pt_invD(2) [OF inv]]
  have "b = a \<or> (\<exists>i < 512. \<exists>q. T ((p @ [i]) @ q) = Some b)" if "T (p @ q) = Some b" for b q
  proof (cases q)
    case Nil
    then show ?thesis using that p by simp
  next
    case (Cons i r)
    then have "i \<in> set (p @ q)" by simp
    then have "i < 512" using D(4) [OF that] by blast
    moreover have "T ((p @ [i]) @ r) = Some b" using that Cons by simp
    ultimately show ?thesis by blast
  qed
  note down = this
  show ?thesis
  proof (intro set_eqI iffI)
    fix b assume "b \<in> pt_below T p"
    then show "b \<in> insert a (\<Union>i < 512. pt_below T (p @ [i]))" using down unfolding pt_below_def by blast
  next
    fix b assume "b \<in> insert a (\<Union>i < 512. pt_below T (p @ [i]))"
    then consider "b = a" | i q where "T ((p @ [i]) @ q) = Some b" unfolding pt_below_def by blast
    then show "b \<in> pt_below T p"
    proof cases
      case 1
      then have "T (p @ []) = Some b" using p by simp
      then show ?thesis unfolding pt_below_def by blast
    next
      case 2
      then have "T (p @ (i # q)) = Some b" by simp
      then show ?thesis unfolding pt_below_def by blast
    qed
  qed
qed

lemma pt_below_none:
  assumes inv: "pt_inv F d root T s" and "T p = None"
  shows "pt_below T p = {}"
proof -
  note D = pt_repD [OF pt_invD(2) [OF inv]]
  have "T (p @ q) = None" for q
  proof (induction q rule: rev_induct)
    case (snoc i q)
    then show ?case using D(7) [of "p @ q" i] by (cases "T ((p @ q) @ [i])") auto
  qed (simp add: assms(2))
  then show ?thesis by (simp add: pt_below_def)
qed

lemma free_table_recursive_ok:
  assumes inv: "pt_inv a64_format d root T s" and man: "ran T \<subseteq> managed_frames s"
    and "pt_released d X s u" and "T p = Some a" and "length p + n = 3"
  shows "pt_released d (X \<union> pt_below T p) s (free_table_recursive n a u)"
  using assms(3-)
proof (induction n arbitrary: p a X u)
  case 0
  have "T (p @ q) = None" if "q \<noteq> []" for q
  proof (cases "T (p @ q)")
    case (Some b)
    then have "length (p @ q) \<le> 3" using pt_repD(3) [OF pt_invD(2) [OF inv] Some] by simp
    then show ?thesis using "0.prems"(3) that by (cases q) simp_all
  qed
  then have "pt_below T p = {a}" using "0.prems"(2) unfolding pt_below_def by (auto, metis append_Nil2 option.distinct(1) option.inject, metis append_Nil2)
  moreover have "a \<in> managed_frames s" using man ranI [of T p a] "0.prems"(2) by blast
  ultimately show ?case using pt_released_frame [OF "0.prems"(1)] by (simp add: free_table_page_def)
next
  case (Suc n)
  define body where "body = (\<lambda>i s. let entry = load64 s (a + 8 * i)
      in if entry AND PTE_VALID \<noteq> 0 \<and> entry AND PTE_TABLE \<noteq> 0
         then free_table_recursive n (entry AND PTE_ADDR_MASK) s else s)"
  have skip: "body i v = v" if "load64 v (a + 8 * i) AND PTE_VALID = 0" for i v
    using that by (simp add: body_def Let_def)
  have link: "body i v = free_table_recursive n (load64 v (a + 8 * i) AND PTE_ADDR_MASK) v"
    if "load64 v (a + 8 * i) AND PTE_VALID \<noteq> 0" "load64 v (a + 8 * i) AND PTE_TABLE \<noteq> 0" for i v
    using that by (simp add: body_def Let_def)
  have len: "length p < 3" using Suc.prems(3) by simp
  have "pt_released d (X \<union> (\<Union>i < k. pt_below T (p @ [i]))) s (fold (\<lambda>i. body (of_nat i)) [0..<k] u)" if "k \<le> 512" for k
    using that
  proof (induction k)
    case 0
    then show ?case using Suc.prems(1) by simp
  next
    case (Suc k)
    let ?v = "fold (\<lambda>i. body (of_nat i)) [0..<k] u"
    have k: "k < 512" and v: "pt_released d (X \<union> (\<Union>i < k. pt_below T (p @ [i]))) s ?v" using Suc by simp_all
    have "load64 ?v (pt_entry a k) = load64 s (pt_entry a k)"
    proof (rule read64_cong)
      fix y assume "y \<in> region (pt_entry a k) 8"
      then have "y \<in> region a 4096" using pt_entry_subset [OF k, of a] by blast
      then have "y \<notin> bitmap_region s" using pt_invD(4) [OF inv \<open>T p = Some a\<close>] by blast
      then show "mem ?v y = mem s y" using v by (simp add: pt_released_def)
    qed
    then have e: "load64 ?v (a + 8 * of_nat k) = load64 s (pt_entry a k)" by (simp add: pt_entry_def)
    have split: "(\<Union>i < Suc k. pt_below T (p @ [i])) = (\<Union>i < k. pt_below T (p @ [i])) \<union> pt_below T (p @ [k])"
      by (auto simp: less_Suc_eq)
    have step: "pt_released d (X \<union> (\<Union>i < Suc k. pt_below T (p @ [i]))) s (body (of_nat k) ?v)"
    proof (cases "T (p @ [k])")
      case None
      then have "load64 s (pt_entry a k) AND PTE_VALID = 0" by (rule a64_link(2) [OF inv \<open>T p = Some a\<close> len k])
      then have "body (of_nat k) ?v = ?v" using e by (intro skip) simp
      then show ?thesis using v unfolding split pt_below_none [OF inv None] by simp
    next
      case (Some b)
      note L = a64_link(1) [OF inv \<open>T p = Some a\<close> len k Some]
      then have "body (of_nat k) ?v = free_table_recursive n b ?v" using link [of ?v "of_nat k"] unfolding e by simp
      moreover have "length (p @ [k]) + n = 3" using \<open>length p + Suc n = 3\<close> by simp
      ultimately show ?thesis
        using \<open>\<And>p a X u. pt_released d X s u \<Longrightarrow> T p = Some a \<Longrightarrow> length p + n = 3 \<Longrightarrow>
            pt_released d (X \<union> pt_below T p) s (free_table_recursive n a u)\<close> [OF v Some]
        unfolding split by (simp add: Un_assoc)
    qed
    then show ?case by simp
  qed
  from this [of 512] have l: "pt_released d (X \<union> (\<Union>i < 512. pt_below T (p @ [i]))) s (for_loop 0 512 body u)"
    by (simp add: for_loop_eq_fold)
  have run: "free_table_recursive (Suc n) a u = pmm_free_frame a (for_loop 0 512 body u)"
    by (simp add: body_def free_table_page_def)
  have "a \<in> managed_frames s" using man ranI [of T p a] Suc.prems(2) by blast
  from pt_released_frame [OF l this] show ?case
    unfolding pt_below_children [OF inv Suc.prems(2)] run by simp
qed

subsection \<open>Address spaces, the heap and the pool of identifiers\<close>

text \<open>A byte that neither the heap nor the frame allocator uses.\<close>

definition heap_spares :: "(u64 list \<times> u64 list) list \<Rightarrow> kstate \<Rightarrow> u64 \<Rightarrow> bool" where
  "heap_spares B s y \<longleftrightarrow>
     (\<forall>i < 8. y \<notin> region (kmalloc_caches s ! i) 32 \<and> (\<forall>p \<in> set (fst (B ! i)). y \<notin> region p 4096)) \<and>
     y \<notin> bitmap_region s \<and> (\<forall>f \<in> avail_frames s. y \<notin> region f 4096)"

definition asid_pool_ok :: "(u64 list \<times> u64 list) list \<Rightarrow> kstate \<Rightarrow> bool" where
  "asid_pool_ok B s \<longleftrightarrow>
     length (g_asid_used s) = 256 \<and> read32 (mem s) (g_asid_lock s) = 0 \<and>
     (\<forall>y \<in> region (g_asid_lock s) 4. heap_spares B s y)"

text \<open>An address space whose root structure is the heap block \<open>x\<close>, with tables the heap does not use.\<close>

definition a64_owned :: "nat \<Rightarrow> (u64 list \<times> u64 list) list \<Rightarrow> u64 \<Rightarrow> pt_tree \<Rightarrow> kstate \<Rightarrow> bool" where
  "a64_owned d B x T s \<longleftrightarrow>
     heap_inv d B s \<and> block_ok B 0 x 16 s \<and> a64_space d (x + 16) T s \<and> asid_pool_ok B s \<and>
     ran T \<subseteq> managed_frames s \<and>
     (\<forall>a \<in> ran T. region (g_asid_lock s) 4 \<inter> region a 4096 = {} \<and>
        (\<forall>i < 8. a \<notin> set (fst (B ! i)) \<and> region (kmalloc_caches s ! i) 32 \<inter> region a 4096 = {}))"

lemma heap_frameD:
  assumes "heap_frame B s B' t" and "kmalloc_caches t = kmalloc_caches s" and "heap_spares B s y"
  shows "mem t y = mem s y" and "heap_spares B' t y"
proof -
  show "mem t y = mem s y" using assms(1,3) unfolding heap_frame_def heap_spares_def by blast
  have pages: "set (fst (B' ! i)) \<subseteq> set (fst (B ! i)) \<union> avail_frames s" if "i < 8" for i
    using assms(1) that by (simp add: heap_frame_def)
  have "y \<notin> region p 4096" if "i < 8" "p \<in> set (fst (B' ! i))" for i p
    using pages [OF that(1)] that assms(3) unfolding heap_spares_def by blast
  moreover have "bitmap_region t = bitmap_region s" "avail_frames t \<subseteq> avail_frames s"
    using assms(1) by (simp_all add: heap_frame_def)
  ultimately show "heap_spares B' t y" using assms(2,3) unfolding heap_spares_def by auto
qed

lemma asid_pool_same:
  assumes "asid_pool_ok B s" and "\<And>y. heap_spares B s y \<Longrightarrow> mem t y = mem s y \<and> heap_spares B' t y"
    and "g_asid_used t = g_asid_used s" and "g_asid_lock t = g_asid_lock s"
  shows "asid_pool_ok B' t"
proof -
  have "read32 (mem t) (g_asid_lock s) = read32 (mem s) (g_asid_lock s)"
    using assms(1,2) by (intro read32_cong) (simp add: asid_pool_ok_def)
  then show ?thesis using assms by (simp add: asid_pool_ok_def)
qed

lemma asid_alloc_eq:
  assumes "read32 (mem s) (g_asid_lock s) = 0"
  shows "asid_alloc s = (case find (\<lambda>i. \<not> g_asid_used s ! i) [1..<ASID_POOL_SIZE] of
    Some i \<Rightarrow> Ret (int i) (s\<lparr>g_asid_used := (g_asid_used s)[i := True]\<rparr>) | None \<Rightarrow> Ret (-1) s)"
proof -
  have w: "write32 (write32 (mem s) (g_asid_lock s) 1) (g_asid_lock s) 0 = mem s"
    using write32_read32 [of "mem s" "g_asid_lock s"] assms by (simp add: write32_write32)
  show ?thesis
    by (cases "find (\<lambda>i. \<not> g_asid_used s ! i) [1..<ASID_POOL_SIZE]")
      (simp_all add: asid_alloc_def spin_lock_free [OF assms] spin_unlock_eq w Let_def)
qed

lemma asid_free_eq:
  assumes "read32 (mem s) (g_asid_lock s) = 0"
  shows "asid_free asid s = Ret () (s\<lparr>g_asid_used := (g_asid_used s)[unat asid := False]\<rparr>)"
proof -
  have w: "write32 (write32 (mem s) (g_asid_lock s) 1) (g_asid_lock s) 0 = mem s"
    using write32_read32 [of "mem s" "g_asid_lock s"] assms by (simp add: write32_write32)
  show ?thesis by (simp add: asid_free_def spin_lock_free [OF assms] spin_unlock_eq w Let_def)
qed

lemma alloc_table_page_ok:
  assumes ok: "mm_ok d s" and av: "avail_frames s \<noteq> {}"
  obtains f t where "alloc_table_page s = Ret f t" and "f \<noteq> 0" and "f \<in> avail_frames s" and "f \<in> managed_frames s"
    and "mm_ok d t" and "avail_frames t = avail_frames s - {f}" and "pmm_same s t"
    and "\<forall>y \<in> region f 4096. mem t y = 0"
    and "\<And>y. y \<notin> bitmap_region s \<Longrightarrow> y \<notin> region f 4096 \<Longrightarrow> mem t y = mem s y"
proof -
  obtain k where k: "k \<in> free_set s" "frame_addr s k \<in> avail_frames s" "pmm_alloc_frame s = Ret (frame_addr s k) (taken k s)"
    "mm_ok d (taken k s)" "avail_frames (taken k s) = avail_frames s - {frame_addr s k}"
    "\<And>x. x \<notin> bitmap_region s \<Longrightarrow> mem (taken k s) x = mem s x"
    by (rule mm_alloc_frame [OF ok av]) (rule that; assumption)
  let ?f = "frame_addr s k" and ?m = "memset (frame_addr s k) 0 4096 (mem (taken k s))"
  have nz: "?f \<noteq> 0" using avail_frames_page [OF ok k(2)] by (simp add: page_def)
  have bmf: "bitmap_region s \<inter> region ?f 4096 = {}" using ok k(2) by (simp add: mm_ok_def)
  have bm: "?m y = mem (taken k s) y" if "y \<in> bitmap_region (taken k s)" for y
    using that bmf by (auto simp: memset_eq)
  show thesis
  proof (rule that [OF alloc_table_page_eq [OF k(3) nz] nz k(2)])
    show "?f \<in> managed_frames s" using free_set_bound [OF k(1)] by (simp add: managed_frames_def)
    show "mm_ok d (taken k s\<lparr>mem := ?m\<rparr>)" using mm_ok_mem_cong [OF bm] k(4) by simp
    show "avail_frames (taken k s\<lparr>mem := ?m\<rparr>) = avail_frames s - {?f}" using avail_frames_mem_cong [OF bm] k(5) by simp
    show "pmm_same s (taken k s\<lparr>mem := ?m\<rparr>)" by (intro pmm_same_mem pmm_same_taken)
  qed (use k(6) in \<open>simp_all add: memset_eq\<close>)
qed

text \<open>The heap lies apart from free frames.\<close>

lemma heap_free_apart:
  assumes "heap_inv d B s" and "i < 8"
  shows "f \<in> avail_frames s \<Longrightarrow> region (kmalloc_caches s ! i) 32 \<inter> region f 4096 = {}"
    and "bitmap_region s \<inter> region (kmalloc_caches s ! i) 32 = {}"
    and "p \<in> set (fst (B ! i)) \<Longrightarrow> bitmap_region s \<inter> region p 4096 = {}"
    and "p \<in> set (fst (B ! i)) \<Longrightarrow> f \<in> avail_frames s \<Longrightarrow> region p 4096 \<inter> region f 4096 = {}"
    and "p \<in> set (fst (B ! i)) \<Longrightarrow> p \<notin> avail_frames s" and "p \<in> set (fst (B ! i)) \<Longrightarrow> page p"
proof -
  note S = heap_invD(4) [OF assms]
  have sep: "slab_sep (kmalloc_caches s ! i) (fst (B ! i)) s" and ok: "mm_ok d s" using S by (simp_all add: slab_inv_def)
  show "f \<in> avail_frames s \<Longrightarrow> region (kmalloc_caches s ! i) 32 \<inter> region f 4096 = {}"
    and "bitmap_region s \<inter> region (kmalloc_caches s ! i) 32 = {}"
    and "p \<in> set (fst (B ! i)) \<Longrightarrow> bitmap_region s \<inter> region p 4096 = {}"
    and na: "p \<in> set (fst (B ! i)) \<Longrightarrow> p \<notin> avail_frames s"
    using sep unfolding slab_sep_def by blast+
  show pg: "p \<in> set (fst (B ! i)) \<Longrightarrow> page p"
    using S slab_listsD(4) unfolding slab_inv_def slab_rep_def by blast
  show "p \<in> set (fst (B ! i)) \<Longrightarrow> f \<in> avail_frames s \<Longrightarrow> region p 4096 \<inter> region f 4096 = {}"
    using pg na avail_frames_page [OF ok] by (intro pages_disjoint) auto
qed

lemma heap_mm_ok: "heap_inv d B s \<Longrightarrow> mm_ok d s"
  using heap_invD(4) [of d B s 0] by (simp add: slab_inv_def)

text \<open>The heap after a frame was taken and cleared.\<close>

lemma heap_table_page:
  assumes H: "heap_inv d B s" and f: "f \<in> avail_frames s" and ok: "mm_ok d t"
    and av: "avail_frames t = avail_frames s - {f}" and sm: "pmm_same s t"
    and out: "\<forall>y. y \<notin> bitmap_region s \<and> y \<notin> region f 4096 \<longrightarrow> mem t y = mem s y"
  shows "heap_inv d B t" and "heap_spares B s y \<Longrightarrow> mem t y = mem s y \<and> heap_spares B t y"
    and "i < 8 \<Longrightarrow> x \<in> heap_live B i \<Longrightarrow> y \<in> region x (block_size i) \<Longrightarrow> mem t y = mem s y"
proof -
  note F = pmm_same_fields [OF sm]
  have keep: "mem t y = mem s y" if "i < 8" "y \<in> region (kmalloc_caches s ! i) 32" for i y
    using heap_free_apart(1,2) [OF H that(1)] f that(2) out by blast
  have pages: "mem t y = mem s y" if "i < 8" "p \<in> set (fst (B ! i))" "y \<in> region p 4096" for i p y
    using heap_free_apart(3,4) [OF H that(1,2)] f that(3) out by blast
  show "heap_inv d B t" by (rule heap_inv_spared [OF H ok F(8,10,9) _ keep pages]) (use av in auto)
  show "heap_spares B s y \<Longrightarrow> mem t y = mem s y \<and> heap_spares B t y"
    using out f av F(8,10) unfolding heap_spares_def by auto
  show "i < 8 \<Longrightarrow> x \<in> heap_live B i \<Longrightarrow> y \<in> region x (block_size i) \<Longrightarrow> mem t y = mem s y"
    using pages heap_live_page by blast
qed

lemma bucket_of_root: "get_bucket_index 16 = 0"
  by (simp add: get_bucket_index_def)

lemma kfree_sized_root:
  assumes "block_ok B 0 x 16 s" and "x + 16 \<noteq> NULL" and "kmalloc_caches s ! 0 \<noteq> NULL"
  shows "kfree_sized (x + 16) 16 s = kfree (x + 16) s"
  using assms by (simp add: kfree_sized_def kfree_def Let_def bucket_of_root block_ok_def)

lemma heap_cache_not_null:
  assumes "heap_inv d B s" and "i < 8"
  shows "kmalloc_caches s ! i \<noteq> NULL"
  using heap_invD(4) [OF assms] unfolding slab_inv_def slab_rep_def slab_lists_def by blast

text \<open>The root structure is filled in.\<close>

lemma root_written:
  fixes asid :: u16
  defines "m \<equiv> \<lambda>m root tbl. store (write64 m (root_ttbr0 root) tbl) (root_asid root) 2 asid"
  shows "y \<notin> region root 16 \<Longrightarrow> m mm root tbl y = mm y"
    and "read64 (m mm root tbl) (root_ttbr0 root) = tbl" and "load (m mm root tbl) (root_asid root) 2 = asid"
proof -
  show "y \<notin> region root 16 \<Longrightarrow> m mm root tbl y = mm y"
  proof -
    assume "y \<notin> region root 16"
    then have "y \<notin> region (root_ttbr0 root) 8" "y \<notin> region (root_asid root) 2" using root_regions [of root] by blast+
    then show ?thesis by (simp add: m_def store_outside write64_outside)
  qed
  have "region (root_asid root) 2 \<inter> region (root_ttbr0 root) 8 = {}"
    using region_off_disjoint [of 8 2 0 8 root] by (simp add: root_asid_def root_ttbr0_def)
  then have "read64 (m mm root tbl) (root_ttbr0 root) = read64 (write64 mm (root_ttbr0 root) tbl) (root_ttbr0 root)"
    unfolding m_def by (intro read64_cong store_outside) blast
  then show "read64 (m mm root tbl) (root_ttbr0 root) = tbl" by (simp add: read64_write64)
  show "load (m mm root tbl) (root_asid root) 2 = asid" by (simp add: m_def load_store_same)
qed

text \<open>The steps that \<^verbatim>\<open>arch_pagetable_create\<close> makes before it asks for an identifier.\<close>

lemma root_and_table:
  assumes H: "heap_inv d B s" and pool: "asid_pool_ok B s" and room: "2 \<le> card (avail_frames s)"
  obtains x f B' t1 t where "kmalloc 16 s = Ret (x + 16) t1" and "alloc_table_page t1 = Ret f t"
    and "x + 16 \<noteq> NULL" and "f \<noteq> 0" and "heap_inv d B' t" and "block_ok B' 0 x 16 t" and "asid_pool_ok B' t"
    and "f \<in> avail_frames s" and "f \<in> managed_frames t" and "f \<notin> avail_frames t" and "avail_frames t \<subseteq> avail_frames s"
    and "\<exists>p. avail_frames s - {p} \<subseteq> insert f (avail_frames t)" and "bitmap_region t \<inter> region f 4096 = {}" and "page f"
    and "\<forall>y \<in> region f 4096. mem t y = 0" and "region (x + 16) 16 \<inter> region f 4096 = {}"
    and "\<forall>j < 8. f \<notin> set (fst (B' ! j)) \<and> region (kmalloc_caches t ! j) 32 \<inter> region f 4096 = {}"
    and "x \<notin> heap_live B 0" and "heap_live B' 0 = insert x (heap_live B 0)"
    and "\<And>j. j \<noteq> 0 \<Longrightarrow> heap_live B' j = heap_live B j" and "blocks_same B s t"
    and "g_asid_used t = g_asid_used s" and "io_hist t = io_hist s" and "region (g_asid_lock t) 4 \<inter> region f 4096 = {}"
proof -
  have ne: "avail_frames s \<noteq> {}" using room by auto
  have "(0 :: u64) < 16" "(16 :: u64) \<le> 2048" by simp_all
  from kmalloc_small_returns_frame [OF H this ne] obtain k x B1 t1 where K: "get_bucket_index 16 = int k" "k < 8"
    "kmalloc 16 s = Ret (x + 16) t1" "heap_inv d B1 t1" "block_ok B1 k x 16 t1" "x \<notin> heap_live B k"
    "heap_live B1 k = insert x (heap_live B k)" "\<And>j. j \<noteq> k \<Longrightarrow> heap_live B1 j = heap_live B j"
    "blocks_same B s t1" "upper_same s t1" "\<exists>p. avail_frames s - {p} \<subseteq> avail_frames t1" "heap_frame B s B1 t1" by metis
  have k0: "k = 0" using K(1) bucket_of_root by simp
  note K = K [unfolded k0]
  have up: "g_asid_used t1 = g_asid_used s" "g_asid_lock t1 = g_asid_lock s" "kmalloc_caches t1 = kmalloc_caches s"
    "io_hist t1 = io_hist s"
    using K(10) by (simp_all add: upper_same_def)
  have av1: "avail_frames t1 \<subseteq> avail_frames s" using K(12) by (simp add: heap_frame_def)
  have "card (avail_frames s) \<le> Suc (card (avail_frames t1))" using K(11) by (rule card_avail_step)
  then have ne1: "avail_frames t1 \<noteq> {}" using room by auto
  have P1: "asid_pool_ok B1 t1" using heap_frameD [OF K(12) up(3)] by (intro asid_pool_same [OF pool _ up(1,2)]) blast
  obtain f t2 where A: "alloc_table_page t1 = Ret f t2" "f \<noteq> 0" "f \<in> avail_frames t1" "f \<in> managed_frames t1"
    "mm_ok d t2" "avail_frames t2 = avail_frames t1 - {f}" "pmm_same t1 t2" "\<forall>y \<in> region f 4096. mem t2 y = 0"
    "\<And>y. y \<notin> bitmap_region t1 \<Longrightarrow> y \<notin> region f 4096 \<Longrightarrow> mem t2 y = mem t1 y"
    by (rule alloc_table_page_ok [OF heap_mm_ok [OF K(4)] ne1]) (rule that; assumption)
  have "\<forall>y. y \<notin> bitmap_region t1 \<and> y \<notin> region f 4096 \<longrightarrow> mem t2 y = mem t1 y" using A(9) by blast
  note T = heap_table_page [OF K(4) A(3,5-7) this]
  note F2 = pmm_same_fields [OF A(7)]
  have P2: "asid_pool_ok B1 t2" using T(2) F2(6,7) by (intro asid_pool_same [OF P1]) auto
  have x1: "x \<in> heap_live B1 0" using K(7) by simp
  have b2: "block_ok B1 0 x 16 t2" using T(3) [OF _ x1] F2(10) by (intro block_ok_same [OF K(5) x1]) auto
  have inblock: "region (x + 16) 16 \<subseteq> region x (block_size 0)"
    using block_header(4) [OF x1, of 16] by (simp add: bucket_size_def)
  have fr: "region (x + 16) 16 \<inter> region f 4096 = {}"
    using heap_live_outside(3) [OF K(4), of 0 0 x] x1 inblock A(3) by auto
  have man: "f \<in> managed_frames t2" using A(4) managed_same [OF A(7)] by simp
  have bmf: "bitmap_region t2 \<inter> region f 4096 = {}"
    using heap_mm_ok [OF K(4)] A(3) unfolding F2(8) by (simp add: mm_ok_def)
  have sep: "\<forall>j < 8. f \<notin> set (fst (B1 ! j)) \<and> region (kmalloc_caches t2 ! j) 32 \<inter> region f 4096 = {}"
    using heap_free_apart(1,5) [OF K(4)] A(3) F2(10) by auto
  have bs: "blocks_same B s t2"
    unfolding blocks_same_def
  proof (intro allI impI ballI)
    fix j w y assume j: "j < 8" "w \<in> heap_live B j" "y \<in> region w (block_size j)"
    have "w \<in> heap_live B1 j" using j(2) K(7,8) by (cases "j = 0") auto
    then have "mem t2 y = mem t1 y" using T(3) j by blast
    also have "\<dots> = mem s y" using K(9) j by (simp add: blocks_same_def)
    finally show "mem t2 y = mem s y" .
  qed
  have pg: "page f" using avail_frames_page [OF heap_mm_ok [OF K(4)] A(3)] .
  have more: "\<exists>p. avail_frames s - {p} \<subseteq> insert f (avail_frames t2)" "f \<in> avail_frames s" "f \<notin> avail_frames t2"
    "avail_frames t2 \<subseteq> avail_frames s" "g_asid_used t2 = g_asid_used s" "io_hist t2 = io_hist s"
    using K(11) A(3,6) av1 F2(4,6) up by auto
  have lk: "region (g_asid_lock t2) 4 \<inter> region f 4096 = {}"
    using P1 A(3) F2(7) unfolding asid_pool_ok_def heap_spares_def by auto
  show thesis
    by (rule that [OF K(3) A(1) block_not_null [OF K(4,5)] A(2) T(1) b2 P2 more(2) man more(3,4,1) bmf pg A(8) fr sep K(6,7) K(8) bs more(5,6) lk])
qed

lemma arch_pagetable_create_ok:
  assumes H: "heap_inv d B s" and pool: "asid_pool_ok B s" and low: "\<forall>f \<in> avail_frames s. unat f < 2 ^ 48"
    and room: "2 \<le> card (avail_frames s)" and asid: "find (\<lambda>i. \<not> g_asid_used s ! i) [1..<ASID_POOL_SIZE] = Some i"
  obtains x f B' t where "arch_pagetable_create s = Ret (x + 16) t" and "a64_owned d B' x [[] \<mapsto> f] t"
    and "\<And>ix. pt_path a64_format ix \<Longrightarrow> pt_lookup a64_format [[] \<mapsto> f] (mem t) ix = None"
    and "load16 t (root_asid (x + 16)) = of_nat i" and "g_asid_used t = (g_asid_used s)[i := True]"
    and "f \<in> avail_frames s" and "f \<notin> avail_frames t" and "\<exists>p. avail_frames s - {p} \<subseteq> insert f (avail_frames t)"
    and "x \<notin> heap_live B 0" and "heap_live B' 0 = insert x (heap_live B 0)"
    and "\<And>j. j \<noteq> 0 \<Longrightarrow> heap_live B' j = heap_live B j" and "blocks_same B s t" and "io_hist t = io_hist s"
proof -
  obtain x f B1 t1 t2 where K: "kmalloc 16 s = Ret (x + 16) t1" "alloc_table_page t1 = Ret f t2"
    "x + 16 \<noteq> NULL" "f \<noteq> 0" "heap_inv d B1 t2" "block_ok B1 0 x 16 t2" "asid_pool_ok B1 t2"
    "f \<in> avail_frames s" "f \<in> managed_frames t2" "f \<notin> avail_frames t2" "avail_frames t2 \<subseteq> avail_frames s"
    "\<exists>p. avail_frames s - {p} \<subseteq> insert f (avail_frames t2)" "bitmap_region t2 \<inter> region f 4096 = {}" "page f"
    "\<forall>y \<in> region f 4096. mem t2 y = 0" "region (x + 16) 16 \<inter> region f 4096 = {}"
    "\<forall>j < 8. f \<notin> set (fst (B1 ! j)) \<and> region (kmalloc_caches t2 ! j) 32 \<inter> region f 4096 = {}"
    "x \<notin> heap_live B 0" "heap_live B1 0 = insert x (heap_live B 0)"
    "\<And>j. j \<noteq> 0 \<Longrightarrow> heap_live B1 j = heap_live B j" "blocks_same B s t2"
    "g_asid_used t2 = g_asid_used s" "io_hist t2 = io_hist s" "region (g_asid_lock t2) 4 \<inter> region f 4096 = {}"
    by (rule root_and_table [OF H pool room]) (rule that; assumption)
  let ?r = "x + 16"
  let ?m = "store (write64 (mem t2) (root_ttbr0 ?r) f) (root_asid ?r) 2 (of_nat i :: u16)"
  let ?t3 = "t2\<lparr>g_asid_used := (g_asid_used s)[i := True]\<rparr>"
  let ?t = "t2\<lparr>g_asid_used := (g_asid_used s)[i := True], mem := ?m\<rparr>"
  have "asid_alloc t2 = Ret (int i) ?t3" using K(7) asid K(22) by (simp add: asid_alloc_eq asid_pool_ok_def)
  then have run: "arch_pagetable_create s = Ret ?r ?t"
    using K(1-4) by (simp add: arch_pagetable_create_def store64_def store16_def Let_def)
  note R = root_written [where root = "x + 16" and mm = "mem t2" and tbl = f and asid = "of_nat i"]
  have H3: "heap_inv d B1 ?t3"
    using K(5) unfolding heap_inv_def slab_inv_def slab_sep_def by (simp add: bitmap_region_def)
  have b3: "block_ok B1 0 x 16 ?t3" using K(6) by (simp add: block_ok_def)
  have u16: "unat (16 :: u64) = 16" by simp
  have W0: "?m y = mem ?t3 y" if "y \<notin> region (x + 16) (unat (16 :: u64))" for y
    using that R(1) [of y] unfolding u16 by simp
  have Ht: "heap_inv d B1 ?t" and bt: "block_ok B1 0 x 16 ?t" using block_write(1,2) [OF H3 b3 W0] by simp_all
  have x1: "x \<in> heap_live B1 0" using K(19) by simp
  have inblock: "region ?r 16 \<subseteq> region x (block_size 0)"
    using block_header(4) [OF x1, of 16] by (simp add: bucket_size_def)
  have rfree: "y \<notin> bitmap_region s'" "g \<in> avail_frames s' \<Longrightarrow> y \<notin> region g 4096"
    if "heap_inv d B1 s'" "y \<in> region ?r 16" for s' y g
    using heap_live_outside(2,3) [OF that(1), of 0 0 x] x1 inblock that(2) by auto
  have bmt: "bitmap_region ?t = bitmap_region t2" by (simp add: bitmap_region_def)
  have avt: "avail_frames ?t = avail_frames t2"
  proof -
    have "?m y = mem t2 y" if "y \<in> bitmap_region t2" for y using R(1) [of y] rfree(1) [OF K(5)] that by blast
    then show ?thesis using avail_frames_mem_cong [of ?t3 ?m] by (simp add: bitmap_region_def)
  qed
  have pgf: "pt_page a64_format f" using K(8,14) low by (simp add: pt_page_def)
  have z: "\<forall>y \<in> region f 4096. mem ?t y = 0" using K(15,16) R(1) by fastforce
  note E = a64.empty_tree [OF pgf z]
  have "pt_inv a64_format d f [[] \<mapsto> f] ?t"
    unfolding pt_inv_def using heap_mm_ok [OF Ht] E(1) K(10,11,13) low avt bmt by auto
  moreover have "load64 ?t (root_ttbr0 ?r) = f" using R(2) by simp
  moreover have "bitmap_region ?t \<inter> region ?r 16 = {}" using rfree(1) [OF Ht] by blast
  moreover have "\<forall>a \<in> ran [[] \<mapsto> f] \<union> avail_frames ?t. region ?r 16 \<inter> region a 4096 = {}"
    using K(16) rfree(2) [OF Ht] by auto
  ultimately have sp: "a64_space d ?r [[] \<mapsto> f] ?t" unfolding a64_space_def by simp
  have pool': "asid_pool_ok B1 ?t"
  proof -
    have spare: "heap_spares B1 ?t y = heap_spares B1 t2 y" for y
      unfolding heap_spares_def avt by (simp add: bitmap_region_def)
    have l2: "length (g_asid_used s) = 256" "read32 (mem t2) (g_asid_lock t2) = 0"
      "\<And>y. y \<in> region (g_asid_lock t2) 4 \<Longrightarrow> heap_spares B1 t2 y"
      using K(7) pool by (simp_all add: asid_pool_ok_def)
    have off: "y \<notin> region ?r 16" if y: "heap_spares B1 t2 y" for y
    proof
      assume "y \<in> region ?r 16"
      then obtain p where "p \<in> set (fst (B1 ! 0))" "y \<in> region p 4096" using inblock heap_live_page [OF x1] by blast
      moreover have "\<forall>p \<in> set (fst (B1 ! 0)). y \<notin> region p 4096" using y zero_less_numeral [where ?'a = nat] unfolding heap_spares_def by blast
      ultimately show False by blast
    qed
    have "read32 ?m (g_asid_lock t2) = read32 (mem t2) (g_asid_lock t2)"
      by (rule read32_cong) (rule R(1) [OF off [OF l2(3)]])
    then show ?thesis using l2 spare by (simp add: asid_pool_ok_def)
  qed
  have man: "f \<in> managed_frames ?t" using K(9) by (simp add: managed_frames_def frame_addr_def)
  have own: "a64_owned d B1 x [[] \<mapsto> f] ?t"
    unfolding a64_owned_def using Ht bt sp pool' man K(17,24) by simp
  have bs: "blocks_same B s ?t"
    unfolding blocks_same_def
  proof (intro allI impI ballI)
    fix j w y assume j: "j < 8" "w \<in> heap_live B j" "y \<in> region w (block_size j)"
    have w1: "w \<in> heap_live B1 j" using j(2) K(19,20) by (cases "j = 0") auto
    have "(0, x) \<noteq> (j, w)" using K(18) j(2) by auto
    then have "?m y = mem t2 y" using block_write(3) [OF H3 b3 W0, of j w y] j(1,3) w1 by simp
    also have "\<dots> = mem s y" using K(21) j by (simp add: blocks_same_def)
    finally show "mem ?t y = mem s y" by simp
  qed
  show thesis
  proof (rule that [OF run own])
    show "load16 ?t (root_asid ?r) = of_nat i" using R(3) by (simp add: load16_def)
  qed (use E(2) K(8,10,12,18-20,23) bs avt in simp_all)
qed

text \<open>The heap after frames were given back that it does not use.\<close>

lemma heap_released:
  assumes H: "heap_inv d B s" and r: "pt_released d X s u"
    and X: "\<forall>a \<in> X. bitmap_region s \<inter> region a 4096 = {} \<and>
      (\<forall>i < 8. a \<notin> set (fst (B ! i)) \<and> region (kmalloc_caches s ! i) 32 \<inter> region a 4096 = {})"
  shows "heap_inv d B u" and "block_ok B i x n s \<Longrightarrow> block_ok B i x n u"
    and "i < 8 \<Longrightarrow> w \<in> heap_live B i \<Longrightarrow> y \<in> region w (block_size i) \<Longrightarrow> mem u y = mem s y"
proof -
  have R: "pmm_inv d u" "pmm_same s u" "avail_frames u = avail_frames s \<union> X" "\<And>y. y \<notin> bitmap_region s \<Longrightarrow> mem u y = mem s y"
    using r by (simp_all add: pt_released_def)
  note F = pmm_same_fields [OF R(2)]
  have base: "mem_phys_base u = mem_phys_base s"
    by (subst R(2) [unfolded pmm_same_def, symmetric]) simp
  have ok: "mm_ok d u" using heap_mm_ok [OF H] R(1,3) X F(8,12) base unfolding mm_ok_def by auto
  show "heap_inv d B u"
  proof (rule heap_inv_spared [OF H ok F(8,10,9)])
    show "f \<in> avail_frames s \<or> f \<notin> set (fst (B ! i)) \<and> region (kmalloc_caches s ! i) 32 \<inter> region f 4096 = {}"
      if "i < 8" "f \<in> avail_frames u" for i f
      using that R(3) X by blast
    show "mem u y = mem s y" if "i < 8" "y \<in> region (kmalloc_caches s ! i) 32" for i y
      using heap_free_apart(2) [OF H that(1)] that(2) by (intro R(4)) blast
    show "mem u y = mem s y" if "i < 8" "p \<in> set (fst (B ! i))" "y \<in> region p 4096" for i p y
      using heap_free_apart(3) [OF H that(1,2)] that(3) by (intro R(4)) blast
  qed
  show live: "i < 8 \<Longrightarrow> w \<in> heap_live B i \<Longrightarrow> y \<in> region w (block_size i) \<Longrightarrow> mem u y = mem s y" for i w y
    using heap_live_outside(2) [OF H, of i i w y] by (intro R(4)) simp
  show "block_ok B i x n u" if b: "block_ok B i x n s"
  proof (rule block_ok_same [OF b _ F(10)])
    show "x \<in> heap_live B i" using b by (simp add: block_ok_def)
    show "mem u y = mem s y" if "y \<in> region x (block_size i)" for y
      using b that by (intro live [of i x]) (simp_all add: block_ok_def)
  qed
qed

lemma lock_released:
  assumes "asid_pool_ok B s" and "pt_released d X s u"
  shows "read32 (mem u) (g_asid_lock u) = 0" and "g_asid_used u = g_asid_used s"
proof -
  have R: "pmm_same s u" "\<And>y. y \<notin> bitmap_region s \<Longrightarrow> mem u y = mem s y" using assms(2) by (simp_all add: pt_released_def)
  show "g_asid_used u = g_asid_used s" using pmm_same_fields(6) [OF R(1)] .
  have "read32 (mem u) (g_asid_lock s) = read32 (mem s) (g_asid_lock s)"
    using assms(1) by (intro read32_cong R(2)) (simp add: asid_pool_ok_def heap_spares_def)
  then show "read32 (mem u) (g_asid_lock u) = 0"
    using assms(1) pmm_same_fields(7) [OF R(1)] by (simp add: asid_pool_ok_def)
qed

lemma pt_released_refl: "pmm_inv d s \<Longrightarrow> pt_released d {} s s"
  by (simp add: pt_released_def)

lemma arch_pagetable_create_exhausted:
  assumes H: "heap_inv d B s" and pool: "asid_pool_ok B s"
    and room: "2 \<le> card (avail_frames s)" and asid: "find (\<lambda>i. \<not> g_asid_used s ! i) [1..<ASID_POOL_SIZE] = None"
  obtains B' t where "arch_pagetable_create s = Ret NULL t" and "heap_inv d B' t"
    and "\<And>j. heap_live B' j = heap_live B j" and "blocks_same B s t" and "\<exists>p. avail_frames s - {p} \<subseteq> avail_frames t"
    and "g_asid_used t = g_asid_used s"
proof -
  obtain x f B1 t1 t2 where K: "kmalloc 16 s = Ret (x + 16) t1" "alloc_table_page t1 = Ret f t2"
    "x + 16 \<noteq> NULL" "f \<noteq> 0" "heap_inv d B1 t2" "block_ok B1 0 x 16 t2" "asid_pool_ok B1 t2"
    "f \<in> avail_frames s" "f \<in> managed_frames t2" "f \<notin> avail_frames t2" "avail_frames t2 \<subseteq> avail_frames s"
    "\<exists>p. avail_frames s - {p} \<subseteq> insert f (avail_frames t2)" "bitmap_region t2 \<inter> region f 4096 = {}" "page f"
    "\<forall>y \<in> region f 4096. mem t2 y = 0" "region (x + 16) 16 \<inter> region f 4096 = {}"
    "\<forall>j < 8. f \<notin> set (fst (B1 ! j)) \<and> region (kmalloc_caches t2 ! j) 32 \<inter> region f 4096 = {}"
    "x \<notin> heap_live B 0" "heap_live B1 0 = insert x (heap_live B 0)"
    "\<And>j. j \<noteq> 0 \<Longrightarrow> heap_live B1 j = heap_live B j" "blocks_same B s t2"
    "g_asid_used t2 = g_asid_used s" "io_hist t2 = io_hist s" "region (g_asid_lock t2) 4 \<inter> region f 4096 = {}"
    by (rule root_and_table [OF H pool room]) (rule that; assumption)
  have "pmm_inv d t2" using heap_mm_ok [OF K(5)] by (simp add: mm_ok_def)
  from pt_released_frame [OF pt_released_refl [OF this] K(9)]
  have r: "pt_released d {f} t2 (pmm_free_frame f t2)" .
  let ?u = "pmm_free_frame f t2"
  have "\<forall>a \<in> {f}. bitmap_region t2 \<inter> region a 4096 = {} \<and>
      (\<forall>i < 8. a \<notin> set (fst (B1 ! i)) \<and> region (kmalloc_caches t2 ! i) 32 \<inter> region a 4096 = {})"
    using K(13,17) by simp
  note U = heap_released [OF K(5) r this]
  from kfree_small_frame [OF U(1) U(2) [OF K(6)]] obtain B' t where
    F: "kfree (x + 16) ?u = Ret () t" "heap_inv d B' t" "heap_live B' 0 = heap_live B1 0 - {x}"
    "\<And>j. j \<noteq> 0 \<Longrightarrow> heap_live B' j = heap_live B1 j" "blocks_same B' ?u t" "upper_same ?u t"
    "avail_frames t = avail_frames ?u" by metis
  have live: "heap_live B' j = heap_live B j" for j using F(3,4) K(18-20) by (cases "j = 0") auto
  have "asid_alloc t2 = Ret (-1) t2" using K(7) asid K(22) by (simp add: asid_alloc_eq asid_pool_ok_def)
  moreover have "kfree_sized (x + 16) 16 ?u = kfree (x + 16) ?u"
    using kfree_sized_root [OF U(2) [OF K(6)] K(3)] heap_cache_not_null [OF U(1), of 0] by simp
  ultimately have "arch_pagetable_create s = Ret NULL t"
    using K(1-4) F(1) by (simp add: arch_pagetable_create_def free_table_page_def Let_def)
  moreover have "blocks_same B s t"
    unfolding blocks_same_def
  proof (intro allI impI ballI)
    fix j w y assume j: "j < 8" "w \<in> heap_live B j" "y \<in> region w (block_size j)"
    have "mem t y = mem ?u y" using F(5) j live by (simp add: blocks_same_def)
    also have "\<dots> = mem t2 y" using U(3) [OF j(1) _ j(3)] j(2) K(19,20) by (cases "j = 0") auto
    also have "\<dots> = mem s y" using K(21) j by (simp add: blocks_same_def)
    finally show "mem t y = mem s y" .
  qed
  moreover have "avail_frames t = insert f (avail_frames t2)" using F(7) r by (simp add: pt_released_def)
  moreover have "g_asid_used t = g_asid_used s"
    using F(6) lock_released(2) [OF K(7) r] K(22) by (simp add: upper_same_def)
  moreover have "\<exists>p. avail_frames s - {p} \<subseteq> avail_frames t" using K(12) calculation(3) by simp
  ultimately show thesis using F(2) live by (intro that [of t B'])
qed

lemma arch_pagetable_destroy_ok:
  assumes own: "a64_owned d B x T s"
  obtains B' t where "arch_pagetable_destroy (x + 16) s = Ret () t" and "heap_inv d B' t"
    and "heap_live B' 0 = heap_live B 0 - {x}" and "\<And>j. j \<noteq> 0 \<Longrightarrow> heap_live B' j = heap_live B j"
    and "blocks_same B' s t" and "avail_frames t = avail_frames s \<union> ran T"
    and "g_asid_used t = (g_asid_used s)[unat (load16 s (root_asid (x + 16))) := False]"
proof -
  let ?r = "x + 16"
  have H: "heap_inv d B s" and b: "block_ok B 0 x 16 s" and sp: "a64_space d ?r T s" and pool: "asid_pool_ok B s"
    and man: "ran T \<subseteq> managed_frames s"
    and sep: "\<forall>a \<in> ran T. \<forall>i < 8. a \<notin> set (fst (B ! i)) \<and> region (kmalloc_caches s ! i) 32 \<inter> region a 4096 = {}"
    using own by (auto simp: a64_owned_def)
  note inv = a64_spaceD(1) [OF sp]
  have "pmm_inv d s" using heap_mm_ok [OF H] by (simp add: mm_ok_def)
  from free_table_recursive_ok [OF inv man pt_released_refl [OF this] a64_spaceD(2) [OF sp], of 3]
  have r: "pt_released d (ran T) s (free_table_recursive 3 (load64 s (root_ttbr0 ?r)) s)"
    by (simp add: pt_below_root)
  let ?u = "free_table_recursive 3 (load64 s (root_ttbr0 ?r)) s"
  have "\<forall>a \<in> ran T. bitmap_region s \<inter> region a 4096 = {} \<and>
      (\<forall>i < 8. a \<notin> set (fst (B ! i)) \<and> region (kmalloc_caches s ! i) 32 \<inter> region a 4096 = {})"
    using sep inv by (auto simp: pt_inv_def)
  note U = heap_released [OF H r this]
  let ?asid = "load16 s (root_asid ?r)"
  have "load16 ?u (root_asid ?r) = ?asid"
    unfolding load16_def
  proof (rule load_cong)
    fix y assume "y \<in> region (root_asid ?r) 2"
    then have "y \<notin> bitmap_region s" using root_regions(2) [of ?r] sp unfolding a64_space_def by blast
    then show "mem ?u y = mem s y" using r by (simp add: pt_released_def)
  qed simp
  then have af: "asid_free (load16 ?u (root_asid ?r)) ?u = Ret () (?u\<lparr>g_asid_used := (g_asid_used s)[unat ?asid := False]\<rparr>)"
    using asid_free_eq [OF lock_released(1) [OF pool r]] lock_released(2) [OF pool r] by simp
  let ?v = "?u\<lparr>g_asid_used := (g_asid_used s)[unat ?asid := False]\<rparr>"
  have Hv: "heap_inv d B ?v"
    using U(1) unfolding heap_inv_def slab_inv_def slab_sep_def by (simp add: bitmap_region_def)
  have bv: "block_ok B 0 x 16 ?v" using U(2) [OF b] by (simp add: block_ok_def)
  from kfree_small_frame [OF Hv bv] obtain B' t where
    F: "kfree ?r ?v = Ret () t" "heap_inv d B' t" "heap_live B' 0 = heap_live B 0 - {x}"
    "\<And>j. j \<noteq> 0 \<Longrightarrow> heap_live B' j = heap_live B j" "blocks_same B' ?v t" "upper_same ?v t"
    "avail_frames t = avail_frames ?v" by metis
  have "kfree_sized ?r 16 ?v = kfree ?r ?v"
    using kfree_sized_root [OF bv block_not_null [OF Hv bv]] heap_cache_not_null [OF Hv, of 0] by simp
  then have "arch_pagetable_destroy ?r s = Ret () t" using af F(1) by (simp add: arch_pagetable_destroy_def Let_def)
  moreover have "blocks_same B' s t"
    unfolding blocks_same_def
  proof (intro allI impI ballI)
    fix j w y assume j: "j < 8" "w \<in> heap_live B' j" "y \<in> region w (block_size j)"
    have "w \<in> heap_live B j" using j(2) F(3,4) by (cases "j = 0") auto
    then have "mem ?u y = mem s y" by (rule U(3) [OF j(1) _ j(3)])
    then show "mem t y = mem s y" using F(5) j by (simp add: blocks_same_def)
  qed
  moreover have "avail_frames t = avail_frames s \<union> ran T" using F(7) r by (simp add: pt_released_def)
  moreover have "g_asid_used t = (g_asid_used s)[unat ?asid := False]" using F(6) by (simp add: upper_same_def)
  ultimately show thesis using F(2-4) by (intro that)
qed

subsection \<open>The life of an address space\<close>

text \<open>Calls of \<^verbatim>\<open>arch_map_page\<close> and \<^verbatim>\<open>arch_unmap_page\<close> that return, in any order.\<close>

inductive a64_run :: "u64 \<Rightarrow> kstate \<Rightarrow> kstate \<Rightarrow> bool" for r :: u64 and s :: kstate where
  start: "a64_run r s s"
| map: "a64_run r s t \<Longrightarrow> arch_map_page r va phys prot t = Ret e u \<Longrightarrow> a64_run r s u"
| unmap: "a64_run r s t \<Longrightarrow> arch_unmap_page r va t = Ret e u \<Longrightarrow> a64_run r s u"

text \<open>Whatever a descent is for, its caller changes at most one leaf.\<close>

lemma a64_call_mapped:
  assumes sp: "a64_space d r T s"
    and call: "arch_map_page r va phys prot s = Ret e u \<or> arch_unmap_page r va s = Ret e u"
  shows "\<exists>K L T'. pt_mapped a64_format d (load64 s (root_ttbr0 r)) K L T s T' (u\<lparr>io_hist := io_hist s\<rparr>)"
proof -
  let ?root = "load64 s (root_ttbr0 r)" and ?i = "unat (level_index va 3)"
  have same: "\<exists>K L T'. pt_mapped a64_format d ?root K L T s T' (t\<lparr>io_hist := io_hist s\<rparr>)"
    if g: "pt_grown a64_format d ?root K T s T' t" for K T' t
  proof -
    have "t\<lparr>io_hist := io_hist s\<rparr> = t" using pmm_same_fields(4) [OF pt_grownD(2) [OF g]] by simp
    then show ?thesis using pt_grown_mapped [OF g] by metis
  qed
  from a64_walk [OF sp, of va] consider
    (found) a T' t where "walk_create 3 ?root va s = Ret (pt_entry a ?i) t" "pt_entry a ?i \<noteq> NULL"
      "T' (take 3 (a64_path va)) = Some a" "pt_grown a64_format d ?root (a64_keys 3 va) T s T' t"
    | (oom) T' t where "walk_create 3 ?root va s = Ret NULL t" "pt_grown a64_format d ?root (a64_keys 3 va) T s T' t"
    | (halt) t where "walk_create 3 ?root va s = Halt t" by metis
  then show ?thesis
  proof cases
    case found
    have set: "\<exists>K L T'. pt_mapped a64_format d ?root K L T s T'
        (tlb_invalidate_va_asid va (load16 (store64 (pt_entry a ?i) e t) (root_asid r)) (store64 (pt_entry a ?i) e t)\<lparr>io_hist := io_hist s\<rparr>)" for e
    proof -
      obtain w where w: "w = tlb_invalidate_va_asid va (load16 s (root_asid r)) (store64 (pt_entry a ?i) e t)"
        "load16 (store64 (pt_entry a ?i) e t) (root_asid r) = load16 s (root_asid r)"
        "\<exists>L. pt_mapped a64_format d ?root (a64_keys 3 va) L T s T' (w\<lparr>io_hist := io_hist s\<rparr>)"
        by (rule a64_set_entry [OF sp found(4,3), of e]) (rule that; assumption)
      then show ?thesis by auto
    qed
    from call show ?thesis
    proof
      assume "arch_map_page r va phys prot s = Ret e u"
      then show ?thesis using arch_map_page_eq [OF found(1,2), of phys prot] set [of "a64_leaf phys prot"] by (simp add: Let_def)
    next
      assume "arch_unmap_page r va s = Ret e u"
      then show ?thesis
        using found(1,2) set [of 0] same [OF found(4)] by (auto simp: arch_unmap_page_def Let_def split: if_splits)
    qed
  next
    case oom
    then show ?thesis using call same [OF oom(2)] by (auto simp: arch_map_page_def arch_unmap_page_def)
  next
    case halt
    then show ?thesis using call by (auto simp: arch_map_page_def arch_unmap_page_def)
  qed
qed

text \<open>Tables and free frames exchange, nothing is lost.\<close>

lemma pt_mapped_frames:
  assumes inv: "pt_inv F d root T s" and m: "pt_mapped F d root K L T s T' t"
  shows "ran T' \<union> avail_frames t = ran T \<union> avail_frames s"
proof -
  note D = pt_mappedD [OF m]
  have count: "card (ran T \<union> avail_frames s) = card (dom T) + card (avail_frames s)" "finite (ran T \<union> avail_frames s)"
    if i: "pt_inv F d root T s" for T s
  proof -
    note R = pt_invD(2) [OF i]
    have f: "finite (dom T)" using pt_finite [OF R] .
    have "ran T = (the \<circ> T) ` dom T" by (force simp: ran_def dom_def)
    moreover have "inj_on (the \<circ> T) (dom T)" using pt_repD(2) [OF R] by (auto simp: inj_on_def dom_def)
    ultimately have "card (ran T) = card (dom T)" using card_image by metis
    moreover have "ran T \<inter> avail_frames s = {}" using pt_invD(3) [OF i] by (auto simp: ran_def)
    moreover have "finite (ran T)" using f by (rule finite_ran)
    ultimately show "card (ran T \<union> avail_frames s) = card (dom T) + card (avail_frames s)" "finite (ran T \<union> avail_frames s)"
      using finite_avail [of s] by (simp_all add: card_Un_disjoint)
  qed
  have "ran T' \<union> avail_frames t \<subseteq> ran T \<union> avail_frames s" using D(3,6) by blast
  moreover have "card (ran T' \<union> avail_frames t) = card (ran T \<union> avail_frames s)"
    using count(1) [OF inv] count(1) [OF D(1)] D(7) by simp
  ultimately show ?thesis using count(2) [OF inv] by (intro card_subset_eq)
qed

lemma a64_owned_hist [simp]: "a64_owned d B x T (s\<lparr>io_hist := h\<rparr>) = a64_owned d B x T s"
proof -
  have "slab_inv d c sz ps fl (s\<lparr>io_hist := h\<rparr>) = slab_inv d c sz ps fl s" for c sz ps fl
    by (simp add: slab_inv_def slab_sep_def bitmap_region_def)
  then show ?thesis
    by (simp add: a64_owned_def heap_inv_def block_ok_def asid_pool_ok_def heap_spares_def bitmap_region_def
        managed_frames_def frame_addr_def)
qed

lemma avail_managed: "avail_frames s \<subseteq> managed_frames s"
  using free_set_bound by (auto simp: avail_frames_def managed_frames_def)

lemma a64_owned_mapped:
  assumes own: "a64_owned d B x T s" and m: "pt_mapped a64_format d (load64 s (root_ttbr0 (x + 16))) K L T s T' t"
  shows "a64_owned d B x T' t" and "blocks_same B s t"
proof -
  note D = pt_mappedD [OF m]
  have H: "heap_inv d B s" and b: "block_ok B 0 x 16 s" and sp: "a64_space d (x + 16) T s" and pool: "asid_pool_ok B s"
    and man: "ran T \<subseteq> managed_frames s"
    and sep: "\<And>a i. a \<in> ran T \<Longrightarrow> i < 8 \<Longrightarrow> a \<notin> set (fst (B ! i)) \<and> region (kmalloc_caches s ! i) 32 \<inter> region a 4096 = {}"
    using own by (simp_all add: a64_owned_def)
  note F = pmm_same_fields [OF D(2)]
  have pages: "region p 4096 \<inter> region a 4096 = {}" if "i < 8" "p \<in> set (fst (B ! i))" "a \<in> ran T" for i p a
  proof (rule pages_disjoint)
    show "page p" using heap_free_apart(6) [OF H that(1,2)] .
    show "page a" using that(3) pt_repD(6) [OF pt_invD(2) [OF a64_spaceD(1) [OF sp]]] by (auto simp: ran_def)
    show "p \<noteq> a" using sep [OF that(3,1)] that(2) by blast
  qed
  have keep1: "mem t y = mem s y" if "i < 8" "y \<in> region (kmalloc_caches s ! i) 32" for i y
    using heap_free_apart(1,2) [OF H that(1)] sep that by (intro D(9)) blast+
  have keep2: "mem t y = mem s y" if "i < 8" "p \<in> set (fst (B ! i))" "y \<in> region p 4096" for i p y
    using heap_free_apart(3,4) [OF H that(1,2)] pages [OF that(1,2)] that(3) by (intro D(9)) blast+
  have Ht: "heap_inv d B t"
    by (rule heap_inv_spared [OF H pt_invD(1) [OF D(1)] F(8,10,9) _ keep1 keep2]) (use D(3) in auto)
  show bs: "blocks_same B s t"
    unfolding blocks_same_def using keep2 heap_live_page by blast
  have bt: "block_ok B 0 x 16 t"
  proof (rule block_ok_same [OF b _ F(10)])
    show "x \<in> heap_live B 0" using b by (simp add: block_ok_def)
    then show "mem t y = mem s y" if "y \<in> region x (block_size 0)" for y
      using that bs unfolding blocks_same_def by (metis zero_less_numeral)
  qed
  have av: "avail_frames t \<subseteq> avail_frames s" and rn: "ran T' \<subseteq> ran T \<union> avail_frames s" using D(3,6) by blast+
  have lock: "region (g_asid_lock s) 4 \<inter> region a 4096 = {}" if "a \<in> ran T \<union> avail_frames s" for a
    using that own pool unfolding a64_owned_def asid_pool_ok_def heap_spares_def by blast
  have lk: "mem t y = mem s y" if "y \<in> region (g_asid_lock s) 4" for y
    using that pool lock unfolding asid_pool_ok_def heap_spares_def by (intro D(9)) blast+
  have "read32 (mem t) (g_asid_lock s) = read32 (mem s) (g_asid_lock s)" by (rule read32_cong) (rule lk)
  then have pool': "asid_pool_ok B t"
    using pool F(6-8,10) av unfolding asid_pool_ok_def heap_spares_def by (simp add: subset_iff)
  have sep': "a \<notin> set (fst (B ! i)) \<and> region (kmalloc_caches t ! i) 32 \<inter> region a 4096 = {}"
    if "a \<in> ran T'" "i < 8" for a i
    using that rn sep heap_free_apart(1,5) [OF H that(2)] F(10) by fastforce
  have lock': "region (g_asid_lock t) 4 \<inter> region a 4096 = {}" if "a \<in> ran T'" for a
    using that lock [of a] rn F(7) by auto
  have "ran T' \<subseteq> managed_frames t" using rn man avail_managed managed_same [OF D(2)] by blast
  then show "a64_owned d B x T' t"
    unfolding a64_owned_def using Ht bt a64_space_step(1) [OF sp m] pool' sep' lock' by simp
qed

lemma a64_call_owned:
  assumes own: "a64_owned d B x T s"
    and call: "arch_map_page (x + 16) va phys prot s = Ret e u \<or> arch_unmap_page (x + 16) va s = Ret e u"
  shows "\<exists>T'. a64_owned d B x T' u \<and> ran T' \<union> avail_frames u = ran T \<union> avail_frames s \<and>
    load16 u (root_asid (x + 16)) = load16 s (root_asid (x + 16)) \<and> g_asid_used u = g_asid_used s \<and> blocks_same B s u"
proof -
  have sp: "a64_space d (x + 16) T s" using own by (simp add: a64_owned_def)
  obtain K L T' where m: "pt_mapped a64_format d (load64 s (root_ttbr0 (x + 16))) K L T s T' (u\<lparr>io_hist := io_hist s\<rparr>)"
    using a64_call_mapped [OF sp call] by blast
  have "a64_owned d B x T' u" "blocks_same B s u" using a64_owned_mapped [OF own m] by (simp_all add: blocks_same_def)
  moreover have "ran T' \<union> avail_frames u = ran T \<union> avail_frames s"
    using pt_mapped_frames [OF a64_spaceD(1) [OF sp] m] by simp
  moreover have "load16 u (root_asid (x + 16)) = load16 s (root_asid (x + 16))"
    using a64_space_step(3) [OF sp m] by (simp add: load16_def)
  moreover have "g_asid_used u = g_asid_used s" using pmm_same_fields(6) [OF pt_mappedD(2) [OF m]] by simp
  ultimately show ?thesis by blast
qed

lemma owned_step:
  assumes "\<exists>T'. a64_owned d B x T' t \<and> ran T' \<union> avail_frames t = F \<and> load16 t (root_asid (x + 16)) = a \<and>
      g_asid_used t = g \<and> blocks_same B s t"
    and call: "arch_map_page (x + 16) va phys prot t = Ret e u \<or> arch_unmap_page (x + 16) va t = Ret e u"
  shows "\<exists>T'. a64_owned d B x T' u \<and> ran T' \<union> avail_frames u = F \<and> load16 u (root_asid (x + 16)) = a \<and>
      g_asid_used u = g \<and> blocks_same B s u"
proof -
  obtain T1 where T1: "a64_owned d B x T1 t" "ran T1 \<union> avail_frames t = F" "load16 t (root_asid (x + 16)) = a"
    "g_asid_used t = g" "blocks_same B s t"
    using assms(1) by (elim exE conjE)
  obtain T2 where T2: "a64_owned d B x T2 u" "ran T2 \<union> avail_frames u = ran T1 \<union> avail_frames t"
    "load16 u (root_asid (x + 16)) = load16 t (root_asid (x + 16))" "g_asid_used u = g_asid_used t" "blocks_same B t u"
    using a64_call_owned [OF T1(1) call] by (elim exE conjE)
  have "blocks_same B s u" using T1(5) T2(5) by (rule blocks_same_trans)
  then show ?thesis using T1 T2 by (intro exI [of _ T2]) simp
qed

lemma a64_run_owned:
  assumes "a64_run (x + 16) s t" and "a64_owned d B x T s"
  shows "\<exists>T'. a64_owned d B x T' t \<and> ran T' \<union> avail_frames t = ran T \<union> avail_frames s \<and>
    load16 t (root_asid (x + 16)) = load16 s (root_asid (x + 16)) \<and> g_asid_used t = g_asid_used s \<and> blocks_same B s t"
  using assms
proof (induction rule: a64_run.induct)
  case start
  then show ?case by (auto simp: blocks_same_def)
next
  case (map t va phys prot e u)
  then have "arch_map_page (x + 16) va phys prot t = Ret e u \<or> arch_unmap_page (x + 16) va t = Ret e u" by blast
  with map.IH [OF map.prems] show ?case by (rule owned_step)
next
  case (unmap t va e u)
  then have "arch_map_page (x + 16) va 0 0 t = Ret e u \<or> arch_unmap_page (x + 16) va t = Ret e u" by blast
  with unmap.IH [OF unmap.prems] show ?case by (rule owned_step)
qed

section \<open>Properties\<close>

lemma find_asid:
  "find (\<lambda>i. \<not> u ! i) [1..<ASID_POOL_SIZE] = Some i \<longleftrightarrow>
     1 \<le> i \<and> i < 256 \<and> \<not> u ! i \<and> (\<forall>j. 1 \<le> j \<and> j < i \<longrightarrow> u ! j)"
  "find (\<lambda>i. \<not> u ! i) [1..<ASID_POOL_SIZE] = None \<longleftrightarrow> (\<forall>j. 1 \<le> j \<and> j < 256 \<longrightarrow> u ! j)"
proof -
  show "find (\<lambda>i. \<not> u ! i) [1..<ASID_POOL_SIZE] = None \<longleftrightarrow> (\<forall>j. 1 \<le> j \<and> j < 256 \<longrightarrow> u ! j)"
    by (auto simp: find_None_iff ASID_POOL_SIZE_def)
  show "find (\<lambda>i. \<not> u ! i) [1..<ASID_POOL_SIZE] = Some i \<longleftrightarrow>
      1 \<le> i \<and> i < 256 \<and> \<not> u ! i \<and> (\<forall>j. 1 \<le> j \<and> j < i \<longrightarrow> u ! j)" (is "?L \<longleftrightarrow> ?R")
  proof
    assume ?L
    then obtain k where k: "k < 255" "\<not> u ! (Suc k)" "i = Suc k" "\<forall>j < k. u ! Suc j"
      by (auto simp: find_Some_iff ASID_POOL_SIZE_def)
    have "u ! j" if "1 \<le> j" "j < i" for j using k(3,4) that by (cases j) auto
    then show ?R using k by simp
  next
    assume R: ?R
    then have "\<forall>j < i - 1. u ! Suc j" by auto
    then show ?L using R by (auto simp: find_Some_iff ASID_POOL_SIZE_def intro!: exI [of _ "i - 1"])
  qed
qed

text \<open>A machine for demonstration: a started heap, no identifier in use.\<close>

lemma a64_demo:
  obtains s where "heap_inv 0 (replicate 8 ([], [])) s" and "asid_pool_ok (replicate 8 ([], [])) s"
    and "\<forall>f \<in> avail_frames s. unat f < 2 ^ 48" and "15 \<le> card (avail_frames s)"
    and "g_asid_used s = replicate 256 False"
proof -
  obtain t where t: "heap_inv 0 (replicate 8 ([], [])) t" "15 \<le> card (avail_frames t)" "others_same heap_boot t"
    "avail_frames t \<subseteq> avail_frames pmm_demo"
    "\<forall>i < 8. \<exists>p \<in> avail_frames pmm_demo. region (kmalloc_caches t ! i) 32 \<subseteq> region p 4096"
    by (rule heap_demo)
  let ?B = "replicate 8 ([], []) :: (u64 list \<times> u64 list) list"
  let ?s = "t\<lparr>mem := write32 (mem t) 0 0\<rparr>"
  have g: "g_asid_used t = replicate 256 False" "g_asid_lock t = 0" "bitmap_region t = bitmap_region pmm_demo"
    using t(3) by (simp_all add: others_same_def heap_boot_def pmm_demo_def reset_state_def bitmap_region_def)
  have frame: "y \<notin> region f 4096" if "y \<in> region 0 4" "f \<in> avail_frames pmm_demo" for y f
    using that pmm_demo_avail [OF that(2)] by (auto simp: in_region_unat)
  have bm: "y \<notin> bitmap_region t" if "y \<in> region 0 4" for y
    using that pmm_demo_bitmap unfolding g(3) by (fastforce simp: in_region_unat)
  have cache: "y \<notin> region (kmalloc_caches t ! i) 32" if "y \<in> region 0 4" "i < 8" for y i
    using t(5) frame [OF that(1)] that(2) by blast
  have out: "mem ?s y = mem t y" if "y \<notin> region 0 4" for y using that by (simp add: write32_outside)
  have av: "avail_frames ?s = avail_frames t" using bm out by (intro avail_frames_mem_cong) auto
  have ok: "mm_ok 0 ?s" using mm_ok_mem_cong [of t "mem ?s" 0] bm out heap_mm_ok [OF t(1)] by auto
  have "heap_inv 0 ?B ?s"
    by (rule heap_inv_spared [OF t(1) ok]) (use av cache out in \<open>auto simp: bitmap_region_def\<close>)
  moreover have "heap_spares ?B ?s y" if "y \<in> region 0 4" for y
    unfolding heap_spares_def av using cache [OF that] bm [OF that] frame [OF that] t(4) by (auto simp: bitmap_region_def)
  then have "asid_pool_ok ?B ?s" using g by (simp add: asid_pool_ok_def mem_simps)
  moreover have "\<forall>f \<in> avail_frames ?s. unat f < 2 ^ 48" unfolding av using t(4) pmm_demo_avail by fastforce
  ultimately show thesis using t(2) g(1) av by (intro that [of ?s]) simp_all
qed

text \<open>An address space for demonstration.\<close>

lemma a64_created_demo:
  obtains s x f B' t where "heap_inv 0 (replicate 8 ([], [])) s" and "asid_pool_ok (replicate 8 ([], [])) s"
    and "\<forall>f \<in> avail_frames s. unat f < 2 ^ 48" and "2 \<le> card (avail_frames s)"
    and "arch_pagetable_create s = Ret (x + 16) t" and "a64_owned 0 B' x [[] \<mapsto> f] t"
    and "\<And>ix. pt_path a64_format ix \<Longrightarrow> pt_lookup a64_format [[] \<mapsto> f] (mem t) ix = None"
    and "\<And>va. card (a64_keys 3 va - dom [[] \<mapsto> f]) \<le> card (avail_frames t)"
proof -
  obtain s where s: "heap_inv 0 (replicate 8 ([], [])) s" "asid_pool_ok (replicate 8 ([], [])) s"
    "\<forall>f \<in> avail_frames s. unat f < 2 ^ 48" "15 \<le> card (avail_frames s)" "g_asid_used s = replicate 256 False"
    by (rule a64_demo)
  have c: "2 \<le> card (avail_frames s)" using s(4) by simp
  obtain i where i: "find (\<lambda>i. \<not> g_asid_used s ! i) [1..<ASID_POOL_SIZE] = Some i"
    using s(5) by (simp add: ASID_POOL_SIZE_def upt_conv_Cons)
  obtain x f B' t where t: "arch_pagetable_create s = Ret (x + 16) t" "a64_owned 0 B' x [[] \<mapsto> f] t"
    "\<And>ix. pt_path a64_format ix \<Longrightarrow> pt_lookup a64_format [[] \<mapsto> f] (mem t) ix = None"
    "\<exists>p. avail_frames s - {p} \<subseteq> insert f (avail_frames t)"
    by (rule arch_pagetable_create_ok [OF s(1-3) c i]) (rule that; assumption)
  obtain p where "avail_frames s \<subseteq> avail_frames t \<union> {p, f}" using t(4) by blast
  then have "card (avail_frames s) \<le> card (avail_frames t \<union> {p, f})" by (intro card_mono) simp_all
  also have "\<dots> \<le> card (avail_frames t) + card {p, f}" by (rule card_Un_le)
  also have "\<dots> \<le> card (avail_frames t) + 2" by (simp add: card_insert_if)
  finally have "10 \<le> card (avail_frames t)" using s(4) by simp
  moreover have "card (a64_keys 3 va - dom [[] \<mapsto> f]) \<le> card (a64_keys 3 va)" for va by (intro card_mono) simp_all
  moreover have "card (a64_keys 3 va) \<le> card {3 - 3<..3 :: nat}" for va unfolding a64_keys_def by (rule card_image_le) simp
  ultimately have "card (a64_keys 3 va - dom [[] \<mapsto> f]) \<le> card (avail_frames t)" for va
    using le_trans [of "card (a64_keys 3 va - dom [[] \<mapsto> f])" "card (a64_keys 3 va)" 3] by simp
  then show thesis using s(1-3) c t(1-3) by (intro that)
qed

text \<open>
  C20: a new address space. \<^verbatim>\<open>arch_pagetable_create\<close> takes the least unused identifier from 1 to
  255 and returns a root structure, a new heap block with that identifier and an empty tree of
  tables; when all are in use it returns a null pointer and has given the block and the table
  back. Every block allocated before keeps its bytes.
\<close>

theorem arch_pagetable_create_decides:
  assumes "heap_inv d B s" and "asid_pool_ok B s" and "\<forall>f \<in> avail_frames s. unat f < 2 ^ 48"
    and "2 \<le> card (avail_frames s)"
  shows "if \<exists>i \<in> {1..<256}. \<not> g_asid_used s ! i
    then \<exists>i x f B' t. 1 \<le> i \<and> i < 256 \<and> \<not> g_asid_used s ! i \<and> (\<forall>j. 1 \<le> j \<and> j < i \<longrightarrow> g_asid_used s ! j) \<and>
      arch_pagetable_create s = Ret (x + 16) t \<and> a64_owned d B' x [[] \<mapsto> f] t \<and> x \<notin> heap_live B 0 \<and>
      (\<forall>ix. pt_path a64_format ix \<longrightarrow> pt_lookup a64_format [[] \<mapsto> f] (mem t) ix = None) \<and>
      load16 t (root_asid (x + 16)) = of_nat i \<and> g_asid_used t = (g_asid_used s)[i := True] \<and> blocks_same B s t
    else \<exists>B' t. arch_pagetable_create s = Ret NULL t \<and> heap_inv d B' t \<and> (\<forall>j. heap_live B' j = heap_live B j) \<and>
      blocks_same B s t \<and> (\<exists>p. avail_frames s - {p} \<subseteq> avail_frames t) \<and> g_asid_used t = g_asid_used s"
proof (cases "find (\<lambda>i. \<not> g_asid_used s ! i) [1..<ASID_POOL_SIZE]")
  case None
  then have "\<not> (\<exists>i \<in> {1..<256}. \<not> g_asid_used s ! i)" unfolding find_asid(2) by auto
  moreover obtain B' t where "arch_pagetable_create s = Ret NULL t" "heap_inv d B' t"
    "\<And>j. heap_live B' j = heap_live B j" "blocks_same B s t" "\<exists>p. avail_frames s - {p} \<subseteq> avail_frames t"
    "g_asid_used t = g_asid_used s"
    by (rule arch_pagetable_create_exhausted [OF assms(1,2,4) None]) (rule that; assumption)
  ultimately show ?thesis by auto
next
  case (Some i)
  then have i: "1 \<le> i" "i < 256" "\<not> g_asid_used s ! i" "\<forall>j. 1 \<le> j \<and> j < i \<longrightarrow> g_asid_used s ! j" unfolding find_asid(1) by auto
  then have "\<exists>i \<in> {1..<256}. \<not> g_asid_used s ! i" by (intro bexI [of _ i]) simp_all
  moreover obtain x f B' t where "arch_pagetable_create s = Ret (x + 16) t" "a64_owned d B' x [[] \<mapsto> f] t"
    "\<And>ix. pt_path a64_format ix \<Longrightarrow> pt_lookup a64_format [[] \<mapsto> f] (mem t) ix = None"
    "load16 t (root_asid (x + 16)) = of_nat i" "g_asid_used t = (g_asid_used s)[i := True]" "x \<notin> heap_live B 0" "blocks_same B s t"
    by (rule arch_pagetable_create_ok [OF assms Some]) (rule that; assumption)
  ultimately show ?thesis using i by (simp only: if_True) blast
qed

theorem arch_pagetable_create_decides_witness:
  "\<exists>s x t. arch_pagetable_create s = Ret (x + 16) t \<and> g_asid_used t = (replicate 256 False)[1 := True] \<and>
     load16 t (root_asid (x + 16)) = 1"
proof -
  obtain s where s: "heap_inv 0 (replicate 8 ([], [])) s" "asid_pool_ok (replicate 8 ([], [])) s"
    "\<forall>f \<in> avail_frames s. unat f < 2 ^ 48" "15 \<le> card (avail_frames s)" "g_asid_used s = replicate 256 False"
    by (rule a64_demo)
  have "\<exists>i \<in> {1..<256}. \<not> g_asid_used s ! i" using s(5) by (intro bexI [of _ 1]) simp_all
  moreover have "2 \<le> card (avail_frames s)" using s(4) by simp
  ultimately obtain i x t where t: "1 \<le> i" "\<forall>j. 1 \<le> j \<and> j < i \<longrightarrow> g_asid_used s ! j" "i < 256"
    "arch_pagetable_create s = Ret (x + 16) t" "load16 t (root_asid (x + 16)) = of_nat i" "g_asid_used t = (g_asid_used s)[i := True]"
    using arch_pagetable_create_decides [OF s(1-3)] by (simp only: if_True) blast
  have "\<not> 1 < i" using spec [OF t(2), of 1] s(5) by auto
  then have "i = 1" using t(1) by simp
  then show ?thesis using t(4-6) s(5) by auto
qed

text \<open>
  C17: no frame, no block and no identifier is lost. After \<^verbatim>\<open>arch_pagetable_create\<close>, any calls of
  \<^verbatim>\<open>arch_map_page\<close> and \<^verbatim>\<open>arch_unmap_page\<close> that return, with success or without, and
  \<^verbatim>\<open>arch_pagetable_destroy\<close>, every frame that was free is free again (but for one page the heap may
  keep for root structures), the identifiers in use are the same, and the heap has the same
  blocks with the same bytes.
\<close>

theorem arch_pagetable_lifecycle:
  assumes "heap_inv d B s" and "asid_pool_ok B s" and "\<forall>f \<in> avail_frames s. unat f < 2 ^ 48"
    and "2 \<le> card (avail_frames s)" and "arch_pagetable_create s = Ret r s1" and "r \<noteq> NULL" and "a64_run r s1 s2"
  shows "\<exists>B' t. arch_pagetable_destroy r s2 = Ret () t \<and> heap_inv d B' t \<and> (\<forall>j. heap_live B' j = heap_live B j) \<and>
    blocks_same B s t \<and> g_asid_used t = g_asid_used s \<and> (\<exists>p. avail_frames s - {p} \<subseteq> avail_frames t)"
proof (cases "find (\<lambda>i. \<not> g_asid_used s ! i) [1..<ASID_POOL_SIZE]")
  case None
  then obtain t where "arch_pagetable_create s = Ret NULL t"
    by (rule arch_pagetable_create_exhausted [OF assms(1,2,4)]) (rule that; assumption)
  then show ?thesis using assms(5,6) by simp
next
  case (Some i)
  then have i: "i < 256" "\<not> g_asid_used s ! i" unfolding find_asid(1) by auto
  obtain x f B1 t1 where c: "arch_pagetable_create s = Ret (x + 16) t1" "a64_owned d B1 x [[] \<mapsto> f] t1"
    "load16 t1 (root_asid (x + 16)) = of_nat i" "g_asid_used t1 = (g_asid_used s)[i := True]"
    "\<exists>p. avail_frames s - {p} \<subseteq> insert f (avail_frames t1)" "x \<notin> heap_live B 0"
    "heap_live B1 0 = insert x (heap_live B 0)" "\<And>j. j \<noteq> 0 \<Longrightarrow> heap_live B1 j = heap_live B j" "blocks_same B s t1"
    by (rule arch_pagetable_create_ok [OF assms(1-4) Some]) (rule that; assumption)
  have r: "r = x + 16" "s1 = t1" using c(1) assms(5) by simp_all
  obtain T where run: "a64_owned d B1 x T s2" "ran T \<union> avail_frames s2 = insert f (avail_frames t1)"
    "load16 s2 (root_asid (x + 16)) = of_nat i" "g_asid_used s2 = (g_asid_used s)[i := True]" "blocks_same B1 t1 s2"
    using a64_run_owned [OF assms(7) [unfolded r] c(2)] c(3,4) by auto
  obtain B' t where e: "arch_pagetable_destroy (x + 16) s2 = Ret () t" "heap_inv d B' t"
    "heap_live B' 0 = heap_live B1 0 - {x}" "\<And>j. j \<noteq> 0 \<Longrightarrow> heap_live B' j = heap_live B1 j" "blocks_same B' s2 t"
    "avail_frames t = avail_frames s2 \<union> ran T" "g_asid_used t = (g_asid_used s2)[unat (load16 s2 (root_asid (x + 16))) := False]"
    by (rule arch_pagetable_destroy_ok [OF run(1)]) (rule that; assumption)
  have live: "heap_live B' j = heap_live B j" for j using e(3,4) c(6-8) by (cases "j = 0") auto
  have live1: "heap_live B j \<subseteq> heap_live B1 j" for j using c(7,8) by (cases "j = 0") auto
  have "unat (of_nat i :: u16) = i" using i(1) by (simp add: unat_of_nat)
  then have "g_asid_used t = ((g_asid_used s)[i := True])[i := False]" using e(7) run(3,4) by simp
  also have "\<dots> = g_asid_used s" using i(2) list_update_id [of "g_asid_used s" i] by simp
  finally have "g_asid_used t = g_asid_used s" .
  moreover have "blocks_same B s t"
    using c(9) run(5) e(5) live live1 unfolding blocks_same_def by (metis subsetD)
  moreover have "\<exists>p. avail_frames s - {p} \<subseteq> avail_frames t" using c(5) run(2) e(6) by (metis Un_commute)
  ultimately show ?thesis using e(1,2) live unfolding r(1) by blast
qed

theorem arch_pagetable_lifecycle_witness:
  "\<exists>s r s1 s2 t. arch_pagetable_create s = Ret r s1 \<and> arch_map_page r 0x400000 0x80005000 6 s1 = Ret 0 s2 \<and>
     arch_pagetable_destroy r s2 = Ret () t \<and> (\<exists>p. avail_frames s - {p} \<subseteq> avail_frames t)"
proof -
  obtain s x f B' t where s: "heap_inv 0 (replicate 8 ([], [])) s" "asid_pool_ok (replicate 8 ([], [])) s"
    "\<forall>f \<in> avail_frames s. unat f < 2 ^ 48" "2 \<le> card (avail_frames s)"
    and t: "arch_pagetable_create s = Ret (x + 16) t" "a64_owned 0 B' x [[] \<mapsto> f] t"
    and room: "\<And>va. card (a64_keys 3 va - dom [[] \<mapsto> f]) \<le> card (avail_frames t)"
    by (rule a64_created_demo) (rule that; assumption)
  have sp: "a64_space 0 (x + 16) [[] \<mapsto> f] t" and b: "heap_inv 0 B' t" "block_ok B' 0 x 16 t" using t(2) by (simp_all add: a64_owned_def)
  obtain u where u: "arch_map_page (x + 16) 0x400000 0x80005000 6 t = Ret 0 u"
    by (rule arch_map_page_ok [OF sp room]) (rule that; assumption)
  have "a64_run (x + 16) t u" using a64_run.map [OF a64_run.start u] .
  from arch_pagetable_lifecycle [OF s t(1) block_not_null [OF b] this] t(1) u show ?thesis by blast
qed

text \<open>
  C18: mapping a page. In an address space with a free frame for each table the address still
  needs, \<^verbatim>\<open>arch_map_page\<close> returns 0 and the address is mapped to the frame: readable at EL0, writable
  exactly with \<^verbatim>\<open>PROT_WRITE\<close>, executable at EL0 exactly with \<^verbatim>\<open>PROT_EXEC\<close> and never at EL1. All other
  addresses are mapped as before, the translation of the address is invalidated last, and no
  memory outside tables, free frames and the frame bitmap changes.
\<close>

theorem arch_map_page_sound:
  assumes "a64_space d r T s" and "card (a64_keys 3 va - dom T) \<le> card (avail_frames s)"
  shows "\<exists>T' t e. arch_map_page r va phys prot s = Ret 0 t \<and> a64_space d r T' t \<and>
    (\<forall>ix. pt_path a64_format ix \<longrightarrow> pt_lookup a64_format T' (mem t) ix =
      (if ix = a64_path va then Some e else pt_lookup a64_format T (mem s) ix)) \<and>
    e AND PTE_ADDR_MASK = PTE_ADDR phys \<and> bit e 6 \<and> (bit e 7 \<longleftrightarrow> prot AND PROT_WRITE = 0) \<and>
    (bit e 54 \<longleftrightarrow> prot AND PROT_EXEC = 0) \<and> bit e 53 \<and>
    io_hist t = Tlbi (push_bit 48 (ucast (load16 s (root_asid r))) OR (drop_bit 12 va AND 0xFFFFFFFFFFF)) # io_hist s \<and>
    (\<forall>y. y \<notin> bitmap_region s \<and> (\<forall>a \<in> ran T. y \<notin> region a 4096) \<and> (\<forall>f \<in> avail_frames s. y \<notin> region f 4096)
      \<longrightarrow> mem t y = mem s y)"
proof -
  obtain T' t where M: "arch_map_page r va phys prot s = Ret 0 t" "a64_space d r T' t"
    "\<And>ix. pt_path a64_format ix \<Longrightarrow> pt_lookup a64_format T' (mem t) ix =
      (if ix = a64_path va then Some (a64_leaf phys prot) else pt_lookup a64_format T (mem s) ix)"
    "io_hist t = Tlbi (push_bit 48 (ucast (load16 s (root_asid r))) OR (drop_bit 12 va AND 0xFFFFFFFFFFF)) # io_hist s"
    "\<And>y. y \<notin> bitmap_region s \<Longrightarrow> \<forall>a \<in> ran T. y \<notin> region a 4096 \<Longrightarrow> \<forall>f \<in> avail_frames s. y \<notin> region f 4096 \<Longrightarrow>
      mem t y = mem s y"
    by (rule arch_map_page_ok [OF assms]) (rule that; assumption)
  show ?thesis
    using M a64_leaf_bits [of phys prot] a64_leaf_addr [of phys prot]
    by (intro exI [of _ T'] exI [of _ t] exI [of _ "a64_leaf phys prot"]) simp
qed

theorem arch_map_page_sound_witness:
  "\<exists>s t r T e. arch_map_page r 0x400000 0x80005000 6 s = Ret 0 t \<and>
     pt_lookup a64_format T (mem t) (a64_path 0x400000) = Some e \<and> e AND PTE_ADDR_MASK = PTE_ADDR 0x80005000 \<and> bit e 53"
proof -
  obtain s x f B' t where t: "a64_owned 0 B' x [[] \<mapsto> f] t"
    and room: "\<And>va. card (a64_keys 3 va - dom [[] \<mapsto> f]) \<le> card (avail_frames t)"
    by (rule a64_created_demo) (rule that; assumption)
  have sp: "a64_space 0 (x + 16) [[] \<mapsto> f] t" using t by (simp add: a64_owned_def)
  from arch_map_page_sound [OF sp room, of "0x400000" "0x80005000" 6] a64_path_ok show ?thesis by metis
qed



end
