(* ===== verification/ObTest.thy ===== *)
theory ObTest
  imports Cap
begin

text \<open>
  The self-test \<^verbatim>\<open>object_test\<close> of \<^verbatim>\<open>base/ob/ob.c\<close> run on the models of the slab allocator, the
  object manager and the capability tables together: on a manager that was just started, with
  clean free frames behind it, every check of the test passes.
\<close>

section \<open>Memory apart from the manager\<close>

text \<open>Memory that is no object, no part of the table of ids, not the table's lock and not the frame bitmap.\<close>

definition ob_apart :: "u32 \<Rightarrow> ob_view \<Rightarrow> kstate \<Rightarrow> u64 set \<Rightarrow> bool" where
  "ob_apart i V s A \<longleftrightarrow>
     A \<inter> (cache_foot (ot_slab (ob_type_for i s)) (vps V) \<union> table_foot (id_table (g_om s)) (vhps V) \<union>
          region (table_lock (g_om s)) 4 \<union> bitmap_region s) = {}"

lemma ob_apart_fields [simp]:
  "ob_apart i V (s\<lparr>uart_out := out\<rparr>) A = ob_apart i V s A"
  "ob_apart i V (s\<lparr>mem := m\<rparr>) A = ob_apart i V s A"
  by (simp_all add: ob_apart_def)

lemma ob_apart_live:
  assumes "ob_apart i V s A" and "x \<in> view_live sz V" and "48 \<le> sz"
  shows "A \<inter> region x 48 = {}"
  using assms slab_live_foot [of x sz "vps V" "ot_slab (ob_type_for i s)"] region_mono [of 48 sz x]
  by (auto simp: ob_apart_def view_live_def)

text \<open>What was free is apart, once the manager does not use it any more.\<close>

lemma ob_inv_pool_apart:
  assumes inv: "ob_inv d sz i V s" and A: "A \<subseteq> (\<Union>f \<in> avail_frames s. region f 4096)"
  shows "ob_apart i V s A"
proof -
  have core: "ob_core d sz i V s" using inv by (simp add: ob_inv_def)
  note D = ob_coreD [OF core]
  have "A \<subseteq> pool_foot s" using A by (auto simp: pool_foot_def)
  moreover have "A \<inter> bitmap_region s = {}" using A D(7) by (fastforce simp: mm_ok_def)
  ultimately show ?thesis
    unfolding ob_apart_def using D(6) slab_foot_pool [OF D(1)] table_foot_pool [OF D(2)] by blast
qed

lemma ob_inv_apart:
  assumes inv: "ob_inv d sz i V s" and t: "mm_ok d t" "bitmap_region t = bitmap_region s" "g_om t = g_om s"
    and av: "avail_frames t \<subseteq> avail_frames s" and A: "ob_apart i V s A"
    and m: "\<And>y. y \<notin> A \<Longrightarrow> y \<notin> bitmap_region s \<Longrightarrow> mem t y = mem s y"
  shows "ob_inv d sz i V t"
proof -
  have core: "ob_core d sz i V s" and lk: "load32 s (table_lock (g_om s)) = 0"
    using inv by (simp_all add: ob_inv_def)
  note D = ob_coreD [OF core]
  have ty: "ob_type_for i t = ob_type_for i s" by (simp add: ob_type_for_def t(3))
  have cache: "mem t y = mem s y" if "y \<in> cache_foot (ot_slab (ob_type_for i s)) (vps V)" for y
    using A that slab_foot_pool [OF D(1)] unfolding ob_apart_def pool_foot_def by (intro m) blast+
  have tab: "mem t y = mem s y" if "y \<in> table_foot (id_table (g_om s)) (vhps V)" for y
    using A that table_foot_pool [OF D(2)] unfolding ob_apart_def pool_foot_def by (intro m) blast+
  have lock: "mem t y = mem s y" if "y \<in> region (table_lock (g_om s)) 4" for y
    using A that D(6) unfolding ob_apart_def pool_foot_def by (intro m) blast+
  have "slab_inv d (ot_slab (ob_type_for i s)) sz (vps V) (vfl V) t"
    using D(1) t(1,2) av cache by (rule slab_inv_elsewhere)
  moreover have "hash_inv d (id_table (g_om s)) (vhps V) (vhfl V) (vN V) t"
    using D(2) t(1,2) av tab by (rule hash_inv_elsewhere)
  moreover have "pool_foot t \<subseteq> pool_foot s" using av t(2) by (auto simp: pool_foot_def)
  moreover have "load32 t (table_lock (g_om s)) = 0" using lk lock read32_cong by metis
  ultimately show ?thesis
    unfolding ob_inv_def ob_core_def ty t(3) using D(3-6,8,9) by blast
qed

lemma ob_inv_apart_mem:
  assumes inv: "ob_inv d sz i V s" and A: "ob_apart i V s A" and m: "\<And>y. y \<notin> A \<Longrightarrow> m y = mem s y"
  shows "ob_inv d sz i V (s\<lparr>mem := m\<rparr>)"
proof -
  have core: "ob_core d sz i V s" using inv by (simp add: ob_inv_def)
  have bm: "m y = mem s y" if "y \<in> bitmap_region s" for y
    using A that by (intro m) (auto simp: ob_apart_def)
  have "mm_ok d (s\<lparr>mem := m\<rparr>)" "avail_frames (s\<lparr>mem := m\<rparr>) = avail_frames s"
    using ob_coreD(7) [OF core] mm_ok_mem_cong [OF bm] avail_frames_mem_cong [OF bm] by simp_all
  then show ?thesis using A m by (intro ob_inv_apart [OF inv]) simp_all
qed

lemma ob_inv_out [simp]: "ob_inv d sz i V (s\<lparr>uart_out := out\<rparr>) = ob_inv d sz i V s"
  by (simp add: ob_inv_def)

section \<open>The end of the test: the last reference, then the last handle\<close>

text \<open>
  The object under test: in use, with one reference and one handle, named by the handle \<open>h\<close> of a
  table at \<open>t\<close> that is apart from the manager.
\<close>

definition under_test :: "nat \<Rightarrow> nat \<Rightarrow> u32 \<Rightarrow> ob_view \<Rightarrow> u64 \<Rightarrow> u64 \<Rightarrow> u32 \<Rightarrow> kstate \<Rightarrow> bool" where
  "under_test d sz i V x t h s \<longleftrightarrow>
     ob_inv d sz i V s \<and> obj_ok sz i V x s \<and> x \<noteq> NULL \<and> ob_apart i V s (region t 65544) \<and>
     load32 s (cap_lock t) = 0 \<and> h < 4096 \<and>
     cap_view t (mem s) h = Some (x, RIGHT_READ, load32 s (obj_generation x)) \<and>
     load32 s (obj_refcount x) = 1 \<and> load32 s (obj_handle_count x) = 1 \<and> mem s (obj_destroyed x) = 0 \<and>
     \<not> g_test_destroyed s"

lemma under_test_out [simp]: "under_test d sz i V x t h (s\<lparr>uart_out := out\<rparr>) = under_test d sz i V x t h s"
  by (simp add: under_test_def obj_ok_def)

lemma under_testD:
  assumes "under_test d sz i V x t h s"
  shows "ob_inv d sz i V s" and "obj_ok sz i V x s" and "ob_apart i V s (region t 65544)"
    and "load32 s (cap_lock t) = 0" and "h < 4096"
    and "cap_view t (mem s) h = Some (x, RIGHT_READ, load32 s (obj_generation x))"
    and "load32 s (obj_refcount x) = 1" and "load32 s (obj_handle_count x) = 1" and "mem s (obj_destroyed x) = 0"
    and "\<not> g_test_destroyed s" and "region t 65544 \<inter> region x 48 = {}" and "x \<in> view_live sz V" and "48 \<le> sz"
    and "load32 s (obj_lock x) = 0" and "load32 s (obj_type_id x) = i"
proof -
  show a: "ob_inv d sz i V s" "obj_ok sz i V x s" "ob_apart i V s (region t 65544)" "load32 s (cap_lock t) = 0" "h < 4096"
    "cap_view t (mem s) h = Some (x, RIGHT_READ, load32 s (obj_generation x))"
    "load32 s (obj_refcount x) = 1" "load32 s (obj_handle_count x) = 1" "mem s (obj_destroyed x) = 0" "\<not> g_test_destroyed s"
    using assms by (simp_all add: under_test_def)
  show l: "x \<in> view_live sz V" "load32 s (obj_lock x) = 0" "load32 s (obj_type_id x) = i" using a(2) by (simp_all add: obj_ok_def)
  show sz: "48 \<le> sz" using a(1) ob_coreD(8) unfolding ob_inv_def by blast
  show "region t 65544 \<inter> region x 48 = {}" by (rule ob_apart_live [OF a(3) l(1) sz])
qed

text \<open>The calls of the test type, if the addresses of its operations lead to the code.\<close>

definition test_callbacks :: "ob_calls \<Rightarrow> u64 \<Rightarrow> u64 \<Rightarrow> bool" where
  "test_callbacks calls create destroy \<longleftrightarrow>
     (create \<noteq> 0 \<longrightarrow> call_create calls create = test_object_create) \<and>
     destroy \<noteq> 0 \<and> call_destroy calls destroy = test_object_destroy"

lemma test_contracts:
  assumes "test_callbacks calls f g"
  shows "create_contract calls f args n 0" and "destroy_contract calls g n"
proof -
  have step: "callback_step n x s (s\<lparr>mem := mem s, uart_out := out, g_test_destroyed := b\<rparr>)" for x s out b
    unfolding callback_step_def by blast
  have "callback_step n x s (s\<lparr>uart_out := out\<rparr>)" "callback_step n x s (s\<lparr>uart_out := out, g_test_destroyed := True\<rparr>)" for x s out
    using step [of x s "g_test_destroyed s" out] step [of x s True out] by simp_all
  then show "create_contract calls f args n 0" "destroy_contract calls g n"
    using assms by (simp_all add: test_callbacks_def create_contract_def destroy_contract_def test_object_create_def
        test_object_destroy_def klog_info_eq)
qed

lemma load32_apart:
  assumes "region a 4 \<inter> A = {}" and "\<And>y. y \<notin> A \<Longrightarrow> m y = mem s y"
  shows "read32 m a = load32 s a"
  using assms by (intro read32_cong) blast

lemma object_ends:
  assumes u: "under_test d sz i V x t h s" and con: "destroy_contract calls (op_destroy (ot_ops (ob_type_for i s))) sz"
  defines "r \<equiv> store32 (obj_refcount x) 0 s"
  defines "e \<equiv> store8 (obj_destroyed x) 1 (closed t h x r)"
  shows "object_deref calls x s = Ret () r" and "g_test_destroyed r = g_test_destroyed s"
    and "object_close calls t h r = andThen (object_destroy_now calls x e) (\<lambda>_ s. Ret 0 s)"
    and "ob_inv d sz i V e" and "obj_ok sz i V x e" and "ob_type_for i e = ob_type_for i s" and "g_om e = g_om s"
proof -
  note U = under_testD [OF u]
  have rf: "load32 r (obj_refcount x) = 0" "load32 r (obj_type_id x) = i" "load32 r (obj_handle_count x) = 1"
    "load32 r (obj_generation x) = load32 s (obj_generation x)" "load32 r (obj_lock x) = 0"
    "mem r (obj_destroyed x) = 0" "ob_type_for i r = ob_type_for i s" "g_om r = g_om s"
    using U by (simp_all add: r_def store32_refcount) (simp add: store32_def)
  show "g_test_destroyed r = g_test_destroyed s" by (simp add: r_def store32_def)
  have "\<not> ready_to_die x r" using rf(3) by (simp add: ready_to_die_def)
  then show "object_deref calls x s = Ret () r"
    using U(7) object_maybe_destroy_eq [OF rf(5), of calls] by (simp add: object_deref_eq Let_def r_def)
  have rt: "region t 65544 \<inter> region (obj_refcount x) 4 = {}" using U(11) obj_parts(2) [of x] by blast
  have rm: "mem r y = mem s y" if "y \<in> region t 65544" for y
    using that rt unfolding r_def store32_def by (simp add: write32_outside disjoint_iff)
  have lock: "load32 r (cap_lock t) = 0"
    unfolding U(4) [symmetric] by (rule read32_cong, rule rm) (use cap_tail(2) [of t] in blast)
  have view: "cap_view t (mem r) h = Some (x, RIGHT_READ, load32 s (obj_generation x))"
    unfolding U(6) [symmetric] by (rule cap_view_cong_table [OF U(5)], rule rm) (use cap_tail(3) [of t] in blast)
  show "object_close calls t h r = andThen (object_destroy_now calls x e) (\<lambda>_ s. Ret 0 s)"
    using object_close_decides_eq [OF lock U(5) view U(11) rf(5)] rf by (simp add: e_def)
  let ?c = "r\<lparr>mem := write64 (mem r) (entry_object t h) NULL\<rparr>"
  have inv_r: "ob_inv d sz i V r" unfolding r_def by (rule store32_header(1) [OF obj_parts(2) U(1,12)])
  have ap_r: "ob_apart i V r (region t 65544)" using U(3) by (simp add: r_def store32_def)
  have "ob_inv d sz i V ?c"
  proof (rule ob_inv_apart_mem [OF inv_r ap_r])
    fix y assume "y \<notin> region t 65544"
    then have "y \<notin> region (entry_object t h) 8" using cap_subset(1) [OF U(5), of t] cap_tail(3) [of t] by blast
    then show "write64 (mem r) (entry_object t h) NULL y = mem r y" by (rule write64_outside)
  qed
  then have "ob_inv d sz i V (store32 (obj_handle_count x) (load32 r (obj_handle_count x) - 1) ?c)"
    using U(12) by (intro store32_header(1) [OF obj_parts(3)])
  moreover have "closed t h x r = store32 (obj_handle_count x) (load32 r (obj_handle_count x) - 1) ?c"
    by (simp add: closed_def store32_def Let_def)
  ultimately have inv_c: "ob_inv d sz i V (closed t h x r)" by simp
  have "obj_destroyed x \<in> region x sz"
    using obj_parts(7) [of x] region_mono [OF U(13), of x] by (auto simp: region_1)
  then have "((mem (closed t h x r))(obj_destroyed x := 1)) y = mem (closed t h x r) y" if "y \<notin> region x sz" for y
    using that by auto
  from ob_inv_client(1) [OF inv_c U(12) this] show "ob_inv d sz i V e" by (simp add: e_def store8_def fun_upd_def)
  have "region (entry_object t h) 8 \<inter> region x 48 = {}"
    using cap_subset(1) [OF U(5), of t] cap_tail(3) [of t] U(11) by blast
  then have "region (entry_object t h) 8 \<inter> region (obj_type_id x) 4 = {}" using obj_parts(1) [of x] by blast
  then have "load32 (closed t h x r) (obj_type_id x) = i"
    using obj_fields_apart(2) [of x] rf(2) by (simp add: closed_def Let_def rw_disjoint Int_commute)
  moreover have "load32 (closed t h x r) (obj_lock x) = 0" using closed_fields(3) [OF U(5,11)] rf(5) by simp
  moreover have "load32 e a = load32 (closed t h x r) a" if "obj_destroyed x \<notin> region a 4" for a
    unfolding e_def store8_def using that by (intro load32_apart [of _ "{obj_destroyed x}"]) auto
  moreover have "obj_destroyed x \<notin> region (obj_type_id x) 4" "obj_destroyed x \<notin> region (obj_lock x) 4"
    using obj_fields_apart(16,21) [of x, THEN destroyed_apart] by simp_all
  ultimately show "obj_ok sz i V x e" using U(12) by (simp add: obj_ok_def)
  show "ob_type_for i e = ob_type_for i s" "g_om e = g_om s"
    using rf(7,8) by (simp_all add: e_def store8_def closed_def Let_def ob_type_for_def)
qed

lemma object_test_end_passes:
  assumes u: "under_test d sz i V x t h s" and cb: "test_callbacks calls f (op_destroy (ot_ops (ob_type_for i s)))"
  obtains V' u where "object_test_end calls x t h s =
      Ret () (test_log ''[ob] PASS: handle_count dropped and destroy callback triggered'' u)"
    and "g_test_destroyed u" and "ob_inv d sz i V' u" and "view_live sz V' = view_live sz V - {x}"
proof -
  note U = under_testD [OF u]
  note con = test_contracts(2) [OF cb]
  note E = object_ends [OF u con]
  let ?r = "store32 (obj_refcount x) 0 s"
  let ?e = "store8 (obj_destroyed x) 1 (closed t h x ?r)"
  have "destroy_contract calls (op_destroy (ot_ops (ob_type_for i ?e))) sz" using con E(6) by simp
  then obtain V' v where T: "object_destroy_now calls x ?e = Ret () v" "ob_inv d sz i V' v"
    "view_live sz V' = view_live sz V - {x}"
    "\<exists>u. (if op_destroy (ot_ops (ob_type_for i ?e)) \<noteq> 0
        then call_destroy calls (op_destroy (ot_ops (ob_type_for i ?e))) x ?e else Ret () ?e) = Ret () u \<and>
      g_test_destroyed v = g_test_destroyed u"
    using object_destroy_now_ok [OF E(4,5)] by metis
  have d: "g_test_destroyed v"
    using T(4) cb unfolding E(6) by (auto simp: test_callbacks_def test_object_destroy_def)
  have "object_test_end calls x t h s =
      Ret () (test_log ''[ob] PASS: handle_count dropped and destroy callback triggered'' v)"
    unfolding object_test_end_def E(1) andThen.simps using E(2,3) U(10) T(1) d by simp
  then show ?thesis using d T(2,3) by (rule that)
qed

section \<open>The middle of the test: two lookups\<close>

lemma test_log_out: "test_log msg s = s\<lparr>uart_out := uart_out (test_log msg s)\<rparr>"
  by (simp add: test_log_def klog_info_eq)

lemma under_test_log [simp]: "under_test d sz i V x t h (test_log msg s) = under_test d sz i V x t h s"
  by (subst test_log_out) (rule under_test_out)

lemma ob_type_for_log [simp]: "ob_type_for i (test_log msg s) = ob_type_for i s"
  by (subst test_log_out) simp

lemma test_lookup:
  assumes "under_test d sz i V x t h s"
  shows "cap_lookup calls t h RIGHT_WRITE s = Ret NULL s" and "cap_lookup calls t h RIGHT_READ s = Ret x (object_ref x s)"
    and "object_deref calls x (object_ref x s) = Ret () s"
proof -
  note U = under_testD [OF assms]
  have "RIGHT_READ AND RIGHT_WRITE \<noteq> RIGHT_WRITE" by (simp add: RIGHT_READ_def RIGHT_WRITE_def)
  then show "cap_lookup calls t h RIGHT_WRITE s = Ret NULL s" "cap_lookup calls t h RIGHT_READ s = Ret x (object_ref x s)"
    unfolding cap_lookup_eq [OF U(4-6,11) refl] by simp_all
  show "object_deref calls x (object_ref x s) = Ret () s" using U(7) by (intro object_ref_deref) simp
qed

lemma object_test_cap_passes:
  assumes u: "under_test d sz i V x t h s" and cb: "test_callbacks calls f (op_destroy (ot_ops (ob_type_for i s)))"
  obtains V' u where "object_test_cap calls x t h s =
      Ret () (test_log ''[ob] PASS: handle_count dropped and destroy callback triggered'' u)"
    and "g_test_destroyed u" and "ob_inv d sz i V' u" and "view_live sz V' = view_live sz V - {x}"
proof -
  note U = under_testD [OF u]
  define s1 where "s1 = test_log ''[ob] PASS: object_grant with RIGHT_READ'' s"
  define s2 where "s2 = test_log ''[ob] PASS: cap_lookup RIGHT_WRITE rejected'' s1"
  define s3 where "s3 = test_log ''[ob] PASS: cap_lookup RIGHT_READ succeeded'' s2"
  have u': "under_test d sz i V x t h s1" "under_test d sz i V x t h s2" "under_test d sz i V x t h s3"
    using u by (simp_all add: s1_def s2_def s3_def)
  have "h \<noteq> CAP_INVALID" using U(5) by (auto simp: CAP_INVALID_def)
  moreover have "x \<noteq> NULL" using u by (simp add: under_test_def)
  ultimately have "object_test_cap calls x t h s = object_test_end calls x t h s3"
    using U(8) unfolding object_test_cap_def
    by (simp add: atomic_load_def Let_def s1_def [symmetric] test_lookup [OF u'(1)] s2_def [symmetric]
        test_lookup [OF u'(2)] s3_def [symmetric])
  moreover have "test_callbacks calls f (op_destroy (ot_ops (ob_type_for i s3)))" using cb by (simp add: s1_def s2_def s3_def)
  ultimately show ?thesis using object_test_end_passes [OF u'(3)] that by metis
qed

section \<open>The grant\<close>

lemma test_grant:
  assumes inv: "ob_inv d sz i V s" and x: "x \<in> view_live sz V" "x \<noteq> NULL" and fresh: "fresh_object i oid x s"
    and alive: "mem s (obj_destroyed x) = 0" "\<not> g_test_destroyed s" and ap: "ob_apart i V s (region t 65544)"
    and lock: "load32 s (cap_lock t) = 0" and empty: "\<forall>h < 4096. cap_view t (mem s) h = None"
    and rights: "default_rights (ob_type_for i s) = RIGHT_READ OR RIGHT_WRITE"
  obtains h u where "object_grant t x RIGHT_READ s = Ret h u" and "under_test d sz i V x t h u"
    and "ob_type_for i u = ob_type_for i s"
proof -
  have F: "load32 s (obj_type_id x) = i" "load32 s (obj_refcount x) = 1" "load32 s (obj_handle_count x) = 0"
    "load32 s (obj_lock x) = 0" using fresh by (simp_all add: fresh_object_def)
  have sz: "48 \<le> sz" using inv ob_coreD(8) unfolding ob_inv_def by blast
  have tx: "region t 65544 \<inter> region x 48 = {}" by (rule ob_apart_live [OF ap x(1) sz])
  have "RIGHT_READ AND default_rights (ob_type_for (load32 s (obj_type_id x)) s) = RIGHT_READ"
    unfolding F(1) rights by (simp add: RIGHT_READ_def RIGHT_WRITE_def)
  moreover obtain h where h: "first_free (load32 s (cap_hint t)) t (mem s) = Some h"
    using first_free_None [of "load32 s (cap_hint t)" t "mem s" 0] empty by (cases "first_free (load32 s (cap_hint t)) t (mem s)") auto
  ultimately obtain m where M: "object_grant t x RIGHT_READ s =
      Ret h (s\<lparr>mem := write32 m (obj_handle_count x) (load32 s (obj_handle_count x) + 1)\<rparr>)"
    "\<And>y. y \<notin> region t 65544 \<Longrightarrow> m y = mem s y" "read32 m (cap_lock t) = 0"
    "\<And>j. j < 4096 \<Longrightarrow> cap_view t m j =
      (if j = h then Some (x, RIGHT_READ, load32 s (obj_generation x)) else cap_view t (mem s) j)"
    using object_grant_ok [OF lock tx x(2)] by metis
  have hlt: "h < 4096" using first_free_Some [OF h] by simp
  let ?m = "s\<lparr>mem := m\<rparr>"
  let ?u = "store32 (obj_handle_count x) 1 ?m"
  have th: "region t 65544 \<inter> region (obj_handle_count x) 4 = {}" using tx obj_parts(3) [of x] by blast
  have keep: "read32 m a = load32 s a" if "region a 4 \<subseteq> region x 48" for a
    using that tx by (intro load32_apart [of _ "region t 65544"] M(2)) blast+
  have dm: "m (obj_destroyed x) = mem s (obj_destroyed x)"
    using tx obj_parts(7) [of x] by (intro M(2)) (auto simp: region_1)
  have f: "load32 ?u (obj_type_id x) = i" "load32 ?u (obj_refcount x) = 1" "load32 ?u (obj_handle_count x) = 1"
    "load32 ?u (obj_lock x) = 0" "load32 ?u (obj_generation x) = load32 s (obj_generation x)" "mem ?u (obj_destroyed x) = 0"
    using obj_fields_apart [of x] destroyed_apart [OF obj_fields_apart(18) [of x]] F keep [OF obj_parts(1)]
      keep [OF obj_parts(2)] keep [OF obj_parts(6)] keep [OF obj_parts(4)] dm alive(1)
    by (simp_all add: store32_def mem_simps rw_disjoint Int_commute write32_outside)
  have "region (obj_handle_count x) 4 \<inter> region (cap_lock t) 4 = {}" using th cap_tail(2) [of t] by blast
  then have "load32 ?u (cap_lock t) = 0" using M(3) by (simp add: store32_def rw_disjoint Int_commute)
  moreover have "cap_view t (mem ?u) h = Some (x, RIGHT_READ, load32 ?u (obj_generation x))"
  proof -
    have "cap_view t (mem ?u) h = cap_view t m h"
      unfolding store32_def using th cap_tail(3) [of t] by (intro cap_view_cong_table [OF hlt]) (simp, rule write32_outside, blast)
    then show ?thesis using M(4) [OF hlt] f(5) by simp
  qed
  moreover have "ob_inv d sz i V ?m" using inv ap M(2) by (rule ob_inv_apart_mem)
  then have "ob_inv d sz i V ?u" using x(1) by (rule store32_header(1) [OF obj_parts(3)])
  moreover have "ob_apart i V ?u (region t 65544)" using ap by (simp add: store32_def)
  moreover have "\<not> g_test_destroyed ?u" using alive(2) by (simp add: store32_def)
  ultimately have "under_test d sz i V x t h ?u"
    using f x hlt by (simp add: under_test_def obj_ok_def)
  moreover have "object_grant t x RIGHT_READ s = Ret h ?u" using M(1) F(3) by (simp add: store32_def)
  moreover have "ob_type_for i ?u = ob_type_for i s" by (simp add: store32_def)
  ultimately show ?thesis by (intro that)
qed

section \<open>The start of the test\<close>

definition clean_frames :: "kstate \<Rightarrow> bool" where
  "clean_frames s \<longleftrightarrow> (\<forall>f \<in> avail_frames s. \<forall>y \<in> region f 4096. mem s y = 0)"

lemma clean_frames_kept: "clean_frames s \<Longrightarrow> ob_frame s t \<Longrightarrow> clean_frames t"
  using ob_frameD(4) [of s t] unfolding clean_frames_def tail_kept_def by fastforce

lemma clean_frames_out [simp]: "clean_frames (s\<lparr>uart_out := out\<rparr>) = clean_frames s"
  by (simp add: clean_frames_def)

lemma free_tail_kept: "ob_frame s t \<Longrightarrow> free_tail r s \<Longrightarrow> \<exists>q. free_tail q t"
  by (blast dest: ob_frameD(4) [unfolded tail_kept_def])

text \<open>A tail of at least \<open>n\<close> frames begins with a run of \<open>n\<close> frames.\<close>

lemma free_tail_run:
  assumes "free_tail r s" and "n \<le> card (avail_frames s)" and "0 < n"
  shows "next_fit s = Some r" and "{r..<r + n} \<subseteq> free_set s"
proof -
  have fs: "free_set s = {r..<unat (total_frames s)}" using assms(1) by (simp add: free_tail_def)
  have "card (avail_frames s) \<le> card (free_set s)"
    unfolding avail_frames_def by (intro card_image_le) (simp add: fs)
  then have "r + n \<le> unat (total_frames s)" using assms(2,3) by (simp add: fs)
  then show "next_fit s = Some r" "{r..<r + n} \<subseteq> free_set s"
    using assms(3) fs free_tail_next_fit [OF assms(1)] by auto
qed

lemma test_create:
  assumes inv: "ob_inv d sz i V s" and cb: "test_callbacks calls (op_create (ot_ops (ob_type_for i s))) g"
    and room: "2 \<le> card (avail_frames s)" and fresh: "vfl V = []" and clean: "clean_frames s"
  obtains x V' t where "object_create calls i args s = Ret x t" and "ob_inv d sz i V' t"
    and "view_live sz V' = insert x (view_live sz V)" and "x \<noteq> NULL" and "fresh_object i (ucast (next_object_id (g_om s))) x t"
    and "mem t (obj_destroyed x) = 0" and "ob_frame s t" and "ob_type_for i t = ob_type_for i s"
    and "card (avail_frames s) \<le> card (avail_frames t) + 2"
proof -
  let ?id = "ucast (next_object_id (g_om s)) :: u64"
  note con = test_contracts(1) [OF cb, of args sz]
  have av: "vfl V \<noteq> [] \<or> avail_frames s \<noteq> {}" using room by auto
  obtain x ps fl t where
    F: "object_create calls i args s = object_publish x t" "ob_inv d sz i (V\<lparr>vps := ps, vfl := fl\<rparr>) t"
    "view_live sz (V\<lparr>vps := ps, vfl := fl\<rparr>) = insert x (view_live sz V)" "x \<noteq> NULL"
    "fresh_object i ?id x t" "g_om t = (g_om s)\<lparr>next_object_id := next_object_id (g_om s) + 1\<rparr>"
    "\<exists>p. avail_frames s - {p} \<subseteq> avail_frames t" "mem t (obj_destroyed x) = mem s (obj_destroyed x)"
    "vfl V = [] \<Longrightarrow> \<exists>f \<in> avail_frames s. region x sz \<subseteq> region f 4096"
    "\<exists>u. ob_frame s u \<and> call_create_or_not calls (op_create (ot_ops (ob_type_for i s))) x args u = Ret 0 t"
    by (rule object_create_front [OF inv con av]) (rule that; (assumption | simp))
  let ?V = "V\<lparr>vps := ps, vfl := fl\<rparr>"
  have sz: "48 \<le> sz" using inv ob_coreD(8) unfolding ob_inv_def by blast
  have x: "x \<in> view_live sz ?V" using F(3) by simp
  have st: "ob_frame s t"
    using F(10) cb by (auto simp: test_callbacks_def test_object_create_def klog_info_eq split: if_splits)
  have "obj_destroyed x \<in> region x sz" using obj_parts(7) [of x] region_mono [OF sz, of x] by (auto simp: region_1)
  then have zero: "mem t (obj_destroyed x) = 0" using F(8) F(9) [OF fresh] clean unfolding clean_frames_def by auto
  have "1 \<le> card (avail_frames t)" using card_avail_step [OF F(7)] room by simp
  then have "vhfl ?V \<noteq> [] \<or> avail_frames t \<noteq> {}" by auto
  then obtain V' u where U: "object_publish x t = Ret x u" "ob_inv d sz i V' u" "view_live sz V' = view_live sz ?V"
    "objs_same sz (view_live sz ?V) t u" "om_types (g_om u) = om_types (g_om t)" "ob_frame t u"
    "\<exists>p. avail_frames t - {p} \<subseteq> avail_frames u"
    using object_publish_ok [OF F(2) x] by metis
  note H = objs_same_header [OF U(4) x sz]
  have "fresh_object i ?id x u" using F(5) fresh_object_same [OF H] by simp
  moreover have "mem u (obj_destroyed x) = 0" using objs_same_fields(7) [OF H] zero by simp
  moreover have "ob_type_for i u = ob_type_for i s" by (simp add: ob_type_for_def U(5) F(6))
  moreover have "card (avail_frames s) \<le> card (avail_frames u) + 2"
    using card_avail_step [OF F(7)] card_avail_step [OF U(7)] by simp
  ultimately show ?thesis
    using F(1,3,4) U(1-3) ob_frame_trans [OF st U(6)] by (intro that [of x u V']) simp_all
qed

text \<open>A table beside the manager.\<close>

lemma test_table:
  assumes inv: "ob_inv d sz i V s" and heap: "kheap_initialized s" and tail: "free_tail r s"
    and room: "17 \<le> card (avail_frames s)"
  obtains t u where "cap_table_create s = Ret t u" and "t \<noteq> NULL" and "ob_inv d sz i V u"
    and "ob_apart i V u (region t 65544)" and "load32 u (cap_lock t) = 0" and "\<forall>h < 4096. cap_view t (mem u) h = None"
    and "ob_frame s u" and "g_om u = g_om s" and "objs_same sz (view_live sz V) s u"
proof -
  have core: "ob_core d sz i V s" using inv by (simp add: ob_inv_def)
  note D = ob_coreD [OF core]
  note run = free_tail_run [OF tail room]
  let ?t = "frame_addr s r + 16" and ?A = "\<Union>f \<in> avail_frames s. region f 4096"
  obtain u where T: "cap_table_create s = Ret ?t u" "mm_ok d u" "cap_inv ?t {} u"
    "\<forall>h < 4096. cap_view ?t (mem u) h = None"
    "\<forall>y. y \<notin> bitmap_region s \<and> (\<forall>j \<in> {r..<r + 17}. y \<notin> region (frame_addr s j) 4096) \<longrightarrow> mem u y = mem s y"
    "?t \<noteq> NULL" "ob_frame s u" "g_om u = g_om s" "region ?t 65544 \<subseteq> ?A" "avail_frames u \<subseteq> avail_frames s"
    using cap_table_create_ok [OF D(7) heap run(1,2)] by (metis zero_less_numeral)
  have out: "mem u y = mem s y" if "y \<notin> ?A" "y \<notin> bitmap_region s" for y
    using T(5) run(2) that by (fastforce simp: avail_frames_def)
  have apA: "ob_apart i V s ?A" using inv subset_refl by (rule ob_inv_pool_apart)
  have "bitmap_region u = bitmap_region s" using T(7) by (simp add: ob_frame_def)
  then have inv_u: "ob_inv d sz i V u" by (rule ob_inv_apart [OF inv T(2) _ T(8,10) apA out])
  have "ob_apart i V u ?A"
    using apA \<open>bitmap_region u = bitmap_region s\<close> by (simp add: ob_apart_def ob_type_for_def T(8))
  then have ap: "ob_apart i V u (region ?t 65544)" using T(9) unfolding ob_apart_def by blast
  have "mem u y = mem s y" if "x \<in> view_live sz V" "y \<in> region x sz" for x y
    using that slab_live_foot [of x sz "vps V" "ot_slab (ob_type_for i s)"] slab_foot_pool [OF D(1)]
    by (intro out) (auto simp: view_live_def pool_foot_def)
  then have "objs_same sz (view_live sz V) s u" by (simp add: objs_same_def)
  then show ?thesis using T(1,4,6,7,8) cap_invD(1) [OF T(3)] inv_u ap by (intro that)
qed

section \<open>The whole test\<close>

lemma ob_type_for_set:
  assumes "unat i < length (om_types (g_om s))"
  shows "ob_type_for i (set_type i f s) = f (ob_type_for i s)"
  using assms by (simp add: ob_type_for_def set_type_def set_om_def)

lemma ob_inv_set_rights:
  assumes "ob_inv d sz i V s"
  shows "ob_inv d sz i V (set_type i (\<lambda>t. t\<lparr>default_rights := r\<rparr>) s)"
proof -
  have i: "unat i < length (om_types (g_om s))" using assms by (simp add: ob_inv_def ob_core_def)
  show ?thesis
    using assms by (simp add: ob_inv_def ob_core_def ob_type_for_set [OF i]) (simp add: set_type_def set_om_def)
qed

lemma object_test_ok:
  assumes R: "ob_ready d ps fl hps hfl N s" and k: "type_count (g_om s) < 64" and heap: "kheap_initialized s"
    and tail: "free_tail r s" and room: "20 \<le> card (avail_frames s)" and clean: "clean_frames s"
    and off: "\<not> g_test_destroyed s" and cb: "test_callbacks calls create destroy"
  obtains sz V u where "object_test calls create destroy s =
      Ret () (test_log ''[ob] PASS: handle_count dropped and destroy callback triggered'' u)"
    and "g_test_destroyed u" and "ob_inv d sz (type_count (g_om s)) V u" and "view_live sz V = {}"
proof -
  let ?k = "type_count (g_om s)" and ?s = "test_log ''[ob] starting'' s"
  let ?ops = "\<lparr>op_create = create, op_destroy = destroy, op_read = 0, op_write = 0, op_wait = 0,
                 op_ioop = 0, op_on_revoke = 0\<rparr>"
  let ?V = "new_view hps hfl N"
  obtain out where s0: "?s = s\<lparr>uart_out := out\<rparr>" by (metis test_log_out)
  have R0: "ob_ready d ps fl hps hfl N ?s" using R unfolding s0 by (simp add: ob_ready_def)
  have k0: "type_count (g_om ?s) < 64" and r0: "fl \<noteq> [] \<or> avail_frames ?s \<noteq> {}" and g0: "g_om ?s = g_om s"
    and n: "unat (32 :: u64) + 48 \<le> 4080"
    using k room unfolding s0 by auto
  obtain c t1 where T: "object_type_register ''test'' 32 ?ops ?s = Ret ?k t1"
    "ob_inv d (unat (slab_round (48 + 32))) ?k ?V t1"
    "g_om t1 = (g_om s)\<lparr>type_count := ?k + 1, om_types := (om_types (g_om s))[unat ?k :=
      (ob_type_for ?k ?s)\<lparr>ot_name := ''test'', instance_size := 48 + 32, ot_ops := ?ops, ot_slab := c\<rparr>]\<rparr>"
    "\<exists>p. avail_frames ?s - {p} \<subseteq> avail_frames t1" "ob_frame ?s t1"
    by (rule object_type_register_ok [OF R0 k0 n r0, of "''test''" ?ops, unfolded g0]) (rule that; assumption)
  let ?sz = "unat (slab_round (48 + 32))"
  have kl: "unat ?k < length (om_types (g_om t1))" using T(2) by (simp add: ob_inv_def ob_core_def)
  then have ty1: "ot_ops (ob_type_for ?k t1) = ?ops" by (simp add: ob_type_for_def T(3))
  define t2 where "t2 = set_type ?k (\<lambda>t. t\<lparr>default_rights := RIGHT_READ OR RIGHT_WRITE\<rparr>) t1"
  define t3 where "t3 = test_log ''[ob] PASS: type registration'' t2"
  obtain out3 where t3: "t3 = t2\<lparr>uart_out := out3\<rparr>" unfolding t3_def by (metis test_log_out)
  have fr3: "ob_frame s t3" using T(5) unfolding t3 t2_def s0 by (simp add: set_type_def set_om_def)
  have av3: "avail_frames t3 = avail_frames t1" by (simp add: t3 t2_def set_type_def set_om_def)
  have ty3: "ot_ops (ob_type_for ?k t3) = ?ops" "default_rights (ob_type_for ?k t3) = RIGHT_READ OR RIGHT_WRITE"
    using ob_type_for_set [OF kl] ty1 by (simp_all add: t3 t2_def)
  have inv3: "ob_inv d ?sz ?k ?V t3" using ob_inv_set_rights [OF T(2)] by (simp add: t3 t2_def)
  have "card (avail_frames ?s) \<le> Suc (card (avail_frames t1))" by (rule card_avail_step [OF T(4)])
  then have room3: "19 \<le> card (avail_frames t3)" using room unfolding av3 s0 by simp
  have cb3: "test_callbacks calls (op_create (ot_ops (ob_type_for ?k t3))) destroy" using cb ty3 by simp
  have clean3: "clean_frames t3" using clean fr3 by (rule clean_frames_kept)
  have "2 \<le> card (avail_frames t3)" "vfl ?V = []" using room3 by (simp_all add: new_view_def)
  then obtain x V4 t4 where C: "object_create calls ?k NULL t3 = Ret x t4" "ob_inv d ?sz ?k V4 t4"
    "view_live ?sz V4 = insert x (view_live ?sz ?V)" "x \<noteq> NULL"
    "fresh_object ?k (ucast (next_object_id (g_om t3))) x t4" "mem t4 (obj_destroyed x) = 0" "ob_frame t3 t4"
    "ob_type_for ?k t4 = ob_type_for ?k t3" "card (avail_frames t3) \<le> card (avail_frames t4) + 2"
    using test_create [OF inv3 cb3 _ _ clean3, of NULL] by metis
  have x4: "x \<in> view_live ?sz V4" and lone: "view_live ?sz V4 = {x}" using C(3) by (auto simp: new_view_def view_live_def slab_objs_def)
  define t5 where "t5 = test_log ''[ob] PASS: initial refcount'' (test_log ''[ob] PASS: object creation'' t4)"
  obtain out5 where t5: "t5 = t4\<lparr>uart_out := out5\<rparr>" unfolding t5_def test_log_def klog_info_eq by simp
  have fr5: "ob_frame s t5" using ob_frame_trans [OF fr3 C(7)] unfolding t5 by simp
  obtain q where q: "free_tail q t5" using free_tail_kept [OF fr5 tail] by blast
  have "kheap_initialized t5" "17 \<le> card (avail_frames t5)" "ob_inv d ?sz ?k V4 t5"
    using ob_frameD(2) [OF fr5] heap C(2,9) room3 unfolding t5 by simp_all
  then obtain t t6 where B: "cap_table_create t5 = Ret t t6" "t \<noteq> NULL" "ob_inv d ?sz ?k V4 t6"
    "ob_apart ?k V4 t6 (region t 65544)" "load32 t6 (cap_lock t) = 0" "\<forall>h < 4096. cap_view t (mem t6) h = None"
    "ob_frame t5 t6" "g_om t6 = g_om t5" "objs_same ?sz (view_live ?sz V4) t5 t6"
    using test_table [OF _ _ q] by metis
  have sz: "48 \<le> ?sz" using inv3 ob_coreD(8) unfolding ob_inv_def by blast
  note H = objs_same_header [OF B(9) x4 sz]
  have ty6: "ob_type_for ?k t6 = ob_type_for ?k t3" using C(8) by (simp add: ob_type_for_def B(8) t5)
  have "fresh_object ?k (ucast (next_object_id (g_om t3))) x t6"
    using C(5) fresh_object_same [OF H] by (simp add: fresh_object_def t5)
  moreover have "mem t6 (obj_destroyed x) = 0" using objs_same_fields(7) [OF H] C(6) by (simp add: t5)
  moreover have "\<not> g_test_destroyed t6" using ob_frameD(1) [OF ob_frame_trans [OF fr5 B(7)]] off by simp
  moreover have "default_rights (ob_type_for ?k t6) = RIGHT_READ OR RIGHT_WRITE" using ty3 ty6 by simp
  ultimately obtain h t7 where G: "object_grant t x RIGHT_READ t6 = Ret h t7" "under_test d ?sz ?k V4 x t h t7"
    "ob_type_for ?k t7 = ob_type_for ?k t6"
    using test_grant [OF B(3) x4 C(4) _ _ _ B(4-6)] by metis
  have "test_callbacks calls create (op_destroy (ot_ops (ob_type_for ?k t7)))" using cb ty3 ty6 G(3) by simp
  then obtain V' u where E: "object_test_cap calls x t h t7 =
      Ret () (test_log ''[ob] PASS: handle_count dropped and destroy callback triggered'' u)"
    "g_test_destroyed u" "ob_inv d ?sz ?k V' u" "view_live ?sz V' = view_live ?sz V4 - {x}"
    using object_test_cap_passes [OF G(2)] by metis
  have rc: "load32 (test_log ''[ob] PASS: object creation'' t4) (obj_refcount x) = 1"
    using C(5) by (simp add: fresh_object_def test_log_def klog_info_eq)
  have "object_test calls create destroy s = object_test_cap calls x t h t7"
    unfolding object_test_def Let_def T(1) andThen.simps t2_def [symmetric] t3_def [symmetric] C(1)
    using C(4) rc B(1,2) G(1) by (simp add: atomic_load_def t5_def [symmetric])
  then show ?thesis using E lone by (intro that [of u ?sz V']) simp_all
qed

end
