(* ===== verification/Cpu.thy ===== *)
theory Cpu
  imports Sync
begin

text \<open>
  Access to the CPU and to devices: \<^verbatim>\<open>arch/arm64/cpu.c\<close>, \<^verbatim>\<open>arch/riscv/cpu.c\<close>,
  \<^verbatim>\<open>arch/riscv/opensbi.c\<close>, \<^verbatim>\<open>libkern/framework.c\<close>, \<^verbatim>\<open>regs_dump\<close> of the two
  \<^verbatim>\<open>regswrp.c\<close>, and the UART driver of \<^verbatim>\<open>platform/opi\<close>, which waits for its device. System
  registers keep what is written to them. A device, and the RISC-V firmware, is a parameter: it
  answers from the history of all accesses.
\<close>

section \<open>Definitions\<close>

subsection \<open>System registers\<close>

definition set_sreg :: "sysreg \<Rightarrow> u64 \<Rightarrow> kstate \<Rightarrow> kstate" where
  "set_sreg r v s = s\<lparr>sreg := (sreg s)(r := v)\<rparr>"

text \<open>ARM64\<close>

definition cpu_set_vbar_el1 :: "u64 \<Rightarrow> kstate \<Rightarrow> kstate" where "cpu_set_vbar_el1 val = set_sreg VBAR_EL1 val"
definition cpu_set_vbar_el2 :: "u64 \<Rightarrow> kstate \<Rightarrow> kstate" where "cpu_set_vbar_el2 val = set_sreg VBAR_EL2 val"
definition cpu_set_vaif :: "u64 \<Rightarrow> kstate \<Rightarrow> kstate" where "cpu_set_vaif val = set_sreg DAIF val"
definition cpu_get_el :: "kstate \<Rightarrow> u64" where "cpu_get_el s = sreg s CurrentEL"
definition cpu_get_el_num :: "kstate \<Rightarrow> u64" where "cpu_get_el_num s = drop_bit 2 (cpu_get_el s)"
definition read_esr_el2 :: "kstate \<Rightarrow> u64" where "read_esr_el2 s = sreg s ESR_EL2"
definition read_elr_el2 :: "kstate \<Rightarrow> u64" where "read_elr_el2 s = sreg s ELR_EL2"
definition read_esr_el1 :: "kstate \<Rightarrow> u64" where "read_esr_el1 s = sreg s ESR_EL1"
definition read_elr_el1 :: "kstate \<Rightarrow> u64" where "read_elr_el1 s = sreg s ELR_EL1"

text \<open>RISC-V\<close>

definition cpu_set_stvec :: "u64 \<Rightarrow> kstate \<Rightarrow> kstate" where "cpu_set_stvec addr = set_sreg STVEC addr"
definition cpu_set_tp :: "u64 \<Rightarrow> kstate \<Rightarrow> kstate" where "cpu_set_tp addr s = s\<lparr>reg_tp := addr\<rparr>"
definition cpu_get_sstatus :: "kstate \<Rightarrow> u64" where "cpu_get_sstatus s = sreg s SSTATUS"
definition cpu_get_sie :: "kstate \<Rightarrow> u64" where "cpu_get_sie s = sreg s SIE"
definition cpu_get_scause :: "kstate \<Rightarrow> u64" where "cpu_get_scause s = sreg s SCAUSE"
definition cpu_get_sepc :: "kstate \<Rightarrow> u64" where "cpu_get_sepc s = sreg s SEPC"
definition cpu_get_stval :: "kstate \<Rightarrow> u64" where "cpu_get_stval s = sreg s STVAL"
definition cpu_get_tp :: "kstate \<Rightarrow> u64" where "cpu_get_tp s = reg_tp s"

text \<open>The instructions \<^verbatim>\<open>csrs\<close> and \<^verbatim>\<open>csrc\<close>, which set and clear bits of a register.\<close>

definition csrs :: "sysreg \<Rightarrow> u64 \<Rightarrow> kstate \<Rightarrow> kstate" where "csrs r v s = set_sreg r (sreg s r OR v) s"
definition csrc :: "sysreg \<Rightarrow> u64 \<Rightarrow> kstate \<Rightarrow> kstate" where "csrc r v s = set_sreg r (sreg s r AND NOT v) s"

text \<open>Both architectures; \<^verbatim>\<open>osdef.hpp\<close> selects the QEMU machine.\<close>

definition halt :: "kstate \<Rightarrow> ('a, kstate) outcome" where "halt s = Halt s"

definition MACHINE_RAM_SIZE :: u64 where "MACHINE_RAM_SIZE = 0x8000000"

definition cpu_get_membase :: "kstate \<Rightarrow> u64" where
  "cpu_get_membase s = (case arch s of ARM64 \<Rightarrow> 0x40080000 | RISCV \<Rightarrow> 0x80000000)"

definition cpu_get_memsize :: "kstate \<Rightarrow> u64" where "cpu_get_memsize s = MACHINE_RAM_SIZE"

subsection \<open>Device registers\<close>

type_synonym device = "io_event list \<Rightarrow> u64 \<Rightarrow> u64"

definition io_read32 :: "device \<Rightarrow> u64 \<Rightarrow> u64 \<Rightarrow> kstate \<Rightarrow> u32 \<times> kstate" where
  "io_read32 dev address off s =
     (let v = ucast (dev (io_hist s) (address + off))
      in (v, s\<lparr>io_hist := IoRead (address + off) v # io_hist s\<rparr>))"

definition io_write32 :: "u64 \<Rightarrow> u64 \<Rightarrow> u32 \<Rightarrow> kstate \<Rightarrow> kstate" where
  "io_write32 address off val s = s\<lparr>io_hist := IoWrite (address + off) val # io_hist s\<rparr>"

definition io_read64 :: "device \<Rightarrow> u64 \<Rightarrow> u64 \<Rightarrow> kstate \<Rightarrow> u64 \<times> kstate" where
  "io_read64 dev address off s =
     (let v = dev (io_hist s) (address + off)
      in (v, s\<lparr>io_hist := IoRead64 (address + off) v # io_hist s\<rparr>))"

definition io_write64 :: "u64 \<Rightarrow> u64 \<Rightarrow> u64 \<Rightarrow> kstate \<Rightarrow> kstate" where
  "io_write64 address off val s = s\<lparr>io_hist := IoWrite64 (address + off) val # io_hist s\<rparr>"

text \<open>
  The UART of \<^verbatim>\<open>platform/opi\<close>: the wait for the line status has no bound, so it has no value when
  the device never reports room.
\<close>

partial_function (option) opi_uart_wait :: "device \<Rightarrow> kstate \<Rightarrow> kstate option" where
  "opi_uart_wait dev s =
     (case io_read32 dev 0xFE660000 0x14 s of
        (lsr, s) \<Rightarrow> if lsr AND push_bit 5 1 = 0 then opi_uart_wait dev s else Some s)"

definition opi_uart_putc :: "device \<Rightarrow> char \<Rightarrow> kstate \<Rightarrow> kstate option" where
  "opi_uart_putc dev c s =
     (case opi_uart_wait dev s of None \<Rightarrow> None | Some s \<Rightarrow> Some (io_write32 0xFE660000 0 (of_char c) s))"

fun opi_uart_puts :: "device \<Rightarrow> string \<Rightarrow> kstate \<Rightarrow> kstate option" where
  "opi_uart_puts dev [] s = Some s"
| "opi_uart_puts dev (c # str) s =
     (if c = NUL then Some s
      else
        case (if c = CHR 0x0A then opi_uart_putc dev (CHR 0x0D) s else Some s) of
          None \<Rightarrow> None
        | Some s \<Rightarrow>
            (case opi_uart_putc dev c s of None \<Rightarrow> None | Some s \<Rightarrow> opi_uart_puts dev str s))"

subsection \<open>Firmware calls\<close>

text \<open>The firmware answers an \<^verbatim>\<open>ecall\<close> with an error and a value (\<^verbatim>\<open>sbiret_t\<close>).\<close>

type_synonym firmware = "io_event list \<Rightarrow> u64 \<times> u64"

definition sbi_ecall :: "firmware \<Rightarrow> u64 \<Rightarrow> u64 \<Rightarrow> u64 \<Rightarrow> u64 \<Rightarrow> u64 \<Rightarrow> u64 \<Rightarrow> kstate \<Rightarrow> (u64 \<times> u64) \<times> kstate" where
  "sbi_ecall fw ext fid arg0 arg1 arg2 arg3 s =
     (let h = SbiCall ext fid [arg0, arg1, arg2, arg3] # io_hist s in (fw h, s\<lparr>io_hist := h\<rparr>))"

definition sbi_putchar :: "firmware \<Rightarrow> char \<Rightarrow> kstate \<Rightarrow> kstate" where
  "sbi_putchar fw c s = snd (sbi_ecall fw 0x01 0 (of_char c) 0 0 0 s)"

definition sbi_start_hart :: "firmware \<Rightarrow> u64 \<Rightarrow> u64 \<Rightarrow> u64 \<Rightarrow> kstate \<Rightarrow> (u64 \<times> u64) \<times> kstate" where
  "sbi_start_hart fw hartid pc priv s = sbi_ecall fw 0x48534D 0 hartid pc priv 0 s"

definition sbi_send_ipi_all :: "firmware \<Rightarrow> kstate \<Rightarrow> kstate" where
  "sbi_send_ipi_all fw s = snd (sbi_ecall fw 0x04 0 0 0 0 0 s)"

definition cpu_halt_cpu_id :: "firmware \<Rightarrow> u64 \<Rightarrow> kstate \<Rightarrow> kstate" where
  "cpu_halt_cpu_id fw cpu_id s = sbi_send_ipi_all fw s"

subsection \<open>The register dump\<close>

text \<open>
  \<^verbatim>\<open>regs_dump\<close> copies 256 bytes from the address of its parameter: \<open>slot\<close> is where the compiler
  keeps it, and the parameter is the first thing there.
\<close>

definition regs_dump :: "u64 \<Rightarrow> u64 \<Rightarrow> kstate \<Rightarrow> kstate" where
  "regs_dump slot regs s =
     (let s = s\<lparr>mem := write64 (mem s) slot regs\<rparr>
      in s\<lparr>regframe := map (\<lambda>i. read64 (mem s) (slot + 8 * of_nat i)) [0..<32]\<rparr>)"

section \<open>Lemmas\<close>

lemma set_sreg_fields [simp]:
  "sreg (set_sreg r v s) = (sreg s)(r := v)" "mem (set_sreg r v s) = mem s" "io_hist (set_sreg r v s) = io_hist s"
  "global_ticks (set_sreg r v s) = global_ticks s" "uart_out (set_sreg r v s) = uart_out s" "arch (set_sreg r v s) = arch s"
  "gic_handlers (set_sreg r v s) = gic_handlers s" "gicc_iar (set_sreg r v s) = gicc_iar s"
  by (simp_all add: set_sreg_def)

text \<open>The dump is not of the registers the caller passed: its first word is the pointer itself.\<close>

lemma regs_dump_pointer: "regframe (regs_dump slot regs s) ! 0 = regs"
  by (simp add: regs_dump_def Let_def mem_simps)

text \<open>The UART wait ends with the first poll that finds room.\<close>

fun polls :: "device \<Rightarrow> nat \<Rightarrow> io_event list \<Rightarrow> io_event list" where
  "polls dev 0 h = h"
| "polls dev (Suc n) h = polls dev n (IoRead 0xFE660014 (ucast (dev h 0xFE660014)) # h)"

lemma opi_uart_wait_step:
  "opi_uart_wait dev s =
     (if ucast (dev (io_hist s) 0xFE660014) AND push_bit 5 (1 :: u32) = 0
      then opi_uart_wait dev (s\<lparr>io_hist := IoRead 0xFE660014 (ucast (dev (io_hist s) 0xFE660014)) # io_hist s\<rparr>)
      else Some (s\<lparr>io_hist := IoRead 0xFE660014 (ucast (dev (io_hist s) 0xFE660014)) # io_hist s\<rparr>))"
  by (subst opi_uart_wait.simps) (simp add: io_read32_def Let_def)

lemma opi_uart_wait_ends:
  assumes "\<forall>k < n. ucast (dev (polls dev k (io_hist s)) 0xFE660014) AND push_bit 5 (1 :: u32) = 0"
    and "ucast (dev (polls dev n (io_hist s)) 0xFE660014) AND push_bit 5 (1 :: u32) \<noteq> 0"
  shows "opi_uart_wait dev s = Some (s\<lparr>io_hist := polls dev (Suc n) (io_hist s)\<rparr>)"
  using assms
proof (induction n arbitrary: s)
  case 0
  then show ?case by (subst opi_uart_wait_step) simp
next
  case (Suc n)
  let ?s = "s\<lparr>io_hist := IoRead 0xFE660014 (ucast (dev (io_hist s) 0xFE660014)) # io_hist s\<rparr>"
  have z: "ucast (dev (io_hist s) 0xFE660014) AND push_bit 5 (1 :: u32) = 0"
    using spec [OF Suc.prems(1), of 0] by simp
  have "\<forall>k < n. ucast (dev (polls dev k (io_hist ?s)) 0xFE660014) AND push_bit 5 (1 :: u32) = 0"
    using spec [OF Suc.prems(1), of "Suc _"] by simp
  moreover have "ucast (dev (polls dev n (io_hist ?s)) 0xFE660014) AND push_bit 5 (1 :: u32) \<noteq> 0"
    using Suc.prems(2) by simp
  ultimately have "opi_uart_wait dev ?s = Some (?s\<lparr>io_hist := polls dev (Suc n) (io_hist ?s)\<rparr>)" by (rule Suc.IH)
  then show ?case using z by (subst opi_uart_wait_step) simp
qed

end
