(* ===== verification/Gic.thy ===== *)
theory Gic
  imports Cpu Slab
begin

text \<open>
  \<^verbatim>\<open>platform/virt/gic.c\<close> and \<^verbatim>\<open>include/drivers/gic.hpp\<close>: the interrupt controller of the QEMU
  machine. Its registers are a device; \<^verbatim>\<open>gic_handlers\<close> is a table of 255 function pointers in
  memory, and the call through such a pointer is a parameter.
\<close>

section \<open>Definitions\<close>

definition GICD_BASE :: u64 where "GICD_BASE = 0x08000000"
definition GICC_BASE :: u64 where "GICC_BASE = 0x08010000"

definition GICD_CTLR :: u64 where "GICD_CTLR = 0x000"
definition GICD_TYPER :: u64 where "GICD_TYPER = 0x004"
definition GICD_IIDR :: u64 where "GICD_IIDR = 0x008"
definition GICD_IGROUPR :: "u64 \<Rightarrow> u64" where "GICD_IGROUPR n = 0x080 + n * 4"
definition GICD_ISENABLER :: "u64 \<Rightarrow> u64" where "GICD_ISENABLER n = 0x100 + n * 4"
definition GICD_ICENABLER :: "u64 \<Rightarrow> u64" where "GICD_ICENABLER n = 0x180 + n * 4"
definition GICD_ICPENDR :: "u64 \<Rightarrow> u64" where "GICD_ICPENDR n = 0x280 + n * 4"
definition GICD_IPRIORITYR :: "u64 \<Rightarrow> u64" where "GICD_IPRIORITYR n = 0x400 + n * 4"

definition GICC_CTLR :: u64 where "GICC_CTLR = 0x0000"
definition GICC_PMR :: u64 where "GICC_PMR = 0x0004"
definition GICC_BPR :: u64 where "GICC_BPR = 0x0008"
definition GICC_IAR :: u64 where "GICC_IAR = 0x000C"
definition GICC_EOIR :: u64 where "GICC_EOIR = 0x0010"

definition GIC_MAX_IRQS :: u64 where "GIC_MAX_IRQS = 0xFF"
definition GIC_PRIORITY_ALL :: u32 where "GIC_PRIORITY_ALL = 0xFF"
definition GIC_PRIORITY_MEDIUM :: u8 where "GIC_PRIORITY_MEDIUM = 0xA0"
definition GIC_UNKNOWN_INTERRUPT :: u32 where "GIC_UNKNOWN_INTERRUPT = 1022"
definition GIC_SPURIOUS_INTERRUPT :: u32 where "GIC_SPURIOUS_INTERRUPT = 1023"

text \<open>An \<^verbatim>\<open>interrupt_handler_t\<close>, called with the acknowledged value and the registers.\<close>

type_synonym irq_calls = "u64 \<Rightarrow> u32 \<Rightarrow> u64 \<Rightarrow> kstate \<Rightarrow> (int, kstate) outcome"

definition gic_interrupt_ack :: "device \<Rightarrow> kstate \<Rightarrow> u32 \<times> kstate" where
  "gic_interrupt_ack dev s =
     (case io_read32 dev GICC_BASE GICC_IAR s of
        (iar, s) \<Rightarrow> let s = s\<lparr>gicc_iar := iar\<rparr> in (gicc_iar s AND 0x3FF, s))"

definition gic_eoi :: "kstate \<Rightarrow> kstate" where
  "gic_eoi s = io_write32 GICC_BASE GICC_EOIR (gicc_iar s) s"

definition gic_handler_slot :: "u32 \<Rightarrow> kstate \<Rightarrow> u64" where
  "gic_handler_slot irq s = gic_handlers s + 8 * ucast irq"

definition gic_handle_interrupts :: "device \<Rightarrow> irq_calls \<Rightarrow> u64 \<Rightarrow> kstate \<Rightarrow> (unit, kstate) outcome" where
  "gic_handle_interrupts dev calls regs s =
     (case gic_interrupt_ack dev s of
        (irq_id, s) \<Rightarrow>
          if GIC_UNKNOWN_INTERRUPT \<le> irq_id then Ret () (gic_eoi s)
          else if irq_id = GIC_SPURIOUS_INTERRUPT then Ret () (klog_debug ''gic'' ''spurious'' [] s)
          else
            andThen
              (if load64 s (gic_handler_slot irq_id s) \<noteq> NULL
               then calls (load64 s (gic_handler_slot irq_id s)) (gicc_iar s) regs s
               else Ret (-1) s)
              (\<lambda>ret s.
                let s = gic_eoi s
                in if ret = -1 then panic ''gic'' ''interrupt handler exited with error'' [] s else Ret () s))"

definition gic_register_interrupt_handler :: "u8 \<Rightarrow> u64 \<Rightarrow> kstate \<Rightarrow> kstate" where
  "gic_register_interrupt_handler irq handler s = store64 (gic_handler_slot (ucast irq) s) handler s"

definition gic_disable_interrupts :: "kstate \<Rightarrow> kstate" where
  "gic_disable_interrupts s =
     io_write32 GICD_BASE (GICD_ISENABLER 1) 0xFFFFFFFF (io_write32 GICD_BASE (GICD_ISENABLER 0) 0xFFFFFFFF s)"

text \<open>The bit of an interrupt in the registers that hold 32 of them.\<close>

definition irq_bit :: "u8 \<Rightarrow> u32" where "irq_bit irq = push_bit (unat (irq mod 32)) 1"

definition gic_disable_interrupt :: "u8 \<Rightarrow> kstate \<Rightarrow> kstate" where
  "gic_disable_interrupt irq s = io_write32 GICD_BASE (GICD_ICENABLER (ucast (irq div 32))) (irq_bit irq) s"

definition gic_enable_interrupt :: "u8 \<Rightarrow> kstate \<Rightarrow> kstate" where
  "gic_enable_interrupt irq s = io_write32 GICD_BASE (GICD_ISENABLER (ucast (irq div 32))) (irq_bit irq) s"

definition gic_clear_pending :: "u8 \<Rightarrow> kstate \<Rightarrow> kstate" where
  "gic_clear_pending irq s = io_write32 GICD_BASE (GICD_ICPENDR (ucast (irq div 32))) (irq_bit irq) s"

definition gic_set_interrupt_priority :: "device \<Rightarrow> u8 \<Rightarrow> u8 \<Rightarrow> kstate \<Rightarrow> kstate" where
  "gic_set_interrupt_priority dev irq priority s =
     (case io_read32 dev GICD_BASE (GICD_IPRIORITYR (ucast (irq div 4))) s of
        (prio, s) \<Rightarrow>
          let prio = prio AND NOT (push_bit (unat (irq mod 4) * 8) 0xFF);
              prio = prio OR push_bit (unat (irq mod 4) * 8) (ucast priority)
          in io_write32 GICD_BASE (GICD_IPRIORITYR (ucast (irq div 4))) prio s)"

definition gic_redirect_irq :: "device \<Rightarrow> u8 \<Rightarrow> kstate \<Rightarrow> kstate" where
  "gic_redirect_irq dev irq s =
     (case io_read32 dev GICD_BASE (GICD_IGROUPR (ucast (irq div 32))) s of
        (grp, s) \<Rightarrow> io_write32 GICD_BASE (GICD_IGROUPR (ucast (irq div 32))) (grp OR irq_bit irq) s)"

definition gic_allow_interrupts :: "kstate \<Rightarrow> kstate" where
  "gic_allow_interrupts s = io_write32 GICC_BASE GICC_PMR GIC_PRIORITY_ALL s"

text \<open>
  \<^verbatim>\<open>interrupts_enable\<close> of arch/arm64/interrupts.c, which \<^verbatim>\<open>gic_init\<close> calls: \<^verbatim>\<open>daif\<close> and
  \<^verbatim>\<open>value\<close> are 32 bits wide.
\<close>

definition a64_interrupts_enable :: "bool \<Rightarrow> bool \<Rightarrow> kstate \<Rightarrow> kstate" where
  "a64_interrupts_enable irq fiq s =
     (let val = (0 :: u32);
          val = (if irq then val OR 1 else val);
          val = (if fiq then val OR 2 else val);
          daif = ucast (sreg s DAIF) AND NOT val
      in set_sreg DAIF (ucast daif) s)"

definition gic_init :: "device \<Rightarrow> kstate \<Rightarrow> kstate" where
  "gic_init dev s =
     (case io_read32 dev GICD_BASE GICD_CTLR s of (gicd_ctlr, s) \<Rightarrow>
      let s = io_write32 GICD_BASE GICD_CTLR (gicd_ctlr OR 0x03) s
      in case io_read32 dev GICC_BASE GICC_CTLR s of (gicc_ctlr, s) \<Rightarrow>
      let s = io_write32 GICC_BASE GICC_CTLR (gicc_ctlr OR (0x01 OR 0x02)) s;
          s = io_write32 GICC_BASE GICC_BPR 0x00000000 s
      in case io_read32 dev GICD_BASE GICD_IIDR s of (gicd_iidr, s) \<Rightarrow>
      case io_read32 dev GICD_BASE GICD_TYPER s of (gicd_typer, s) \<Rightarrow>
      let s = klog_info ''gic'' ''GIC model is %s, implementer %s, %d max irqs''
            [VStr (Some (if drop_bit 24 gicd_iidr AND 0x03 = 0x002 then ''GIC-400'' else ''Unknown'')),
             VStr (Some (if gicd_iidr AND 0xfff = 0x43B then ''ARM'' else ''Unknown'')),
             VNum (ucast (32 * ((gicd_typer AND 0x1F) + 1)))] s;
          s = gic_allow_interrupts s
      in a64_interrupts_enable True False s)"

section \<open>Lemmas\<close>

lemma io_write_fields [simp]:
  "mem (io_write32 a off v s) = mem s" "sreg (io_write32 a off v s) = sreg s" "gicc_iar (io_write32 a off v s) = gicc_iar s"
  "gic_handlers (io_write32 a off v s) = gic_handlers s" "io_hist (io_write32 a off v s) = IoWrite (a + off) v # io_hist s"
  "global_ticks (io_write32 a off v s) = global_ticks s" "uart_out (io_write32 a off v s) = uart_out s"
  by (simp_all add: io_write32_def)

lemma gic_ack_eq:
  "gic_interrupt_ack dev s =
     (let v = ucast (dev (io_hist s) 0x0801000C)
      in (v AND 0x3FF, s\<lparr>io_hist := IoRead 0x0801000C v # io_hist s, gicc_iar := v\<rparr>))"
  by (simp add: gic_interrupt_ack_def io_read32_def GICC_BASE_def GICC_IAR_def Let_def)

text \<open>The bytes of a register of four priorities.\<close>

definition prio_byte :: "nat \<Rightarrow> u32 \<Rightarrow> u8" where "prio_byte k v = ucast (drop_bit (8 * k) v)"

lemma bit_prio_byte: "bit (prio_byte k v) n \<longleftrightarrow> n < 8 \<and> bit v (8 * k + n)"
  by (auto simp: prio_byte_def bit_simps add.commute)

lemma bit_ff: "bit (0xFF :: u32) n \<longleftrightarrow> n < 8"
proof -
  have "(0xFF :: u32) = mask 8" by (simp add: mask_eq_decr_exp)
  then show ?thesis using bit_imp_le_length [of "0xFF :: u32" n] by (simp only: bit_mask_iff) auto
qed

lemma prio_update:
  assumes "j < 4" and "k < 4"
  shows "prio_byte j ((v AND NOT (push_bit (k * 8) 0xFF)) OR push_bit (k * 8) (ucast p)) =
    (if j = k then p else prio_byte j v)"
proof (rule bit_word_eqI)
  fix n assume "n < LENGTH(8)"
  then have n: "n < 8" by simp
  have l: "8 * j + n < 32" using assms(1) n by simp
  show "bit (prio_byte j ((v AND NOT (push_bit (k * 8) 0xFF)) OR push_bit (k * 8) (ucast p))) n =
    bit (if j = k then p else prio_byte j v) n"
  proof (cases "j = k")
    case True
    then show ?thesis using n l by (auto simp: bit_prio_byte mult.commute [of k 8] bit_or_iff bit_and_iff bit_not_iff bit_push_bit_iff bit_ff bit_ucast_iff simp del: bit_numeral_word_iff)
  next
    case False
    then consider "j < k" | "k < j" by linarith
    then have "\<not> (k * 8 \<le> 8 * j + n \<and> 8 * j + n - k * 8 < 8)"
    proof cases
      case 1
      then show ?thesis using n by simp
    next
      case 2
      then show ?thesis using n by simp
    qed
    moreover have "\<not> bit (ucast p :: u32) m" if "8 \<le> m" for m using that bit_imp_le_length [of p m] by (auto simp: bit_ucast_iff)
    ultimately show ?thesis using n l False
      by (auto simp: bit_prio_byte bit_or_iff bit_and_iff bit_not_iff bit_push_bit_iff bit_ff simp del: bit_numeral_word_iff)
  qed
qed

text \<open>The registers of four priorities change in the byte of their interrupt only.\<close>

text \<open>
  C37: \<^verbatim>\<open>gic_set_interrupt_priority\<close> reads the priority register of the interrupt once and
  writes it once. In the value written the byte of the interrupt holds the new priority and the
  bytes of the other three interrupts are those that were read.
\<close>
theorem gic_set_interrupt_priority_sound:
  "\<exists>old new.
     io_hist (gic_set_interrupt_priority dev irq priority s) =
       IoWrite (0x08000400 + ucast (irq div 4) * 4) new # IoRead (0x08000400 + ucast (irq div 4) * 4) old # io_hist s \<and>
     old = ucast (dev (io_hist s) (0x08000400 + ucast (irq div 4) * 4)) \<and>
     prio_byte (unat (irq mod 4)) new = priority \<and>
     list_all (\<lambda>j. (j = unat (irq mod 4)) \<noteq> (prio_byte j new = prio_byte j old \<and> j \<noteq> unat (irq mod 4))) [0..<4]"
proof -
  let ?a = "0x08000400 + ucast (irq div 4) * 4 :: u64"
  let ?k = "unat (irq mod 4)"
  define old :: u32 where "old = ucast (dev (io_hist s) ?a)"
  define new where "new = (old AND NOT (push_bit (?k * 8) 0xFF)) OR push_bit (?k * 8) (ucast priority)"
  have k: "?k < 4" by (simp add: unat_mod)
  have u: "prio_byte j new = (if j = ?k then priority else prio_byte j old)" if "j < 4" for j
    unfolding new_def using that k by (rule prio_update)
  have "io_hist (gic_set_interrupt_priority dev irq priority s) = IoWrite ?a new # IoRead ?a old # io_hist s"
    by (simp add: gic_set_interrupt_priority_def io_read32_def Let_def GICD_BASE_def GICD_IPRIORITYR_def old_def new_def
        add.assoc)
  then show ?thesis using u k by (intro exI [of _ old] exI [of _ new]) (auto simp: old_def list_all_iff)
qed

text \<open>Every operation on one interrupt touches the bit of that interrupt in one register.\<close>

lemma irq_bit_bit: "bit (irq_bit irq) n \<longleftrightarrow> n = unat (irq mod 32)"
proof -
  have "unat (irq mod 32) < 32" by (simp add: unat_mod)
  then show ?thesis by (auto simp: irq_bit_def bit_push_bit_iff bit_1_iff simp del: push_bit_of_1)
qed

lemma gic_one_bit:
  "io_hist (gic_enable_interrupt irq s) = IoWrite (0x08000100 + ucast (irq div 32) * 4) (irq_bit irq) # io_hist s"
  "io_hist (gic_disable_interrupt irq s) = IoWrite (0x08000180 + ucast (irq div 32) * 4) (irq_bit irq) # io_hist s"
  "io_hist (gic_clear_pending irq s) = IoWrite (0x08000280 + ucast (irq div 32) * 4) (irq_bit irq) # io_hist s"
  by (simp_all add: gic_enable_interrupt_def gic_disable_interrupt_def gic_clear_pending_def GICD_BASE_def
      GICD_ISENABLER_def GICD_ICENABLER_def GICD_ICPENDR_def add.assoc)

text \<open>
  \<^verbatim>\<open>gic_disable_interrupts\<close> writes ones to the two registers that enable interrupts, the same
  writes as enabling every interrupt from 0 to 63: it disables none.
\<close>

lemma gic_disable_interrupts_enables:
  "io_hist (gic_disable_interrupts s) = IoWrite 0x08000104 0xFFFFFFFF # IoWrite 0x08000100 0xFFFFFFFF # io_hist s"
  by (simp add: gic_disable_interrupts_def GICD_BASE_def GICD_ISENABLER_def)

text \<open>The table of handlers.\<close>

lemma gic_register_lookup:
  "load64 (gic_register_interrupt_handler irq h s) (gic_handler_slot (ucast irq) (gic_register_interrupt_handler irq h s)) = h"
  by (simp add: gic_register_interrupt_handler_def gic_handler_slot_def store64_def mem_simps)

definition gic_acked :: "device \<Rightarrow> kstate \<Rightarrow> kstate" where
  "gic_acked dev s = snd (gic_interrupt_ack dev s)"

lemma gic_acked_fields [simp]:
  "mem (gic_acked dev s) = mem s" "sreg (gic_acked dev s) = sreg s" "gic_handlers (gic_acked dev s) = gic_handlers s"
  "gicc_iar (gic_acked dev s) = ucast (dev (io_hist s) 0x0801000C)"
  "io_hist (gic_acked dev s) = IoRead 0x0801000C (ucast (dev (io_hist s) 0x0801000C)) # io_hist s"
  "global_ticks (gic_acked dev s) = global_ticks s"
  by (simp_all add: gic_acked_def gic_ack_eq Let_def)

lemma gic_handle_interrupts_eq:
  "gic_handle_interrupts dev calls regs s =
     (let s = gic_acked dev s; irq = gicc_iar s AND 0x3FF; h = load64 s (gic_handler_slot irq s)
      in if 1022 \<le> irq then Ret () (gic_eoi s)
         else andThen (if h \<noteq> 0 then calls h (gicc_iar s) regs s else Ret (-1) s)
           (\<lambda>ret s. if ret = -1 then panic ''gic'' ''interrupt handler exited with error'' [] (gic_eoi s)
                     else Ret () (gic_eoi s)))"
proof -
  have "\<not> x = 1023" if "\<not> 1022 \<le> x" for x :: u32 using that by (auto simp: word_le_nat_alt)
  then show ?thesis
    by (auto simp: gic_handle_interrupts_def gic_acked_def gic_ack_eq Let_def GIC_UNKNOWN_INTERRUPT_def
        GIC_SPURIOUS_INTERRUPT_def)
qed

end
