(* ===== verification/Timer.thy ===== *)
theory Timer
  imports Gic
begin

text \<open>
  \<^verbatim>\<open>arch/arm64/timer.c\<close> and \<^verbatim>\<open>arch/riscv/timer.c\<close>. The names of the two files are the same; here
  they carry the prefixes \<open>a64\<close> and \<open>rv\<close>. A wait loops until \<^verbatim>\<open>global_ticks\<close> reaches a mark; what the
  machine does between two tests (nothing, or an interrupt) is a parameter.
\<close>

section \<open>Definitions\<close>

definition TIMER_IRQ_ID :: u8 where "TIMER_IRQ_ID = 30"
definition TIMER_FREQ :: u64 where "TIMER_FREQ = 100"
definition TIMER_ENABLE :: u64 where "TIMER_ENABLE = 0x01"
definition TO_KHZ :: "u64 \<Rightarrow> u64" where "TO_KHZ hz = hz div 1000"

subsection \<open>ARM64\<close>

definition a64_timer_get_core_frequency :: "kstate \<Rightarrow> u64" where
  "a64_timer_get_core_frequency s = sreg s CNTFRQ_EL0"

definition a64_timer_set_frequency :: "u64 \<Rightarrow> kstate \<Rightarrow> kstate" where
  "a64_timer_set_frequency freq s = set_sreg CNTP_TVAL_EL0 freq s"

definition a64_timer_disable :: "kstate \<Rightarrow> kstate" where
  "a64_timer_disable s = set_sreg CNTP_CTL_EL0 (sreg s CNTP_CTL_EL0 AND NOT TIMER_ENABLE) s"

definition a64_timer_enable :: "kstate \<Rightarrow> kstate" where
  "a64_timer_enable s = set_sreg CNTP_CTL_EL0 (sreg s CNTP_CTL_EL0 OR TIMER_ENABLE) s"

definition a64_timer_unmask :: "kstate \<Rightarrow> kstate" where
  "a64_timer_unmask s = set_sreg CNTP_CTL_EL0 (sreg s CNTP_CTL_EL0 AND NOT (push_bit 1 1)) s"

definition a64_timer_mask :: "kstate \<Rightarrow> kstate" where
  "a64_timer_mask s = set_sreg CNTP_CTL_EL0 (sreg s CNTP_CTL_EL0 OR push_bit 1 1) s"

definition a64_timer_handler :: "u32 \<Rightarrow> u64 \<Rightarrow> kstate \<Rightarrow> (int, kstate) outcome" where
  "a64_timer_handler iar regs s =
     (let s = a64_timer_mask s;
          s = s\<lparr>global_ticks := global_ticks s + 1\<rparr>;
          freq = a64_timer_get_core_frequency s;
          reload_ticks = freq div TIMER_FREQ;
          s = a64_timer_set_frequency reload_ticks s;
          s = klog_info ''timer'' ''interrupt'' [] s
      in Ret 0 s)"

text \<open>\<open>handler\<close> is the address of \<^verbatim>\<open>timer_handler\<close>.\<close>

definition a64_timer_init :: "device \<Rightarrow> u64 \<Rightarrow> kstate \<Rightarrow> kstate" where
  "a64_timer_init dev handler s =
     (let freq = a64_timer_get_core_frequency s;
          s = klog_info ''timer'' ''core frequency: %d kHz'' [VNum (TO_KHZ freq)] s;
          s = gic_register_interrupt_handler TIMER_IRQ_ID handler s;
          s = gic_enable_interrupt TIMER_IRQ_ID s;
          s = gic_set_interrupt_priority dev TIMER_IRQ_ID GIC_PRIORITY_MEDIUM s;
          s = a64_timer_set_frequency (freq div TIMER_FREQ) s;
          s = a64_timer_unmask s
      in a64_timer_enable s)"

subsection \<open>RISC-V\<close>

definition rv_timer_set_cmp :: "u64 \<Rightarrow> kstate \<Rightarrow> kstate" where "rv_timer_set_cmp cmp_value s = set_sreg STIMECMP cmp_value s"
definition rv_timer_get_time :: "kstate \<Rightarrow> u64" where "rv_timer_get_time s = sreg s TIME"
definition rv_timer_get_cmp :: "kstate \<Rightarrow> u64" where "rv_timer_get_cmp s = sreg s STIMECMP"
definition rv_timer_disable :: "kstate \<Rightarrow> kstate" where "rv_timer_disable s = csrc SIE 0x20 s"
definition rv_timer_enable :: "kstate \<Rightarrow> kstate" where "rv_timer_enable s = csrs SIE 0x20 s"

definition rv_timer_handler :: "u64 \<Rightarrow> kstate \<Rightarrow> kstate" where
  "rv_timer_handler regs s =
     (let s = s\<lparr>global_ticks := global_ticks s + 1\<rparr>;
          cmp_value = rv_timer_get_cmp s;
          cmp_value = cmp_value + TIMER_FREQ * 100
      in rv_timer_set_cmp cmp_value s)"

definition rv_timer_init :: "kstate \<Rightarrow> kstate" where
  "rv_timer_init s =
     (let timer_value = rv_timer_get_time s;
          s = s\<lparr>global_ticks := 0\<rparr>;
          timer_value = timer_value + TIMER_FREQ * 100;
          s = rv_timer_set_cmp timer_value s;
          s = rv_timer_enable s
      in klog_info ''timer'' ''enabled timer: time=%d'' [VNum timer_value] s)"

subsection \<open>The wait\<close>

text \<open>
  \<^verbatim>\<open>timer_wait\<close> is the same in both files. \<open>world n\<close> is what happens before the test number \<open>n\<close> of
  the loop; a wait that never ends has no value.
\<close>

type_synonym world = "nat \<Rightarrow> kstate \<Rightarrow> (unit, kstate) outcome"

partial_function (option) timer_wait_loop :: "world \<Rightarrow> u64 \<Rightarrow> nat \<Rightarrow> kstate \<Rightarrow> (unit, kstate) outcome option" where
  "timer_wait_loop world finish n s =
     (case world n s of
        Ret _ t \<Rightarrow> if global_ticks t < finish then timer_wait_loop world finish (Suc n) t else Some (Ret () t)
      | Halt t \<Rightarrow> Some (Halt t)
      | Spin t \<Rightarrow> Some (Spin t))"

definition timer_wait :: "world \<Rightarrow> u64 \<Rightarrow> kstate \<Rightarrow> (unit, kstate) outcome option" where
  "timer_wait world ticks s = timer_wait_loop world (global_ticks s + ticks) 0 s"

section \<open>Lemmas\<close>

text \<open>The states a wait goes through, while the machine returns.\<close>

fun world_run :: "world \<Rightarrow> nat \<Rightarrow> nat \<Rightarrow> kstate \<Rightarrow> kstate option" where
  "world_run w n 0 s = Some s"
| "world_run w n (Suc k) s = (case w n s of Ret _ t \<Rightarrow> world_run w (Suc n) k t | _ \<Rightarrow> None)"

lemma timer_wait_loop_ends:
  assumes "world_run w n (Suc k) s = Some t" and "\<not> global_ticks t < finish"
    and "\<forall>j < k. \<forall>u. world_run w n (Suc j) s = Some u \<longrightarrow> global_ticks u < finish"
  shows "timer_wait_loop w finish n s = Some (Ret () t)"
  using assms
proof (induction k arbitrary: n s)
  case 0
  then show ?case by (subst timer_wait_loop.simps) (simp split: outcome.splits)
next
  case (Suc k)
  obtain v where v: "w n s = Ret () v" and r: "world_run w (Suc n) (Suc k) v = Some t"
    using Suc.prems(1) by (cases "w n s") simp_all
  have lt: "global_ticks v < finish" using spec [OF Suc.prems(3), of 0] v by simp
  have "\<forall>j < k. \<forall>u. world_run w (Suc n) (Suc j) v = Some u \<longrightarrow> global_ticks u < finish"
  proof (intro allI impI)
    fix j u assume "j < k" and "world_run w (Suc n) (Suc j) v = Some u"
    then show "global_ticks u < finish" using spec [OF Suc.prems(3), of "Suc j"] v by simp
  qed
  then have "timer_wait_loop w finish (Suc n) v = Some (Ret () t)" by (rule Suc.IH [OF r Suc.prems(2)])
  then show ?case using v lt by (subst timer_wait_loop.simps) simp
qed

text \<open>A wait whose mark the machine never reaches does not return.\<close>

lemma timer_wait_loop_stuck:
  assumes keep: "\<And>n s x t. I n s \<Longrightarrow> w n s = Ret x t \<Longrightarrow> global_ticks t < finish \<and> I (Suc n) t"
  shows "I n s \<Longrightarrow> timer_wait_loop w finish n s \<noteq> Some (Ret x t)"
proof -
  have "v = w \<and> f = finish \<and> I n s \<longrightarrow> r \<noteq> Ret x t" if "timer_wait_loop v f n s = Some r" for v f n s r
    using that
  proof (rule timer_wait_loop.raw_induct [rotated])
    fix rec v f n s r
    assume ih: "\<And>v f n s r. rec v f n s = Some r \<Longrightarrow> v = w \<and> f = finish \<and> I n s \<longrightarrow> r \<noteq> Ret x t"
      and e: "(case v n s of Ret _ t \<Rightarrow> if global_ticks t < f then rec v f (Suc n) t else Some (Ret () t)
        | Halt t \<Rightarrow> Some (Halt t) | Spin t \<Rightarrow> Some (Spin t)) = Some r"
    show "v = w \<and> f = finish \<and> I n s \<longrightarrow> r \<noteq> Ret x t"
    proof
      assume vw: "v = w \<and> f = finish \<and> I n s"
      show "r \<noteq> Ret x t"
      proof (cases "w n s")
        case (Ret y u)
        then have "global_ticks u < finish" "I (Suc n) u" using keep [of n s y u] vw by simp_all
        then show ?thesis using ih [of w finish "Suc n" u r] e vw Ret by simp
      qed (use e vw in auto)
    qed
  qed
  then show "I n s \<Longrightarrow> timer_wait_loop w finish n s \<noteq> Some (Ret x t)" by blast
qed

end
