(* ===== verification/Trap.thy ===== *)
theory Trap
  imports Timer
begin

text \<open>
  \<^verbatim>\<open>arch/arm64/interrupts.c\<close> and \<^verbatim>\<open>arch/riscv/interrupts.c\<close>: how exceptions are switched on and
  dispatched. The entry code in assembly saves the registers in memory and passes their address.
  An exception that is not handled ends in \<open>Halt\<close> (a panic) or \<open>Spin\<close> (the \<^verbatim>\<open>wfe\<close> loop).
\<close>

section \<open>Definitions\<close>

subsection \<open>ARM64\<close>

definition EXC_TYPE_FIQ :: u32 where "EXC_TYPE_FIQ = 3"
definition EXC_TYPE_SERR :: u32 where "EXC_TYPE_SERR = 4"

definition a64_interrupts_set_vbar :: "u64 \<Rightarrow> kstate \<Rightarrow> kstate" where
  "a64_interrupts_set_vbar val s =
     (let el = (ucast (cpu_get_el_num s) :: u32)
      in if el = 1 then cpu_set_vbar_el1 val s
         else if el = 2 then cpu_set_vbar_el2 val s
         else klog_critical ''cpu'' ''setting vbar failed! unsupported exception level=%d'' [VNum (ucast el)] s)"

text \<open>\<^verbatim>\<open>enable_exceptions\<close> of exceptions.S: \<^verbatim>\<open>msr daif, xzr\<close>.\<close>

definition enable_exceptions :: "kstate \<Rightarrow> kstate" where "enable_exceptions s = set_sreg DAIF 0 s"

text \<open>\<open>vectors\<close> is the address of the vector table.\<close>

definition a64_interrupts_init :: "u64 \<Rightarrow> kstate \<Rightarrow> kstate" where
  "a64_interrupts_init vectors s =
     (let s = klog_info ''boot'' ''enabling exceptions...'' [] s;
          s = a64_interrupts_set_vbar vectors s
      in enable_exceptions s)"

definition saved_regs :: "u64 \<Rightarrow> kstate \<Rightarrow> vararg list" where
  "saved_regs regs s = map (\<lambda>i. VNum (load64 s (regs + 8 * of_nat i))) [0..<32]"

definition a64_serror_format :: string where
  "a64_serror_format =
     ''EL%d EXCEPTION %d: ESR=0x%x, ELR=0x%x'' @ [CHR 0x0A] @
     ''x0 =0x%x  x1 =0x%x '' @ ''x2 =0x%x  x3 =0x%x'' @ [CHR 0x0A] @
     ''x4 =0x%x  x5 =0x%x '' @ ''x6 =0x%x  x7 =0x%x'' @ [CHR 0x0A] @
     ''x8 =0x%x  x9 =0x%x '' @ ''x10=0x%x  x11=0x%x'' @ [CHR 0x0A] @
     ''x12=0x%x  x13=0x%x '' @ ''x14=0x%x  x15=0x%x'' @ [CHR 0x0A] @
     ''x16=0x%x  x17=0x%x '' @ ''x18=0x%x  x19=0x%x'' @ [CHR 0x0A] @
     ''x20=0x%x  x21=0x%x '' @ ''x22=0x%x  x23=0x%x'' @ [CHR 0x0A] @
     ''x24=0x%x  x25=0x%x '' @ ''x26=0x%x  x27=0x%x'' @ [CHR 0x0A] @
     ''x28=0x%x  fp =0x%x '' @ ''lr =0x%x  sp =0x%x''"

definition a64_interrupt_exception_handler ::
  "device \<Rightarrow> irq_calls \<Rightarrow> u32 \<Rightarrow> u64 \<Rightarrow> kstate \<Rightarrow> (unit, kstate) outcome" where
  "a64_interrupt_exception_handler dev calls exc_type regs s =
     (let el = (ucast (cpu_get_el_num s) :: u32);
          esr = (if el = 1 then read_esr_el1 s else if el = 2 then read_esr_el2 s else 0);
          elr = (if el = 1 then read_elr_el1 s else if el = 2 then read_elr_el2 s else 0)
      in if exc_type = EXC_TYPE_FIQ then gic_handle_interrupts dev calls regs s
         else if exc_type = EXC_TYPE_SERR then
           Spin (klog_critical ''cpu'' a64_serror_format
             ([VNum (ucast el), VNum (ucast exc_type), VNum esr, VNum elr] @ saved_regs regs s) s)
         else Ret () (klog_warn ''cpu'' ''unknown exception type %d'' [VNum (ucast exc_type)] s))"

subsection \<open>RISC-V\<close>

definition EXC_TYPE_SSI :: u64 where "EXC_TYPE_SSI = 1"
definition EXC_TYPE_STI :: u64 where "EXC_TYPE_STI = 5"

definition SCAUSE_IS_IRQ :: "u64 \<Rightarrow> u64" where
  "SCAUSE_IS_IRQ scause = drop_bit 63 (scause AND 0x8000000000000000)"

definition rv_interrupts_set_tvec :: "u64 \<Rightarrow> kstate \<Rightarrow> kstate" where
  "rv_interrupts_set_tvec val s = cpu_set_stvec val s"

definition rv_interrupts_enable :: "bool \<Rightarrow> bool \<Rightarrow> kstate \<Rightarrow> kstate" where
  "rv_interrupts_enable irq fiq s = csrs SSTATUS 0x02 (csrs SIE 0x02 s)"

text \<open>\<open>trap_vector\<close> is the address of the entry code.\<close>

definition rv_interrupts_init :: "u64 \<Rightarrow> kstate \<Rightarrow> kstate" where
  "rv_interrupts_init trap_vector s =
     (let s = klog_info ''boot'' ''enabling exceptions...'' [] s;
          s = rv_interrupts_set_tvec trap_vector s
      in rv_interrupts_enable False False s)"

definition rv_exception_format :: string where
  "rv_exception_format =
     ''%c-MODE EXCEPTION %d: SCAUSE=0x%llx, SEPC=0x%llx, STVAL=0x%llx'' @ [CHR 0x0A] @ riscv_dump_format"

definition rv_exception_code :: "u64 \<Rightarrow> u64" where "rv_exception_code scause = scause AND 0x7FFFFFFFFFFFFFFF"

definition rv_interrupt_exception_handler :: "u32 \<Rightarrow> u64 \<Rightarrow> kstate \<Rightarrow> (unit, kstate) outcome" where
  "rv_interrupt_exception_handler usermode regs s =
     (let s = csrc SIP 0x02 s;
          scause = cpu_get_scause s;
          sepc = cpu_get_sepc s;
          stval = cpu_get_stval s
      in if SCAUSE_IS_IRQ scause = 0 then
           let s = (if rv_exception_code scause = 15 \<or> rv_exception_code scause = 13 \<or> rv_exception_code scause = 12
                    then klog_critical ''cpu'' ''page fault at 0x%llx'' [VNum stval] s else s);
               s = klog_critical ''cpu'' rv_exception_format
                 ([VNum (of_char (if usermode = 1 then CHR ''U'' else CHR ''S'')),
                   VNum (rv_exception_code scause), VNum scause, VNum sepc, VNum stval] @ saved_regs regs s) s
           in panic ''cpu'' ''exception'' [] s
         else if rv_exception_code scause = EXC_TYPE_SSI then halt s
         else if rv_exception_code scause = EXC_TYPE_STI then Ret () (rv_timer_handler regs s)
         else Ret () s)"

subsection \<open>Interrupts during a wait\<close>

text \<open>
  RISC-V: \<open>causes n\<close> is the code of the interrupt the hart takes before test \<open>n\<close>, if any; the hart
  puts it into \<^verbatim>\<open>scause\<close> with the interrupt bit set.
\<close>

definition rv_world :: "(nat \<Rightarrow> u64 option) \<Rightarrow> u64 \<Rightarrow> world" where
  "rv_world causes regs n s =
     (case causes n of
        None \<Rightarrow> Ret () s
      | Some c \<Rightarrow> rv_interrupt_exception_handler 0 regs (set_sreg SCAUSE (push_bit 63 1 OR c) s))"

text \<open>ARM64: \<open>types n\<close> is the type of the exception taken before test \<open>n\<close>, if any.\<close>

definition a64_world :: "device \<Rightarrow> irq_calls \<Rightarrow> (nat \<Rightarrow> u32 option) \<Rightarrow> u64 \<Rightarrow> world" where
  "a64_world dev calls types regs n s =
     (case types n of None \<Rightarrow> Ret () s | Some ty \<Rightarrow> a64_interrupt_exception_handler dev calls ty regs s)"

text \<open>
  The timer of an ARM64 CPU signals when it is enabled and not masked. The runs of a kernel whose
  timer was initialised: timer interrupts (number 30, as an FIQ) while the timer signals, and
  exceptions of types that are neither FIQ nor SError.
\<close>

definition timer_signals :: "kstate \<Rightarrow> bool" where
  "timer_signals s \<longleftrightarrow> bit (sreg s CNTP_CTL_EL0) 0 \<and> \<not> bit (sreg s CNTP_CTL_EL0) 1"

inductive a64_timer_run :: "device \<Rightarrow> irq_calls \<Rightarrow> u64 \<Rightarrow> kstate \<Rightarrow> kstate \<Rightarrow> bool"
  for dev calls regs s where
    start: "a64_timer_run dev calls regs s s"
  | tick: "a64_timer_run dev calls regs s u"
      if "a64_timer_run dev calls regs s t" and "timer_signals t"
        and "ucast (dev (io_hist t) 0x0801000C) AND (0x3FF :: u32) = 30"
        and "a64_interrupt_exception_handler dev calls EXC_TYPE_FIQ regs t = Ret () u"
  | other: "a64_timer_run dev calls regs s u"
      if "a64_timer_run dev calls regs s t" and "ty \<noteq> EXC_TYPE_FIQ"
        and "a64_interrupt_exception_handler dev calls ty regs t = Ret () u"

section \<open>Lemmas\<close>

lemma scause_irq: "SCAUSE_IS_IRQ c = 0 \<longleftrightarrow> \<not> bit c 63"
proof -
  have "SCAUSE_IS_IRQ c = (if bit c 63 then 1 else 0)"
  proof (rule bit_word_eqI)
    fix n assume "n < LENGTH(64)"
    have e: "(0x8000000000000000 :: u64) = push_bit 63 1" by simp
    show "bit (SCAUSE_IS_IRQ c) n = bit (if bit c 63 then 1 else (0 :: u64)) n"
      unfolding SCAUSE_IS_IRQ_def e using bit_imp_le_length [of c "63 + n"]
      by (auto simp: bit_drop_bit_eq bit_and_iff bit_push_bit_iff bit_1_iff simp del: push_bit_of_1)
  qed
  then show ?thesis by simp
qed

lemma mask_63: "(0x7FFFFFFFFFFFFFFF :: u64) = mask 63"
  by (simp add: mask_eq_decr_exp)

lemma scause_of_irq:
  assumes "c < 2 ^ 63"
  shows "bit (push_bit 63 1 OR c :: u64) 63" and "rv_exception_code (push_bit 63 1 OR c) = c"
proof -
  have c: "n < 63" if "bit c n" for n
  proof -
    have "take_bit 63 c = c" using assms by (simp add: take_bit_eq_mod word_le_nat_alt word_less_nat_alt unat_mod mod_word_less)
    then show ?thesis using that by (metis bit_take_bit_iff not_le)
  qed
  show "bit (push_bit 63 1 OR c :: u64) 63" by (simp add: bit_or_iff bit_push_bit_iff del: push_bit_of_1)
  show "rv_exception_code (push_bit 63 1 OR c) = c"
    unfolding rv_exception_code_def mask_63 using c
    by (intro bit_word_eqI) (auto simp: bit_or_iff bit_and_iff bit_mask_iff bit_push_bit_iff bit_1_iff simp del: push_bit_of_1)
qed

text \<open>What an interrupt does on RISC-V.\<close>

definition rv_irq :: "u64 \<Rightarrow> kstate \<Rightarrow> kstate" where
  "rv_irq c s = s\<lparr>sreg := (sreg s)(SIP := sreg s SIP AND NOT 2,
     STIMECMP := (if c = 5 then sreg s STIMECMP + 10000 else sreg s STIMECMP)),
     global_ticks := (if c = 5 then global_ticks s + 1 else global_ticks s)\<rparr>"

lemma rv_handler_irq:
  assumes "bit (sreg s SCAUSE) 63" and "rv_exception_code (sreg s SCAUSE) \<noteq> 1"
  shows "rv_interrupt_exception_handler um regs s = Ret () (rv_irq (rv_exception_code (sreg s SCAUSE)) s)"
  using assms
  by (auto simp: rv_interrupt_exception_handler_def scause_irq cpu_get_scause_def csrc_def EXC_TYPE_SSI_def EXC_TYPE_STI_def
      rv_timer_handler_def rv_timer_get_cmp_def rv_timer_set_cmp_def TIMER_FREQ_def rv_irq_def set_sreg_def Let_def
      intro!: kstate.equality ext)

lemma rv_world_some:
  assumes "causes n = Some c" and "c \<noteq> 1" and "c < 2 ^ 63"
  shows "rv_world causes regs n s = Ret () (rv_irq c (set_sreg SCAUSE (push_bit 63 1 OR c) s))"
  using assms scause_of_irq [OF assms(3)] rv_handler_irq [of "set_sreg SCAUSE (push_bit 63 1 OR c) s" 0 regs]
  by (simp add: rv_world_def del: push_bit_of_1)

text \<open>The interrupts of a wait, in numbers.\<close>

fun timer_ticks :: "(nat \<Rightarrow> u64 option) \<Rightarrow> nat \<Rightarrow> nat" where
  "timer_ticks causes 0 = 0"
| "timer_ticks causes (Suc k) = timer_ticks causes k + (if causes k = Some 5 then 1 else 0)"

lemma timer_ticks_mono: "j \<le> k \<Longrightarrow> timer_ticks causes j \<le> timer_ticks causes k"
  by (induction k) (auto simp: le_Suc_eq)

lemma timer_ticks_unbounded:
  assumes "\<forall>i. \<exists>j \<ge> i. causes j = Some 5"
  shows "\<exists>k. m \<le> timer_ticks causes k"
proof (induction m)
  case (Suc m)
  then obtain k where k: "m \<le> timer_ticks causes k" by blast
  obtain j where j: "k \<le> j" "causes j = Some 5" using assms by blast
  have "Suc m \<le> timer_ticks causes (Suc j)" using k j timer_ticks_mono [OF j(1), of causes] by simp
  then show ?case by blast
qed simp

lemma timer_ticks_first:
  assumes "\<forall>i. \<exists>j \<ge> i. causes j = Some 5" and "0 < m"
  obtains k where "timer_ticks causes (Suc k) = m" "\<forall>j \<le> k. timer_ticks causes j < m"
proof -
  define K where "K = (LEAST k. m \<le> timer_ticks causes k)"
  have K: "m \<le> timer_ticks causes K" unfolding K_def using timer_ticks_unbounded [OF assms(1)] by (rule LeastI_ex)
  have less: "timer_ticks causes j < m" if "j < K" for j using not_less_Least [of j] that unfolding K_def by (meson not_le)
  obtain k where k: "K = Suc k" using K assms(2) by (cases K) auto
  have "timer_ticks causes (Suc k) = m" using K less [of k] k by (simp split: if_splits)
  then show thesis using less k by (intro that [of k]) auto
qed

lemma world_run_snoc:
  "world_run w n (Suc k) s =
     (case world_run w n k s of None \<Rightarrow> None | Some t \<Rightarrow> (case w (n + k) t of Ret _ u \<Rightarrow> Some u | _ \<Rightarrow> None))"
proof (induction k arbitrary: n s)
  case 0
  then show ?case by (cases "w n s") simp_all
next
  case (Suc k)
  show ?case
  proof (cases "w n s")
    case (Ret x v)
    have "world_run w n (Suc (Suc k)) s = world_run w (Suc n) (Suc k) v" using Ret by simp
    also have "\<dots> = (case world_run w (Suc n) k v of None \<Rightarrow> None
        | Some t \<Rightarrow> (case w (Suc n + k) t of Ret _ u \<Rightarrow> Some u | _ \<Rightarrow> None))" by (rule Suc.IH)
    finally show ?thesis using Ret unfolding add_Suc_shift by simp
  qed simp_all
qed

text \<open>What a wait on RISC-V changes: the count of ticks, the compare register and trap registers.\<close>

definition rv_waited :: "nat \<Rightarrow> kstate \<Rightarrow> kstate \<Rightarrow> bool" where
  "rv_waited c s t \<longleftrightarrow>
     (\<exists>R. t = s\<lparr>sreg := R, global_ticks := global_ticks s + of_nat c\<rparr> \<and>
       R STIMECMP = sreg s STIMECMP + 10000 * of_nat c \<and>
       (\<forall>r. r \<notin> {STIMECMP, SIP, SCAUSE} \<longrightarrow> R r = sreg s r))"

lemma rv_waited_ticks: "rv_waited c s t \<Longrightarrow> global_ticks t = global_ticks s + of_nat c"
  by (auto simp: rv_waited_def)

lemma rv_waited_frame:
  assumes "rv_waited c s t"
  shows "sreg t STIMECMP = sreg s STIMECMP + 10000 * of_nat c"
    and "r \<notin> {STIMECMP, SIP, SCAUSE} \<Longrightarrow> sreg t r = sreg s r"
    and "t = s\<lparr>sreg := sreg t, global_ticks := global_ticks t\<rparr>"
proof -
  obtain R where t: "t = s\<lparr>sreg := R, global_ticks := global_ticks s + of_nat c\<rparr>"
    and R: "R STIMECMP = sreg s STIMECMP + 10000 * of_nat c" "\<forall>r. r \<notin> {STIMECMP, SIP, SCAUSE} \<longrightarrow> R r = sreg s r"
    using assms unfolding rv_waited_def by (elim exE conjE) (rule that)
  have e: "sreg t = R" "global_ticks t = global_ticks s + of_nat c" unfolding t by simp_all
  show "sreg t STIMECMP = sreg s STIMECMP + 10000 * of_nat c" unfolding e by (rule R(1))
  show "r \<notin> {STIMECMP, SIP, SCAUSE} \<Longrightarrow> sreg t r = sreg s r" unfolding e by (rule R(2) [rule_format])
  show "t = s\<lparr>sreg := sreg t, global_ticks := global_ticks t\<rparr>" unfolding e by (rule t)
qed

lemma rv_waited_step:
  assumes "rv_waited c s t"
  shows "rv_waited (c + (if x = 5 then 1 else 0)) s (rv_irq x (set_sreg SCAUSE v t))"
proof -
  let ?u = "rv_irq x (set_sreg SCAUSE v t)"
  obtain R where R: "t = s\<lparr>sreg := R, global_ticks := global_ticks s + of_nat c\<rparr>"
    "R STIMECMP = sreg s STIMECMP + 10000 * of_nat c" "\<forall>r. r \<notin> {STIMECMP, SIP, SCAUSE} \<longrightarrow> R r = sreg s r"
    using assms by (auto simp: rv_waited_def)
  show ?thesis
    unfolding rv_waited_def
  proof (intro exI [of _ "sreg ?u"] conjI)
    show "?u = s\<lparr>sreg := sreg ?u, global_ticks := global_ticks s + of_nat (c + (if x = 5 then 1 else 0))\<rparr>"
      by (simp add: rv_irq_def set_sreg_def R(1))
    show "sreg ?u STIMECMP = sreg s STIMECMP + 10000 * of_nat (c + (if x = 5 then 1 else 0))"
      by (simp add: rv_irq_def R(1,2) distrib_left)
    show "\<forall>r. r \<notin> {STIMECMP, SIP, SCAUSE} \<longrightarrow> sreg ?u r = sreg s r"
      using R(3) by (simp add: rv_irq_def R(1))
  qed
qed

lemma rv_world_run:
  assumes "\<forall>n c. causes n = Some c \<longrightarrow> c \<noteq> 1 \<and> c < 2 ^ 63"
  shows "\<exists>t. world_run (rv_world causes regs) 0 k s = Some t \<and> rv_waited (timer_ticks causes k) s t"
proof (induction k)
  case 0
  then show ?case by (auto simp: rv_waited_def intro!: exI [of _ "sreg s"])
next
  case (Suc k)
  then obtain t where t: "world_run (rv_world causes regs) 0 k s = Some t" "rv_waited (timer_ticks causes k) s t" by blast
  show ?case
  proof (cases "causes k")
    case None
    then have "rv_world causes regs k t = Ret () t" by (simp add: rv_world_def)
    then show ?thesis using t None by (simp add: world_run_snoc del: world_run.simps)
  next
    case (Some c)
    then have "rv_world causes regs k t = Ret () (rv_irq c (set_sreg SCAUSE (push_bit 63 1 OR c) t))"
      using assms by (intro rv_world_some) auto
    then show ?thesis using t(1) rv_waited_step [OF t(2), of c] Some
      by (simp add: world_run_snoc del: world_run.simps push_bit_of_1)
  qed
qed

text \<open>A mark that does not wrap around is reached after as many ticks as were asked for.\<close>

lemma mark_reached:
  assumes "unat (g :: u64) + unat n < 2 ^ 64"
  shows "c < unat n \<Longrightarrow> g + of_nat c < g + n" and "\<not> g + of_nat (unat n) < g + n"
proof -
  show "g + of_nat c < g + n" if "c < unat n"
  proof -
    have "unat (g + of_nat c) = unat g + c"
      using assms that unat_lt_u64 [of n] by (simp add: unat_word_ariths unat_of_nat)
    moreover have "unat (g + n) = unat g + unat n" using assms by (simp add: unat_word_ariths)
    ultimately show ?thesis using that by (simp add: word_less_nat_alt)
  qed
qed simp

lemma rv_timer_wait_ok:
  assumes "\<forall>n c. causes n = Some c \<longrightarrow> c \<noteq> 1 \<and> c < 2 ^ 63" and "\<forall>i. \<exists>j \<ge> i. causes j = Some 5"
    and "0 < ticks" and "unat (global_ticks s) + unat ticks < 2 ^ 64"
  obtains R where "timer_wait (rv_world causes regs) ticks s =
      Some (Ret () (s\<lparr>sreg := R, global_ticks := global_ticks s + ticks\<rparr>))"
    and "R STIMECMP = sreg s STIMECMP + 10000 * ticks" and "\<forall>r. r \<notin> {STIMECMP, SIP, SCAUSE} \<longrightarrow> R r = sreg s r"
proof -
  have "0 < unat ticks" using assms(3) by (simp add: unat_gt_0)
  from timer_ticks_first [OF assms(2) this] obtain k where
    k: "timer_ticks causes (Suc k) = unat ticks" "\<forall>j \<le> k. timer_ticks causes j < unat ticks" by blast
  note run = rv_world_run [OF assms(1), of regs _ s]
  from run [of "Suc k"] obtain t where t: "world_run (rv_world causes regs) 0 (Suc k) s = Some t" "rv_waited (unat ticks) s t"
    unfolding k(1) by blast
  have g: "global_ticks t = global_ticks s + ticks" using t(2) by (auto simp: rv_waited_def)
  have "\<forall>j < k. \<forall>u. world_run (rv_world causes regs) 0 (Suc j) s = Some u \<longrightarrow> global_ticks u < global_ticks s + ticks"
  proof (intro allI impI)
    fix j u assume "j < k" and u: "world_run (rv_world causes regs) 0 (Suc j) s = Some u"
    then have "timer_ticks causes (Suc j) < unat ticks" using k(2) by (meson Suc_leI)
    moreover have "rv_waited (timer_ticks causes (Suc j)) s u" using run [of "Suc j"] u by auto
    then have "global_ticks u = global_ticks s + of_nat (timer_ticks causes (Suc j))" by (rule rv_waited_ticks)
    ultimately show "global_ticks u < global_ticks s + ticks" using mark_reached(1) [OF assms(4)] by (simp only:)
  qed
  from timer_wait_loop_ends [OF t(1) _ this] have run: "timer_wait (rv_world causes regs) ticks s = Some (Ret () t)"
    by (simp add: timer_wait_def g)
  have "t = s\<lparr>sreg := sreg t, global_ticks := global_ticks s + ticks\<rparr>" using rv_waited_frame(3) [OF t(2)] g by simp
  with run have "timer_wait (rv_world causes regs) ticks s =
      Some (Ret () (s\<lparr>sreg := sreg t, global_ticks := global_ticks s + ticks\<rparr>))" by simp
  moreover have "sreg t STIMECMP = sreg s STIMECMP + 10000 * ticks" using rv_waited_frame(1) [OF t(2)] by simp
  ultimately show ?thesis using rv_waited_frame(2) [OF t(2)] by (intro that) blast+
qed

lemma a64_handler_fiq:
  "a64_interrupt_exception_handler dev calls EXC_TYPE_FIQ regs s = gic_handle_interrupts dev calls regs s"
  by (simp only: a64_interrupt_exception_handler_def Let_def simp_thms if_True)

lemma a64_handler_other:
  assumes "a64_interrupt_exception_handler dev calls ty regs s = Ret x t" and "ty \<noteq> EXC_TYPE_FIQ"
  shows "t = klog_warn ''cpu'' ''unknown exception type %d'' [VNum (ucast ty)] s"
  using assms(1) unfolding a64_interrupt_exception_handler_def Let_def if_not_P [OF assms(2)]
  by (cases "ty = EXC_TYPE_SERR") simp_all

text \<open>A wait on ARM64 with no handler registered.\<close>

lemma a64_wait_never_returns:
  assumes "\<forall>i < 255. load64 s (gic_handlers s + 8 * of_nat i) = 0"
    and "\<forall>h. unat (ucast (dev h 0x0801000C) AND (0x3FF :: u32)) < 255 \<or> 1022 \<le> unat (ucast (dev h 0x0801000C) AND (0x3FF :: u32))"
    and "0 < ticks" and "unat (global_ticks s) + unat ticks < 2 ^ 64"
  shows "timer_wait (a64_world dev calls types regs) ticks s \<noteq> Some (Ret () t)"
proof -
  let ?w = "a64_world dev calls types regs"
  define I where "I n u \<longleftrightarrow> mem u = mem s \<and> gic_handlers u = gic_handlers s \<and> global_ticks u = global_ticks s"
    for n :: nat and u :: kstate
  have empty: "load64 u (gic_handler_slot irq u) = 0" if "I n u" "unat irq < 255" for n u irq
  proof -
    have "(ucast irq :: u64) = of_nat (unat irq)" by (simp add: unsigned_ucast_eq)
    then show ?thesis using spec [OF assms(1), of "unat irq"] that by (simp add: I_def gic_handler_slot_def)
  qed
  have gic: "I (Suc n) v" if "I n u" "gic_handle_interrupts dev calls regs u = Ret x v" for n u x v
  proof -
    have I: "I n (gic_acked dev u)" using that(1) by (simp add: I_def)
    have "\<not> (unat (gicc_iar (gic_acked dev u) AND 0x3FF) < 255)"
      using that(2) empty [OF I] by (auto simp: gic_handle_interrupts_eq Let_def word_le_nat_alt split: if_splits)
    then have "v = gic_eoi (gic_acked dev u)"
      using that(2) spec [OF assms(2), of "io_hist u"] by (auto simp: gic_handle_interrupts_eq Let_def word_le_nat_alt split: if_splits)
    then show ?thesis using that(1) by (simp add: I_def gic_eoi_def)
  qed
  have "global_ticks v < global_ticks s + ticks \<and> I (Suc n) v" if i: "I n u" and r: "?w n u = Ret x v" for n u x v
  proof -
    have "I (Suc n) v"
    proof (cases "types n")
      case None
      then show ?thesis using i r by (simp add: a64_world_def I_def)
    next
      case (Some ty)
      then have h: "a64_interrupt_exception_handler dev calls ty regs u = Ret x v" using r by (simp add: a64_world_def)
      show ?thesis
      proof (cases "ty = EXC_TYPE_FIQ")
        case True
        then show ?thesis using gic [OF i] h by (simp add: a64_handler_fiq)
      next
        case False
        then show ?thesis using a64_handler_other [OF h] i by (simp add: I_def klog_warn_def)
      qed
    qed
    moreover have "global_ticks s < global_ticks s + ticks"
      using mark_reached(1) [OF assms(4), of 0] assms(3) by (simp add: unat_gt_0)
    ultimately show ?thesis by (simp add: I_def)
  qed
  from timer_wait_loop_stuck [of I ?w, OF this] have "I 0 s \<Longrightarrow> ?thesis" unfolding timer_wait_def by simp
  then show ?thesis by (simp add: I_def)
qed

section \<open>Properties\<close>

text \<open>
  C21: what the RISC-V trap handler decides. It returns exactly for interrupts other than the
  software interrupt, and then all it has done is clear the pending software interrupt and, for
  the timer interrupt, count one tick and move the compare register by 10000. It halts for the
  software interrupt. Every exception halts after a report that for the causes 12, 13 and 15
  begins with the faulting address; only the output and \<^verbatim>\<open>sip\<close> have changed.
\<close>
theorem rv_trap_decides:
  "case rv_interrupt_exception_handler usermode regs s of
     Ret _ t \<Rightarrow> bit (sreg s SCAUSE) 63 \<and> rv_exception_code (sreg s SCAUSE) \<noteq> 1 \<and>
       sreg t = (sreg s)(SIP := sreg s SIP AND NOT 2,
         STIMECMP := sreg s STIMECMP + (if rv_exception_code (sreg s SCAUSE) = 5 then 10000 else 0)) \<and>
       global_ticks t = global_ticks s + (if rv_exception_code (sreg s SCAUSE) = 5 then 1 else 0) \<and>
       t = s\<lparr>sreg := sreg t, global_ticks := global_ticks t\<rparr>
   | Halt t \<Rightarrow> (\<exists>out. t = s\<lparr>sreg := (sreg s)(SIP := sreg s SIP AND NOT 2), uart_out := uart_out s @ out\<rparr> \<and>
       (if bit (sreg s SCAUSE) 63 then rv_exception_code (sreg s SCAUSE) = 1 \<and> out = []
        else \<exists>rest. out = (if rv_exception_code (sreg s SCAUSE) \<in> {12, 13, 15}
            then klog_line Critical ''cpu'' ''page fault at 0x%llx'' [VNum (sreg s STVAL)] else []) @
          klog_line Critical ''cpu'' rv_exception_format
            ([VNum (if usermode = 1 then 85 else 83), VNum (rv_exception_code (sreg s SCAUSE)),
              VNum (sreg s SCAUSE), VNum (sreg s SEPC), VNum (sreg s STVAL)] @ saved_regs regs s) @ rest))
   | Spin _ \<Rightarrow> False"
proof -
  let ?c = "rv_exception_code (sreg s SCAUSE)" and ?s = "s\<lparr>sreg := (sreg s)(SIP := sreg s SIP AND NOT 2)\<rparr>"
  consider "bit (sreg s SCAUSE) 63" "?c \<noteq> 1" | "bit (sreg s SCAUSE) 63" "?c = 1" | "\<not> bit (sreg s SCAUSE) 63" by blast
  then show ?thesis
  proof cases
    case 1
    then show ?thesis using rv_handler_irq [OF 1, of usermode regs] by (auto simp: rv_irq_def)
  next
    case 2
    then show ?thesis
      by (simp add: rv_interrupt_exception_handler_def Let_def csrc_def scause_irq cpu_get_scause_def EXC_TYPE_SSI_def
          halt_def set_sreg_def)
  next
    case 3
    define rep where "rep = (if ?c \<in> {12, 13, 15}
        then klog_line Critical ''cpu'' ''page fault at 0x%llx'' [VNum (sreg s STVAL)] else []) @
      klog_line Critical ''cpu'' rv_exception_format
        ([VNum (if usermode = 1 then 85 else 83), VNum ?c, VNum (sreg s SCAUSE), VNum (sreg s SEPC), VNum (sreg s STVAL)]
          @ saved_regs regs s)"
    obtain out where out: "(panic ''cpu'' ''exception'' [] (?s\<lparr>uart_out := uart_out s @ rep\<rparr>) :: (unit, kstate) outcome) =
        Halt (?s\<lparr>uart_out := uart_out s @ rep @ out\<rparr>)"
      using panic_out [where ?'a = unit, of "''cpu''" "''exception''" "[]" "?s\<lparr>uart_out := uart_out s @ rep\<rparr>"] by auto
    have eq: "rv_interrupt_exception_handler usermode regs s = panic ''cpu'' ''exception'' [] (?s\<lparr>uart_out := uart_out s @ rep\<rparr>)"
      using 3 by (auto simp: rv_interrupt_exception_handler_def Let_def csrc_def scause_irq cpu_get_scause_def cpu_get_sepc_def
          cpu_get_stval_def set_sreg_def klog_critical_def klog_def rep_def saved_regs_def
          intro!: arg_cong [where f = "panic ''cpu'' ''exception'' []"])
    show ?thesis
      unfolding eq out outcome.case using 3
      by (intro exI [of _ "rep @ out"]) (simp add: rep_def)
  qed
qed

text \<open>
  C22: a wait on RISC-V ends. If the hart takes timer interrupts again and again (and otherwise
  only interrupts that are not the software interrupt), \<^verbatim>\<open>timer_wait\<close> returns after exactly the
  ticks it was asked for; the compare register has moved by 10000 for each, and nothing but
  it, the trap registers and the count has changed. The count must not wrap around.
\<close>
theorem rv_timer_wait_returns:
  assumes "\<forall>n c. causes n = Some c \<longrightarrow> c \<noteq> 1 \<and> c < 2 ^ 63" and "\<forall>i. \<exists>j \<ge> i. causes j = Some 5"
    and "0 < ticks" and "unat (global_ticks s) + unat ticks < 2 ^ 64"
  shows "\<exists>t. timer_wait (rv_world causes regs) ticks s = Some (Ret () t) \<and>
    global_ticks t = global_ticks s + ticks \<and> sreg t STIMECMP = sreg s STIMECMP + 10000 * ticks \<and>
    (\<forall>r. r \<notin> {STIMECMP, SIP, SCAUSE} \<longrightarrow> sreg t r = sreg s r) \<and>
    t = s\<lparr>sreg := sreg t, global_ticks := global_ticks t\<rparr>"
proof -
  obtain R where R: "timer_wait (rv_world causes regs) ticks s =
      Some (Ret () (s\<lparr>sreg := R, global_ticks := global_ticks s + ticks\<rparr>))"
    "R STIMECMP = sreg s STIMECMP + 10000 * ticks" "\<forall>r. r \<notin> {STIMECMP, SIP, SCAUSE} \<longrightarrow> R r = sreg s r"
    by (rule rv_timer_wait_ok [OF assms])
  then show ?thesis by (intro exI [of _ "s\<lparr>sreg := R, global_ticks := global_ticks s + ticks\<rparr>"]) simp
qed

theorem rv_timer_wait_returns_witness:
  "\<exists>t. timer_wait (rv_world (\<lambda>n. if even n then Some 5 else Some 9) 0) 2330 (reset_state RISCV (\<lambda>_. 0) 0 0) =
      Some (Ret () t) \<and> global_ticks t = 2330"
proof -
  let ?c = "\<lambda>n :: nat. if even n then Some 5 else Some (9 :: u64)"
  let ?S = "reset_state RISCV (\<lambda>_. 0) 0 0"
  have a: "\<forall>n c. ?c n = Some c \<longrightarrow> c \<noteq> 1 \<and> c < 2 ^ 63" by (auto split: if_splits)
  have b: "\<forall>i. \<exists>j \<ge> i. ?c j = Some 5"
  proof
    fix i :: nat
    show "\<exists>j \<ge> i. ?c j = Some 5" by (rule exI [of _ "2 * i"]) simp
  qed
  have g: "global_ticks ?S = 0" by (simp add: reset_state_def)
  have c: "(0 :: u64) < 2330" by simp
  have d: "unat (global_ticks ?S) + unat (2330 :: u64) < 2 ^ 64" by (simp add: g)
  from rv_timer_wait_returns [OF a b c d, of 0] show ?thesis unfolding g add_0 by blast
qed

text \<open>
  an ARM64 kernel that has not set up its timer, as \<^verbatim>\<open>boot_main\<close> leaves it, never gets out
  of a wait. Whatever exceptions the CPU takes, with no handler registered each of them is
  ignored, ends in a panic or stops the CPU; none counts a tick.
\<close>
theorem a64_timer_wait_stuck:
  assumes "\<forall>i < 255. load64 s (gic_handlers s + 8 * of_nat i) = 0"
    and "\<forall>h. unat (ucast (dev h 0x0801000C) AND (0x3FF :: u32)) < 255 \<or> 1022 \<le> unat (ucast (dev h 0x0801000C) AND (0x3FF :: u32))"
    and "0 < ticks" and "unat (global_ticks s) + unat ticks < 2 ^ 64"
  shows "timer_wait (a64_world dev calls types regs) ticks s \<noteq> Some (Ret () t)"
  using assms by (rule a64_wait_never_returns)

text \<open>\<^verbatim>\<open>kernel_main\<close> asks for 2330 ticks; memory is zero, and the device reports interrupt 30.\<close>

theorem a64_timer_wait_stuck_witness:
  "\<forall>t. timer_wait (a64_world (\<lambda>_ _. 30) (\<lambda>_ _ _ s. Ret 0 s) (\<lambda>n. if n = 7 then Some 3 else Some 2) 0) 2330
     (reset_state ARM64 (\<lambda>_. 0) 0 0) \<noteq> Some (Ret () t)"
proof -
  let ?s = "reset_state ARM64 (\<lambda>_. 0) 0 0"
  have "load (\<lambda>_. 0) a n = (0 :: u64)" for a n by (induction n) simp_all
  then have z: "read64 (\<lambda>_. 0) a = 0" for a by (simp only: read64_def)
  have m: "mem ?s = (\<lambda>_. 0)" "global_ticks ?s = 0" by (simp_all add: reset_state_def)
  have a: "\<forall>i < 255. load64 ?s (gic_handlers ?s + 8 * of_nat i) = 0" unfolding m z by simp
  have b: "\<forall>h. unat (ucast ((\<lambda>_ _. 30) h 0x0801000C :: u64) AND (0x3FF :: u32)) < 255 \<or>
      1022 \<le> unat (ucast ((\<lambda>_ _. 30) h 0x0801000C :: u64) AND (0x3FF :: u32))"
    by simp
  have c: "(0 :: u64) < 2330" by simp
  have d: "unat (global_ticks ?s) + unat (2330 :: u64) < 2 ^ 64" by (simp add: m)
  show ?thesis by (rule allI) (rule a64_timer_wait_stuck [OF a b c d])
qed

lemma timer_mask_stops: "\<not> timer_signals (a64_timer_mask s)"
  by (simp add: timer_signals_def a64_timer_mask_def bit_or_iff bit_push_bit_iff del: push_bit_of_1)

text \<open>What a timer interrupt does once the handler is registered.\<close>

definition a64_tick :: "device \<Rightarrow> kstate \<Rightarrow> kstate" where
  "a64_tick dev s =
     gic_eoi (klog_info ''timer'' ''interrupt'' [] (a64_timer_set_frequency (sreg s CNTFRQ_EL0 div TIMER_FREQ)
       ((a64_timer_mask (gic_acked dev s))\<lparr>global_ticks := global_ticks s + 1\<rparr>)))"

lemma a64_tick_fields:
  "mem (a64_tick dev s) = mem s" "gic_handlers (a64_tick dev s) = gic_handlers s"
  "global_ticks (a64_tick dev s) = global_ticks s + 1" "\<not> timer_signals (a64_tick dev s)"
  using timer_mask_stops [of "gic_acked dev s"]
  by (simp_all add: a64_tick_def gic_eoi_def a64_timer_set_frequency_def a64_timer_mask_def timer_signals_def)

lemma a64_tick_eq:
  assumes "load64 s (gic_handlers s + 240) = th" and "th \<noteq> 0" and "calls th = a64_timer_handler"
    and "ucast (dev (io_hist s) 0x0801000C) AND (0x3FF :: u32) = 30"
  shows "a64_interrupt_exception_handler dev calls EXC_TYPE_FIQ regs s = Ret () (a64_tick dev s)"
proof -
  have "gic_handler_slot 30 (gic_acked dev s) = gic_handlers s + 240" by (simp add: gic_handler_slot_def)
  then show ?thesis using assms
    by (simp add: a64_handler_fiq gic_handle_interrupts_eq Let_def)
      (simp add: a64_timer_handler_def Let_def a64_tick_def a64_timer_get_core_frequency_def a64_timer_mask_def)
qed

lemma a64_timer_init_fields:
  "load64 (a64_timer_init dev th s) (gic_handlers (a64_timer_init dev th s) + 240) = th"
  "global_ticks (a64_timer_init dev th s) = global_ticks s"
  "timer_signals (a64_timer_init dev th s)"
proof -
  have one: "(1 :: u64) = push_bit 0 1" by simp
  show "timer_signals (a64_timer_init dev th s)"
    by (simp add: a64_timer_init_def Let_def timer_signals_def a64_timer_unmask_def a64_timer_enable_def bit_or_iff bit_and_iff
        bit_not_iff bit_push_bit_iff bit_1_iff TIMER_ENABLE_def del: push_bit_of_1)
qed (simp_all add: a64_timer_init_def Let_def gic_register_interrupt_handler_def gic_handler_slot_def TIMER_IRQ_ID_def
      gic_enable_interrupt_def gic_set_interrupt_priority_def io_read32_def a64_timer_set_frequency_def
      a64_timer_unmask_def a64_timer_enable_def store64_def mem_simps split: prod.split)

text \<open>
  C23: on ARM64 the timer ticks at most once. After \<^verbatim>\<open>timer_init\<close>, in every state the kernel can
  reach by timer interrupts and ignored exceptions, either no tick has been counted, or exactly one
  has and the timer no longer signals: the handler masks the timer and nothing unmasks it. So a
  wait for two ticks or more never ends.
\<close>
theorem a64_timer_ticks_once:
  assumes "calls th = a64_timer_handler" and "th \<noteq> 0" and "a64_timer_run dev calls regs (a64_timer_init dev' th s) t"
  shows "global_ticks t = global_ticks s \<or> (global_ticks t = global_ticks s + 1 \<and> \<not> timer_signals t)"
proof -
  let ?s = "a64_timer_init dev' th s"
  from assms(3) have "load64 t (gic_handlers t + 240) = th \<and>
    (global_ticks t = global_ticks s \<or> (global_ticks t = global_ticks s + 1 \<and> \<not> timer_signals t))"
  proof (induction rule: a64_timer_run.induct)
    case start
    then show ?case by (simp add: a64_timer_init_fields)
  next
    case (tick t u)
    have t: "load64 t (gic_handlers t + 240) = th" "global_ticks t = global_ticks s" using tick by auto
    have "u = a64_tick dev t" using tick.hyps(4) a64_tick_eq [of t th calls dev regs, OF t(1) assms(2,1) tick.hyps(3)] by simp
    then show ?case using t by (simp add: a64_tick_fields)
  next
    case (other t ty u)
    have "u = klog_warn ''cpu'' ''unknown exception type %d'' [VNum (ucast ty)] t"
      using other.hyps(2,3) by (intro a64_handler_other)
    then show ?case using other.IH by (simp add: klog_warn_def timer_signals_def)
  qed
  then show ?thesis by blast
qed

theorem a64_timer_ticks_once_witness:
  "\<exists>t. a64_timer_run (\<lambda>_ _. 30) (\<lambda>_. a64_timer_handler) 0
      (a64_timer_init (\<lambda>_ _. 0) 0x1000 (reset_state ARM64 (\<lambda>_. 0) 0 0)) t \<and>
    global_ticks t = 1 \<and> \<not> timer_signals t"
proof -
  let ?s = "reset_state ARM64 (\<lambda>_. 0) 0 0" and ?dev = "\<lambda>_ _. 30 :: u64"
  let ?i = "a64_timer_init (\<lambda>_ _. 0) 0x1000 ?s"
  have ack: "ucast (?dev (io_hist ?i) 0x0801000C) AND (0x3FF :: u32) = 30" by simp
  have "a64_interrupt_exception_handler ?dev (\<lambda>_. a64_timer_handler) EXC_TYPE_FIQ 0 ?i = Ret () (a64_tick ?dev ?i)"
    by (rule a64_tick_eq [of _ "0x1000"]) (simp_all add: a64_timer_init_fields)
  with a64_timer_run.start a64_timer_init_fields(3) ack
  have run: "a64_timer_run ?dev (\<lambda>_. a64_timer_handler) 0 ?i (a64_tick ?dev ?i)" by (rule a64_timer_run.tick)
  have g: "global_ticks ?s = 0" by (simp add: reset_state_def)
  have n: "global_ticks (a64_tick ?dev ?i) \<noteq> 0" by (simp add: a64_tick_fields a64_timer_init_fields g)
  have "global_ticks (a64_tick ?dev ?i) = global_ticks ?s + 1 \<and> \<not> timer_signals (a64_tick ?dev ?i)"
    using a64_timer_ticks_once [OF refl _ run] n by (simp add: g)
  then show ?thesis using run by (intro exI [of _ "a64_tick ?dev ?i"]) (simp add: g)
qed

end
