(* ===== verification/Boot.thy ===== *)
theory Boot
  imports MM ObTest RvPaging Trap
begin

text \<open>
  Start-up: \<^verbatim>\<open>boot_main\<close> of \<^verbatim>\<open>arch/arm64/bootstrap.c\<close> and \<^verbatim>\<open>arch/riscv/bootstrap.c\<close>,
  \<^verbatim>\<open>kernel_main\<close> of \<^verbatim>\<open>base/kernel.c\<close> and \<^verbatim>\<open>create_user_process\<close> of \<^verbatim>\<open>arch/riscv/user.c\<close>.
  Addresses the linker chooses are a record. A kernel that is stuck in a wait has no value.
\<close>

section \<open>Definitions\<close>

record link_symbols =
  sym_heap_start :: u64
  sym_heap_end :: u64
  sym_text_start :: u64
  sym_text_end :: u64
  sym_rodata_end :: u64
  sym_trampoline_start :: u64
  sym_vectors :: u64 \<comment> \<open>\<^verbatim>\<open>vectors\<close> on ARM64, \<^verbatim>\<open>trap_vector\<close> on RISC-V\<close>
  sym_usercode :: u64
  sym_test_create :: u64
  sym_test_destroy :: u64

subsection \<open>The first user process\<close>

text \<open>
  \<open>table\<close> is the address of the local array \<^verbatim>\<open>user_page_table\<close>. The array has no initializer: it
  holds what the stack page held before. \<open>enter\<close> is \<^verbatim>\<open>enter_usermode\<close>, from the switch of the page
  table on, with all that the user program does.
\<close>

type_synonym user_entry = "u64 \<Rightarrow> u64 \<Rightarrow> u64 \<Rightarrow> kstate \<Rightarrow> (unit, kstate) outcome"

definition usercode :: "u8 list" where
  "usercode = [0x37, 0x05, 0x00, 0x10, 0x93, 0x05, 0x10, 0x06, 0x23, 0x00, 0xb5, 0x00, 0x23, 0x80, 0xb5, 0x00]"

definition create_user_process :: "link_symbols \<Rightarrow> u64 \<Rightarrow> user_entry \<Rightarrow> kstate \<Rightarrow> (unit, kstate) outcome" where
  "create_user_process syms table enter s =
     andThen (pmm_alloc_frame s) (\<lambda>code s.
       let s = s\<lparr>mem := memcpy code (sym_usercode syms) (of_nat (length usercode)) (mem s)\<rparr>
       in andThen (vmm_map_page table code code (PAGE_KERNEL_EXEC OR PTE_U) s) (\<lambda>_ s.
          andThen (vmm_map_page table (sym_trampoline_start syms) (sym_trampoline_start syms) PAGE_KERNEL_EXEC s) (\<lambda>_ s.
          andThen (vmm_map_page table 0x10000000 0x10000000 (PTE_R OR PTE_W OR PTE_U) s) (\<lambda>_ s.
          let s = klog_info ''user'' ''switching to user mode, trampoline address=0x%llx'' [VNum (sym_trampoline_start syms)] s
          in enter code (code + 1024) table s))))"

subsection \<open>\<^verbatim>\<open>kernel_main\<close>\<close>

text \<open>
  \<open>world\<close> is the machine during the wait, \<open>user\<close> is \<^verbatim>\<open>create_user_process\<close>. (The ARM64 port has
  no function of this name.) The loop at the end is \<open>Spin\<close>.
\<close>

definition kernel_main_late ::
    "link_symbols \<Rightarrow> ob_calls \<Rightarrow> (kstate \<Rightarrow> (unit, kstate) outcome) \<Rightarrow> kstate \<Rightarrow> (unit, kstate) outcome" where
  "kernel_main_late syms calls user s =
     andThen (ob_init s) (\<lambda>_ s.
     andThen (object_test calls (sym_test_create syms) (sym_test_destroy syms) s) (\<lambda>_ s.
     andThen (user s) (\<lambda>_ s. Spin s)))"

definition kernel_main_early :: "boot_info \<Rightarrow> kstate \<Rightarrow> (unit, kstate) outcome" where
  "kernel_main_early bi s =
     (let s = klog_info ''kern'' ''initializing kernel'' [] s
      in andThen (mm_init bi s) (\<lambda>_ s. case arch s of RISCV \<Rightarrow> vmm_init bi s | ARM64 \<Rightarrow> Ret () s))"

definition kernel_main ::
    "link_symbols \<Rightarrow> world \<Rightarrow> ob_calls \<Rightarrow> (kstate \<Rightarrow> (unit, kstate) outcome) \<Rightarrow> boot_info \<Rightarrow> kstate \<Rightarrow>
      (unit, kstate) outcome option" where
  "kernel_main syms world calls user bi s =
     (case kernel_main_early bi s of
        Ret _ s \<Rightarrow>
          (case timer_wait world 2330 s of
             None \<Rightarrow> None
           | Some out \<Rightarrow> Some (andThen out (\<lambda>_. kernel_main_late syms calls user)))
      | Halt s \<Rightarrow> Some (Halt s)
      | Spin s \<Rightarrow> Some (Spin s))"

subsection \<open>\<^verbatim>\<open>boot_main\<close> on ARM64\<close>

definition a64_early_info :: "link_symbols \<Rightarrow> kstate \<Rightarrow> boot_info" where
  "a64_early_info syms s = \<lparr>early_heap_start = sym_heap_start syms, early_heap_end = sym_heap_end syms,
     kernel_image_start = sym_text_start syms, kernel_image_end = 0, kernel_readonly_end = 0,
     machine_ram_base = cpu_get_membase s, machine_ram_total = cpu_get_memsize s\<rparr>"

definition a64_boot_setup :: "link_symbols \<Rightarrow> device \<Rightarrow> kstate \<Rightarrow> kstate" where
  "a64_boot_setup syms dev s =
     (let s = klog_info ''boot'' ''starting Vectra Kernel'' [] s;
          s = klog_info ''cpu'' ''running in EL%d mode'' [VNum (cpu_get_el_num s)] s;
          s = a64_interrupts_init (sym_vectors syms) s;
          s = gic_init dev s
      in klog_info ''boot'' ''found boot heap to be : start=0x%x, end=0x%x''
           [VNum (sym_heap_start syms), VNum (sym_heap_end syms)] s)"

definition a64_boot_main ::
    "link_symbols \<Rightarrow> device \<Rightarrow> world \<Rightarrow> ob_calls \<Rightarrow> (kstate \<Rightarrow> (unit, kstate) outcome) \<Rightarrow> kstate \<Rightarrow>
      (unit, kstate) outcome option" where
  "a64_boot_main syms dev world calls user s =
     (let s = a64_boot_setup syms dev s
      in case kernel_main syms world calls user (a64_early_info syms s) s of
           None \<Rightarrow> None
         | Some out \<Rightarrow> Some (andThen out (\<lambda>_ s. Spin s)))"

subsection \<open>\<^verbatim>\<open>boot_main\<close> on RISC-V\<close>

definition rv_early_info :: "link_symbols \<Rightarrow> kstate \<Rightarrow> boot_info" where
  "rv_early_info syms s = \<lparr>early_heap_start = sym_heap_start syms, early_heap_end = sym_heap_end syms,
     kernel_image_start = sym_text_start syms, kernel_image_end = sym_text_end syms,
     kernel_readonly_end = sym_rodata_end syms,
     machine_ram_base = cpu_get_membase s, machine_ram_total = cpu_get_memsize s\<rparr>"

text \<open>What every hart does first; \<open>sp\<close> is its stack pointer. The writes go to entry 0 of the array.\<close>

definition rv_hart_enter :: "u64 \<Rightarrow> u64 \<Rightarrow> kstate \<Rightarrow> kstate" where
  "rv_hart_enter hartid sp s =
     (let s = cpu_set_tp (boot_hart_info s + 16 * hartid) s;
          s = store64 (boot_hart_info s + 8) hartid s
      in store64 (boot_hart_info s) sp s)"

text \<open>A hart that comes after the first: it says hello and stays in a loop.\<close>

definition rv_boot_secondary :: "firmware \<Rightarrow> u64 \<Rightarrow> kstate \<Rightarrow> (unit, kstate) outcome" where
  "rv_boot_secondary fw hartid s =
     (let s = sbi_send_ipi_all fw s
      in andThen (spin_lock (boot_spinlock s) s) (\<lambda>_ s.
         let s = klog_info ''early'' ''hello from cpu %d'' [VNum hartid] s;
             s = spin_unlock (boot_spinlock s) s
         in Spin s))"

text \<open>The loop over the secondary harts ends at hart 0: \<^verbatim>\<open>for (hart = 0; hart < 0; hart++)\<close>.\<close>

function rv_start_harts :: "link_symbols \<Rightarrow> firmware \<Rightarrow> u64 \<Rightarrow> u64 \<Rightarrow> kstate \<Rightarrow> kstate" where
  "rv_start_harts syms fw hart bound s =
     (if hart < bound then
        rv_start_harts syms fw (hart + 1) bound
          (if hart \<noteq> bootstrap_cpu s then snd (sbi_start_hart fw hart (sym_text_start syms) 1 s) else s)
      else s)"
  by pat_completeness auto
termination
proof (relation "measure (\<lambda>(_, _, hart, bound, _). unat bound - unat hart)", goal_cases)
  case (2 syms fw hart bound s)
  then have "unat (hart + 1) = Suc (unat hart)" by (rule unat_Suc_u64)
  then show ?case using 2 by (simp add: word_less_nat_alt)
qed simp

definition rv_boot_setup :: "link_symbols \<Rightarrow> firmware \<Rightarrow> u64 \<Rightarrow> kstate \<Rightarrow> kstate" where
  "rv_boot_setup syms fw hartid s =
     (let s = klog_info ''early'' ''booting from cpu %d'' [VNum hartid] s;
          s = klog_info ''boot'' ''starting Vectra Kernel'' [] s;
          s = klog_info ''boot'' ''found boot heap to be : start=0x%x, end=0x%x''
                [VNum (sym_heap_start syms), VNum (sym_heap_end syms)] s;
          s = klog_info ''boot'' ''memory map: kernel base=0x%x, kernel end=0x%x''
                [VNum (sym_text_start syms), VNum (sym_text_end syms)] s;
          s = rv_interrupts_init (sym_vectors syms) s;
          s = rv_timer_init s;
          s = spin_lock_init (boot_spinlock s) s;
          s = klog_info ''boot'' ''booting secondary cpus..'' [] s;
          s = s\<lparr>bootstrap_cpu := hartid\<rparr>
      in rv_start_harts syms fw 0 0 s)"

definition rv_boot_main ::
    "link_symbols \<Rightarrow> firmware \<Rightarrow> world \<Rightarrow> ob_calls \<Rightarrow> (kstate \<Rightarrow> (unit, kstate) outcome) \<Rightarrow> u64 \<Rightarrow> u64 \<Rightarrow> kstate \<Rightarrow>
      (unit, kstate) outcome option" where
  "rv_boot_main syms fw world calls user hartid sp s =
     (let s = rv_hart_enter hartid sp s
      in if bootstrap_cpu s \<noteq> -1 then Some (rv_boot_secondary fw hartid s)
         else
           let s = rv_boot_setup syms fw hartid s
           in case kernel_main syms world calls user (rv_early_info syms s) s of
                None \<Rightarrow> None
              | Some out \<Rightarrow> Some (andThen out (\<lambda>_ s. Spin s)))"

section \<open>Memory and paging come up together\<close>

lemma paging_same_fields:
  assumes "paging_same s t"
  shows "arch t = arch s" and "bitmap_region t = bitmap_region s" and "kheap_initialized t = kheap_initialized s"
    and "kmalloc_caches t = kmalloc_caches s" and "cache_metadata_cache t = cache_metadata_cache s"
    and "cache_meta_initialized t = cache_meta_initialized s" and "g_om t = g_om s"
    and "g_test_destroyed t = g_test_destroyed s" and "global_ticks t = global_ticks s"
    and "kernel_page_table t = kernel_page_table s" and "io_hist t = io_hist s" and "boot_hart_info t = boot_hart_info s"
  by (subst assms [unfolded paging_same_def, symmetric], simp add: bitmap_region_def frame_addr_def)+

text \<open>
  What the code relies on at the start of \<^verbatim>\<open>kernel_main\<close> on RISC-V. The root table is a page of the
  image that does not hold the static cache of caches; the image lies above the devices, its
  read-only part before the boot heap; frames are left for the other tables.
\<close>

definition image_frames :: "boot_info \<Rightarrow> nat" where
  "image_frames bi = (unat (early_heap_end bi) - unat (kernel_image_start bi) + 4095) div 4096"

definition rv_boot_ok :: "boot_info \<Rightarrow> u64 \<Rightarrow> kstate \<Rightarrow> bool" where
  "rv_boot_ok bi meta s \<longleftrightarrow>
     arch s = RISCV \<and> fresh_kernel meta s \<and> boot_layout bi meta \<and> vmm_boot_ok bi \<and> page (kernel_page_table s) \<and>
     unat (kernel_page_table s) + 4096 \<le> unat (early_heap_start bi) \<and>
     region meta 32 \<inter> region (kernel_page_table s) 4096 = {} \<and>
     0x10002000 \<le> unat (kernel_image_start bi) \<and> unat (kernel_readonly_end bi) \<le> unat (early_heap_start bi) \<and>
     card (kernel_tables bi) + image_frames bi + 1 \<le> unat (machine_ram_total bi) div 4096"

lemma kernel_main_early_ok:
  assumes boot: "rv_boot_ok bi meta s"
  defines "d \<equiv> unat (machine_ram_total bi) div 4096"
  obtains t T ps fl r where "kernel_main_early bi s = Ret () t"
    and "heap_inv d (replicate 8 ([], [])) t" and "pt_inv rv_format d (kernel_page_table s) T t"
    and "sreg t = (sreg s)(SATP := MAKE_SATP_VAL (kernel_page_table s))"
    and "\<And>va. unat va < 2 ^ 39 \<Longrightarrow> pt_lookup rv_format T (mem t) (rv_path va) =
      map_option (rv_leaf (pg (unat va div 4096))) (kernel_mapping bi (unat va div 4096))"
    and "\<And>f. f \<in> avail_frames t \<Longrightarrow> unat (early_heap_end bi) \<le> unat f \<and>
      unat f + 4096 \<le> unat (kernel_image_start bi) + d * 4096"
    and "slab_inv d meta 32 ps fl t" and "length fl = 119" and "cache_meta_initialized t"
    and "free_tail r t" and "d \<le> card (avail_frames t) + card (kernel_tables bi) + image_frames bi + 1"
    and "g_om t = g_om s" and "g_test_destroyed t = g_test_destroyed s" and "global_ticks t = global_ticks s"
    and "kernel_page_table t = kernel_page_table s" and "cache_metadata_cache t = meta" and "io_hist t = io_hist s"
    and "\<And>f y. f \<in> avail_frames t \<Longrightarrow> y \<in> region f 4096 \<Longrightarrow> mem t y = mem s y"
    and "\<And>p. p \<in> set ps \<Longrightarrow> unat (early_heap_end bi) \<le> unat p \<and> unat p + 4096 \<le> 2 ^ 64"
    and "bitmap_region t \<subseteq> region (early_heap_start bi) (unat (early_heap_end bi) - unat (early_heap_start bi))"
proof -
  let ?k = "kernel_page_table s" and ?he = "early_heap_end bi" and ?hs = "early_heap_start bi"
  let ?s = "klog_info ''kern'' ''initializing kernel'' [] s"
  have B: "arch s = RISCV" "fresh_kernel meta s" "boot_layout bi meta" "vmm_boot_ok bi" "page ?k"
    "unat ?k + 4096 \<le> unat ?hs" "region meta 32 \<inter> region ?k 4096 = {}"
    "card (kernel_tables bi) + image_frames bi + 1 \<le> d"
    using boot by (simp_all add: rv_boot_ok_def d_def)
  have L: "unat ?hs \<le> unat ?he" "unat (kernel_image_start bi) \<le> 2 ^ 39" "d * 4096 \<le> 2 ^ 39"
    using B(3,4) by (auto simp: boot_layout_def Let_def vmm_boot_ok_def word_le_nat_alt d_def)
  have fk: "fresh_kernel meta ?s" using B(2) by (simp add: fresh_kernel_def klog_info_eq)
  obtain u ps fl r where U: "mm_init bi ?s = Ret () u" "heap_inv d (replicate 8 ([], [])) u"
    "\<And>f. f \<in> avail_frames u \<Longrightarrow> unat ?he \<le> unat f \<and> unat f + 4096 \<le> 2 ^ 64"
    "\<And>f. f \<in> avail_frames u \<Longrightarrow> unat f + 4096 \<le> unat (kernel_image_start bi) + d * 4096"
    "bitmap_region u \<subseteq> region ?hs (unat ?he - unat ?hs)"
    "slab_inv d meta 32 ps fl u" "cache_meta_initialized u" "length fl = 119"
    "\<And>p. p \<in> set ps \<Longrightarrow> unat ?he \<le> unat p \<and> unat p + 4096 \<le> 2 ^ 64"
    "\<And>i. i < 8 \<Longrightarrow> \<exists>p. unat ?he \<le> unat p \<and> unat p + 4096 \<le> 2 ^ 64 \<and> p \<notin> avail_frames u \<and>
      region (kmalloc_caches u ! i) 32 \<subseteq> region p 4096"
    "free_tail r u" "d \<le> Suc (card (avail_frames u) + image_frames bi)"
    "arch u = arch ?s" "sreg u = sreg ?s" "io_hist u = io_hist ?s" "kernel_page_table u = kernel_page_table ?s"
    "global_ticks u = global_ticks ?s" "g_om u = g_om ?s" "g_test_destroyed u = g_test_destroyed ?s"
    "cache_metadata_cache u = meta" "\<And>f y. f \<in> avail_frames u \<Longrightarrow> y \<in> region f 4096 \<Longrightarrow> mem u y = mem ?s y"
    by (rule mm_init_ok [OF B(3) fk, folded d_def image_frames_def]) (rule that; assumption)
  have ku: "kernel_page_table u = ?k" using U(16) by simp
  have below: "region ?k 4096 \<inter> region p 4096 = {}" if "unat ?he \<le> unat p" "unat p + 4096 \<le> 2 ^ 64" for p
    using B(6) L(1) that by (intro region_below_disjoint [of _ _ "unat ?he"]) simp_all
  have bk: "bitmap_region u \<inter> region ?k 4096 = {}"
    using U(5) B(6) L(1) unat_lt_u64 [of ?he] by (fastforce simp: in_region_unat simp del: unat_lt_u64)
  have bp: "bitmap_region u \<inter> region p 4096 = {}" if "unat ?he \<le> unat p" "unat p + 4096 \<le> 2 ^ 64" for p
    using U(5) region_below_disjoint [of ?hs "unat ?he - unat ?hs" "unat ?he" p] that L(1) by auto
  have ok: "mm_ok d u" using U(6) by (simp add: slab_inv_def)
  have na: "?k \<notin> avail_frames u" using U(3) [of ?k] B(6) L(1) by fastforce
  note na' = na [folded ku] and bk' = bk [folded ku]
  have low: "\<forall>f \<in> avail_frames u. unat f < 2 ^ 56" using U(4) L(2,3) by fastforce
  have "unat ?k < 2 ^ 56" using B(3,6) L(2,3) by (auto simp: boot_layout_def Let_def d_def)
  then have root: "pt_page rv_format (kernel_page_table u)" using B(5) ku by (simp add: pt_page_def rv_format_def)
  have room: "card (kernel_tables bi) \<le> card (avail_frames u)" using U(12) B(8) by simp
  obtain T t where V: "vmm_init bi u = Ret () t" "pt_inv rv_format d (kernel_page_table u) T t"
    "sreg t = (sreg u)(SATP := MAKE_SATP_VAL (kernel_page_table u))" "kernel_page_table t = kernel_page_table u"
    "\<And>va. unat va < 2 ^ 39 \<Longrightarrow> pt_lookup rv_format T (mem t) (rv_path va) =
      map_option (rv_leaf (pg (unat va div 4096))) (kernel_mapping bi (unat va div 4096))"
    "paging_same u t" "avail_frames t \<subseteq> avail_frames u" "tail_kept u t"
    "card (avail_frames u) \<le> card (avail_frames t) + card (kernel_tables bi)"
    "\<And>y. y \<notin> bitmap_region u \<Longrightarrow> y \<notin> region (kernel_page_table u) 4096 \<Longrightarrow> \<forall>f \<in> avail_frames u. y \<notin> region f 4096 \<Longrightarrow>
      mem t y = mem u y"
    by (rule vmm_init_ok [OF ok root na' bk' low B(4) room]) (rule that; assumption)
  note S = paging_same_fields [OF V(6)]
  have okt: "mm_ok d t" using pt_invD(1) [OF V(2)] .
  have "heap_inv d (replicate 8 ([], [])) t"
  proof (rule heap_inv_spared [OF U(2) okt S(2,4,3)])
    fix i y assume i: "i < (8 :: nat)" and y: "y \<in> region (kmalloc_caches u ! i) 32"
    obtain p where p: "unat ?he \<le> unat p" "unat p + 4096 \<le> 2 ^ 64" "region (kmalloc_caches u ! i) 32 \<subseteq> region p 4096"
      using U(10) [OF i] by blast
    have "slab_sep (kmalloc_caches u ! i) [] u" using heap_invD(4) [OF U(2) i] i by (simp add: slab_inv_def)
    then show "mem t y = mem u y" using V(10) [of y] y p below [OF p(1,2)] unfolding ku slab_sep_def by blast
  qed (use V(7) in auto)
  moreover have "slab_inv d meta 32 ps fl t"
  proof (rule slab_inv_spared [OF U(6) okt S(2)])
    have sep: "slab_sep meta ps u" using U(6) by (simp add: slab_inv_def)
    show "mem t y = mem u y" if "y \<in> region meta 32" for y
      using V(10) [of y] that B(7) sep unfolding ku slab_sep_def by blast
    show "mem t y = mem u y" if p: "p \<in> set ps" and y: "y \<in> region p 4096" for p y
    proof -
      have pg: "page p" "p \<notin> avail_frames u" using U(6) p by (auto simp: slab_inv_def slab_rep_def slab_sep_def dest: slab_listsD)
      have "region p 4096 \<inter> region f 4096 = {}" if "f \<in> avail_frames u" for f
        using pg that avail_frames_page [OF ok that] by (intro pages_disjoint) auto
      then show ?thesis using V(10) [of y] y below [of p] bp [of p] U(9) [OF p] unfolding ku by blast
    qed
  qed (use V(7) in blast)
  moreover obtain r' where "free_tail r' t" using V(8) U(11) by (auto simp: tail_kept_def)
  moreover have "kernel_main_early bi s = Ret () t"
    using U(1,13) V(1) B(1) by (simp add: kernel_main_early_def Let_def)
  moreover have "mem t y = mem s y" if "f \<in> avail_frames t" "y \<in> region f 4096" for f y
  proof -
    have "mem t y = mem u y" using V(8) that by (rule tail_kept_pool)
    also have "\<dots> = mem s y" using U(21) [of f y] that V(7) by (auto simp: klog_info_eq)
    finally show ?thesis .
  qed
  ultimately show thesis
    using V(2,3,5,7,9) U(3-5,7-9,12,14-20) S(2,5-11) ku B(8) by (intro that [of t T ps fl r']) (blast | simp)+
qed

lemma free_frame_mapping:
  assumes boot: "rv_boot_ok bi meta s" and f: "unat (early_heap_end bi) \<le> unat f" "page f"
  shows "kernel_mapping bi (unat f div 4096) =
    (if unat f < unat (machine_ram_base bi) + unat (machine_ram_total bi) then Some PAGE_KERNEL_DATA else None)"
proof -
  define e where "e = machine_ram_base bi + machine_ram_total bi"
  have B: "boot_layout bi meta" "vmm_boot_ok bi" "0x10002000 \<le> unat (kernel_image_start bi)"
    "unat (kernel_readonly_end bi) \<le> unat (early_heap_start bi)"
    using boot by (simp_all add: rv_boot_ok_def)
  have le: "unat (machine_ram_base bi) + unat (machine_ram_total bi) \<le> 2 ^ 39" using B(2) by (simp add: vmm_boot_ok_def)
  have e: "unat e = unat (machine_ram_base bi) + unat (machine_ram_total bi)" unfolding e_def using le by (simp add: unat_word_ariths)
  have h: "unat (early_heap_start bi) \<le> unat (early_heap_end bi)" "unat (kernel_image_start bi) \<le> unat (early_heap_start bi)"
    using B(1) by (auto simp: boot_layout_def Let_def)
  obtain n where n: "unat f = 4096 * n" using f(2) unfolding page_def by auto
  have "unat (kernel_readonly_end bi) \<le> 4096 * n" "0x10002000 \<le> 4096 * n" using n f(1) h B(3,4) by linarith+
  then have "pages_up (kernel_readonly_end bi) \<le> n" "n \<notin> {0x10000, 0x10001}" unfolding pages_up_def by auto
  moreover have "n < pages_up e \<longleftrightarrow> unat f < unat e" unfolding pages_up_def n by linarith
  ultimately show ?thesis using n e unfolding kernel_mapping_def e_def [symmetric] by auto
qed

section \<open>The self-test in the started kernel\<close>

text \<open>The wait changes trap registers and the count of ticks only.\<close>

lemma waited_fields [simp]:
  "avail_frames (s\<lparr>global_ticks := n\<rparr>) = avail_frames s" "bitmap_region (s\<lparr>global_ticks := n\<rparr>) = bitmap_region s"
  "mm_ok d (s\<lparr>global_ticks := n\<rparr>) = mm_ok d s" "free_tail r (s\<lparr>global_ticks := n\<rparr>) = free_tail r s"
  "free_tail r (s\<lparr>sreg := R\<rparr>) = free_tail r s" "bitmap_region (s\<lparr>sreg := R\<rparr>) = bitmap_region s"
proof -
  have fa: "frame_addr (s\<lparr>global_ticks := n\<rparr>) = frame_addr s" by (simp add: frame_addr_def fun_eq_iff)
  have fs: "free_set (s\<lparr>global_ticks := n\<rparr>) = free_set s" "free_set (s\<lparr>sreg := R\<rparr>) = free_set s"
    by (simp_all add: free_set_def bitmap_test_def)
  show av: "avail_frames (s\<lparr>global_ticks := n\<rparr>) = avail_frames s" by (simp add: avail_frames_def fs fa)
  show bm: "bitmap_region (s\<lparr>global_ticks := n\<rparr>) = bitmap_region s" "bitmap_region (s\<lparr>sreg := R\<rparr>) = bitmap_region s"
    by (simp_all add: bitmap_region_def)
  show "mm_ok d (s\<lparr>global_ticks := n\<rparr>) = mm_ok d s" by (simp add: mm_ok_def pmm_inv_def fs av bm)
  show "free_tail r (s\<lparr>global_ticks := n\<rparr>) = free_tail r s" "free_tail r (s\<lparr>sreg := R\<rparr>) = free_tail r s"
    by (simp_all add: free_tail_def fs)
qed

lemma slab_inv_waited:
  assumes "slab_inv d c sz ps fl s"
  shows "slab_inv d c sz ps fl (s\<lparr>sreg := R, global_ticks := n\<rparr>)"
proof -
  have "mm_ok d s" using assms by (simp add: slab_inv_def)
  then show ?thesis by (intro slab_inv_elsewhere [OF assms]) simp_all
qed

text \<open>The manager starts behind the tail of free frames, and the test follows.\<close>

lemma manager_and_test:
  assumes meta: "slab_inv d (cache_metadata_cache s) 32 ps fl s" "cache_meta_initialized s" "fl \<noteq> []"
    and heap: "kheap_initialized s" and tail: "free_tail r s" and room: "30 \<le> card (avail_frames s)"
    and lock: "region (table_lock (g_om s)) 4 \<inter> (cache_foot (cache_metadata_cache s) ps \<union> pool_foot s) = {}"
    and types: "length (om_types (g_om s)) = 64" and clean: "clean_frames s" and off: "\<not> g_test_destroyed s"
    and cb: "test_callbacks calls (sym_test_create syms) (sym_test_destroy syms)"
  obtains sz V u where "kernel_main_late syms calls user s = andThen
      (user (test_log ''[ob] PASS: handle_count dropped and destroy callback triggered'' u)) (\<lambda>_ s. Spin s)"
    and "g_test_destroyed u" and "ob_inv d sz 0 V u" and "view_live sz V = {}"
proof -
  have n: "9 \<le> card (avail_frames s)" "(0 :: nat) < 9" using room by simp_all
  note run = free_tail_run [OF tail n]
  obtain ht ps' fl' t where I: "ob_init s = Ret () t" "ob_ready d ps' fl' [] [] (\<lambda>_. []) t"
    "g_om t = (g_om s)\<lparr>id_table := ht, next_object_id := 1, type_count := 0\<rparr>"
    "\<exists>p. frame_addr s ` (free_set s - {r..<r + 9}) - {p} \<subseteq> avail_frames t" "ob_frame s t"
    by (rule ob_init_ok [OF meta(1,2) heap run disjI1 [OF meta(3)] lock types]) (rule that; assumption)
  have "card (avail_frames s) \<le> card (frame_addr s ` (free_set s - {r..<r + 9})) + 9"
  proof -
    have "avail_frames s \<subseteq> frame_addr s ` (free_set s - {r..<r + 9}) \<union> frame_addr s ` {r..<r + 9}"
      by (auto simp: avail_frames_def)
    then have "card (avail_frames s) \<le> card (frame_addr s ` (free_set s - {r..<r + 9}) \<union> frame_addr s ` {r..<r + 9})"
      by (rule card_mono [OF finite])
    also have "\<dots> \<le> card (frame_addr s ` (free_set s - {r..<r + 9})) + card (frame_addr s ` {r..<r + 9})"
      by (rule card_Un_le)
    also have "card (frame_addr s ` {r..<r + 9}) \<le> card {r..<r + 9}" by (intro card_image_le) simp
    finally show ?thesis by simp
  qed
  moreover have "card (frame_addr s ` (free_set s - {r..<r + 9})) \<le> Suc (card (avail_frames t))"
  proof -
    from I(4) obtain p where "frame_addr s ` (free_set s - {r..<r + 9}) \<subseteq> insert p (avail_frames t)" by blast
    then have "card (frame_addr s ` (free_set s - {r..<r + 9})) \<le> card (insert p (avail_frames t))" by (rule card_mono [OF finite])
    also have "\<dots> \<le> Suc (card (avail_frames t))" by (rule card_insert_le_m1) simp_all
    finally show ?thesis .
  qed
  ultimately have room': "20 \<le> card (avail_frames t)" using room by simp
  obtain q where q: "free_tail q t" using free_tail_kept [OF I(5) tail] by blast
  have k: "type_count (g_om t) < 64" "kheap_initialized t" "\<not> g_test_destroyed t"
    using I(3) ob_frameD(1,2) [OF I(5)] heap off by simp_all
  obtain sz V u where T: "object_test calls (sym_test_create syms) (sym_test_destroy syms) t =
      Ret () (test_log ''[ob] PASS: handle_count dropped and destroy callback triggered'' u)"
    "g_test_destroyed u" "ob_inv d sz (type_count (g_om t)) V u" "view_live sz V = {}"
    by (rule object_test_ok [OF I(2) k(1,2) q room' clean_frames_kept [OF clean I(5)] k(3) cb])
  have "type_count (g_om t) = 0" using I(3) by simp
  with T show ?thesis using I(1) by (intro that [of u sz V]) (simp_all add: kernel_main_late_def)
qed

text \<open>
  What the test needs beside \<open>rv_boot_ok\<close>: more frames, zeroed memory behind the boot heap, and the
  static objects of the manager below it, apart from the static cache.
\<close>

definition rv_test_ok :: "boot_info \<Rightarrow> u64 \<Rightarrow> kstate \<Rightarrow> bool" where
  "rv_test_ok bi meta s \<longleftrightarrow>
     length (om_types (g_om s)) = 64 \<and> \<not> g_test_destroyed s \<and>
     (\<forall>y. unat (early_heap_end bi) \<le> unat y \<longrightarrow> mem s y = 0) \<and>
     unat (table_lock (g_om s)) + 4 \<le> unat (early_heap_start bi) \<and>
     region (table_lock (g_om s)) 4 \<inter> region meta 32 = {} \<and>
     card (kernel_tables bi) + image_frames bi + 31 \<le> unat (machine_ram_total bi) div 4096"

lemma kernel_main_ok:
  assumes boot: "rv_boot_ok bi meta s" and test: "rv_test_ok bi meta s"
    and irq: "\<forall>n c. causes n = Some c \<longrightarrow> c \<noteq> 1 \<and> c < 2 ^ 63" "\<forall>i. \<exists>j \<ge> i. causes j = Some 5"
    and ticks: "unat (global_ticks s) + 2330 < 2 ^ 64"
    and cb: "test_callbacks calls (sym_test_create syms) (sym_test_destroy syms)"
  obtains sz V u where "kernel_main syms (rv_world causes regs) calls user bi s = Some (andThen
      (user (test_log ''[ob] PASS: handle_count dropped and destroy callback triggered'' u)) (\<lambda>_ s. Spin s))"
    and "g_test_destroyed u" and "ob_inv (unat (machine_ram_total bi) div 4096) sz 0 V u" and "view_live sz V = {}"
proof -
  let ?d = "unat (machine_ram_total bi) div 4096" and ?he = "early_heap_end bi" and ?hs = "early_heap_start bi"
  let ?lk = "table_lock (g_om s)"
  have X: "length (om_types (g_om s)) = 64" "\<not> g_test_destroyed s" "\<And>y. unat ?he \<le> unat y \<Longrightarrow> mem s y = 0"
    "unat ?lk + 4 \<le> unat ?hs" "region ?lk 4 \<inter> region meta 32 = {}" "card (kernel_tables bi) + image_frames bi + 31 \<le> ?d"
    using test by (simp_all add: rv_test_ok_def)
  have le: "unat ?hs \<le> unat ?he" using boot by (auto simp: rv_boot_ok_def boot_layout_def Let_def)
  obtain t ps fl r where t: "kernel_main_early bi s = Ret () t" "heap_inv ?d (replicate 8 ([], [])) t"
    "\<And>f. f \<in> avail_frames t \<Longrightarrow> unat ?he \<le> unat f \<and>
      unat f + 4096 \<le> unat (kernel_image_start bi) + ?d * 4096"
    "slab_inv ?d meta 32 ps fl t" "length fl = 119" "cache_meta_initialized t" "free_tail r t"
    "?d \<le> card (avail_frames t) + card (kernel_tables bi) + image_frames bi + 1"
    "g_om t = g_om s" "g_test_destroyed t = g_test_destroyed s" "global_ticks t = global_ticks s"
    "cache_metadata_cache t = meta" "\<And>f y. f \<in> avail_frames t \<Longrightarrow> y \<in> region f 4096 \<Longrightarrow> mem t y = mem s y"
    "\<And>p. p \<in> set ps \<Longrightarrow> unat ?he \<le> unat p \<and> unat p + 4096 \<le> 2 ^ 64"
    "bitmap_region t \<subseteq> region ?hs (unat ?he - unat ?hs)"
    by (rule kernel_main_early_ok [OF boot]) (rule that; assumption)
  have "unat (global_ticks t) + unat (2330 :: u64) < 2 ^ 64" using ticks t(11) by simp
  then obtain R where W: "timer_wait (rv_world causes regs) 2330 t =
      Some (Ret () (t\<lparr>sreg := R, global_ticks := global_ticks t + 2330\<rparr>))"
    using rv_timer_wait_ok [OF irq, of 2330 t regs] by auto
  define w where "w = t\<lparr>sreg := R, global_ticks := global_ticks t + 2330\<rparr>"
  have wf: "avail_frames w = avail_frames t" "bitmap_region w = bitmap_region t" "mem w = mem t" "g_om w = g_om s"
    "cache_metadata_cache w = meta" "cache_meta_initialized w" "kheap_initialized w" "\<not> g_test_destroyed w" "free_tail r w"
    using t(6,7,9,10,12) heap_invD(1) [OF t(2)] X(2) by (simp_all add: w_def)
  have up: "unat f + 4096 \<le> 2 ^ 64" if "f \<in> avail_frames t" for f
    using t(3) [OF that] boot by (auto simp: rv_boot_ok_def boot_layout_def Let_def)
  have high: "region ?lk 4 \<inter> region p 4096 = {}" if "unat ?he \<le> unat p" "unat p + 4096 \<le> 2 ^ 64" for p
    using X(4) le that by (intro region_below_disjoint [of _ _ "unat ?he"]) simp_all
  have "region ?lk 4 \<inter> region ?hs (unat ?he - unat ?hs) = {}"
    using X(4) le unat_lt_u64 [of ?he] by (auto simp: in_region_unat simp del: unat_lt_u64)
  then have "region ?lk 4 \<inter> bitmap_region t = {}" using t(15) by blast
  moreover have "region ?lk 4 \<inter> region f 4096 = {}" if "f \<in> avail_frames t" for f using high t(3) up that by blast
  moreover have "region ?lk 4 \<inter> region p 4096 = {}" if "p \<in> set ps" for p using high t(14) that by blast
  ultimately have lock: "region (table_lock (g_om w)) 4 \<inter> (cache_foot (cache_metadata_cache w) ps \<union> pool_foot w) = {}"
    unfolding cache_foot_def pool_foot_def wf using X(5) by blast
  have "mem t y = 0" if f: "f \<in> avail_frames t" "y \<in> region f 4096" for f y
  proof -
    have "unat f \<le> unat y" using f(2) up [OF f(1)] by (auto simp: in_region_unat)
    then show ?thesis using t(13) [OF f] X(3) [of y] t(3) [OF f(1)] by simp
  qed
  then have clean: "clean_frames w" by (simp add: clean_frames_def wf)
  have meta: "slab_inv ?d (cache_metadata_cache w) 32 ps fl w" "fl \<noteq> []"
    using slab_inv_waited [OF t(4)] t(5) unfolding wf by (auto simp: w_def)
  have room: "30 \<le> card (avail_frames w)" using t(8) X(6) unfolding wf by simp
  have len: "length (om_types (g_om w)) = 64" using X(1) by (simp add: wf)
  obtain sz V u where M: "kernel_main_late syms calls user w = andThen
      (user (test_log ''[ob] PASS: handle_count dropped and destroy callback triggered'' u)) (\<lambda>_ s. Spin s)"
    "g_test_destroyed u" "ob_inv ?d sz 0 V u" "view_live sz V = {}"
    by (rule manager_and_test [OF meta(1) wf(6) meta(2) wf(7,9) room lock len clean wf(8) cb])
  have "kernel_main syms (rv_world causes regs) calls user bi s = Some (kernel_main_late syms calls user w)"
    by (simp add: kernel_main_def t(1) W w_def)
  then show ?thesis using M by (intro that [of u sz V]) simp_all
qed

text \<open>A hart that enters first: what \<^verbatim>\<open>boot_main\<close> does before \<^verbatim>\<open>kernel_main\<close> spares the kernel's data.\<close>

definition rv_power_on :: "link_symbols \<Rightarrow> u64 \<Rightarrow> kstate \<Rightarrow> bool" where
  "rv_power_on syms meta s \<longleftrightarrow>
     rv_boot_ok (rv_early_info syms s) meta s \<and> rv_test_ok (rv_early_info syms s) meta s \<and> bootstrap_cpu s = -1 \<and>
     unat (boot_hart_info s) + 16 \<le> unat (sym_heap_end syms) \<and> unat (boot_spinlock s) + 4 \<le> unat (sym_heap_end syms)"

lemma rv_entered:
  fixes fw hartid sp
  assumes on: "rv_power_on syms meta s"
  defines "u \<equiv> rv_boot_setup syms fw hartid (rv_hart_enter hartid sp s)"
  shows "bootstrap_cpu (rv_hart_enter hartid sp s) = -1" and "rv_early_info syms u = rv_early_info syms s"
    and "rv_boot_ok (rv_early_info syms s) meta u" and "rv_test_ok (rv_early_info syms s) meta u" and "global_ticks u = 0"
proof -
  let ?b = "boot_hart_info s"
  define m where "m = write32 (write64 (write64 (mem s) (?b + 8) hartid) ?b sp) (boot_spinlock s) 0"
  define R where "R = sreg u"
  define out where "out = uart_out u"
  have u: "u = s\<lparr>reg_tp := ?b + 16 * hartid, mem := m, uart_out := out, sreg := R, global_ticks := 0, bootstrap_cpu := hartid\<rparr>"
    unfolding R_def out_def u_def m_def
    by (simp add: rv_boot_setup_def rv_hart_enter_def Let_def klog_info_eq rv_start_harts.simps rv_interrupts_init_def
        rv_interrupts_enable_def rv_interrupts_set_tvec_def cpu_set_stvec_def rv_timer_enable_def rv_timer_set_cmp_def csrs_def csrc_def set_sreg_def
        rv_timer_init_def spin_lock_init_def store64_def cpu_set_tp_def)
  show "bootstrap_cpu (rv_hart_enter hartid sp s) = -1"
    using on by (simp add: rv_hart_enter_def rv_power_on_def store64_def cpu_set_tp_def Let_def)
  show "rv_early_info syms u = rv_early_info syms s"
    by (simp add: rv_early_info_def u cpu_get_membase_def cpu_get_memsize_def)
  show "rv_boot_ok (rv_early_info syms s) meta u"
    using on by (simp add: rv_power_on_def rv_boot_ok_def fresh_kernel_def u)
  show "global_ticks u = 0" by (simp add: u)
  have "m y = mem s y" if y: "unat (sym_heap_end syms) \<le> unat y" for y
  proof -
    have below: "unat ?b + 16 \<le> unat (sym_heap_end syms)" "unat (boot_spinlock s) + 4 \<le> unat (sym_heap_end syms)"
      using on by (simp_all add: rv_power_on_def)
    then have "unat ?b + 8 < 2 ^ 64" using unat_lt_u64 [of "sym_heap_end syms"] by (simp del: unat_lt_u64)
    then have "unat (?b + 8) = unat ?b + 8" by (simp add: unat_word_ariths)
    then have "y \<notin> region (?b + 8) 8" "y \<notin> region ?b 8" "y \<notin> region (boot_spinlock s) 4"
      using below y unat_lt_u64 [of "sym_heap_end syms"] by (simp_all add: in_region_unat del: unat_lt_u64)
    then show ?thesis by (simp add: m_def write32_outside write64_outside)
  qed
  then show "rv_test_ok (rv_early_info syms s) meta u"
    using on by (simp add: rv_power_on_def rv_test_ok_def u rv_early_info_def)
qed

section \<open>Properties\<close>


text \<open>The QEMU machine: the tables of 128 MiB of RAM from 0x80000000 on.\<close>

lemma virt_tables: "kernel_tables virt_rv_boot \<subseteq> insert [0] (insert [0, 128] (insert [2] ((\<lambda>k. [2, k]) ` {..<64})))"
proof -
  have "rv_keys (pg j) \<subseteq> insert [0] (insert [0, 128] (insert [2] ((\<lambda>k. [2, k]) ` {..<64})))"
    if j: "kernel_mapping virt_rv_boot j \<noteq> None" for j
  proof -
    have r: "j \<in> {0x10000, 0x10001} \<or> 0x80000 \<le> j \<and> j < 0x88000"
      using j by (auto simp: kernel_mapping_def virt_rv_boot_def pages_up_def split: if_splits)
    then have u: "unat (pg j) div 4096 = j" by (auto simp: unat_pg)
    have K: "rv_keys (pg j) = {[j div 262144 mod 512], [j div 262144 mod 512, j div 512 mod 512]}"
      using rv_path_eq [of "pg j"] u by (simp add: rv_keys_def rv_path_def)
    from r show ?thesis
    proof
      assume "j \<in> {0x10000, 0x10001}"
      then consider "j = 0x10000" | "j = 0x10001" by blast
      then show ?thesis unfolding K by cases simp_all
    next
      assume b: "0x80000 \<le> j \<and> j < 0x88000"
      have "j div 262144 = 2" using b by (intro div_nat_eqI) (linarith, simp)
      moreover have "j div 512 mod 512 < 64"
      proof -
        have "1024 \<le> j div 512" "j div 512 < 1088" using b by (simp_all add: less_mult_imp_div_less div_le_mono [of 524288 j 512, simplified])
        then have "j div 512 = j div 512 - 1024 + 2 * 512" by simp
        then have "j div 512 mod 512 = (j div 512 - 1024) mod 512" by (metis mod_mult_self1)
        then show ?thesis using \<open>j div 512 < 1088\<close> by simp
      qed
      ultimately show ?thesis unfolding K by simp
    qed
  qed
  then show ?thesis unfolding kernel_tables_def by blast
qed

definition virt_rv_start :: kstate where
  "virt_rv_start = (reset_state RISCV (\<lambda>_. 0) 0x8020C000 0x8020E000)\<lparr>kernel_page_table := 0x80209000\<rparr>"

lemma virt_sizes: "card (kernel_tables virt_rv_boot) \<le> 67" "image_frames virt_rv_boot = 1040"
proof -
  have "card (kernel_tables virt_rv_boot) \<le> card (insert [0] (insert [0, 128] (insert [2 :: nat] ((\<lambda>k. [2, k]) ` {..<64}))))"
    using virt_tables by (intro card_mono) simp_all
  also have "\<dots> \<le> Suc (Suc (Suc (card ((\<lambda>k. [2 :: nat, k]) ` {..<64}))))"
    by (simp add: card_insert_if)
  also have "\<dots> \<le> 67" using card_image_le [of "{..<64}" "\<lambda>k. [2 :: nat, k]"] by simp
  finally show "card (kernel_tables virt_rv_boot) \<le> 67" .
  show "image_frames virt_rv_boot = 1040" by (simp add: image_frames_def virt_rv_boot_def)
qed

lemma virt_rv_boot_ok: "rv_boot_ok virt_rv_boot 0x8020C000 virt_rv_start"
proof -
  note virt_sizes
  moreover have "boot_layout virt_rv_boot 0x8020C000"
    by (simp add: boot_layout_def virt_rv_boot_def unat_pmm_bitmap_size unat_div_page)
  moreover have "vmm_boot_ok virt_rv_boot" by (simp add: vmm_boot_ok_def virt_rv_boot_def pages_up_def)
  moreover have "region (0x8020C000 :: u64) 32 \<inter> region 0x80209000 4096 = {}" by (auto simp: in_region_unat)
  ultimately show ?thesis
    by (simp add: rv_boot_ok_def virt_rv_start_def reset_state_def fresh_kernel_def page_def virt_rv_boot_def)
qed


text \<open>
  C1: from power-on to user mode on RISC-V. A first hart that enters \<^verbatim>\<open>boot_main\<close> with the kernel's
  data as the loader leaves it and clean memory behind the boot heap, and that takes timer interrupts
  again and again, gets through \<^verbatim>\<open>mm_init\<close>, \<^verbatim>\<open>vmm_init\<close>, the wait, \<^verbatim>\<open>ob_init\<close> and \<^verbatim>\<open>object_test\<close>, with every
  check of the test passed, and calls \<^verbatim>\<open>create_user_process\<close>. The test's object is gone by then, the
  invariant of the object manager holds, and when the call returns the hart stays in its last loop.
\<close>
theorem rv_boot_passes_self_test:
  assumes "rv_power_on syms meta s"
    and "\<forall>n c. causes n = Some c \<longrightarrow> c \<noteq> 1 \<and> c < 2 ^ 63" and "\<forall>i. \<exists>j \<ge> i. causes j = Some 5"
    and "test_callbacks calls (sym_test_create syms) (sym_test_destroy syms)"
  shows "\<exists>sz V u. rv_boot_main syms fw (rv_world causes regs) calls user hartid sp s = Some (andThen
      (user (test_log ''[ob] PASS: handle_count dropped and destroy callback triggered'' u)) (\<lambda>_ s. Spin s)) \<and>
    g_test_destroyed u \<and> ob_inv (unat MACHINE_RAM_SIZE div 4096) sz 0 V u \<and> view_live sz V = {}"
proof -
  let ?u = "rv_boot_setup syms fw hartid (rv_hart_enter hartid sp s)"
  note first = rv_entered(1) [OF assms(1), where hartid = hartid and sp = sp]
  note E = rv_entered(2-5) [OF assms(1), where fw = fw and hartid = hartid and sp = sp]
  have "unat (global_ticks ?u) + 2330 < 2 ^ 64" by (simp add: E(4))
  from kernel_main_ok [OF E(2,3) assms(2,3) this assms(4)] obtain sz V u where
    K: "kernel_main syms (rv_world causes regs) calls user (rv_early_info syms s) ?u = Some (andThen
      (user (test_log ''[ob] PASS: handle_count dropped and destroy callback triggered'' u)) (\<lambda>_ s. Spin s))"
    "g_test_destroyed u" "ob_inv (unat (machine_ram_total (rv_early_info syms s)) div 4096) sz 0 V u" "view_live sz V = {}"
    by metis
  have "rv_boot_main syms fw (rv_world causes regs) calls user hartid sp s = Some (andThen (andThen
      (user (test_log ''[ob] PASS: handle_count dropped and destroy callback triggered'' u)) (\<lambda>_ s. Spin s :: (unit, kstate) outcome)) (\<lambda>_ s. Spin s))"
    by (simp add: rv_boot_main_def Let_def first E(1) K(1))
  moreover have "andThen (andThen x (\<lambda>_ s. Spin s :: (unit, kstate) outcome)) (\<lambda>_ s. Spin s) = andThen x (\<lambda>_ s. Spin s)"
    for x :: "(unit, kstate) outcome" by (cases x) simp_all
  ultimately show ?thesis using K(2-4) by (intro exI [of _ sz] exI [of _ V] exI [of _ u]) (simp add: rv_early_info_def cpu_get_memsize_def)
qed

definition virt_syms :: link_symbols where
  "virt_syms = \<lparr>sym_heap_start = 0x80210000, sym_heap_end = 0x80610000, sym_text_start = 0x80200000,
     sym_text_end = 0x80610000, sym_rodata_end = 0x80208000, sym_trampoline_start = 0x80207000,
     sym_vectors = 0x80201000, sym_usercode = 0x80208000, sym_test_create = 0x80202000, sym_test_destroy = 0x80203000\<rparr>"

definition virt_calls :: ob_calls where
  "virt_calls = \<lparr>call_create = (\<lambda>_. test_object_create), call_destroy = (\<lambda>_. test_object_destroy)\<rparr>"

text \<open>The QEMU machine with zeroed memory and a timer that interrupts every wait; the user program just returns.\<close>

theorem rv_boot_passes_self_test_witness:
  "\<exists>u. rv_boot_main virt_syms (\<lambda>_. (0, 0)) (rv_world (\<lambda>_. Some 5) 0) virt_calls (Ret ()) 0 0x80300000 virt_rv_start =
     Some (Spin u)"
proof -
  have bi: "rv_early_info virt_syms virt_rv_start = virt_rv_boot"
    by (simp add: rv_early_info_def virt_syms_def virt_rv_boot_def virt_rv_start_def reset_state_def cpu_get_membase_def
        cpu_get_memsize_def MACHINE_RAM_SIZE_def)
  have sep: "region (0x8020E000 :: u64) 4 \<inter> region 0x8020C000 32 = {}" by (auto simp: in_region_unat)
  have t: "rv_test_ok virt_rv_boot 0x8020C000 virt_rv_start"
    using virt_sizes sep by (simp add: rv_test_ok_def virt_rv_start_def reset_state_def) (simp add: virt_rv_boot_def)
  have on: "rv_power_on virt_syms 0x8020C000 virt_rv_start"
    unfolding rv_power_on_def bi using virt_rv_boot_ok t by (simp add: virt_rv_start_def reset_state_def virt_syms_def)
  have irq: "\<forall>n c. (\<lambda>_ :: nat. Some (5 :: u64)) n = Some c \<longrightarrow> c \<noteq> 1 \<and> c < 2 ^ 63"
    "\<forall>i. \<exists>j \<ge> i. (\<lambda>_ :: nat. Some (5 :: u64)) j = Some 5" by auto
  have cb: "test_callbacks virt_calls (sym_test_create virt_syms) (sym_test_destroy virt_syms)"
    by (simp add: test_callbacks_def virt_calls_def virt_syms_def)
  from rv_boot_passes_self_test [OF on irq cb, of "\<lambda>_. (0, 0)" 0 "Ret ()" 0 "0x80300000"]
  show ?thesis by auto
qed

text \<open>
  What the ARM64 kernel finds at its start: the variables as the loader leaves them, no interrupt handler
  registered, the array of handlers below the boot heap and apart from the static cache.
\<close>

definition a64_power_on :: "link_symbols \<Rightarrow> u64 \<Rightarrow> kstate \<Rightarrow> bool" where
  "a64_power_on syms meta s \<longleftrightarrow>
     arch s = ARM64 \<and> fresh_kernel meta s \<and> boot_layout (a64_early_info syms s) meta \<and> global_ticks s = 0 \<and>
     (\<forall>i < 255. load64 s (gic_handlers s + 8 * of_nat i) = 0) \<and>
     unat (gic_handlers s) + 2040 \<le> unat (sym_heap_start syms) \<and> region (gic_handlers s) 2040 \<inter> region meta 32 = {}"

definition console_step :: "kstate \<Rightarrow> kstate \<Rightarrow> bool" where
  "console_step s t \<longleftrightarrow> arch t = arch s \<and> mem t = mem s \<and> gic_handlers t = gic_handlers s \<and>
     global_ticks t = global_ticks s \<and> last_free_index t = last_free_index s \<and>
     cache_metadata_cache t = cache_metadata_cache s \<and> cache_meta_initialized t = cache_meta_initialized s \<and>
     kheap_initialized t = kheap_initialized s \<and> kmalloc_caches t = kmalloc_caches s"

lemma console_steps:
  "console_step s s" "console_step s (klog level sub fmt args t) = console_step s t"
  "console_step s (klog_info sub fmt args t) = console_step s t"
  "console_step s (set_sreg r v t) = console_step s t"
  "console_step s (io_write32 a off w t) = console_step s t" "console_step s (t\<lparr>io_hist := h\<rparr>) = console_step s t"
  by (simp_all add: console_step_def klog_info_eq klog_def set_sreg_def io_write32_def)

lemma a64_setup_console: "console_step s (a64_boot_setup syms dev s)"
  unfolding a64_boot_setup_def a64_interrupts_init_def a64_interrupts_set_vbar_def enable_exceptions_def
    gic_init_def gic_allow_interrupts_def a64_interrupts_enable_def cpu_set_vbar_el1_def cpu_set_vbar_el2_def
    klog_critical_def Let_def
  by (simp add: io_read32_def Let_def console_steps)

lemma console_step_early:
  assumes "console_step s t"
  shows "fresh_kernel meta t = fresh_kernel meta s" and "a64_early_info syms t = a64_early_info syms s"
  using assms
  by (simp_all add: console_step_def fresh_kernel_def a64_early_info_def cpu_get_membase_def cpu_get_memsize_def)

text \<open>The interrupt handlers of the array survive the start of the memory manager.\<close>

lemma handlers_below:
  assumes "unat g + 2040 \<le> unat (hs :: u64)" and "i < 255" and "y \<in> region (g + 8 * of_nat i) 8"
  shows "y \<in> region g 2040" and "unat y < unat hs"
proof -
  have lt: "unat hs < 2 ^ 64" by simp
  have i: "unat (8 * of_nat i :: u64) = 8 * i" using assms(2) by (simp add: unat_word_ariths unat_of_nat)
  have "unat hs < 18446744073709551616" by simp
  then have "unat g + 8 * i < 18446744073709551616" using assms(1,2) by linarith
  then have b: "unat (g + 8 * of_nat i) = unat g + 8 * i" using i by (simp only: unat_word_ariths(1)) simp
  then have "unat g + 8 * i \<le> unat y" "unat y < unat g + 8 * i + 8"
    using assms lt by (simp_all add: in_region_unat del: unat_lt_u64)
  then show "unat y < unat hs" "y \<in> region g 2040"
    using assms(1,2) lt by (simp_all add: in_region_unat del: unat_lt_u64)
qed

text \<open>
  C3: the ARM64 kernel brings up its memory and then waits for ever. From variables as the
  loader leaves them and no interrupt handler, the memory manager starts with its invariant,
  and then, whatever exceptions the CPU takes, \<^verbatim>\<open>timer_wait(2330)\<close> does not return: \<^verbatim>\<open>boot_main\<close>
  comes to the same end whatever would follow the wait. The interrupt controller reports only ids
  inside the array of handlers or special ids.
\<close>
theorem a64_boot_never_leaves_wait:
  assumes "a64_power_on syms meta s"
    and "\<forall>h. unat (ucast (dev h 0x0801000C) AND (0x3FF :: u32)) < 255 \<or> 1022 \<le> unat (ucast (dev h 0x0801000C) AND (0x3FF :: u32))"
  shows "\<exists>t. kernel_main_early (a64_early_info syms s) (a64_boot_setup syms dev s) = Ret () t \<and>
    heap_inv (unat MACHINE_RAM_SIZE div 4096) (replicate 8 ([], [])) t \<and>
    (\<forall>x. timer_wait (a64_world dev calls types regs) 2330 t \<noteq> Some (Ret () x)) \<and>
    a64_boot_main syms dev (a64_world dev calls types regs) obs user s =
      a64_boot_main syms dev (a64_world dev calls types regs) obs' user' s"
proof -
  let ?bi = "a64_early_info syms s" and ?u = "a64_boot_setup syms dev s" and ?w = "a64_world dev calls types regs"
  let ?v = "klog_info ''kern'' ''initializing kernel'' [] ?u"
  have A: "arch s = ARM64" "fresh_kernel meta s" "boot_layout ?bi meta" "global_ticks s = 0"
    "unat (gic_handlers s) + 2040 \<le> unat (sym_heap_start syms)" "region (gic_handlers s) 2040 \<inter> region meta 32 = {}"
    and empty: "\<And>i. i < 255 \<Longrightarrow> load64 s (gic_handlers s + 8 * of_nat i) = 0"
    using assms(1) by (simp_all add: a64_power_on_def)
  have c: "console_step s ?v" by (simp add: console_steps a64_setup_console)
  note C = c [unfolded console_step_def]
  note bi = console_step_early(2) [OF a64_setup_console]
  have "fresh_kernel meta ?v" using A(2) console_step_early(1) [OF c] by simp
  from mm_init_ok [OF A(3) this] obtain t where t: "mm_init ?bi ?v = Ret () t"
    "heap_inv (unat (machine_ram_total ?bi) div 4096) (replicate 8 ([], [])) t"
    "arch t = arch ?v" "global_ticks t = global_ticks ?v" "gic_handlers t = gic_handlers ?v"
    and low: "\<And>y. y \<notin> region meta 32 \<Longrightarrow> unat y < unat (early_heap_start ?bi) \<Longrightarrow> mem t y = mem ?v y"
    by metis
  have early: "kernel_main_early ?bi ?u = Ret () t" using t(1,3) A(1) C by (simp add: kernel_main_early_def Let_def)
  have "load64 t (gic_handlers t + 8 * of_nat i) = 0" if i: "i < 255" for i
  proof -
    have "read64 (mem t) (gic_handlers s + 8 * of_nat i) = read64 (mem s) (gic_handlers s + 8 * of_nat i)"
    proof (rule read64_cong)
      fix y assume "y \<in> region (gic_handlers s + 8 * of_nat i) 8"
      note y = handlers_below [OF A(5) i this]
      then have "mem t y = mem ?v y" using A(6) by (intro low) (auto simp: a64_early_info_def)
      then show "mem t y = mem s y" using C by simp
    qed
    then show ?thesis using empty [OF i] t(5) C by simp
  qed
  then have stuck: "timer_wait ?w 2330 t \<noteq> Some (Ret () x)" for x
    using t(4) C A(4) by (intro a64_wait_never_returns assms(2)) simp_all
  have "kernel_main syms ?w obs user ?bi ?u = kernel_main syms ?w obs' user' ?bi ?u"
  proof (cases "timer_wait ?w 2330 t")
    case (Some out)
    then show ?thesis using stuck by (cases out) (simp_all add: kernel_main_def early)
  qed (simp add: kernel_main_def early)
  then show ?thesis
    using early stuck t(2) by (intro exI [of _ t]) (simp add: a64_boot_main_def Let_def bi, simp add: a64_early_info_def cpu_get_memsize_def)
qed

text \<open>
  An image linked at 0x40080000 with a boot heap of 4 MiB behind it; memory is zero, the interrupt
  controller always reports interrupt 30.
\<close>

definition virt_a64_syms :: link_symbols where
  "virt_a64_syms = \<lparr>sym_heap_start = 0x40090000, sym_heap_end = 0x40490000, sym_text_start = 0x40080000,
     sym_text_end = 0, sym_rodata_end = 0, sym_trampoline_start = 0, sym_vectors = 0x40080800, sym_usercode = 0,
     sym_test_create = 0, sym_test_destroy = 0\<rparr>"

definition virt_a64_start :: kstate where
  "virt_a64_start = (reset_state ARM64 (\<lambda>_. 0) 0x4008C000 0)\<lparr>gic_handlers := 0x4008D000\<rparr>"

lemma virt_a64_power_on: "a64_power_on virt_a64_syms 0x4008C000 virt_a64_start"
proof -
  let ?s = virt_a64_start
  have bi: "boot_layout (a64_early_info virt_a64_syms ?s) 0x4008C000"
    by (simp add: boot_layout_def a64_early_info_def virt_a64_syms_def cpu_get_memsize_def MACHINE_RAM_SIZE_def
        unat_pmm_bitmap_size unat_div_page)
  have "load (\<lambda>_. 0) a n = (0 :: u64)" for a n by (induction n) simp_all
  then have z: "read64 (\<lambda>_. 0) a = 0" for a by (simp only: read64_def)
  have f: "fresh_kernel 0x4008C000 ?s" "arch ?s = ARM64" "global_ticks ?s = 0" "gic_handlers ?s = 0x4008D000"
    "mem ?s = (\<lambda>_. 0)"
    by (simp_all add: virt_a64_start_def reset_state_def fresh_kernel_def)
  have "region 0x4008D000 2040 \<inter> region (0x4008C000 :: u64) 32 = {}"
    by (auto simp: in_region_unat)
  then show ?thesis using bi f z by (simp add: a64_power_on_def virt_a64_syms_def)
qed

theorem a64_boot_never_leaves_wait_witness:
  "\<exists>t. kernel_main_early (a64_early_info virt_a64_syms virt_a64_start)
      (a64_boot_setup virt_a64_syms (\<lambda>_ _. 30) virt_a64_start) = Ret () t \<and>
    (\<forall>x. timer_wait (a64_world (\<lambda>_ _. 30) (\<lambda>_ _ _ s. Ret 0 s) (\<lambda>n. if n = 7 then Some 3 else Some 2) 0) 2330 t \<noteq>
      Some (Ret () x))"
proof -
  have "\<forall>h. unat (ucast ((\<lambda>_ _. 30) h 0x0801000C :: u64) AND (0x3FF :: u32)) < 255 \<or>
      1022 \<le> unat (ucast ((\<lambda>_ _. 30) h 0x0801000C :: u64) AND (0x3FF :: u32))"
    by simp
  from a64_boot_never_leaves_wait [OF virt_a64_power_on this] show ?thesis by blast
qed

end
