(* ===== verification/Format.thy ===== *)
theory Format
  imports Klog
begin

text \<open>
  What \<^verbatim>\<open>klog_vprintf\<close> of \<^verbatim>\<open>libkern/klog.c\<close> prints, stated without its loops: numbers as
  digit strings of natural numbers and integers, a format as a list of pieces with the types of
  the arguments they take, and the text the pieces stand for.
\<close>

section \<open>Definitions\<close>

subsection \<open>Numbers\<close>

definition lower_digits :: string where "lower_digits = ''0123456789abcdef''"
definition upper_digits :: string where "upper_digits = ''0123456789ABCDEF''"

text \<open>The digits of a number, highest first.\<close>

fun nat_digits :: "string \<Rightarrow> nat \<Rightarrow> nat \<Rightarrow> string" where
  "nat_digits digits base n =
     (if n < base \<or> base \<le> 1 then [digits ! n] else nat_digits digits base (n div base) @ [digits ! (n mod base)])"

declare nat_digits.simps [simp del]

definition int_digits :: "int \<Rightarrow> string" where
  "int_digits i = (if i < 0 then ''-'' else []) @ nat_digits lower_digits 10 (nat \<bar>i\<bar>)"

text \<open>Reading a number back.\<close>

definition digit_value :: "char \<Rightarrow> nat option" where
  "digit_value c =
     (let n = of_char c
      in if 48 \<le> n \<and> n < 58 then Some (n - 48)
         else if 97 \<le> n \<and> n < 103 then Some (n - 87)
         else if 65 \<le> n \<and> n < 71 then Some (n - 55) else None)"

fun read_digits :: "nat \<Rightarrow> nat \<Rightarrow> string \<Rightarrow> nat option" where
  "read_digits base n [] = Some n"
| "read_digits base n (c # cs) =
     (case digit_value c of
        Some d \<Rightarrow> if d < base then read_digits base (n * base + d) cs else None
      | None \<Rightarrow> None)"

definition read_number :: "nat \<Rightarrow> string \<Rightarrow> nat option" where
  "read_number base str = (if str = [] then None else read_digits base 0 str)"

definition read_signed :: "string \<Rightarrow> int option" where
  "read_signed str =
     (if take 1 str = ''-'' then map_option (\<lambda>n. - int n) (read_number 10 (tl str))
      else map_option int (read_number 10 str))"

subsection \<open>Formats\<close>

datatype conversion = AsChar | AsString | AsInt | AsUnsigned | AsHex | AsUpperHex | AsPointer
  | AsLong | AsUnsignedLong | AsLongHex

datatype piece = Lit char | Conv conversion

definition short_conversions :: "(char \<times> conversion) list" where
  "short_conversions = [(CHR ''c'', AsChar), (CHR ''s'', AsString), (CHR ''d'', AsInt), (CHR ''u'', AsUnsigned),
     (CHR ''x'', AsHex), (CHR ''X'', AsUpperHex), (CHR ''p'', AsPointer)]"

definition long_conversions :: "(char \<times> conversion) list" where
  "long_conversions = [(CHR ''d'', AsLong), (CHR ''u'', AsUnsignedLong), (CHR ''x'', AsLongHex)]"

text \<open>
  The pieces of a format. A format that ends within a conversion, or has an unknown one after
  an \<^verbatim>\<open>l\<close>, is no format; an unknown conversion without \<^verbatim>\<open>l\<close> stands for itself.
\<close>

definition parse_conversion :: "string \<Rightarrow> (piece list \<times> string) option" where
  "parse_conversion format =
     (case format of
        [] \<Rightarrow> None
      | d # rest \<Rightarrow>
          if d = NUL then None
          else if d = CHR ''%'' then Some ([Lit d], rest)
          else if d = CHR ''l'' then
            (let rest = (if take 1 rest = ''l'' then tl rest else rest)
             in case rest of
                  [] \<Rightarrow> None
                | e # rest \<Rightarrow> map_option (\<lambda>k. ([Conv k], rest)) (map_of long_conversions e))
          else case map_of short_conversions d of
                 Some k \<Rightarrow> Some ([Conv k], rest)
               | None \<Rightarrow> Some ([Lit (CHR ''%''), Lit d], rest))"

lemma parse_conversion_shorter:
  assumes "parse_conversion format = Some (ps, rest)" shows "length rest < length format"
proof -
  have "length r < length xs" if "tl xs = e # r" for xs r :: string and e using that by (cases xs) auto
  then show ?thesis using assms
    by (fastforce simp: parse_conversion_def Let_def split: list.splits if_splits option.splits)
qed

function parse_format :: "string \<Rightarrow> piece list option" where
  "parse_format [] = Some []"
| "parse_format (c # format) =
     (if c = NUL then Some []
      else if c \<noteq> CHR ''%'' then map_option (Cons (Lit c)) (parse_format format)
      else case parse_conversion format of
             None \<Rightarrow> None
           | Some (ps, rest) \<Rightarrow> map_option (append ps) (parse_format rest))"
  by pat_completeness auto
termination
  by (relation "measure length") (auto dest: parse_conversion_shorter)

datatype arg_type = Number | String

fun type_of_arg :: "vararg \<Rightarrow> arg_type" where
  "type_of_arg (VNum n) = Number"
| "type_of_arg (VStr str) = String"

fun piece_type :: "piece \<Rightarrow> arg_type list" where
  "piece_type (Lit c) = []"
| "piece_type (Conv k) = [if k = AsString then String else Number]"

definition format_type :: "piece list \<Rightarrow> arg_type list" where
  "format_type ps = concat (map piece_type ps)"

text \<open>
  The text of a conversion. An argument of another type has none. (\<^verbatim>\<open>%ld\<close> prints
  the low 32 bits of its argument.)
\<close>

fun conversion_text :: "conversion \<Rightarrow> vararg \<Rightarrow> string option" where
  "conversion_text AsString (VStr str) = Some (puts_chars (case str of None \<Rightarrow> ''(null)'' | Some str \<Rightarrow> str))"
| "conversion_text AsChar (VNum n) = Some [char_of (unat n mod 256)]"
| "conversion_text AsInt (VNum n) = Some (int_digits (signed_take_bit 31 (uint n)))"
| "conversion_text AsUnsigned (VNum n) = Some (nat_digits lower_digits 10 (unat n mod 2 ^ 32))"
| "conversion_text AsHex (VNum n) = Some (nat_digits lower_digits 16 (unat n mod 2 ^ 32))"
| "conversion_text AsUpperHex (VNum n) = Some (nat_digits upper_digits 16 (unat n mod 2 ^ 32))"
| "conversion_text AsPointer (VNum n) = Some (''0x'' @ nat_digits lower_digits 16 (unat n))"
| "conversion_text AsLong (VNum n) = Some (int_digits (signed_take_bit 31 (uint n)))"
| "conversion_text AsUnsignedLong (VNum n) = Some (nat_digits lower_digits 10 (unat n))"
| "conversion_text AsLongHex (VNum n) = Some (nat_digits lower_digits 16 (unat n))"
| "conversion_text _ _ = None"

text \<open>The text of a list of pieces with exactly the arguments they take.\<close>

fun render :: "piece list \<Rightarrow> vararg list \<Rightarrow> string option" where
  "render [] [] = Some []"
| "render (Lit c # ps) args = map_option (Cons c) (render ps args)"
| "render (Conv k # ps) (arg # args) =
     (case conversion_text k arg of
        None \<Rightarrow> None
      | Some text \<Rightarrow> map_option (append text) (render ps args))"
| "render _ _ = None"

section \<open>Printing a number\<close>

lemma digit_16:
  assumes "unat d < 16"
  shows "digit_char (CHR ''a'') d = lower_digits ! unat d" and "digit_char (CHR ''A'') d = upper_digits ! unat d"
proof -
  have "list_all (\<lambda>k. digit_char (CHR ''a'') (of_nat k) = lower_digits ! k \<and> digit_char (CHR ''A'') (of_nat k) = upper_digits ! k)
      [0..<16]"
    by code_simp
  then show "digit_char (CHR ''a'') d = lower_digits ! unat d" and "digit_char (CHR ''A'') d = upper_digits ! unat d"
    using assms by (auto simp: list_all_iff dest: bspec [of _ _ "unat d"])
qed

lemma digit_value_nth:
  assumes "n < 16" shows "digit_value (lower_digits ! n) = Some n" and "digit_value (upper_digits ! n) = Some n"
proof -
  have "n \<in> {0, 1, 2, 3, 4, 5, 6, 7, 8, 9, 10, 11, 12, 13, 14, 15}" using assms unfolding insert_iff empty_iff by arith
  then show "digit_value (lower_digits ! n) = Some n" and "digit_value (upper_digits ! n) = Some n"
    by (auto simp: digit_value_def lower_digits_def upper_digits_def)
qed

lemma digit_loop_digits:
  assumes "1 < unat base" and "\<forall>d. unat d < unat base \<longrightarrow> digit_char a d = digits ! unat d" and "v \<noteq> 0"
  shows "rev (digit_loop a base v) = nat_digits digits (unat base) (unat v)"
  using assms
proof (induction a base v rule: digit_loop.induct)
  case (1 a base v)
  have b: "\<not> base \<le> 1" and pos: "0 < unat base" using "1.prems"(1) by (auto simp: word_le_nat_alt)
  have m: "unat (v mod base) < unat base" using pos by (simp add: unat_mod)
  have step: "rev (digit_loop a base v) = rev (digit_loop a base (v div base)) @ [digits ! (unat v mod unat base)]"
    using "1.prems"(2,3) m b by (subst digit_loop.simps) (simp add: unat_mod)
  show ?case
  proof (cases "v div base = 0")
    case True
    then have "unat v div unat base = 0" by (metis unat_0 unat_div)
    then have "unat v < unat base" using pos by (simp add: div_eq_0_iff)
    moreover have "digit_loop a base (v div base) = []" using True by (subst digit_loop.simps) simp
    ultimately show ?thesis by (subst nat_digits.simps) (simp add: step del: digit_loop.simps)
  next
    case False
    then have "\<not> unat v < unat base" by (metis div_less unat_div unat_eq_zero)
    moreover have "rev (digit_loop a base (v div base)) = nat_digits digits (unat base) (unat (v div base))"
      using "1.IH" b "1.prems" False by auto
    ultimately show ?thesis using "1.prems"(1) by (subst nat_digits.simps) (simp add: step unat_div del: digit_loop.simps)
  qed
qed

lemma nat_digits_0: "0 < base \<Longrightarrow> nat_digits digits base 0 = [digits ! 0]"
  by (simp add: nat_digits.simps)

lemma put_unsigned_digits:
  "1 < unat base \<Longrightarrow> unat base \<le> 16 \<Longrightarrow> put_unsigned v base = nat_digits lower_digits (unat base) (unat v)"
  using digit_loop_digits [of base "CHR ''a''" lower_digits v] digit_16(1)
  by (auto simp: put_unsigned_def nat_digits_0) (simp add: lower_digits_def)

lemma put_upper_hex_digits: "put_upper_hex v = nat_digits upper_digits 16 (unat v)"
  using digit_loop_digits [of 16 "CHR ''A''" upper_digits v] digit_16(2)
  by (auto simp: put_upper_hex_def nat_digits_0) (simp add: upper_digits_def)

lemma unat_of_int_64: "0 \<le> k \<Longrightarrow> k < 2 ^ 64 \<Longrightarrow> unat (word_of_int k :: u64) = nat k"
  by (simp only: unat_eq_nat_uint uint_word_of_int) simp

lemma put_signed_digits: "put_signed v = int_digits (sint v)"
proof -
  have r: "- (2 ^ 31) \<le> sint v" "sint v < 2 ^ 31" using sint_ge [of v] sint_less [of v] by simp_all
  show ?thesis
  proof (cases "sint v < 0")
    case True
    have "word_of_int (- (sint v + 1)) + 1 = (word_of_int (- sint v) :: u64)" by simp
    then have "unat (word_of_int (- (sint v + 1)) + 1 :: u64) = nat (- sint v)"
      using True r unat_of_int_64 [of "- sint v"] by simp
    then show ?thesis using True by (simp add: put_signed_def put_unsigned_digits int_digits_def)
  next
    case False
    have "unat (word_of_int (sint v) :: u64) = nat (sint v)"
      using False r by (intro unat_of_int_64) simp_all
    then show ?thesis using False by (simp add: put_signed_def put_unsigned_digits int_digits_def)
  qed
qed

lemma read_digits_append:
  "read_digits base n (xs @ ys) = (case read_digits base n xs of None \<Rightarrow> None | Some m \<Rightarrow> read_digits base m ys)"
  by (induction xs arbitrary: n) (auto split: option.splits)

lemma read_nat_digits:
  assumes "1 < base" and "\<forall>d < base. digit_value (digits ! d) = Some d"
  shows "read_digits base 0 (nat_digits digits base n) = Some n"
proof (induction n rule: less_induct)
  case (less n)
  show ?case
  proof (cases "n < base")
    case True
    then show ?thesis using assms by (subst nat_digits.simps) simp
  next
    case False
    then have "n div base < n" using assms(1) by simp
    from less [OF this] False show ?thesis using assms
      by (subst nat_digits.simps) (simp add: read_digits_append)
  qed
qed

lemma nat_digits_Nil [simp]: "nat_digits digits base n \<noteq> []"
  by (subst nat_digits.simps) simp

lemma read_number_digits:
  assumes "1 < base" and "base \<le> 16"
  shows "read_number base (nat_digits lower_digits base n) = Some n"
    and "read_number base (nat_digits upper_digits base n) = Some n"
  using assms by (simp_all add: read_number_def read_nat_digits digit_value_nth)

lemma read_signed_digits: "read_signed (int_digits i) = Some i"
proof (cases "i < 0")
  case True
  then show ?thesis by (simp add: read_signed_def int_digits_def read_number_digits)
next
  case False
  let ?t = "nat_digits lower_digits 10 (nat \<bar>i\<bar>)"
  have "read_number 10 ?t = Some (nat \<bar>i\<bar>)" by (rule read_number_digits) simp_all
  moreover from this have "take 1 ?t \<noteq> ''-''"
    by (cases ?t) (auto simp: read_number_def digit_value_def)
  ultimately show ?thesis using False by (simp add: read_signed_def int_digits_def)
qed

text \<open>How many digits a number has.\<close>

lemma digit_loop_length_le: "1 < unat base \<Longrightarrow> unat v < unat base ^ k \<Longrightarrow> length (digit_loop a base v) \<le> k"
proof (induction k arbitrary: v)
  case 0
  then have "v = 0" by (simp add: unat_eq_zero)
  then show ?case by simp
next
  case (Suc k)
  then have "unat (v div base) < unat base ^ k" by (simp add: unat_div less_mult_imp_div_less mult.commute)
  then have "length (digit_loop a base (v div base)) \<le> k" using Suc by blast
  then show ?case by (subst digit_loop.simps) (simp del: digit_loop.simps)
qed

lemma digit_loop_length_gt: "1 < unat base \<Longrightarrow> unat base ^ k \<le> unat v \<Longrightarrow> k < length (digit_loop a base v)"
proof (induction k arbitrary: v)
  case 0
  then have "\<not> (v = 0 \<or> base \<le> 1)" by (auto simp: word_le_nat_alt)
  then show ?case by (subst digit_loop.simps) (simp del: digit_loop.simps)
next
  case (Suc k)
  have "\<not> (v = 0 \<or> base \<le> 1)" using Suc.prems by (auto simp: word_le_nat_alt)
  moreover have "unat base ^ k \<le> unat (v div base)"
    using Suc.prems by (simp add: unat_div less_eq_div_iff_mult_less_eq mult.commute)
  then have "k < length (digit_loop a base (v div base))" using Suc by blast
  ultimately show ?case by (subst digit_loop.simps) (simp del: digit_loop.simps)
qed

section \<open>Printing a format\<close>

lemma low_32: "unat (ucast (ucast n :: u32) :: u64) = unat (n :: u64) mod 2 ^ 32"
  by (simp add: unsigned_ucast_eq take_bit_eq_mod unat_mod)

lemma low_8: "unat (ucast (ucast n :: u32) :: u8) = unat (n :: u64) mod 256"
proof -
  have "unat (ucast x :: u8) = unat x mod 256" for x :: u32 by (simp add: unsigned_ucast_eq unsigned_take_bit_eq take_bit_eq_mod)
  moreover have "unat (ucast n :: u32) = unat n mod 2 ^ 32" by (simp add: unsigned_ucast_eq unsigned_take_bit_eq take_bit_eq_mod)
  ultimately show ?thesis by (simp add: mod_mod_cancel)
qed

lemma low_32_signed: "sint (ucast n :: u32) = signed_take_bit 31 (uint (n :: u64))"
  by (simp add: signed_ucast_eq)

lemmas number_texts = put_signed_digits put_unsigned_digits put_upper_hex_digits low_32 low_8 low_32_signed va_int_def

lemma type_of_arg_inv: "type_of_arg a = Number \<longleftrightarrow> (\<exists>n. a = VNum n)" "type_of_arg a = String \<longleftrightarrow> (\<exists>str. a = VStr str)"
  by (cases a; simp)+

lemma one_argument:
  "piece_type (Conv k) = map type_of_arg xs \<longleftrightarrow>
    (if k = AsString then \<exists>str. xs = [VStr str] else \<exists>n. xs = [VNum n])"
  by (cases xs) (auto simp: type_of_arg_inv eq_commute [of _ "type_of_arg _"])

lemma short_directive:
  assumes "(d, k) \<in> set short_conversions" and "piece_type (Conv k) = map type_of_arg xs"
  shows "\<exists>out. klog_directive (d # rest) (xs @ extra) = (out, rest, extra) \<and> render [Conv k] xs = Some out"
  using assms unfolding one_argument short_conversions_def list.set insert_iff empty_iff prod.inject
  by (elim disjE conjE; simp only: conversion.distinct if_True if_False; auto simp: klog_directive_def number_texts)

lemma long_directive:
  assumes "(e, k) \<in> set long_conversions" and "piece_type (Conv k) = map type_of_arg xs"
  shows "\<exists>out. klog_directive (CHR ''l'' # e # rest) (xs @ extra) = (out, rest, extra) \<and>
      klog_directive (CHR ''l'' # CHR ''l'' # e # rest) (xs @ extra) = (out, rest, extra) \<and> render [Conv k] xs = Some out"
  using assms unfolding one_argument long_conversions_def
  by (auto simp: klog_directive_def number_texts)

lemma other_directive:
  assumes "map_of short_conversions d = None" and "d \<noteq> CHR ''l''" and "d \<noteq> CHR ''%''"
  shows "klog_directive (d # rest) args = (''%'' @ [d], rest, args)"
  using assms by (simp add: short_conversions_def klog_directive_def split: if_splits)

lemma directive_text:
  assumes p: "parse_conversion format = Some (ps, rest)" and t: "format_type ps = map type_of_arg xs"
  shows "\<exists>out. klog_directive format (xs @ extra) = (out, rest, extra) \<and> render ps xs = Some out"
proof -
  obtain d r where f: "format = d # r" "d \<noteq> NUL" using p by (auto simp: parse_conversion_def split: list.splits if_splits)
  consider "d = CHR ''%''" | "d = CHR ''l''" | k where "d \<noteq> CHR ''%''" "d \<noteq> CHR ''l''" "map_of short_conversions d = Some k"
    | "d \<noteq> CHR ''%''" "d \<noteq> CHR ''l''" "map_of short_conversions d = None" by blast
  then show ?thesis
  proof cases
    case 1
    then show ?thesis using p t f by (simp add: parse_conversion_def klog_directive_def format_type_def) auto
  next
    case 2
    then obtain e k where e: "(if take 1 r = ''l'' then tl r else r) = e # rest" "map_of long_conversions e = Some k" "ps = [Conv k]"
      using p f by (auto simp: parse_conversion_def Let_def split: list.splits)
    have "r = e # rest \<or> r = CHR ''l'' # e # rest" using e(1) by (cases r) (auto split: if_splits)
    then show ?thesis using long_directive [OF map_of_SomeD [OF e(2)], of xs rest extra] t 2 f(1) e(3)
      by (auto simp: format_type_def)
  next
    case 3
    then show ?thesis using short_directive [OF map_of_SomeD [OF 3(3)], of xs rest extra] p t f
      by (auto simp: parse_conversion_def format_type_def)
  next
    case 4
    then show ?thesis using other_directive [OF 4(3,2,1)] p t f
      by (auto simp: parse_conversion_def format_type_def)
  qed
qed

lemma render_append:
  "render ps xs = Some a \<Longrightarrow> render qs ys = Some b \<Longrightarrow> render (ps @ qs) (xs @ ys) = Some (a @ b)"
  by (induction ps xs arbitrary: a rule: render.induct) (auto split: option.splits)

lemma format_type_append [simp]: "format_type (ps @ qs) = format_type ps @ format_type qs"
  by (simp add: format_type_def)

lemma klog_vprintf_render:
  assumes "parse_format format = Some ps" and "format_type ps = map type_of_arg args"
  shows "render ps args = Some (klog_vprintf format (args @ extra))"
  using assms
proof (induction format arbitrary: ps args rule: parse_format.induct)
  case 1
  then show ?case by (simp add: format_type_def)
next
  case (2 c format)
  show ?case
  proof (cases "c = NUL \<or> c \<noteq> CHR ''%''")
    case True
    then show ?thesis using 2 by (auto simp: format_type_def split: if_splits)
  next
    case False
    then obtain ps' rest qs where p: "parse_conversion format = Some (ps', rest)" "parse_format rest = Some qs" "ps = ps' @ qs"
      using "2.prems"(1) by (auto split: option.splits)
    obtain xs ys where a: "args = xs @ ys" "format_type ps' = map type_of_arg xs" "format_type qs = map type_of_arg ys"
      using "2.prems"(2) p(3) by (auto simp: append_eq_map_conv)
    from directive_text [OF p(1) a(2), of "ys @ extra"] obtain out where
      d: "klog_directive format (xs @ ys @ extra) = (out, rest, ys @ extra)" "render ps' xs = Some out" by blast
    have "render qs ys = Some (klog_vprintf rest (ys @ extra))" using "2.IH"(2) False p(1,2) a(3) by auto
    with d(2) have "render (ps' @ qs) (xs @ ys) = Some (out @ klog_vprintf rest (ys @ extra))" by (rule render_append)
    then show ?thesis using False d(1) by (simp add: p(3) a(1))
  qed
qed

section \<open>Properties\<close>

text \<open>
  C38: a printed number reads back as the value. This holds for decimal and for both spellings of
  hexadecimal over all 64-bit values, and for signed decimal over all 32-bit values, the least one
  included.
\<close>
theorem klog_numbers_read_back:
  "read_number 10 (put_unsigned v 10) = Some (unat v) \<and> read_number 16 (put_unsigned v 16) = Some (unat v) \<and>
   read_number 16 (put_upper_hex v) = Some (unat v) \<and> read_signed (put_signed i) = Some (sint i)"
  by (simp add: put_unsigned_digits put_upper_hex_digits put_signed_digits read_number_digits read_signed_digits)

text \<open>
  C39: the buffer of 32 characters in \<^verbatim>\<open>put_unsigned\<close> holds every 64-bit value exactly for the
  bases from 4 on, so for the bases 10 and 16 that are used; the 16 characters of \<^verbatim>\<open>%X\<close> suffice.
\<close>
theorem digit_buffers_suffice:
  assumes "2 \<le> base"
  shows "((\<forall>v. length (digit_loop a base v) \<le> 32) = (4 \<le> base)) \<and> (\<forall>v. length (digit_loop a 16 v) \<le> 16)"
proof (intro conjI iffI allI)
  have b: "1 < unat base" using assms by (simp add: word_le_nat_alt)
  show "length (digit_loop a base v) \<le> 32" if "4 \<le> base" for v
  proof (rule digit_loop_length_le [OF b])
    have "unat v < 4 ^ 32" using unsigned_less [of v] by simp
    also have "(4 :: nat) ^ 32 \<le> unat base ^ 32" using that by (intro power_mono) (simp_all add: word_le_nat_alt)
    finally show "unat v < unat base ^ 32" .
  qed
  show "4 \<le> base" if "\<forall>v. length (digit_loop a base v) \<le> 32"
  proof (rule ccontr)
    assume "\<not> 4 \<le> base"
    then have "unat base ^ 32 \<le> 3 ^ 32" by (intro power_mono) (simp_all add: word_le_nat_alt)
    also have "(3 :: nat) ^ 32 \<le> unat (- 1 :: u64)" by (simp add: unsigned_minus_1_eq_mask mask_eq_exp_minus_1)
    finally have "32 < length (digit_loop a base (- 1))" by (rule digit_loop_length_gt [OF b])
    then show False using spec [OF that, of "- 1"] by simp
  qed
  show "length (digit_loop a 16 v) \<le> 16" for v
    using unsigned_less [of v] by (intro digit_loop_length_le) simp_all
qed

theorem digit_buffers_suffice_witness:
  "(\<forall>v. length (digit_loop (CHR ''a'') 10 v) \<le> 32) \<and> \<not> (\<forall>v. length (digit_loop (CHR ''a'') 3 v) \<le> 32)"
  using digit_buffers_suffice [of 10 "CHR ''a''"] digit_buffers_suffice [of 3 "CHR ''a''"] by simp



end
