(* ===== verification/Atomics.thy ===== *)
theory Atomics
  imports Sync
begin

text \<open>
  The inline assembly of \<^verbatim>\<open>include/sync/a64lock.hpp\<close> and \<^verbatim>\<open>include/sync/rvlock.hpp\<close>, instruction by
  instruction, on any number of CPUs that work on one 32-bit location. \<open>Sync\<close> gives each of the
  five functions the meaning of one indivisible step; here the loops of exclusive loads and stores
  (ARM64) and the sequences around the atomic instructions (RISC-V) are shown to have this meaning.
  The registers of a sequence are its operands, by number.
\<close>

section \<open>Definitions\<close>

subsection \<open>The code\<close>

datatype instr =
    Ldaxr nat | Stxr nat nat | Stlxr nat nat | Cbnz nat nat | AddW nat nat nat | SubW nat nat nat
  | Stlr nat | Sev | Ldar nat \<comment> \<open>ARM64; a label is an index\<close>
  | Amoswap nat nat | Amoadd nat nat | Neg nat nat | Lw nat | SwZero | Fence \<comment> \<open>RISC-V\<close>

datatype atomic_call = CallExchange u32 | CallStore u32 | CallLoad | CallAdd u32 | CallSub u32

definition a64_exchange_code :: "instr list" where "a64_exchange_code = [Ldaxr 0, Stxr 1 3, Cbnz 1 0]"
definition a64_store_code :: "instr list" where "a64_store_code = [Stlr 1, Sev]"
definition a64_load_code :: "instr list" where "a64_load_code = [Ldar 0]"
definition a64_add_code :: "instr list" where "a64_add_code = [Ldaxr 0, AddW 1 0 4, Stlxr 2 1, Cbnz 2 0]"
definition a64_sub_code :: "instr list" where "a64_sub_code = [Ldaxr 0, SubW 1 0 4, Stlxr 2 1, Cbnz 2 0]"

definition rv_exchange_code :: "instr list" where "rv_exchange_code = [Amoswap 0 1]"
definition rv_store_code :: "instr list" where "rv_store_code = [Fence, SwZero]"
definition rv_load_code :: "instr list" where "rv_load_code = [Lw 0, Fence]"
definition rv_add_code :: "instr list" where "rv_add_code = [Amoadd 0 2]"
definition rv_sub_code :: "instr list" where "rv_sub_code = [Neg 1 3, Amoadd 0 1]"

text \<open>A call's code, the operand that holds its argument, and the argument.\<close>

fun atomic_code :: "arch \<Rightarrow> atomic_call \<Rightarrow> instr list" where
  "atomic_code ARM64 (CallExchange v) = a64_exchange_code"
| "atomic_code ARM64 (CallStore v) = a64_store_code"
| "atomic_code ARM64 CallLoad = a64_load_code"
| "atomic_code ARM64 (CallAdd v) = a64_add_code"
| "atomic_code ARM64 (CallSub v) = a64_sub_code"
| "atomic_code RISCV (CallExchange v) = rv_exchange_code"
| "atomic_code RISCV (CallStore v) = rv_store_code"
| "atomic_code RISCV CallLoad = rv_load_code"
| "atomic_code RISCV (CallAdd v) = rv_add_code"
| "atomic_code RISCV (CallSub v) = rv_sub_code"

fun arg_reg :: "arch \<Rightarrow> atomic_call \<Rightarrow> nat" where
  "arg_reg ARM64 (CallExchange v) = 3"
| "arg_reg ARM64 (CallStore v) = 1"
| "arg_reg ARM64 CallLoad = 1"
| "arg_reg ARM64 (CallAdd v) = 4"
| "arg_reg ARM64 (CallSub v) = 4"
| "arg_reg RISCV (CallExchange v) = 1"
| "arg_reg RISCV (CallStore v) = 1"
| "arg_reg RISCV CallLoad = 1"
| "arg_reg RISCV (CallAdd v) = 2"
| "arg_reg RISCV (CallSub v) = 3"

fun arg_val :: "atomic_call \<Rightarrow> u32" where
  "arg_val (CallExchange v) = v" | "arg_val (CallStore v) = v" | "arg_val CallLoad = 0"
| "arg_val (CallAdd v) = v" | "arg_val (CallSub v) = v"

text \<open>The functions with a result return operand 0.\<close>

fun call_result :: "atomic_call \<Rightarrow> (nat \<Rightarrow> u32) \<Rightarrow> u32" where
  "call_result (CallStore v) r = 0"
| "call_result c r = r 0"

subsection \<open>CPUs that share a location\<close>

text \<open>
  The location, which CPUs hold an exclusive mark on it, and what each CPU executes: a call, the next
  instruction, the operands.
\<close>

record shared_cell =
  cell :: u32
  marked :: "nat \<Rightarrow> bool"
  running :: "nat \<Rightarrow> (atomic_call \<times> nat \<times> (nat \<Rightarrow> u32)) option"

text \<open>
  One instruction of CPU \<open>i\<close>. Every store takes all marks away. An exclusive store needs the mark, and
  may fail with it (\<open>ok\<close> is whether it does not).
\<close>

fun exec_instr :: "nat \<Rightarrow> bool \<Rightarrow> instr \<Rightarrow> u32 \<Rightarrow> (nat \<Rightarrow> bool) \<Rightarrow> nat \<Rightarrow> (nat \<Rightarrow> u32) \<Rightarrow>
    u32 \<times> (nat \<Rightarrow> bool) \<times> nat \<times> (nat \<Rightarrow> u32)" where
  "exec_instr i ok (Ldaxr d) m mk k r = (m, mk(i := True), Suc k, r(d := m))"
| "exec_instr i ok (Stxr st v) m mk k r =
     (if ok \<and> mk i then (r v, \<lambda>_. False, Suc k, r(st := 0)) else (m, mk(i := False), Suc k, r(st := 1)))"
| "exec_instr i ok (Stlxr st v) m mk k r =
     (if ok \<and> mk i then (r v, \<lambda>_. False, Suc k, r(st := 0)) else (m, mk(i := False), Suc k, r(st := 1)))"
| "exec_instr i ok (Cbnz t l) m mk k r = (m, mk, if r t \<noteq> 0 then l else Suc k, r)"
| "exec_instr i ok (AddW d a b) m mk k r = (m, mk, Suc k, r(d := r a + r b))"
| "exec_instr i ok (SubW d a b) m mk k r = (m, mk, Suc k, r(d := r a - r b))"
| "exec_instr i ok (Stlr v) m mk k r = (r v, \<lambda>_. False, Suc k, r)"
| "exec_instr i ok Sev m mk k r = (m, mk, Suc k, r)"
| "exec_instr i ok (Ldar d) m mk k r = (m, mk, Suc k, r(d := m))"
| "exec_instr i ok (Amoswap d v) m mk k r = (r v, \<lambda>_. False, Suc k, r(d := m))"
| "exec_instr i ok (Amoadd d v) m mk k r = (m + r v, \<lambda>_. False, Suc k, r(d := m))"
| "exec_instr i ok (Neg d a) m mk k r = (m, mk, Suc k, r(d := - r a))"
| "exec_instr i ok (Lw d) m mk k r = (m, mk, Suc k, r(d := m))"
| "exec_instr i ok SwZero m mk k r = (0, \<lambda>_. False, Suc k, r)"
| "exec_instr i ok Fence m mk k r = (m, mk, Suc k, r)"

text \<open>The instruction with which a call takes effect.\<close>

fun takes_effect :: "bool \<Rightarrow> instr \<Rightarrow> bool \<Rightarrow> bool" where
  "takes_effect ok (Stxr st v) mk = (ok \<and> mk)"
| "takes_effect ok (Stlxr st v) mk = (ok \<and> mk)"
| "takes_effect ok (Stlr v) mk = True"
| "takes_effect ok (Ldar d) mk = True"
| "takes_effect ok (Amoswap d v) mk = True"
| "takes_effect ok (Amoadd d v) mk = True"
| "takes_effect ok (Lw d) mk = True"
| "takes_effect ok SwZero mk = True"
| "takes_effect ok _ mk = False"

text \<open>
  A schedule is a list of moves: CPU \<open>i\<close> starts a call with any contents of the other operands, or goes
  on by one instruction, or returns. What an observer sees are the calls and returns, and in between
  the points at which a call takes effect.
\<close>

datatype move = Start nat atomic_call "nat \<Rightarrow> u32" | Go nat bool

datatype label = Called_by nat atomic_call | Point_of nat | Returned nat u32

fun atom_move :: "arch \<Rightarrow> move \<Rightarrow> shared_cell \<Rightarrow> label list \<times> shared_cell" where
  "atom_move A (Start i c r) s =
     (case running s i of
        None \<Rightarrow> ([Called_by i c], s\<lparr>running := (running s)(i \<mapsto> (c, 0, r(arg_reg A c := arg_val c)))\<rparr>)
      | Some _ \<Rightarrow> ([], s))"
| "atom_move A (Go i ok) s =
     (case running s i of
        None \<Rightarrow> ([], s)
      | Some (c, k, r) \<Rightarrow>
          if k < length (atomic_code A c) then
            (let ins = atomic_code A c ! k;
                 (m, mk, k', r') = exec_instr i ok ins (cell s) (marked s) k r
             in (if takes_effect ok ins (marked s i) then [Point_of i] else [],
                 \<lparr>cell = m, marked = mk, running = (running s)(i \<mapsto> (c, k', r'))\<rparr>))
          else ([Returned i (call_result c r)], s\<lparr>running := (running s)(i := None)\<rparr>))"

fun atom_run :: "arch \<Rightarrow> move list \<Rightarrow> shared_cell \<Rightarrow> label list \<times> shared_cell" where
  "atom_run A [] s = ([], s)"
| "atom_run A (mv # mvs) s =
     (let (ls, t) = atom_move A mv s; (ls', u) = atom_run A mvs t in (ls @ ls', u))"

subsection \<open>The specification\<close>

text \<open>
  Each call is one step of \<open>Sync\<close>'s definitions on the word at \<open>p\<close>, somewhere between its beginning and
  its return, and returns what that step gave.
\<close>

fun call_atomic :: "u64 \<Rightarrow> atomic_call \<Rightarrow> kstate \<Rightarrow> u32 \<times> kstate" where
  "call_atomic p (CallExchange v) s = atomic_exchange_acquire p v s"
| "call_atomic p (CallStore v) s = (0, atomic_store_release p v s)"
| "call_atomic p CallLoad s = (atomic_load p s, s)"
| "call_atomic p (CallAdd v) s = atomic_fetch_add p v s"
| "call_atomic p (CallSub v) s = atomic_fetch_sub p v s"

datatype phase = Out | Called atomic_call | Pointed u32

fun spec_label :: "u64 \<Rightarrow> label \<Rightarrow> kstate \<times> (nat \<Rightarrow> phase) \<Rightarrow> (kstate \<times> (nat \<Rightarrow> phase)) option" where
  "spec_label p (Called_by i c) (s, ph) = (if ph i = Out then Some (s, ph(i := Called c)) else None)"
| "spec_label p (Point_of i) (s, ph) =
     (case ph i of Called c \<Rightarrow> (case call_atomic p c s of (v, t) \<Rightarrow> Some (t, ph(i := Pointed v))) | _ \<Rightarrow> None)"
| "spec_label p (Returned i v) (s, ph) = (if ph i = Pointed v then Some (s, ph(i := Out)) else None)"

fun spec_run :: "u64 \<Rightarrow> label list \<Rightarrow> kstate \<times> (nat \<Rightarrow> phase) \<Rightarrow> (kstate \<times> (nat \<Rightarrow> phase)) option" where
  "spec_run p [] x = Some x"
| "spec_run p (l # ls) x = (case spec_label p l x of None \<Rightarrow> None | Some y \<Rightarrow> spec_run p ls y)"

section \<open>Lemmas\<close>

lemmas atomic_codes = a64_exchange_code_def a64_store_code_def a64_load_code_def a64_add_code_def a64_sub_code_def
  rv_exchange_code_def rv_store_code_def rv_load_code_def rv_add_code_def rv_sub_code_def

lemma spec_run_append:
  "spec_run p (ls @ ls') x = (case spec_run p ls x of None \<Rightarrow> None | Some y \<Rightarrow> spec_run p ls' y)"
  by (induction ls arbitrary: x) (simp_all split: option.split)

text \<open>
  Where a CPU is in its code, seen from the specification: before its point of effect with the value
  it loaded still in the location as long as it holds the mark, or behind it with the result at hand.
\<close>

definition cpu_before :: "(nat \<Rightarrow> u32) \<Rightarrow> u32 \<Rightarrow> bool \<Rightarrow> atomic_call \<Rightarrow> phase \<Rightarrow> bool" where
  "cpu_before r m mk c ph \<longleftrightarrow> ph = Called c \<and> (mk \<longrightarrow> r 0 = m)"

fun cpu_at :: "arch \<Rightarrow> atomic_call \<Rightarrow> nat \<Rightarrow> (nat \<Rightarrow> u32) \<Rightarrow> u32 \<Rightarrow> bool \<Rightarrow> phase \<Rightarrow> bool" where
  "cpu_at ARM64 (CallExchange v) k r m mk ph \<longleftrightarrow> r 3 = v \<and>
     (k = 0 \<and> ph = Called (CallExchange v) \<or> k = 1 \<and> cpu_before r m mk (CallExchange v) ph \<or>
      k = 2 \<and> ph = (if r 1 \<noteq> 0 then Called (CallExchange v) else Pointed (r 0)) \<or> k = 3 \<and> ph = Pointed (r 0))"
| "cpu_at ARM64 (CallStore v) k r m mk ph \<longleftrightarrow> r 1 = v \<and>
     (k = 0 \<and> ph = Called (CallStore v) \<or> (k = 1 \<or> k = 2) \<and> ph = Pointed 0)"
| "cpu_at ARM64 CallLoad k r m mk ph \<longleftrightarrow> k = 0 \<and> ph = Called CallLoad \<or> k = 1 \<and> ph = Pointed (r 0)"
| "cpu_at ARM64 (CallAdd v) k r m mk ph \<longleftrightarrow> r 4 = v \<and>
     (k = 0 \<and> ph = Called (CallAdd v) \<or> k = 1 \<and> cpu_before r m mk (CallAdd v) ph \<or>
      k = 2 \<and> cpu_before r m mk (CallAdd v) ph \<and> r 1 = r 0 + v \<or>
      k = 3 \<and> ph = (if r 2 \<noteq> 0 then Called (CallAdd v) else Pointed (r 0)) \<or> k = 4 \<and> ph = Pointed (r 0))"
| "cpu_at ARM64 (CallSub v) k r m mk ph \<longleftrightarrow> r 4 = v \<and>
     (k = 0 \<and> ph = Called (CallSub v) \<or> k = 1 \<and> cpu_before r m mk (CallSub v) ph \<or>
      k = 2 \<and> cpu_before r m mk (CallSub v) ph \<and> r 1 = r 0 - v \<or>
      k = 3 \<and> ph = (if r 2 \<noteq> 0 then Called (CallSub v) else Pointed (r 0)) \<or> k = 4 \<and> ph = Pointed (r 0))"
| "cpu_at RISCV (CallExchange v) k r m mk ph \<longleftrightarrow> r 1 = v \<and>
     (k = 0 \<and> ph = Called (CallExchange v) \<or> k = 1 \<and> ph = Pointed (r 0))"
| "cpu_at RISCV (CallStore v) k r m mk ph \<longleftrightarrow>
     (k = 0 \<or> k = 1) \<and> ph = Called (CallStore v) \<or> k = 2 \<and> ph = Pointed 0"
| "cpu_at RISCV CallLoad k r m mk ph \<longleftrightarrow> k = 0 \<and> ph = Called CallLoad \<or> (k = 1 \<or> k = 2) \<and> ph = Pointed (r 0)"
| "cpu_at RISCV (CallAdd v) k r m mk ph \<longleftrightarrow> r 2 = v \<and>
     (k = 0 \<and> ph = Called (CallAdd v) \<or> k = 1 \<and> ph = Pointed (r 0))"
| "cpu_at RISCV (CallSub v) k r m mk ph \<longleftrightarrow> r 3 = v \<and>
     (k = 0 \<and> ph = Called (CallSub v) \<or> k = 1 \<and> ph = Called (CallSub v) \<and> r 1 = - v \<or> k = 2 \<and> ph = Pointed (r 0))"

definition cpu_ok :: "arch \<Rightarrow> shared_cell \<Rightarrow> nat \<Rightarrow> phase \<Rightarrow> bool" where
  "cpu_ok A s i ph \<longleftrightarrow>
     (case running s i of None \<Rightarrow> ph = Out | Some (c, k, r) \<Rightarrow> cpu_at A c k r (cell s) (marked s i) ph)"

definition sim :: "u64 \<Rightarrow> arch \<Rightarrow> shared_cell \<Rightarrow> kstate \<times> (nat \<Rightarrow> phase) \<Rightarrow> bool" where
  "sim p A s x \<longleftrightarrow> arch (fst x) = A \<and> read32 (mem (fst x)) p = cell s \<and> (\<forall>i. cpu_ok A s i (snd x i))"

text \<open>The effect of a call on the location.\<close>

fun call_effect :: "arch \<Rightarrow> atomic_call \<Rightarrow> u32 \<Rightarrow> u32 \<times> u32" where
  "call_effect A (CallExchange v) m = (m, v)"
| "call_effect A (CallStore v) m = (0, if A = ARM64 then v else 0)"
| "call_effect A CallLoad m = (m, m)"
| "call_effect A (CallAdd v) m = (m, m + v)"
| "call_effect A (CallSub v) m = (m, m - v)"

lemma call_atomic_effect:
  assumes "call_effect (arch s) c (read32 (mem s) p) = (v, m)"
  shows "call_atomic p c s = (v, s\<lparr>mem := write32 (mem s) p m\<rparr>)"
  using assms
  by (cases c; cases "arch s")
    (auto simp: atomic_exchange_acquire_def atomic_store_release_def atomic_load_def atomic_fetch_add_def
      atomic_fetch_sub_def Let_def write32_read32)

lemma cpu_at_unmarked: "cpu_at A c k r m mk ph \<Longrightarrow> cpu_at A c k r m' False ph"
  by (cases A; cases c) (auto simp: cpu_before_def)

lemma exec_others:
  assumes "exec_instr i ok ins m mk k r = (m', mk', k', r')" and "j \<noteq> i"
  shows "m' = m \<and> mk' j = mk j \<or> \<not> mk' j"
  using assms by (cases ins) (auto split: if_splits)

text \<open>One instruction of a call: it takes effect as the call should, or nothing is seen of it.\<close>

definition own_step :: "arch \<Rightarrow> atomic_call \<Rightarrow> bool \<Rightarrow> u32 \<Rightarrow> phase \<Rightarrow> u32 \<Rightarrow> bool \<Rightarrow> nat \<Rightarrow> (nat \<Rightarrow> u32) \<Rightarrow> bool" where
  "own_step A c eff m ph m' mk' k' r' \<longleftrightarrow>
     (if eff then ph = Called c \<and> snd (call_effect A c m) = m' \<and>
        cpu_at A c k' r' m' mk' (Pointed (fst (call_effect A c m)))
      else m' = m \<and> cpu_at A c k' r' m' mk' ph)"

lemma exec_own:
  assumes at: "cpu_at A c k r m (mk i) ph" and k: "k < length (atomic_code A c)"
    and ex: "exec_instr i ok (atomic_code A c ! k) m mk k r = (m', mk', k', r')"
  shows "own_step A c (takes_effect ok (atomic_code A c ! k) (mk i)) m ph m' (mk' i) k' r'"
proof (cases A)
  case ARM64
  then show ?thesis
    using at k ex
    by (cases c) (auto simp: own_step_def atomic_codes cpu_before_def nth_Cons split: if_splits nat.splits)
next
  case RISCV
  then show ?thesis
    using at k ex by (cases c) (auto simp: own_step_def atomic_codes nth_Cons split: if_splits nat.splits)
qed

lemma cpu_at_end:
  assumes "cpu_at A c k r m mk ph" and "\<not> k < length (atomic_code A c)"
  shows "ph = Pointed (call_result c r)"
  using assms by (cases A; cases c) (auto simp: atomic_codes)

lemma cpu_at_start: "cpu_at A c 0 (r(arg_reg A c := arg_val c)) m mk (Called c)"
  by (cases A; cases c) simp_all

lemma move_sim:
  assumes s: "sim p A s x" and mv: "atom_move A mv s = (ls, t)"
  shows "\<exists>y. spec_run p ls x = Some y \<and> sim p A t y"
proof -
  obtain u ph where x: "x = (u, ph)" by (cases x)
  have S: "arch u = A" "read32 (mem u) p = cell s" "\<And>j. cpu_ok A s j (ph j)" using s by (simp_all add: sim_def x)
  show ?thesis
  proof (cases mv)
    case (Start i c r)
    show ?thesis
    proof (cases "running s i")
      case None
      then have "ph i = Out" using S(3) [of i] by (simp add: cpu_ok_def)
      moreover have "cpu_ok A t j ((ph(i := Called c)) j)" for j
        using S(3) [of j] mv Start None cpu_at_start by (auto simp: cpu_ok_def split: option.splits)
      ultimately show ?thesis using mv Start None S(1,2) by (auto simp: x sim_def)
    next
      case Some
      then show ?thesis using mv Start s by (auto simp: x)
    qed
  next
    case (Go i ok)
    show ?thesis
    proof (cases "running s i")
      case None
      then show ?thesis using mv Go s by (auto simp: x)
    next
      case (Some a)
      obtain c k r where a: "a = (c, k, r)" by (cases a)
      have at: "cpu_at A c k r (cell s) (marked s i) (ph i)" using S(3) [of i] Some by (simp add: cpu_ok_def a)
      show ?thesis
      proof (cases "k < length (atomic_code A c)")
        case False
        have "ph i = Pointed (call_result c r)" by (rule cpu_at_end [OF at False])
        moreover have "cpu_ok A t j ((ph(i := Out)) j)" for j
          using S(3) [of j] mv Go Some a False by (auto simp: cpu_ok_def split: option.splits)
        ultimately show ?thesis using mv Go Some a False S(1,2) by (auto simp: x sim_def)
      next
        case True
        let ?ins = "atomic_code A c ! k"
        obtain m' mk' k' r' where ex: "exec_instr i ok ?ins (cell s) (marked s) k r = (m', mk', k', r')"
          by (metis prod_cases4)
        let ?t = "\<lparr>cell = m', marked = mk', running = (running s)(i \<mapsto> (c, k', r'))\<rparr>"
        let ?eff = "takes_effect ok ?ins (marked s i)"
        have t: "t = ?t" "ls = (if ?eff then [Point_of i] else [])" using mv Go Some a True ex by (auto simp: Let_def)
        note own = exec_own [OF at True ex, unfolded own_step_def]
        have others: "cpu_ok A t j (ph j)" if "j \<noteq> i" for j
        proof (cases "running s j")
          case None
          then show ?thesis using S(3) [of j] that by (simp add: cpu_ok_def t)
        next
          case (Some b)
          obtain c' l q where b: "b = (c', l, q)" by (cases b)
          have "cpu_at A c' l q (cell s) (marked s j) (ph j)" using S(3) [of j] Some by (simp add: cpu_ok_def b)
          then have "cpu_at A c' l q m' (mk' j) (ph j)"
            using exec_others [OF ex that] cpu_at_unmarked by (cases "mk' j") auto
          then show ?thesis using that Some by (simp add: cpu_ok_def t b)
        qed
        show ?thesis
        proof (cases ?eff)
          case False
          then have "cpu_ok A t i (ph i)" "m' = cell s" using own by (auto simp: cpu_ok_def t)
          then have "cpu_ok A t j (ph j)" for j using others by (cases "j = i") simp_all
          then show ?thesis using False S(1,2) \<open>m' = cell s\<close> by (simp add: x sim_def t)
        next
          case True
          obtain v w where e: "call_effect A c (cell s) = (v, w)" by (cases "call_effect A c (cell s)")
          have o: "ph i = Called c" "w = m'" "cpu_at A c k' r' m' (mk' i) (Pointed v)" using own True e by simp_all
          have "call_atomic p c u = (v, u\<lparr>mem := write32 (mem u) p m'\<rparr>)"
            using call_atomic_effect [of u c p v w] e S(1,2) o(2) by simp
          moreover have "cpu_ok A t j ((ph(i := Pointed v)) j)" for j
            using others [of j] o(3) by (cases "j = i") (simp_all add: cpu_ok_def t)
          ultimately show ?thesis using True o(1) S(1) by (simp add: x sim_def t mem_simps)
        qed
      qed
    qed
  qed
qed

lemma run_sim:
  assumes "sim p A s x"
  shows "\<exists>y. spec_run p (fst (atom_run A mvs s)) x = Some y \<and> sim p A (snd (atom_run A mvs s)) y"
  using assms
proof (induction mvs arbitrary: s x)
  case Nil
  then show ?case by simp
next
  case (Cons mv mvs)
  obtain ls t where mv: "atom_move A mv s = (ls, t)" by (cases "atom_move A mv s")
  obtain ls' u where run: "atom_run A mvs t = (ls', u)" by (cases "atom_run A mvs t")
  obtain y where y: "spec_run p ls x = Some y" "sim p A t y" using move_sim [OF Cons.prems mv] by blast
  from Cons.IH [OF y(2)] obtain z where "spec_run p ls' y = Some z" "sim p A u z" by (auto simp: run)
  then show ?case using y(1) by (simp add: mv run spec_run_append)
qed

text \<open>
  A call whose CPU goes on alone, with exclusive stores that do not fail without a reason, returns
  after as many moves as its code has instructions, and one.
\<close>

definition alone :: "arch \<Rightarrow> nat \<Rightarrow> atomic_call \<Rightarrow> (nat \<Rightarrow> u32) \<Rightarrow> move list" where
  "alone A i c r = Start i c r # replicate (Suc (length (atomic_code A c))) (Go i True)"

lemma call_alone:
  assumes "running s i = None" and "call_effect A c (cell s) = (v, m)"
  shows "fst (atom_run A (alone A i c r) s) = [Called_by i c, Point_of i, Returned i v]"
    and "cell (snd (atom_run A (alone A i c r) s)) = m" and "running (snd (atom_run A (alone A i c r) s)) = running s"
  using assms by (cases A; cases c; auto simp: alone_def atomic_codes fun_upd_idem)+

section \<open>Properties\<close>

text \<open>
  C35: the five atomics are linearizable, on both architectures. Any number of CPUs call them on one
  location, interleave instruction by instruction, and lose their exclusive marks to each other or
  for no reason. Whatever calls and returns are seen, they are those of an object on which each call is
  one indivisible step, the sequential definition of the function, between its beginning and its
  return, with the result of that step; and the location holds what these steps leave. So no
  update of a reference count or a lock word is lost.
\<close>
theorem atomics_linearizable:
  assumes "\<forall>i. running s i = None" and "read32 (mem k) p = cell s"
  shows "\<exists>u ph. spec_run p (fst (atom_run (arch k) mvs s)) (k, \<lambda>_. Out) = Some (u, ph) \<and>
    read32 (mem u) p = cell (snd (atom_run (arch k) mvs s))"
proof -
  have "sim p (arch k) s (k, \<lambda>_. Out)" using assms by (simp add: sim_def cpu_ok_def)
  from run_sim [OF this, of mvs] obtain y where
    "spec_run p (fst (atom_run (arch k) mvs s)) (k, \<lambda>_. Out) = Some y" "sim p (arch k) (snd (atom_run (arch k) mvs s)) y"
    by blast
  then show ?thesis by (cases y) (auto simp: sim_def)
qed

text \<open>
  Two ARM64 CPUs add 1 at the same time: both load 0, CPU 1 stores first, the store of CPU 0 fails and it
  tries again. The count ends at 2.
\<close>

definition two_adds :: "move list" where
  "two_adds = [Start 0 (CallAdd 1) (\<lambda>_. 0), Start 1 (CallAdd 1) (\<lambda>_. 0), Go 0 True, Go 1 True, Go 1 True, Go 1 True,
     Go 0 True, Go 0 True, Go 0 True, Go 0 True, Go 0 True, Go 0 True, Go 0 True, Go 0 True, Go 1 True, Go 1 True]"

theorem atomics_linearizable_witness:
  "\<exists>u ph. spec_run 0x9000 [Called_by 0 (CallAdd 1), Called_by 1 (CallAdd 1), Point_of 1, Point_of 0, Returned 0 1,
      Returned 1 0] (reset_state ARM64 (\<lambda>_. 0) 0 0, \<lambda>_. Out) = Some (u, ph) \<and> read32 (mem u) 0x9000 = 2"
proof -
  let ?s = "\<lparr>cell = 0, marked = (\<lambda>_. False), running = (\<lambda>_. None)\<rparr>" and ?k = "reset_state ARM64 (\<lambda>_. 0) 0 0"
  have run: "fst (atom_run ARM64 two_adds ?s) = [Called_by 0 (CallAdd 1), Called_by 1 (CallAdd 1), Point_of 1, Point_of 0,
      Returned 0 1, Returned 1 0]" "cell (snd (atom_run ARM64 two_adds ?s)) = 2"
    by (simp_all add: two_adds_def atomic_codes)
  have "load (\<lambda>_. 0) a n = (0 :: u32)" for a n by (induction n) simp_all
  then have c: "read32 (mem ?k) 0x9000 = cell ?s" by (simp add: read32_def reset_state_def)
  have i: "\<forall>i. running ?s i = None" and a: "arch ?k = ARM64" by (simp_all add: reset_state_def)
  from atomics_linearizable [OF i c, of two_adds] show ?thesis unfolding a run .
qed

end
