(* ===== verification/Spec2Isabelle.thy ===== *)
theory Spec2Isabelle
  imports MM Cap RvPaging A64Paging Boot Format Atomics
begin

text \<open>
  \<^bold>\<open>Vectra\<close> is a small kernel in C for the QEMU machines \<^verbatim>\<open>virt\<close> of ARM64 and RISC-V and for a
  board of ARM64. This development models its C code and proves what makes its parts correct, each
  alone and in the order in which the kernel starts them.

  \<^bold>\<open>The program.\<close> \<^verbatim>\<open>boot_main\<close> (\<^verbatim>\<open>arch/*/bootstrap.c\<close>) switches on exceptions and the timer,
  fills in a \<^verbatim>\<open>boot_info_t\<close> and calls \<^verbatim>\<open>kernel_main\<close> (\<^verbatim>\<open>base/kernel.c\<close>). That starts the memory
  manager (\<^verbatim>\<open>base/mm\<close>): a bump allocator over the boot heap, which holds the bitmap of the frame
  allocator, on which the slab allocator stands, on which the kernel heap stands. Then come the
  page tables (\<^verbatim>\<open>arch/riscv/paging.c\<close>; on ARM64, \<^verbatim>\<open>arch/arm64/paging.c\<close> serves address
  spaces), a wait for the timer, the object manager and its self-test (\<^verbatim>\<open>base/ob\<close>), and the
  first user process (\<^verbatim>\<open>arch/riscv/user.c\<close>). All parts print through \<^verbatim>\<open>libkern/klog.c\<close> and the
  UART drivers (\<^verbatim>\<open>platform/*/uart.c\<close>), and lock with \<^verbatim>\<open>include/sync\<close>.

  \<^bold>\<open>The model.\<close> A C function is a HOL function of its arguments and the kernel's state
  (\<open>kstate\<close> in \<open>Machine\<close>), with its source name; where the two architectures have functions of
  one name, a prefix \<open>a64_\<close> or \<open>rv_\<close> tells them apart. The state has the memory, bytes by
  64-bit address, one field per file-scope variable, the system registers, the characters sent to
  the UART, and the history of device accesses and firmware calls. Data that the code reaches through
  pointers lies in memory; offsets of members are definitions (\<open>slab_head\<close>, \<open>obj_refcount\<close>,
  \<open>entry_rights\<close>). Integers have their C width (\<open>u8\<close> to \<open>u64\<close> are words) and wrap. A
  function that can stop has a value of type \<open>outcome\<close>: \<open>Ret\<close> a result and a state, \<open>Halt\<close>
  for a panic or a halted CPU, \<open>Spin\<close> for a loop that cannot end; \<open>andThen\<close> is the semicolon.
  Loops are structural or have a measure. The loops that need not end are
  \<open>partial_function (option)\<close>, with \<open>None\<close> for a run that does not end: the chains of the hash
  table, the wait for the UART of the board, the wait for the timer. Where a theorem is about such
  a loop it also states that it ends, or that it does not. No definition has fuel.

  \<^bold>\<open>What is outside\<close> is an argument: the answers of device registers (\<open>device\<close>) and of the
  firmware (\<open>firmware\<close>) as functions of the history, interrupts that arrive during a wait (\<open>world\<close>,
  instances \<open>rv_world\<close> and \<open>a64_world\<close> call the modelled handlers), calls through function
  pointers (\<open>ob_calls\<close>, \<open>irq_calls\<close>, with contracts where a theorem needs them), addresses of
  the linker script (\<open>link_symbols\<close>), the entry into user mode.

  \<^bold>\<open>The theories.\<close>
  \<^item> \<open>Prelude\<close>: words, regions of addresses, little-endian loads and stores, \<open>outcome\<close>, counted loops.
  \<^item> \<open>Machine\<close>: \<open>kstate\<close> and the records of \<^verbatim>\<open>include/\<close> (\<^verbatim>\<open>boot_info_t\<close>, \<^verbatim>\<open>hashtable_t\<close>,
    \<^verbatim>\<open>object_type_t\<close>, \<^verbatim>\<open>object_manager_t\<close>), \<open>reset_state\<close> for examples.
  \<^item> \<open>Klog\<close>: \<^verbatim>\<open>libkern/klog.c\<close> and the UART of the virtual machines. \<open>Format\<close>: what it prints, as
    digits of numbers, pieces and argument types of a format; buffer bounds.
  \<^item> \<open>Sync\<close>: atomics and spinlock, as functions and as a machine of interleaved steps (\<open>lock_step\<close>)
    with its invariant, mutual exclusion and progress. \<open>Atomics\<close>: the inline assembly of
    \<^verbatim>\<open>a64lock.hpp\<close> and \<^verbatim>\<open>rvlock.hpp\<close> by instruction, on many CPUs with exclusive marks; a simulation shows
    that each function acts as one step, its definition in \<open>Sync\<close>.
  \<^item> \<open>KString\<close>: \<^verbatim>\<open>libkern/string.c\<close>; copies, fills, comparison, length, overlap and wrap-around.
  \<^item> \<open>BootAlloc\<close>: \<^verbatim>\<open>base/mm/bootalloc.c\<close>; blocks in order, and when it panics.
  \<^item> \<open>PhysFrame\<close>: \<^verbatim>\<open>base/mm/physframe.c\<close>. Invariant \<open>pmm_inv\<close> (the counter is ahead of the
    free bits by a constant), abstraction \<open>free_set\<close> and \<open>avail_frames\<close>, the next-fit choice
    \<open>next_fit\<close>; locale \<open>frame_provider\<close>, interpreted on the allocator.
  \<^item> \<open>Slab\<close>: \<^verbatim>\<open>base/mm/slab.c\<close>. \<open>slab_rep\<close> reads the lists of pages and free objects off the memory,
    \<open>slab_inv\<close> adds their separation from everything the frame allocator owns; locale
    \<open>object_allocator\<close> with runs of clients, interpreted on \<^verbatim>\<open>slab_alloc\<close> and \<^verbatim>\<open>slab_free\<close>.
  \<^item> \<open>KHeap\<close>: \<^verbatim>\<open>base/mm/kheap.c\<close>; \<open>heap_inv\<close> over eight caches, large blocks as runs of frames.
  \<^item> \<open>MM\<close>: \<^verbatim>\<open>base/mm/mm.c\<close>; the start of all of these from a boot description.
  \<^item> \<open>Hash\<close>: \<^verbatim>\<open>libkern/hash.c\<close>; chains of slab objects, abstraction \<open>hash_abs\<close> to stacks of values per
    key; locale \<open>key_table\<close>, interpreted on the table.
  \<^item> \<open>Ob\<close>: \<^verbatim>\<open>base/ob/ob.c\<close>; the life of an object from creation to destruction, the table of ids.
  \<^item> \<open>Cap\<close>: \<^verbatim>\<open>base/ob/cap.c\<close> and \<^verbatim>\<open>object_test\<close>; a table as a partial map from handles
    (\<open>cap_view\<close>), exact handle counts over every run (\<open>cap_inv\<close>, \<open>cap_run\<close>).
    \<open>ObTest\<close>: the run of \<^verbatim>\<open>object_test\<close> on a started manager, in which every check passes.
  \<^item> \<open>PageTree\<close>: a tree of page tables in memory, for any number of levels and format of entries;
    locale \<open>page_format\<close> with the steps that grow a tree and set a leaf.
  \<^item> \<open>RvPaging\<close>, \<open>A64Paging\<close>: \<^verbatim>\<open>arch/riscv/paging.c\<close> and \<^verbatim>\<open>arch/arm64/paging.c\<close>; both interpret
    \<open>page_format\<close>, so a map call is a step on the tree. Identity map of the kernel; address spaces
    and their identifiers from creation to destruction.
  \<^item> \<open>Cpu\<close>: \<^verbatim>\<open>arch/*/cpu.c\<close>, \<^verbatim>\<open>opensbi.c\<close>, \<^verbatim>\<open>regswrp.c\<close>, \<^verbatim>\<open>libkern/framework.c\<close>, \<^verbatim>\<open>platform/opi/uart.c\<close>.
  \<^item> \<open>Gic\<close>, \<open>Timer\<close>, \<open>Trap\<close>: \<^verbatim>\<open>platform/virt/gic.c\<close>, \<^verbatim>\<open>arch/*/timer.c\<close>, \<^verbatim>\<open>arch/*/interrupts.c\<close>;
    what a trap handler decides, when a wait ends.
  \<^item> \<open>Boot\<close>: \<^verbatim>\<open>arch/*/bootstrap.c\<close>, \<^verbatim>\<open>base/kernel.c\<close>, \<^verbatim>\<open>arch/riscv/user.c\<close>; the start of a RISC-V
    machine, from the entry of the first hart to the call of \<^verbatim>\<open>create_user_process\<close>,
    and of an ARM64 machine, to the wait that nothing ends.

  \<^bold>\<open>Composition.\<close> Each layer states its frame: which memory it may change (its own objects, the
  bitmap, frames that were free), which state it keeps, and that the free frames stay the frames
  behind some index (\<open>tail_kept\<close>), so that the run of frames the next layer asks for exists, and
  keep their contents. The invariant of a layer is stable under the frame of the others. Put together,
  \<open>rv_boot_passes_self_test\<close> runs all of it: \<open>rv_power_on\<close> states what the loader must have left
  (zeroed memory behind the boot heap among it: \<^verbatim>\<open>object_create\<close> does not initialise \<^verbatim>\<open>destroyed\<close>), and
  the kernel then reaches user mode with its self-test passed. The user process itself, which maps
  pages through an array on the stack that nobody has cleared, is a parameter there.
  On ARM64 \<open>a64_boot_never_leaves_wait\<close> goes as far as the code does: \<^verbatim>\<open>boot_main\<close> sets up no timer and
  no interrupt handler, \<^verbatim>\<open>mm_init\<close> leaves the array of handlers alone, so the wait has no end.

  \<^bold>\<open>Bounds.\<close> Hypotheses name them: descriptions of memory that do not wrap, Sv39 addresses
  below 512 GiB, enough free frames for tables, counts of ticks that do not wrap. Witnesses apply
  each theorem at a concrete machine, mostly the 128 MiB of the QEMU machines.

  \<^bold>\<open>Not modelled.\<close> The assembly files (entry code, saving of registers, \<^verbatim>\<open>enter_usermode\<close>); barriers
  and \<^verbatim>\<open>fence\<close>, \<^verbatim>\<open>sfence.vma\<close>, \<^verbatim>\<open>isb\<close>, \<^verbatim>\<open>dsb\<close>, which change no state of the model (the barrier
  functions \<^verbatim>\<open>wfi\<close>, \<^verbatim>\<open>dsbsy\<close>, \<^verbatim>\<open>dmbsy\<close> have no definition); the weak ordering of memory, where
  \<open>Atomics\<close> interleaves instructions and \<open>lock_step\<close> whole atomics; interrupts that arrive outside of a wait; other
  CPUs outside of \<open>Sync\<close> and \<open>Atomics\<close>, since the kernel starts none. Undefined behaviour of C is not excluded: a
  read of an argument that was not passed gives 0, an array index out of bounds has no meaning.
  \<^verbatim>\<open>base/sync/spinlock.c\<close> and the declarations of headers hold no code.
\<close>

end
